(* ===== verification/Kernel_Prelude.thy ===== *)
theory Kernel_Prelude
  imports Main "HOL-Library.Word"
begin

text \<open>
  Shared material of the development: the C integer types of \<^verbatim>\<open>include/types.h\<close> and
  \<^verbatim>\<open>include/mm_defs.h\<close> as words, the constants of the physical memory layout, the loop
  that computes the order of a request, and the lemmas on words, powers of two,
  intervals and lists that the component proofs rest on.
\<close>

unbundle bit_operations_syntax

named_theorems layout_simps "numeral values of the address layout constants"

section \<open>C types\<close>

type_synonym u8 = "8 word"
type_synonym u16 = "16 word"
type_synonym u32 = "32 word"
type_synonym u64 = "64 word"
type_synonym phys_addr_t = "64 word"
type_synonym uintptr_t = "64 word"
type_synonym gfp_t = "32 word"

section \<open>Layout constants\<close>

definition PAGE_SHIFT :: nat where [layout_simps]: "PAGE_SHIFT = 12"
definition PAGE_SIZE :: u64 where [layout_simps]: "PAGE_SIZE = 4096"
definition PAGE_MASK :: u64 where "PAGE_MASK = NOT (PAGE_SIZE - 1)"
definition PHYS_MEM_START :: u64 where [layout_simps]: "PHYS_MEM_START = 0x40000000"
definition PHYS_MEM_END :: u64 where [layout_simps]: "PHYS_MEM_END = 0x4FFFFFFF"
definition BUDDY_MEM_END :: u64 where [layout_simps]: "BUDDY_MEM_END = 0x4FFFFFFF"
definition PHYS_MEM_SIZE :: u64 where "PHYS_MEM_SIZE = PHYS_MEM_END - PHYS_MEM_START + 1"
definition TOTAL_PAGES :: nat where "TOTAL_PAGES = unat (drop_bit PAGE_SHIFT PHYS_MEM_SIZE)"

definition GFP_KERNEL :: gfp_t where "GFP_KERNEL = 1"
definition GFP_ATOMIC :: gfp_t where "GFP_ATOMIC = 2"
definition GFP_DMA :: gfp_t where "GFP_DMA = 4"

lemma PHYS_MEM_SIZE_val [layout_simps]: "PHYS_MEM_SIZE = 0x10000000"
  by (simp add: PHYS_MEM_SIZE_def PHYS_MEM_START_def PHYS_MEM_END_def)

lemma TOTAL_PAGES_val [layout_simps]: "TOTAL_PAGES = 65536"
  by (simp add: TOTAL_PAGES_def layout_simps unat_drop_bit_eq drop_bit_eq_div)

lemma PAGE_MASK_val: "PAGE_MASK = NOT (mask 12)"
  by (simp add: PAGE_MASK_def PAGE_SIZE_def mask_eq_decr_exp)

section \<open>Words\<close>

lemma word_and_not_mask_eq: "w AND NOT (mask n) = w - take_bit n (w :: 'a::len word)"
proof -
  have "(w AND NOT (mask n)) + (w AND mask n) = (w AND NOT (mask n)) OR (w AND mask n)"
    by (rule disjunctive_add) (auto simp: bit_simps)
  also have "\<dots> = w" by (rule bit_word_eqI) (auto simp: bit_simps)
  finally show ?thesis by (simp add: take_bit_eq_mask eq_diff_eq)
qed

lemma unat_take_bit_mod: "unat (take_bit n w) = unat (w :: 'a::len word) mod 2 ^ n"
  by (metis unsigned_take_bit_eq take_bit_eq_mod)

lemma unat_and_not_mask:
  "unat (w AND NOT (mask n)) = unat (w :: 'a::len word) - unat w mod 2 ^ n"
proof -
  have "take_bit n w \<le> w" by (simp add: word_le_nat_alt unat_take_bit_mod)
  then show ?thesis by (simp add: word_and_not_mask_eq unat_sub unat_take_bit_mod)
qed

lemma unat_push_bit_noov:
  "unat (w :: 'a::len word) * 2 ^ n < 2 ^ LENGTH('a) \<Longrightarrow> unat (push_bit n w) = unat w * 2 ^ n"
  by (metis push_bit_eq_mult take_bit_nat_eq_self unsigned_push_bit_eq)

lemma unat_drop_bit_div: "unat (drop_bit n w) = unat (w :: 'a::len word) div 2 ^ n"
  by (metis drop_bit_eq_div unat_drop_bit_eq)

lemma unat_offset:
  fixes p :: u64
  assumes "unat p + n \<le> 2 ^ 64"
  shows "unat (a - p) < n \<longleftrightarrow> unat p \<le> unat a \<and> unat a < unat p + n"
proof (cases "p \<le> a")
  case True
  then have "unat (a - p) = unat a - unat p" by (simp add: unat_sub)
  then show ?thesis using True by (auto simp: word_le_nat_alt)
next
  case False
  then have "unat (a - p) = 2 ^ 64 + unat a - unat p"
    by (simp add: unat_sub_if' word_le_nat_alt)
  then show ?thesis using False assms by (auto simp: word_le_nat_alt)
qed

lemma unat_add_noov:
  "unat (a :: 'a::len word) + unat b < 2 ^ LENGTH('a) \<Longrightarrow> unat (a + b) = unat a + unat b"
  by (simp add: unat_add_lem [THEN iffD1])

lemma unat_of_nat_noov: "n < 2 ^ LENGTH('a) \<Longrightarrow> unat (of_nat n :: 'a::len word) = n"
  by (simp add: unat_of_nat take_bit_nat_eq_self)

section \<open>Powers of two\<close>

text \<open>
  The bit trick behind \<^verbatim>\<open>buddy_pfn\<close>: flipping bit \<open>k\<close> of a multiple of \<open>2 ^ k\<close> moves
  to the other half of the enclosing block of size \<open>2 ^ (k + 1)\<close>.
\<close>

lemma xor_exp_nat:
  fixes p :: nat
  assumes "2 ^ k dvd p"
  shows "p XOR 2 ^ k = (if 2 ^ Suc k dvd p then p + 2 ^ k else p - 2 ^ k)"
proof -
  from assms obtain q where q: "p = 2 ^ k * q" by blast
  have "p XOR 2 ^ k = push_bit k q XOR push_bit k 1"
    by (simp add: q push_bit_eq_mult mult.commute)
  also have "\<dots> = push_bit k (q XOR 1)"
    by (simp only: push_bit_xor)
  also have "\<dots> = 2 ^ k * (q + of_bool (even q) - of_bool (odd q))"
    by (simp only: xor_one_eq push_bit_eq_mult mult.commute)
  also have "\<dots> = (if even q then p + 2 ^ k else p - 2 ^ k)"
    by (auto simp: q algebra_simps)
  also have "even q \<longleftrightarrow> 2 ^ Suc k dvd p" by (simp add: q)
  finally show ?thesis .
qed

text \<open>The loops \<^verbatim>\<open>while ((1UL << order) < pages) order++\<close> compute the least such order.\<close>

function order_loop :: "nat \<Rightarrow> nat \<Rightarrow> nat" where
  "order_loop pages order = (if 2 ^ order < pages then order_loop pages (Suc order) else order)"
  by pat_completeness auto
termination
proof (relation "measure (\<lambda>(pages, order). pages - order)", goal_cases)
  case (2 pages order)
  have "order < 2 ^ order" by simp
  also have "\<dots> < pages" using 2 by simp
  finally show ?case by simp
qed simp

declare order_loop.simps [simp del]

lemma order_loop_ge: "pages \<le> 2 ^ order_loop pages order"
proof (induction pages order rule: order_loop.induct)
  case (1 pages order)
  then show ?case by (cases "2 ^ order < pages") (simp_all add: order_loop.simps [of pages order])
qed

lemma order_loop_least: "pages \<le> 2 ^ k \<Longrightarrow> order \<le> k \<Longrightarrow> order_loop pages order \<le> k"
proof (induction pages order rule: order_loop.induct)
  case (1 pages order)
  show ?case
  proof (cases "2 ^ order < pages")
    case True
    from True 1(2) have "(2::nat) ^ order < 2 ^ k" by (rule less_le_trans)
    then have "Suc order \<le> k" by simp
    with True 1 show ?thesis by (simp add: order_loop.simps [of pages order])
  next
    case False
    with 1 show ?thesis by (simp add: order_loop.simps [of pages order])
  qed
qed

end
