(* ===== verification/Linked_List.thy ===== *)
theory Linked_List
  imports Kernel_Prelude
begin

text \<open>
  The intrusive circular doubly linked list of \<^verbatim>\<open>include/ds/list.h\<close>. A \<^verbatim>\<open>struct list_head\<close>
  is a pair of pointers; the heap of all list heads is a record of two functions from the
  address of a list head to the address it points to. The operations are the pointer writes of
  the header, in its order. \<open>dlist h lh xs\<close> says that the nodes \<open>xs\<close> hang, in this order and
  without repetition, off the list head \<open>lh\<close>. The locale \<open>intrusive_list\<close> is the
  contract the memory allocators rely on; it is interpreted on the pointer operations.
\<close>

section \<open>The pointer operations\<close>

record 'a list_heap =
  next_of :: "'a \<Rightarrow> 'a"
  prev_of :: "'a \<Rightarrow> 'a"

definition set_next :: "'a \<Rightarrow> 'a \<Rightarrow> 'a list_heap \<Rightarrow> 'a list_heap" where
  "set_next p v h = h\<lparr>next_of := (next_of h)(p := v)\<rparr>"

definition set_prev :: "'a \<Rightarrow> 'a \<Rightarrow> 'a list_heap \<Rightarrow> 'a list_heap" where
  "set_prev p v h = h\<lparr>prev_of := (prev_of h)(p := v)\<rparr>"

definition INIT_LIST_HEAD :: "'a \<Rightarrow> 'a list_heap \<Rightarrow> 'a list_heap" where
  "INIT_LIST_HEAD l h = set_prev l l (set_next l l h)"

definition list_empty :: "'a \<Rightarrow> 'a list_heap \<Rightarrow> bool" where
  "list_empty lh h \<longleftrightarrow> next_of h lh = lh"

definition list_add_between :: "'a \<Rightarrow> 'a \<Rightarrow> 'a \<Rightarrow> 'a list_heap \<Rightarrow> 'a list_heap" where
  "list_add_between node prv nxt h =
     set_next prv node (set_prev node prv (set_next node nxt (set_prev nxt node h)))"

definition list_add :: "'a \<Rightarrow> 'a \<Rightarrow> 'a list_heap \<Rightarrow> 'a list_heap" where
  "list_add node lh h = list_add_between node lh (next_of h lh) h"

definition list_add_tail :: "'a \<Rightarrow> 'a \<Rightarrow> 'a list_heap \<Rightarrow> 'a list_heap" where
  "list_add_tail node lh h = list_add_between node (prev_of h lh) lh h"

definition list_del_between :: "'a \<Rightarrow> 'a \<Rightarrow> 'a list_heap \<Rightarrow> 'a list_heap" where
  "list_del_between prv nxt h = set_next prv nxt (set_prev nxt prv h)"

definition list_del :: "'a \<Rightarrow> 'a list_heap \<Rightarrow> 'a list_heap" where
  "list_del entry h =
     set_prev entry entry (set_next entry entry
       (list_del_between (prev_of h entry) (next_of h entry) h))"

text \<open>
  The traversal \<^verbatim>\<open>for (pos = head->next; pos != head; pos = pos->next)\<close> of
  \<^verbatim>\<open>list_for_each\<close>: the nodes it visits, with fuel, since the loop does not end on a heap
  that is not a circular list.
\<close>

fun list_walk :: "nat \<Rightarrow> 'a list_heap \<Rightarrow> 'a \<Rightarrow> 'a \<Rightarrow> 'a list option" where
  "list_walk 0 h pos lh = None"
| "list_walk (Suc fuel) h pos lh =
     (if pos = lh then Some []
      else map_option (Cons pos) (list_walk fuel h (next_of h pos) lh))"

definition list_for_each :: "nat \<Rightarrow> 'a list_heap \<Rightarrow> 'a \<Rightarrow> 'a list option" where
  "list_for_each fuel h lh = list_walk fuel h (next_of h lh) lh"

text \<open>
  \<^verbatim>\<open>list_for_each_entry\<close> with a body that may \<^verbatim>\<open>break\<close>: the body maps the node and the local
  state to the new local state and whether to break; the result is the final position (the list
  head when the loop ran to its end) and the local state. \<open>None\<close> is a loop that does not end.
\<close>

partial_function (option) list_loop ::
  "'a list_heap \<Rightarrow> 'a \<Rightarrow> ('a \<Rightarrow> 'b \<Rightarrow> 'b \<times> bool) \<Rightarrow> 'a \<Rightarrow> 'b \<Rightarrow> ('a \<times> 'b) option" where
  "list_loop h lh body pos acc =
     (if pos = lh then Some (pos, acc)
      else if snd (body pos acc) then Some (pos, fst (body pos acc))
      else list_loop h lh body (next_of h pos) (fst (body pos acc)))"

definition list_for_each_entry ::
  "'a list_heap \<Rightarrow> 'a \<Rightarrow> ('a \<Rightarrow> 'b \<Rightarrow> 'b \<times> bool) \<Rightarrow> 'b \<Rightarrow> ('a \<times> 'b) option" where
  "list_for_each_entry h lh body acc = list_loop h lh body (next_of h lh) acc"

fun loop_spec :: "'a \<Rightarrow> ('a \<Rightarrow> 'b \<Rightarrow> 'b \<times> bool) \<Rightarrow> 'a list \<Rightarrow> 'b \<Rightarrow> 'a \<times> 'b" where
  "loop_spec lh body [] acc = (lh, acc)"
| "loop_spec lh body (x # xs) acc =
     (if snd (body x acc) then (x, fst (body x acc)) else loop_spec lh body xs (fst (body x acc)))"

lemmas list_ops_defs = set_next_def set_prev_def INIT_LIST_HEAD_def list_add_between_def
  list_add_def list_add_tail_def list_del_between_def list_del_def

section \<open>Abstraction to lists\<close>

fun chain :: "'a list_heap \<Rightarrow> 'a \<Rightarrow> 'a list \<Rightarrow> 'a \<Rightarrow> bool" where
  "chain h a [] b \<longleftrightarrow> next_of h a = b \<and> prev_of h b = a"
| "chain h a (x # xs) b \<longleftrightarrow> next_of h a = x \<and> prev_of h x = a \<and> chain h x xs b"

definition dlist :: "'a list_heap \<Rightarrow> 'a \<Rightarrow> 'a list \<Rightarrow> bool" where
  "dlist h lh xs \<longleftrightarrow> distinct (lh # xs) \<and> chain h lh xs lh"

lemma chain_append [simp]: "chain h a (xs @ y # ys) b \<longleftrightarrow> chain h a xs y \<and> chain h y ys b"
  by (induction xs arbitrary: a) auto

lemma chain_frame:
  "\<lbrakk>\<forall>x \<in> insert a (set xs). next_of h' x = next_of h x;
    \<forall>x \<in> insert b (set xs). prev_of h' x = prev_of h x\<rbrakk> \<Longrightarrow> chain h' a xs b = chain h a xs b"
  by (induction xs arbitrary: a) auto

lemma chain_prev_last: "chain h a xs b \<Longrightarrow> prev_of h b = last (a # xs)"
  by (induction xs arbitrary: a) auto

lemma chain_next_first: "chain h a xs b \<Longrightarrow> next_of h a = (case xs of [] \<Rightarrow> b | x # _ \<Rightarrow> x)"
  by (cases xs) auto

lemma dlist_frame:
  assumes "dlist h lh xs"
    and "\<forall>x \<in> set (lh # xs). next_of h' x = next_of h x \<and> prev_of h' x = prev_of h x"
  shows "dlist h' lh xs"
  using assms by (auto simp: dlist_def chain_frame [of lh xs h' h])

lemma dlist_INIT: "dlist (INIT_LIST_HEAD lh h) lh []"
  by (simp add: dlist_def list_ops_defs)

lemma dlist_empty: "dlist h lh xs \<Longrightarrow> list_empty lh h \<longleftrightarrow> xs = []"
  by (cases xs) (auto simp: dlist_def list_empty_def)

lemma dlist_first: "dlist h lh (x # xs) \<Longrightarrow> next_of h lh = x"
  by (simp add: dlist_def)

lemma dlist_distinct: "dlist h lh xs \<Longrightarrow> distinct xs \<and> lh \<notin> set xs"
  by (simp add: dlist_def)

lemma dlist_add:
  assumes "dlist h lh xs" and "n \<notin> set (lh # xs)"
  shows "dlist (list_add n lh h) lh (n # xs)"
proof (cases xs)
  case Nil
  with assms show ?thesis by (auto simp: dlist_def list_ops_defs)
next
  case (Cons y ys)
  let ?h = "list_add n lh h"
  have "chain ?h y ys lh = chain h y ys lh"
    using assms Cons by (intro chain_frame) (auto simp: dlist_def list_ops_defs)
  with assms Cons show ?thesis by (auto simp: dlist_def list_ops_defs)
qed

lemma dlist_add_tail:
  assumes "dlist h lh xs" and "n \<notin> set (lh # xs)"
  shows "dlist (list_add_tail n lh h) lh (xs @ [n])"
proof (cases xs rule: rev_cases)
  case Nil
  with assms show ?thesis by (auto simp: dlist_def list_ops_defs)
next
  case (snoc ys y)
  let ?h = "list_add_tail n lh h"
  have "chain ?h lh ys y = chain h lh ys y"
    using assms snoc by (intro chain_frame) (auto simp: dlist_def list_ops_defs)
  with assms snoc show ?thesis by (auto simp: dlist_def list_ops_defs)
qed

lemma chain_del:
  assumes "chain h a (xs @ e # ys) b" and "distinct (xs @ e # ys)"
    and "a \<notin> set (xs @ e # ys)" and "b \<notin> set (xs @ e # ys)"
  shows "chain (list_del e h) a (xs @ ys) b"
proof -
  let ?h = "list_del e h"
  have p: "prev_of h e = last (a # xs)"
    using assms(1) chain_prev_last [of h a xs e] by simp
  have n: "next_of h e = (case ys of [] \<Rightarrow> b | y # _ \<Rightarrow> y)"
    using assms(1) chain_next_first [of h e ys b] by simp
  show ?thesis
  proof (cases xs rule: rev_cases)
    case Nil
    show ?thesis
    proof (cases ys)
      case (Cons y zs)
      have "chain ?h y zs b = chain h y zs b"
        using assms p n Nil Cons by (intro chain_frame) (auto simp: list_ops_defs)
      with assms p n Nil Cons show ?thesis by (auto simp: list_ops_defs)
    qed (use assms p n Nil in \<open>auto simp: list_ops_defs\<close>)
  next
    case (snoc us u)
    have cu: "chain ?h a us u = chain h a us u"
      using assms p n snoc by (intro chain_frame) (auto simp: list_ops_defs split: list.splits)
    show ?thesis
    proof (cases ys)
      case Nil
      with assms p n snoc cu show ?thesis by (auto simp: list_ops_defs)
    next
      case (Cons y zs)
      have "chain ?h y zs b = chain h y zs b"
        using assms p n snoc Cons by (intro chain_frame) (auto simp: list_ops_defs)
      with assms p n snoc Cons cu show ?thesis by (auto simp: list_ops_defs)
    qed
  qed
qed

lemma dlist_del: "dlist h lh (xs @ e # ys) \<Longrightarrow> dlist (list_del e h) lh (xs @ ys)"
  by (auto simp: dlist_def intro!: chain_del simp del: chain_append)

lemma dlist_del_self: "dlist (list_del e h) e []"
  by (simp add: dlist_def list_ops_defs)

text \<open>Which list heads an operation writes: the frame of every other list.\<close>

lemma prev_in_list: "dlist h lh xs \<Longrightarrow> x \<in> set (lh # xs) \<Longrightarrow> prev_of h x \<in> set (lh # xs)"
proof -
  assume d: "dlist h lh xs" and "x \<in> set (lh # xs)"
  then consider "x = lh" | us vs where "xs = us @ x # vs" by (auto dest: split_list)
  then show ?thesis
  proof cases
    case 1
    with d show ?thesis by (auto simp: dlist_def dest!: chain_prev_last)
  next
    case 2
    with d have "prev_of h x = last (lh # us)" by (auto simp: dlist_def dest: chain_prev_last)
    with 2 show ?thesis by (auto split: if_splits)
  qed
qed

lemma next_in_list: "dlist h lh xs \<Longrightarrow> x \<in> set (lh # xs) \<Longrightarrow> next_of h x \<in> set (lh # xs)"
proof -
  assume d: "dlist h lh xs" and "x \<in> set (lh # xs)"
  then consider "x = lh" | us vs where "xs = us @ x # vs" by (auto dest: split_list)
  then show ?thesis
    using d by cases (auto simp: dlist_def dest!: chain_next_first split: list.splits)
qed

lemma list_add_tail_writes:
  "x \<notin> {n, lh, prev_of h lh} \<Longrightarrow>
     next_of (list_add_tail n lh h) x = next_of h x \<and> prev_of (list_add_tail n lh h) x = prev_of h x"
  by (auto simp: list_ops_defs)

lemma list_add_writes:
  "x \<notin> {n, lh, next_of h lh} \<Longrightarrow>
     next_of (list_add n lh h) x = next_of h x \<and> prev_of (list_add n lh h) x = prev_of h x"
  by (auto simp: list_ops_defs)

lemma list_del_writes:
  "x \<notin> {e, prev_of h e, next_of h e} \<Longrightarrow>
     next_of (list_del e h) x = next_of h x \<and> prev_of (list_del e h) x = prev_of h x"
  by (auto simp: list_ops_defs)

lemma dlist_add_tail_frame:
  assumes "dlist h lh xs" and "dlist h l ys" and "n \<notin> set (l # ys)"
    and "set (lh # xs) \<inter> set (l # ys) = {}"
  shows "dlist (list_add_tail n lh h) l ys"
proof (rule dlist_frame [OF assms(2)], rule ballI)
  fix x assume "x \<in> set (l # ys)"
  moreover have "prev_of h lh \<in> set (lh # xs)" using prev_in_list [OF assms(1), of lh] by simp
  ultimately have "x \<notin> {n, lh, prev_of h lh}" using assms(3,4) by auto
  then show "next_of (list_add_tail n lh h) x = next_of h x \<and>
      prev_of (list_add_tail n lh h) x = prev_of h x" by (rule list_add_tail_writes)
qed

lemma dlist_add_frame:
  assumes "dlist h lh xs" and "dlist h l ys" and "n \<notin> set (l # ys)"
    and "set (lh # xs) \<inter> set (l # ys) = {}"
  shows "dlist (list_add n lh h) l ys"
proof (rule dlist_frame [OF assms(2)], rule ballI)
  fix x assume "x \<in> set (l # ys)"
  moreover have "next_of h lh \<in> set (lh # xs)" using next_in_list [OF assms(1), of lh] by simp
  ultimately have "x \<notin> {n, lh, next_of h lh}" using assms(3,4) by auto
  then show "next_of (list_add n lh h) x = next_of h x \<and>
      prev_of (list_add n lh h) x = prev_of h x" by (rule list_add_writes)
qed

lemma dlist_del_frame:
  assumes "dlist h lh xs" and "dlist h l ys" and "e \<in> set xs"
    and "set (lh # xs) \<inter> set (l # ys) = {}"
  shows "dlist (list_del e h) l ys"
proof (rule dlist_frame [OF assms(2)], rule ballI)
  fix x assume "x \<in> set (l # ys)"
  moreover have "prev_of h e \<in> set (lh # xs)" "next_of h e \<in> set (lh # xs)"
    using assms(3) prev_in_list [OF assms(1), of e] next_in_list [OF assms(1), of e] by simp_all
  ultimately have "x \<notin> {e, prev_of h e, next_of h e}" using assms(3,4) by auto
  then show "next_of (list_del e h) x = next_of h x \<and>
      prev_of (list_del e h) x = prev_of h x" by (rule list_del_writes)
qed

lemma dlist_INIT_frame: "dlist h l ys \<Longrightarrow> lh \<notin> set (l # ys) \<Longrightarrow> dlist (INIT_LIST_HEAD lh h) l ys"
  by (erule dlist_frame) (auto simp: list_ops_defs)

lemma list_walk_chain:
  "chain h a xs lh \<Longrightarrow> lh \<notin> set xs \<Longrightarrow> length xs < fuel \<Longrightarrow>
     list_walk fuel h (next_of h a) lh = Some xs"
proof (induction xs arbitrary: a fuel)
  case Nil
  then show ?case by (cases fuel) auto
next
  case (Cons x xs)
  then show ?case by (cases fuel) auto
qed

text \<open>\<^verbatim>\<open>list_for_each\<close> ends on every circular list and visits its nodes in order.\<close>

lemma list_for_each_dlist:
  "dlist h lh xs \<Longrightarrow> length xs < fuel \<Longrightarrow> list_for_each fuel h lh = Some xs"
  by (simp add: dlist_def list_for_each_def list_walk_chain)

lemma list_loop_chain:
  "chain h a xs lh \<Longrightarrow> lh \<notin> set xs \<Longrightarrow> list_loop h lh body (next_of h a) acc = Some (loop_spec lh body xs acc)"
proof (induction xs arbitrary: a acc)
  case Nil
  then show ?case by (subst list_loop.simps) simp
next
  case (Cons x xs)
  then show ?case by (subst list_loop.simps) auto
qed

lemma list_for_each_entry_dlist:
  "dlist h lh xs \<Longrightarrow> list_for_each_entry h lh body acc = Some (loop_spec lh body xs acc)"
  by (simp add: dlist_def list_for_each_entry_def list_loop_chain)

section \<open>The contract of the list, and families of disjoint lists\<close>

locale intrusive_list =
  fixes rep :: "'h \<Rightarrow> 'a \<Rightarrow> 'a list \<Rightarrow> bool"
    and init :: "'a \<Rightarrow> 'h \<Rightarrow> 'h"
    and is_empty :: "'a \<Rightarrow> 'h \<Rightarrow> bool"
    and first :: "'h \<Rightarrow> 'a \<Rightarrow> 'a"
    and add_tail :: "'a \<Rightarrow> 'a \<Rightarrow> 'h \<Rightarrow> 'h"
    and del :: "'a \<Rightarrow> 'h \<Rightarrow> 'h"
  assumes rep_init: "rep (init l h) l []"
    and rep_empty: "rep h l xs \<Longrightarrow> is_empty l h \<longleftrightarrow> xs = []"
    and rep_first: "rep h l (x # xs) \<Longrightarrow> first h l = x"
    and rep_distinct: "rep h l xs \<Longrightarrow> distinct (l # xs)"
    and rep_add_tail: "rep h l xs \<Longrightarrow> n \<notin> set (l # xs) \<Longrightarrow> rep (add_tail n l h) l (xs @ [n])"
    and rep_del: "rep h l (xs @ e # ys) \<Longrightarrow> rep (del e h) l (xs @ ys)"
    and frame_init: "rep h l ys \<Longrightarrow> l' \<notin> set (l # ys) \<Longrightarrow> rep (init l' h) l ys"
    and frame_add_tail: "rep h l' xs \<Longrightarrow> rep h l ys \<Longrightarrow> n \<notin> set (l # ys) \<Longrightarrow>
      set (l' # xs) \<inter> set (l # ys) = {} \<Longrightarrow> rep (add_tail n l' h) l ys"
    and frame_del: "rep h l' xs \<Longrightarrow> rep h l ys \<Longrightarrow> e \<in> set xs \<Longrightarrow>
      set (l' # xs) \<inter> set (l # ys) = {} \<Longrightarrow> rep (del e h) l ys"

text \<open>
  A client keeps several lists at once, one per index: \<open>family\<close> says that each head carries
  its list and that no list head occurs twice.
\<close>

definition family ::
  "('h \<Rightarrow> 'a \<Rightarrow> 'a list \<Rightarrow> bool) \<Rightarrow> 'h \<Rightarrow> ('i \<Rightarrow> 'a) \<Rightarrow> 'i set \<Rightarrow> ('i \<Rightarrow> 'a list) \<Rightarrow> bool" where
  "family rep h hd_of I fl \<longleftrightarrow>
     (\<forall>i \<in> I. rep h (hd_of i) (fl i)) \<and>
     (\<forall>i \<in> I. \<forall>j \<in> I. i \<noteq> j \<longrightarrow> set (hd_of i # fl i) \<inter> set (hd_of j # fl j) = {})"

lemma family_rep: "family rep h hd_of I fl \<Longrightarrow> i \<in> I \<Longrightarrow> rep h (hd_of i) (fl i)"
  by (simp add: family_def)

lemma family_disjoint:
  "family rep h hd_of I fl \<Longrightarrow> i \<in> I \<Longrightarrow> j \<in> I \<Longrightarrow> i \<noteq> j \<Longrightarrow>
     set (hd_of i # fl i) \<inter> set (hd_of j # fl j) = {}"
  by (simp add: family_def)

context intrusive_list
begin

lemma family_add_tail:
  assumes fam: "family rep h hd_of I fl" and i: "i \<in> I"
    and fresh: "\<forall>j \<in> I. n \<notin> set (hd_of j # fl j)"
  shows "family rep (add_tail n (hd_of i) h) hd_of I (fl(i := fl i @ [n]))"
  unfolding family_def
proof (intro conjI ballI impI)
  fix j assume j: "j \<in> I"
  show "rep (add_tail n (hd_of i) h) (hd_of j) ((fl(i := fl i @ [n])) j)"
  proof (cases "j = i")
    case True
    with rep_add_tail [OF family_rep [OF fam i]] i fresh show ?thesis by simp
  next
    case False
    then have "set (hd_of i # fl i) \<inter> set (hd_of j # fl j) = {}"
      by (intro family_disjoint [OF fam i j]) simp
    with frame_add_tail [OF family_rep [OF fam i] family_rep [OF fam j]] False j fresh
    show ?thesis by simp
  qed
next
  fix j k assume "j \<in> I" "k \<in> I" "j \<noteq> k"
  with family_disjoint [OF fam, of j k] fresh
  show "set (hd_of j # (fl(i := fl i @ [n])) j) \<inter> set (hd_of k # (fl(i := fl i @ [n])) k) = {}"
    by auto
qed

lemma family_del:
  assumes fam: "family rep h hd_of I fl" and i: "i \<in> I" and e: "e \<in> set (fl i)"
  shows "family rep (del e h) hd_of I (fl(i := remove1 e (fl i)))"
  unfolding family_def
proof (intro conjI ballI impI)
  from e obtain xs ys where xs: "fl i = xs @ e # ys" "e \<notin> set xs" by (auto dest: split_list_first)
  fix j assume j: "j \<in> I"
  show "rep (del e h) (hd_of j) ((fl(i := remove1 e (fl i))) j)"
  proof (cases "j = i")
    case True
    with rep_del [of h "hd_of i" xs e ys] family_rep [OF fam i] xs show ?thesis
      by (simp add: remove1_append)
  next
    case False
    then have "set (hd_of i # fl i) \<inter> set (hd_of j # fl j) = {}"
      by (intro family_disjoint [OF fam i j]) simp
    with frame_del [OF family_rep [OF fam i] family_rep [OF fam j] e] False
    show ?thesis by simp
  qed
next
  fix j k assume "j \<in> I" "k \<in> I" "j \<noteq> k"
  with family_disjoint [OF fam, of j k] set_remove1_subset [of e "fl i"]
  show "set (hd_of j # (fl(i := remove1 e (fl i))) j) \<inter>
      set (hd_of k # (fl(i := remove1 e (fl i))) k) = {}"
    by auto
qed

lemma family_init:
  assumes fam: "family rep h hd_of I (\<lambda>_. [])" and inj: "inj_on hd_of (insert i I)" and i: "i \<notin> I"
  shows "family rep (init (hd_of i) h) hd_of (insert i I) (\<lambda>_. [])"
  unfolding family_def
proof (intro conjI ballI impI)
  fix j assume "j \<in> insert i I"
  then show "rep (init (hd_of i) h) (hd_of j) []"
    using fam inj i by (auto simp: inj_on_def intro: rep_init frame_init family_rep)
next
  fix j k assume "j \<in> insert i I" "k \<in> insert i I" "j \<noteq> k"
  then show "set [hd_of j] \<inter> set [hd_of k] = {}" using inj by (auto simp: inj_on_def)
qed

lemma family_first:
  "family rep h hd_of I fl \<Longrightarrow> i \<in> I \<Longrightarrow> \<not> is_empty (hd_of i) h \<Longrightarrow> first h (hd_of i) \<in> set (fl i)"
  by (drule (1) family_rep, cases "fl i") (auto dest: rep_empty rep_first)

end

interpretation kl: intrusive_list dlist INIT_LIST_HEAD list_empty next_of list_add_tail list_del
proof (unfold_locales, goal_cases)
  case (4 h l xs)
  then show ?case by (simp add: dlist_def)
next
  case (8 h l' xs l ys n)
  then show ?case by (rule dlist_add_tail_frame)
next
  case (9 h l' xs l ys e)
  then show ?case by (rule dlist_del_frame)
qed (simp_all add: dlist_INIT dlist_empty dlist_first dlist_add_tail dlist_del dlist_INIT_frame)

end
