(* ===== verification/Buddy.thy ===== *)
theory Buddy
  imports Linked_List
begin

text \<open>
  The buddy allocator of \<^verbatim>\<open>kernel/pmm.c\<close> and \<^verbatim>\<open>include/pmm.h\<close>: the page metadata array
  \<^verbatim>\<open>mem_map\<close>, the eleven free lists \<^verbatim>\<open>free_area\<close> with their counters, and every operation of
  the file. Page frame numbers are \<open>nat\<close> (the code's \<^verbatim>\<open>unsigned long\<close>; they come out of
  \<^verbatim>\<open>pa_to_pfn\<close>, which is computed on 64-bit words), orders are \<open>nat\<close>, the fields of
  \<^verbatim>\<open>struct page\<close> and the counters keep their widths. The free lists are pointer lists of the
  heap of theory \<open>Linked_List\<close>: an address is either the head \<open>Area order\<close> of a free list or
  the node \<open>Node pfn\<close> embedded in a page.
\<close>

section \<open>State\<close>

record page =
  order :: u16
  page_private :: u16
  flags :: u32
  ref_count :: u64
  virtual_address :: u64

datatype lnode = Area nat | Node nat

datatype buddy_error =
    BUDDY_OK | BUDDY_ERR_BAD_ORDER | BUDDY_ERR_NO_MEMORY | BUDDY_ERR_OUT_OF_RANGE
  | BUDDY_ERR_UNALIGNED | BUDDY_ERR_NOT_ALLOCATED | BUDDY_ERR_DOUBLE_FREE

record pmm =
  mem_map :: "nat \<Rightarrow> page"
  nodes :: "lnode list_heap"
  nr_free :: "nat \<Rightarrow> u32"
  buddy_mem_start :: u64
  dma_end_pfn :: nat
  buddy_last_error :: buddy_error

definition MAX_ORDER :: nat where "MAX_ORDER = 10"
definition NR_ORDERS :: nat where "NR_ORDERS = MAX_ORDER + 1"
definition DMA_ZONE_SIZE :: u64 where "DMA_ZONE_SIZE = 16 * 1024 * 1024"

definition PG_RESERVED :: u32 where "PG_RESERVED = push_bit 0 1"
definition PG_BUDDY :: u32 where "PG_BUDDY = push_bit 1 1"
definition PG_ALLOCATED :: u32 where "PG_ALLOCATED = push_bit 2 1"
definition PG_HEAD :: u32 where "PG_HEAD = push_bit 3 1"

definition buddy_get_last_error :: "pmm \<Rightarrow> buddy_error" where
  "buddy_get_last_error s = buddy_last_error s"

definition buddy_set_error :: "buddy_error \<Rightarrow> pmm \<Rightarrow> pmm" where
  "buddy_set_error e s = s\<lparr>buddy_last_error := e\<rparr>"

section \<open>Addresses, page frame numbers, page states\<close>

definition ALIGN :: "u64 \<Rightarrow> u64 \<Rightarrow> u64" where
  "ALIGN x a = (x + a - 1) AND NOT (a - 1)"

definition pfn_to_pa :: "nat \<Rightarrow> phys_addr_t" where
  "pfn_to_pa pfn = PHYS_MEM_START + push_bit PAGE_SHIFT (of_nat pfn)"

definition pa_to_pfn :: "phys_addr_t \<Rightarrow> nat" where
  "pa_to_pfn pa = unat (drop_bit PAGE_SHIFT (pa - PHYS_MEM_START))"

definition page_is_buddy :: "page \<Rightarrow> bool" where
  "page_is_buddy page \<longleftrightarrow> flags page AND PG_BUDDY \<noteq> 0"

definition page_is_allocated :: "page \<Rightarrow> bool" where
  "page_is_allocated page \<longleftrightarrow> flags page AND PG_ALLOCATED \<noteq> 0"

definition page_is_reserved :: "page \<Rightarrow> bool" where
  "page_is_reserved page \<longleftrightarrow> flags page AND PG_RESERVED \<noteq> 0"

definition mark_page_buddy :: "nat \<Rightarrow> page \<Rightarrow> page" where
  "mark_page_buddy ord page = page\<lparr>flags := PG_BUDDY OR PG_HEAD, order := of_nat ord\<rparr>"

definition mark_page_allocated :: "nat \<Rightarrow> page \<Rightarrow> page" where
  "mark_page_allocated ord page = page\<lparr>flags := PG_ALLOCATED OR PG_HEAD, order := of_nat ord\<rparr>"

definition mark_page_reserved :: "page \<Rightarrow> page" where
  "mark_page_reserved page = page\<lparr>flags := PG_RESERVED, order := 0\<rparr>"

definition clear_page_flags :: "page \<Rightarrow> page" where
  "clear_page_flags page = page\<lparr>flags := 0, order := 0\<rparr>"

definition upd_page :: "nat \<Rightarrow> (page \<Rightarrow> page) \<Rightarrow> pmm \<Rightarrow> pmm" where
  "upd_page pfn f s = s\<lparr>mem_map := (mem_map s)(pfn := f (mem_map s pfn))\<rparr>"

definition pa_in_range :: "pmm \<Rightarrow> phys_addr_t \<Rightarrow> bool" where
  "pa_in_range s pa \<longleftrightarrow> buddy_mem_start s \<le> pa \<and> pa \<le> BUDDY_MEM_END"

definition valid_order :: "nat \<Rightarrow> bool" where
  "valid_order ord \<longleftrightarrow> ord \<le> MAX_ORDER"

definition page_aligned :: "phys_addr_t \<Rightarrow> bool" where
  "page_aligned pa \<longleftrightarrow> pa AND (PAGE_SIZE - 1) = 0"

section \<open>Splitting and merging\<close>

definition buddy_pfn :: "nat \<Rightarrow> nat \<Rightarrow> nat" where
  "buddy_pfn pfn ord = pfn XOR push_bit ord 1"

definition pfn_aligned_to_order :: "nat \<Rightarrow> nat \<Rightarrow> bool" where
  "pfn_aligned_to_order pfn ord \<longleftrightarrow> pfn AND (push_bit ord 1 - 1) = 0"

definition add_to_free_area :: "nat \<Rightarrow> nat \<Rightarrow> pmm \<Rightarrow> pmm" where
  "add_to_free_area pfn ord s =
     (let s1 = upd_page pfn (mark_page_buddy ord) s;
          s2 = s1\<lparr>nodes := list_add_tail (Node pfn) (Area ord) (nodes s1)\<rparr>
      in s2\<lparr>nr_free := (nr_free s2)(ord := nr_free s2 ord + 1)\<rparr>)"

definition remove_from_free_area :: "nat \<Rightarrow> nat \<Rightarrow> pmm \<Rightarrow> pmm" where
  "remove_from_free_area pfn ord s =
     (let s1 = s\<lparr>nodes := list_del (Node pfn) (nodes s)\<rparr>;
          s2 = s1\<lparr>nr_free := (nr_free s1)(ord := nr_free s1 ord - 1)\<rparr>
      in upd_page pfn clear_page_flags s2)"

fun expand_block :: "nat \<Rightarrow> nat \<Rightarrow> nat \<Rightarrow> pmm \<Rightarrow> nat \<times> pmm" where
  "expand_block pfn high low s =
     (if low < high then
        (let new_order = high - 1;
             right_pfn = pfn + push_bit new_order 1
         in expand_block pfn new_order low (add_to_free_area right_pfn new_order s))
      else (pfn, s))"

declare expand_block.simps [simp del]

text \<open>
  \<^verbatim>\<open>container_of(node, struct page, node) - mem_map\<close>: the page a list node is embedded in.
  The head of a list is embedded in no page; no list operation of the allocator asks for it.
\<close>

fun node_pfn :: "lnode \<Rightarrow> nat" where
  "node_pfn (Node pfn) = pfn"
| "node_pfn (Area ord) = TOTAL_PAGES"

function buddy_alloc_from :: "nat \<Rightarrow> nat \<Rightarrow> bool \<Rightarrow> pmm \<Rightarrow> nat \<times> pmm" where
  "buddy_alloc_from cur ord dma_only s =
     (if cur \<le> MAX_ORDER then
        (if \<not> list_empty (Area cur) (nodes s) then
           (let pfn = node_pfn (next_of (nodes s) (Area cur)) in
            if dma_only \<and> dma_end_pfn s \<le> pfn then buddy_alloc_from (cur + 1) ord dma_only s
            else expand_block pfn cur ord (remove_from_free_area pfn cur s))
         else buddy_alloc_from (cur + 1) ord dma_only s)
      else (TOTAL_PAGES, s))"
  by pat_completeness auto
termination
  by (relation "measure (\<lambda>(cur, _). MAX_ORDER + 1 - cur)") auto

declare buddy_alloc_from.simps [simp del]

definition buddy_alloc_pfn :: "nat \<Rightarrow> bool \<Rightarrow> pmm \<Rightarrow> nat \<times> pmm" where
  "buddy_alloc_pfn ord dma_only s = buddy_alloc_from ord ord dma_only s"

function buddy_merge_pfn :: "nat \<Rightarrow> nat \<Rightarrow> pmm \<Rightarrow> nat \<times> nat \<times> pmm" where
  "buddy_merge_pfn pfn ord s =
     (if ord < MAX_ORDER then
        (let bpfn = buddy_pfn pfn ord in
         if TOTAL_PAGES \<le> bpfn then (pfn, ord, s)
         else if \<not> page_is_buddy (mem_map s bpfn) then (pfn, ord, s)
         else if unat (order (mem_map s bpfn)) \<noteq> ord then (pfn, ord, s)
         else buddy_merge_pfn (if bpfn < pfn then bpfn else pfn) (ord + 1)
                (remove_from_free_area bpfn ord s))
      else (pfn, ord, s))"
  by pat_completeness auto
termination
  by (relation "measure (\<lambda>(_, ord, _). MAX_ORDER - ord)") auto

declare buddy_merge_pfn.simps [simp del]

section \<open>Initialisation\<close>

text \<open>
  The loops over \<^verbatim>\<open>free_area\<close> and \<^verbatim>\<open>mem_map\<close> are folds over the index range; the loop that
  releases the managed region block by block is \<open>init_blocks\<close>, and its inner search for the
  largest aligned order that fits is \<open>init_order\<close>. \<^verbatim>\<open>kernel_end\<close> is a linker symbol and a
  parameter here.
\<close>

definition init_page :: "nat \<Rightarrow> pmm \<Rightarrow> pmm" where
  "init_page i s =
     (let s1 = upd_page i (\<lambda>p. p\<lparr>order := 0, page_private := 0, flags := 0\<rparr>) s
      in s1\<lparr>nodes := INIT_LIST_HEAD (Node i) (nodes s1)\<rparr>)"

definition init_area :: "nat \<Rightarrow> pmm \<Rightarrow> pmm" where
  "init_area i s = s\<lparr>nodes := INIT_LIST_HEAD (Area i) (nodes s), nr_free := (nr_free s)(i := 0)\<rparr>"

fun init_order :: "nat \<Rightarrow> nat \<Rightarrow> nat \<Rightarrow> nat" where
  "init_order pfn remain ord =
     (if push_bit ord 1 \<le> remain \<and> pfn_aligned_to_order pfn ord then ord
      else if ord = 0 then ord
      else init_order pfn remain (ord - 1))"

declare init_order.simps [simp del]

definition clear_pages :: "nat list \<Rightarrow> pmm \<Rightarrow> pmm" where
  "clear_pages ps s = fold (\<lambda>i. upd_page i clear_page_flags) ps s"

definition init_block :: "nat \<Rightarrow> nat \<Rightarrow> pmm \<Rightarrow> pmm" where
  "init_block pfn ord s =
     (let s1 = upd_page pfn clear_page_flags s;
          s2 = add_to_free_area pfn ord s1
      in clear_pages [pfn + 1..<pfn + push_bit ord 1] s2)"

function init_blocks :: "nat \<Rightarrow> nat \<Rightarrow> pmm \<Rightarrow> pmm" where
  "init_blocks pfn remain s =
     (if 0 < remain then
        (let ord = init_order pfn remain MAX_ORDER
         in init_blocks (pfn + push_bit ord 1) (remain - push_bit ord 1) (init_block pfn ord s))
      else s)"
  by pat_completeness auto
termination
  by (relation "measure (\<lambda>(_, remain, _). remain)") auto

declare init_blocks.simps [simp del]

definition buddy_init :: "u64 \<Rightarrow> pmm \<Rightarrow> pmm" where
  "buddy_init kernel_end s0 =
     (let s1 = buddy_set_error BUDDY_OK s0;
          start = ALIGN (kernel_end - 0xffff800000000000) PAGE_SIZE;
          s2 = s1\<lparr>buddy_mem_start := start\<rparr>;
          dma_end_pa = start + DMA_ZONE_SIZE;
          dma_end_pa = (if dma_end_pa > BUDDY_MEM_END then BUDDY_MEM_END else dma_end_pa);
          s3 = s2\<lparr>dma_end_pfn := pa_to_pfn dma_end_pa\<rparr>;
          pfn = pa_to_pfn start;
          remain = unat (drop_bit PAGE_SHIFT (BUDDY_MEM_END - start + 1));
          s4 = fold init_area [0..<NR_ORDERS] s3;
          s5 = fold init_page [0..<TOTAL_PAGES] s4;
          kernel_pages = pa_to_pfn start;
          s6 = fold (\<lambda>i. upd_page i mark_page_reserved) [0..<kernel_pages] s5;
          buddy_total = unat (drop_bit PAGE_SHIFT (BUDDY_MEM_END - start + 1));
          s7 = fold (\<lambda>i. upd_page (kernel_pages + i) mark_page_reserved) [0..<buddy_total] s6
      in init_blocks pfn remain s7)"

section \<open>The allocation interface\<close>

definition alloc_phys_pages :: "nat \<Rightarrow> gfp_t \<Rightarrow> pmm \<Rightarrow> phys_addr_t \<times> pmm" where
  "alloc_phys_pages ord gflags s =
     (if \<not> valid_order ord then (0, buddy_set_error BUDDY_ERR_BAD_ORDER s)
      else (let (pfn, s1) = buddy_alloc_pfn ord (gflags AND GFP_DMA \<noteq> 0) s in
        if TOTAL_PAGES \<le> pfn then (0, buddy_set_error BUDDY_ERR_NO_MEMORY s1)
        else (let s2 = upd_page pfn (mark_page_allocated ord) s1;
                  s3 = upd_page pfn (\<lambda>p. p\<lparr>ref_count := 1\<rparr>) s2
              in (pfn_to_pa pfn, buddy_set_error BUDDY_OK s3))))"

definition free_phys_pages :: "phys_addr_t \<Rightarrow> nat \<Rightarrow> pmm \<Rightarrow> pmm" where
  "free_phys_pages pa ord s =
     (if \<not> valid_order ord then buddy_set_error BUDDY_ERR_BAD_ORDER s
      else if \<not> pa_in_range s pa then buddy_set_error BUDDY_ERR_OUT_OF_RANGE s
      else if \<not> page_aligned pa then buddy_set_error BUDDY_ERR_UNALIGNED s
      else (let pfn = pa_to_pfn pa in
        if \<not> pfn_aligned_to_order pfn ord then buddy_set_error BUDDY_ERR_UNALIGNED s
        else if TOTAL_PAGES \<le> pfn then buddy_set_error BUDDY_ERR_OUT_OF_RANGE s
        else (let page = mem_map s pfn in
          if \<not> page_is_allocated page \<or> flags page AND PG_HEAD = 0 then
            (if page_is_buddy page then buddy_set_error BUDDY_ERR_DOUBLE_FREE s
             else buddy_set_error BUDDY_ERR_NOT_ALLOCATED s)
          else if unat (order page) \<noteq> ord then buddy_set_error BUDDY_ERR_BAD_ORDER s
          else (let s1 = upd_page pfn clear_page_flags s;
                    (pfn', ord', s2) = buddy_merge_pfn pfn ord s1
                in buddy_set_error BUDDY_OK (add_to_free_area pfn' ord' s2)))))"

section \<open>Statistics, single pages, reference counts\<close>

definition buddy_nr_free_blocks :: "nat \<Rightarrow> pmm \<Rightarrow> u32" where
  "buddy_nr_free_blocks ord s = (if \<not> valid_order ord then 0 else nr_free s ord)"

definition buddy_nr_free_pages_total :: "pmm \<Rightarrow> u32" where
  "buddy_nr_free_pages_total s =
     fold (\<lambda>ord total. total + nr_free s ord * push_bit ord 1) [0..<MAX_ORDER + 1] 0"

definition buddy_is_allocated_head :: "phys_addr_t \<Rightarrow> pmm \<Rightarrow> bool" where
  "buddy_is_allocated_head pa s =
     (if \<not> pa_in_range s pa \<or> \<not> page_aligned pa then False
      else (let pfn = pa_to_pfn pa in
        if TOTAL_PAGES \<le> pfn then False
        else page_is_allocated (mem_map s pfn) \<and> flags (mem_map s pfn) AND PG_HEAD \<noteq> 0))"

text \<open>\<^verbatim>\<open>alloc_page\<close> returns a pointer into \<^verbatim>\<open>mem_map\<close>: \<open>Some\<close> index, or \<open>None\<close> for NULL.\<close>

definition alloc_page :: "gfp_t \<Rightarrow> pmm \<Rightarrow> nat option \<times> pmm" where
  "alloc_page gflags s =
     (let (pa, s1) = alloc_phys_pages 0 gflags s
      in if pa = 0 then (None, s1) else (Some (pa_to_pfn pa), s1))"

definition free_page :: "nat \<Rightarrow> pmm \<Rightarrow> pmm" where
  "free_page pfn s = free_phys_pages (pfn_to_pa pfn) 0 s"

definition get_page :: "phys_addr_t \<Rightarrow> pmm \<Rightarrow> pmm" where
  "get_page pa s =
     (let pfn = pa_to_pfn pa in
      if TOTAL_PAGES \<le> pfn then s
      else upd_page pfn (\<lambda>p. p\<lparr>ref_count := ref_count p + 1\<rparr>) s)"

definition put_page :: "phys_addr_t \<Rightarrow> pmm \<Rightarrow> pmm" where
  "put_page pa s =
     (let pfn = pa_to_pfn pa in
      if TOTAL_PAGES \<le> pfn then s
      else if ref_count (mem_map s pfn) = 0 then s
      else (let s1 = upd_page pfn (\<lambda>p. p\<lparr>ref_count := ref_count p - 1\<rparr>) s in
        if ref_count (mem_map s1 pfn) = 0 then free_phys_pages pa 0 s1 else s1))"

definition buddy_nr_used_pages_total :: "pmm \<Rightarrow> u32" where
  "buddy_nr_used_pages_total s = of_nat TOTAL_PAGES - buddy_nr_free_pages_total s"

definition buddy_mem_usage_percent :: "pmm \<Rightarrow> u32" where
  "buddy_mem_usage_percent s =
     (if TOTAL_PAGES = 0 then 0
      else of_nat (unat (buddy_nr_used_pages_total s * 100) div TOTAL_PAGES))"

definition total_phys_pages :: u64 where
  "total_phys_pages = (PHYS_MEM_END - PHYS_MEM_START + 1) div PAGE_SIZE"

definition total_used_pages :: "pmm \<Rightarrow> u64" where
  "total_used_pages s =
     (buddy_mem_start s - PHYS_MEM_START) div PAGE_SIZE + ucast (buddy_nr_used_pages_total s)"

definition total_mem_usage_percent :: "pmm \<Rightarrow> u32" where
  "total_mem_usage_percent s =
     (if total_phys_pages = 0 then 0
      else ucast ((total_used_pages s * 100) div total_phys_pages))"

end
