(* ===== verification/Buddy_Invariant.thy ===== *)
theory Buddy_Invariant
  imports Buddy
begin

text \<open>
  What the buddy allocator keeps true. A block is a pair of its first page frame number and its
  order; the free and the allocated blocks are read off the flags of \<^verbatim>\<open>mem_map\<close>. The invariant
  \<open>buddy_inv\<close> says that the free lists hold exactly the free blocks, that free and allocated
  blocks together tile the managed region without overlap and without gap, and that no two free
  buddies of the same order below \<^verbatim>\<open>MAX_ORDER\<close> are left unmerged. The loops of the allocator run
  with a hole in the tiling (the block being split or merged), so the invariant is stated for a
  hole \<open>H\<close> first, and the primitive operations are shown to move blocks in and out of the hole.
\<close>

section \<open>Blocks\<close>

definition blk :: "nat \<times> nat \<Rightarrow> nat set" where
  "blk b = {fst b ..< fst b + 2 ^ snd b}"

lemma blk_mem: "x \<in> blk (p, k) \<longleftrightarrow> p \<le> x \<and> x < p + 2 ^ k"
  by (simp add: blk_def)

lemma blk_self [simp]: "p \<in> blk (p, k)"
  by (simp add: blk_mem)

lemma blk_finite [simp]: "finite (blk b)" and blk_card [simp]: "card (blk b) = 2 ^ snd b"
  by (simp_all add: blk_def)

lemma buddy_pfn_alt: "buddy_pfn p k = p XOR 2 ^ k"
  by (simp add: buddy_pfn_def push_bit_eq_mult)

lemma buddy_pfn_invol [simp]: "buddy_pfn (buddy_pfn p k) k = p"
  by (simp add: buddy_pfn_alt xor.assoc)

lemma buddy_pfn_neq [simp]: "buddy_pfn p k \<noteq> p"
  by (metis buddy_pfn_alt power_not_zero xor.left_neutral xor_self_eq xor.assoc zero_neq_numeral)

lemma pow_dvd_le: "2 ^ k dvd (p::nat) \<Longrightarrow> \<not> 2 ^ Suc k dvd p \<Longrightarrow> 2 ^ k \<le> p"
  by (metis dvd_0_right dvd_imp_le not_gr_zero)

lemma dvd_minus_pow: "2 ^ k dvd (p::nat) \<Longrightarrow> \<not> 2 ^ Suc k dvd p \<Longrightarrow> 2 ^ Suc k dvd p - 2 ^ k"
proof -
  assume "2 ^ k dvd p" and n: "\<not> 2 ^ Suc k dvd p"
  then obtain q where q: "p = 2 ^ k * q" by blast
  with n have "odd q" by simp
  then obtain r where "q = 2 * r + 1" by (rule oddE)
  then have "p - 2 ^ k = 2 ^ Suc k * r" by (simp add: q algebra_simps)
  then show ?thesis by simp
qed

lemma buddy_pfn_cases:
  assumes "2 ^ k dvd p"
  obtains (left) "2 ^ Suc k dvd p" "buddy_pfn p k = p + 2 ^ k"
  | (right) "2 ^ k \<le> p" "2 ^ Suc k dvd p - 2 ^ k" "buddy_pfn p k = p - 2 ^ k"
proof (cases "2 ^ Suc k dvd p")
  case True
  with xor_exp_nat [OF assms] left show ?thesis by (simp add: buddy_pfn_alt)
next
  case False
  with xor_exp_nat [OF assms] pow_dvd_le [OF assms] dvd_minus_pow [OF assms] right
  show ?thesis by (simp add: buddy_pfn_alt)
qed

lemma buddy_pfn_dvd: "2 ^ k dvd p \<Longrightarrow> 2 ^ k dvd buddy_pfn p k"
  by (erule buddy_pfn_cases) (auto intro: dvd_diff_nat)

text \<open>A block and its buddy are the halves of a block one order up.\<close>

lemma blk_split: "blk (p, Suc k) = blk (p, k) \<union> blk (p + 2 ^ k, k)"
  and blk_halves_disjoint: "blk (p, k) \<inter> blk (p + 2 ^ k, k) = {}"
  by (auto simp: blk_mem)

lemma blk_merge:
  assumes "2 ^ k dvd p"
  defines "m \<equiv> if buddy_pfn p k < p then buddy_pfn p k else p"
  shows "2 ^ Suc k dvd m" and "blk (p, k) \<union> blk (buddy_pfn p k, k) = blk (m, Suc k)"
proof -
  have "2 ^ Suc k dvd m \<and> blk (p, k) \<union> blk (buddy_pfn p k, k) = blk (m, Suc k)"
    using assms(1)
  proof (cases rule: buddy_pfn_cases)
    case left
    then show ?thesis by (simp add: m_def blk_split)
  next
    case right
    have "0 < (2::nat) ^ k" by simp
    with right have "p - 2 ^ k < p" by linarith
    with right show ?thesis by (auto simp: m_def blk_split blk_mem)
  qed
  then show "2 ^ Suc k dvd m" and "blk (p, k) \<union> blk (buddy_pfn p k, k) = blk (m, Suc k)" by auto
qed

section \<open>Tilings with a hole\<close>

definition tiling ::
  "nat \<Rightarrow> (nat \<times> nat) set \<Rightarrow> (nat \<times> nat) set \<Rightarrow> nat set \<Rightarrow> bool" where
  "tiling lo F U H \<longleftrightarrow>
     H \<subseteq> {lo..<TOTAL_PAGES} \<and> F \<inter> U = {} \<and>
     (\<forall>(p, k) \<in> F \<union> U. k \<le> MAX_ORDER \<and> 2 ^ k dvd p \<and> blk (p, k) \<subseteq> {lo..<TOTAL_PAGES} - H) \<and>
     (\<forall>b \<in> F \<union> U. \<forall>c \<in> F \<union> U. b \<noteq> c \<longrightarrow> blk b \<inter> blk c = {}) \<and>
     {lo..<TOTAL_PAGES} \<subseteq> H \<union> \<Union> (blk ` (F \<union> U)) \<and>
     (\<forall>(p, k) \<in> F. k < MAX_ORDER \<longrightarrow> (buddy_pfn p k, k) \<notin> F)"

lemma tilingD:
  assumes "tiling lo F U H"
  shows tiling_hole: "H \<subseteq> {lo..<TOTAL_PAGES}"
    and tiling_FU: "F \<inter> U = {}"
    and tiling_block: "(p, k) \<in> F \<union> U \<Longrightarrow> k \<le> MAX_ORDER \<and> 2 ^ k dvd p \<and> blk (p, k) \<subseteq> {lo..<TOTAL_PAGES} - H"
    and tiling_disj: "b \<in> F \<union> U \<Longrightarrow> c \<in> F \<union> U \<Longrightarrow> b \<noteq> c \<Longrightarrow> blk b \<inter> blk c = {}"
    and tiling_cover: "{lo..<TOTAL_PAGES} \<subseteq> H \<union> \<Union> (blk ` (F \<union> U))"
    and tiling_coalesced: "(p, k) \<in> F \<Longrightarrow> k < MAX_ORDER \<Longrightarrow> (buddy_pfn p k, k) \<notin> F"
  using assms unfolding tiling_def by (simp, simp, blast, blast, simp, blast)

lemma tiling_hole_no_head: "tiling lo F U H \<Longrightarrow> p \<in> H \<Longrightarrow> (p, k) \<notin> F \<union> U"
  using tiling_block [of lo F U H p k] blk_self by blast

lemma tilingI:
  assumes "H \<subseteq> {lo..<TOTAL_PAGES}" and "F \<inter> U = {}"
    and "\<And>p k. (p, k) \<in> F \<union> U \<Longrightarrow> k \<le> MAX_ORDER \<and> 2 ^ k dvd p \<and> blk (p, k) \<subseteq> {lo..<TOTAL_PAGES} - H"
    and "\<And>b c. b \<in> F \<union> U \<Longrightarrow> c \<in> F \<union> U \<Longrightarrow> b \<noteq> c \<Longrightarrow> blk b \<inter> blk c = {}"
    and "{lo..<TOTAL_PAGES} \<subseteq> H \<union> \<Union> (blk ` (F \<union> U))"
    and "\<And>p k. (p, k) \<in> F \<Longrightarrow> k < MAX_ORDER \<Longrightarrow> (buddy_pfn p k, k) \<notin> F"
  shows "tiling lo F U H"
  unfolding tiling_def using assms by blast

text \<open>
  Taking a block out of either set opens a hole of its pages; putting a block in fills them.
\<close>

lemma tiling_rem:
  assumes t: "tiling lo F U H" and b: "b \<in> F \<union> U"
  shows "tiling lo (F - {b}) (U - {b}) (H \<union> blk b)"
proof (rule tilingI)
  have "blk b \<subseteq> {lo..<TOTAL_PAGES}" using tiling_block [OF t, of "fst b" "snd b"] b by auto
  then show "H \<union> blk b \<subseteq> {lo..<TOTAL_PAGES}" using tiling_hole [OF t] by auto
next
  fix p k assume pk: "(p, k) \<in> F - {b} \<union> (U - {b})"
  then have "blk (p, k) \<inter> blk b = {}" using tiling_disj [OF t _ b, of "(p, k)"] by auto
  then show "k \<le> MAX_ORDER \<and> 2 ^ k dvd p \<and> blk (p, k) \<subseteq> {lo..<TOTAL_PAGES} - (H \<union> blk b)"
    using tiling_block [OF t, of p k] pk by auto
next
  show "{lo..<TOTAL_PAGES} \<subseteq> H \<union> blk b \<union> \<Union> (blk ` (F - {b} \<union> (U - {b})))"
    using tiling_cover [OF t] by auto
next
  show "blk c \<inter> blk d = {}" if "c \<in> F - {b} \<union> (U - {b})" "d \<in> F - {b} \<union> (U - {b})" "c \<noteq> d" for c d
    by (rule tiling_disj [OF t]) (use that in auto)
qed (use tiling_FU [OF t] tiling_coalesced [OF t] in auto)

lemma tiling_add:
  assumes t: "tiling lo F U H" and b: "k \<le> MAX_ORDER" "2 ^ k dvd p" "blk (p, k) \<subseteq> H"
    and FU: "F' = insert (p, k) F \<and> U' = U \<and> (k < MAX_ORDER \<longrightarrow> (buddy_pfn p k, k) \<notin> F)
      \<or> F' = F \<and> U' = insert (p, k) U"
  shows "tiling lo F' U' (H - blk (p, k))"
proof (rule tilingI)
  have all: "F' \<union> U' = insert (p, k) (F \<union> U)" using FU by auto
  have new: "(p, k) \<notin> F \<union> U" using tiling_hole_no_head [OF t, of p k] b(3) blk_self by blast
  have out: "blk c \<inter> H = {}" if "c \<in> F \<union> U" for c
    using tiling_block [OF t, of "fst c" "snd c"] that by auto
  show "H - blk (p, k) \<subseteq> {lo..<TOTAL_PAGES}" using tiling_hole [OF t] by auto
  show "F' \<inter> U' = {}" using FU new tiling_FU [OF t] by auto
  show "j \<le> MAX_ORDER \<and> 2 ^ j dvd q \<and> blk (q, j) \<subseteq> {lo..<TOTAL_PAGES} - (H - blk (p, k))"
    if "(q, j) \<in> F' \<union> U'" for q j
  proof (cases "(q, j) = (p, k)")
    case True
    with b tiling_hole [OF t] show ?thesis by blast
  next
    case False
    with that all have "(q, j) \<in> F \<union> U" by blast
    from tiling_block [OF t this] show ?thesis by blast
  qed
  show "blk c \<inter> blk d = {}" if "c \<in> F' \<union> U'" "d \<in> F' \<union> U'" "c \<noteq> d" for c d
  proof -
    from that all consider "c \<in> F \<union> U" "d \<in> F \<union> U" | "c = (p, k)" "d \<in> F \<union> U"
      | "d = (p, k)" "c \<in> F \<union> U" by auto
    then show ?thesis
    proof cases
      case 1
      then show ?thesis by (rule tiling_disj [OF t _ _ that(3)])
    next
      case 2
      from out [OF 2(2)] 2(1) b(3) show ?thesis by blast
    next
      case 3
      from out [OF 3(2)] 3(1) b(3) show ?thesis by blast
    qed
  qed
  have "x \<in> H - blk (p, k) \<union> (blk (p, k) \<union> \<Union> (blk ` (F \<union> U)))" if "x \<in> {lo..<TOTAL_PAGES}" for x
    using that tiling_cover [OF t] by blast
  then show "{lo..<TOTAL_PAGES} \<subseteq> H - blk (p, k) \<union> \<Union> (blk ` (F' \<union> U'))"
    unfolding all image_insert Union_insert by blast
  show "(buddy_pfn q j, j) \<notin> F'" if q: "(q, j) \<in> F'" "j < MAX_ORDER" for q j
    using FU
  proof
    assume F: "F' = insert (p, k) F \<and> U' = U \<and> (k < MAX_ORDER \<longrightarrow> (buddy_pfn p k, k) \<notin> F)"
    then have "(q, j) = (p, k) \<or> (q, j) \<in> F" using q by blast
    then show ?thesis
      using F q(2) tiling_coalesced [OF t, of q j] buddy_pfn_invol [of q j] buddy_pfn_neq [of q j] by auto
  qed (use q tiling_coalesced [OF t] in blast)
qed

section \<open>The invariant\<close>

definition head_set :: "u32 \<Rightarrow> (nat \<Rightarrow> page) \<Rightarrow> (nat \<times> nat) set" where
  "head_set f m = {(p, k). p < TOTAL_PAGES \<and> flags (m p) = f \<and> unat (order (m p)) = k}"

abbreviation free_set :: "pmm \<Rightarrow> (nat \<times> nat) set" where
  "free_set s \<equiv> head_set (PG_BUDDY OR PG_HEAD) (mem_map s)"

abbreviation used_set :: "pmm \<Rightarrow> (nat \<times> nat) set" where
  "used_set s \<equiv> head_set (PG_ALLOCATED OR PG_HEAD) (mem_map s)"

definition start_pfn :: "pmm \<Rightarrow> nat" where
  "start_pfn s = pa_to_pfn (buddy_mem_start s)"

definition flags_ok :: "pmm \<Rightarrow> bool" where
  "flags_ok s \<longleftrightarrow> (\<forall>p < TOTAL_PAGES.
     flags (mem_map s p) \<in> {0, PG_RESERVED, PG_BUDDY OR PG_HEAD, PG_ALLOCATED OR PG_HEAD})"

definition free_lists :: "pmm \<Rightarrow> (nat \<Rightarrow> nat list) \<Rightarrow> bool" where
  "free_lists s fl \<longleftrightarrow>
     family dlist (nodes s) Area {..MAX_ORDER} (\<lambda>k. map Node (fl k)) \<and>
     (\<forall>k \<le> MAX_ORDER. set (fl k) = {p. (p, k) \<in> free_set s} \<and> nr_free s k = of_nat (length (fl k)))"

definition inv_hole :: "nat set \<Rightarrow> pmm \<Rightarrow> bool" where
  "inv_hole H s \<longleftrightarrow>
     flags_ok s \<and> (\<exists>fl. free_lists s fl) \<and> tiling (start_pfn s) (free_set s) (used_set s) H"

definition start_ok :: "pmm \<Rightarrow> bool" where
  "start_ok s \<longleftrightarrow> start_pfn s < TOTAL_PAGES \<and> buddy_mem_start s = pfn_to_pa (start_pfn s)"

definition buddy_inv :: "pmm \<Rightarrow> bool" where
  "buddy_inv s \<longleftrightarrow> start_ok s \<and> inv_hole {} s"

lemma PG_vals: "PG_RESERVED = 1" "PG_BUDDY = 2" "PG_ALLOCATED = 4" "PG_HEAD = 8"
  by (simp_all add: PG_RESERVED_def PG_BUDDY_def PG_ALLOCATED_def PG_HEAD_def)

lemma PG_neq [simp]:
  "PG_BUDDY OR PG_HEAD \<noteq> PG_ALLOCATED OR PG_HEAD" "PG_ALLOCATED OR PG_HEAD \<noteq> PG_BUDDY OR PG_HEAD"
  "PG_RESERVED \<noteq> PG_BUDDY OR PG_HEAD" "PG_RESERVED \<noteq> PG_ALLOCATED OR PG_HEAD"
  "PG_BUDDY OR PG_HEAD \<noteq> 0" "PG_ALLOCATED OR PG_HEAD \<noteq> 0" "PG_RESERVED \<noteq> 0"
  "0 \<noteq> PG_BUDDY OR PG_HEAD" "0 \<noteq> PG_ALLOCATED OR PG_HEAD"
  by (simp_all add: PG_vals)

lemma head_set_upd:
  "p < TOTAL_PAGES \<Longrightarrow> head_set f (m(p := pg)) =
     {b \<in> head_set f m. fst b \<noteq> p} \<union> (if flags pg = f then {(p, unat (order pg))} else {})"
  by (auto simp: head_set_def split: if_splits)

lemma head_set_lt: "(p, k) \<in> head_set f m \<Longrightarrow> p < TOTAL_PAGES"
  by (simp add: head_set_def)

lemma head_set_fst: "(p, k) \<in> head_set f m \<Longrightarrow> (p, j) \<in> head_set g m \<Longrightarrow> j = k \<and> f = g"
  by (auto simp: head_set_def)

lemma head_set_minus:
  "(p, k) \<in> head_set f m \<Longrightarrow> {b \<in> head_set f m. fst b \<noteq> p} = head_set f m - {(p, k)}"
  using head_set_fst by fastforce

lemma head_set_other:
  "(p, k) \<in> head_set f m \<Longrightarrow> g \<noteq> f \<Longrightarrow> {b \<in> head_set g m. fst b \<noteq> p} = head_set g m"
  using head_set_fst by fastforce

lemma head_set_none:
  "(\<And>k. (p, k) \<notin> head_set f m) \<Longrightarrow> {b \<in> head_set f m. fst b \<noteq> p} = head_set f m"
  by force

lemma unat_of_order: "k \<le> MAX_ORDER \<Longrightarrow> unat (of_nat k :: u16) = k"
  by (rule unat_of_nat_noov) (simp add: MAX_ORDER_def)

section \<open>The primitive operations\<close>

lemma upd_page_simps [simp]:
  "nodes (upd_page p f s) = nodes s" "nr_free (upd_page p f s) = nr_free s"
  "buddy_mem_start (upd_page p f s) = buddy_mem_start s" "start_pfn (upd_page p f s) = start_pfn s"
  "dma_end_pfn (upd_page p f s) = dma_end_pfn s"
  "mem_map (upd_page p f s) = (mem_map s)(p := f (mem_map s p))"
  "buddy_last_error (upd_page p f s) = buddy_last_error s"
  by (simp_all add: upd_page_def start_pfn_def)

lemma add_to_free_area_simps [simp]:
  "mem_map (add_to_free_area p k s) = (mem_map s)(p := mark_page_buddy k (mem_map s p))"
  "nodes (add_to_free_area p k s) = list_add_tail (Node p) (Area k) (nodes s)"
  "nr_free (add_to_free_area p k s) = (nr_free s)(k := nr_free s k + 1)"
  "start_pfn (add_to_free_area p k s) = start_pfn s"
  "dma_end_pfn (add_to_free_area p k s) = dma_end_pfn s"
  "buddy_mem_start (add_to_free_area p k s) = buddy_mem_start s"
  by (simp_all add: add_to_free_area_def Let_def start_pfn_def)

lemma remove_from_free_area_simps [simp]:
  "mem_map (remove_from_free_area p k s) = (mem_map s)(p := clear_page_flags (mem_map s p))"
  "nodes (remove_from_free_area p k s) = list_del (Node p) (nodes s)"
  "nr_free (remove_from_free_area p k s) = (nr_free s)(k := nr_free s k - 1)"
  "start_pfn (remove_from_free_area p k s) = start_pfn s"
  "dma_end_pfn (remove_from_free_area p k s) = dma_end_pfn s"
  "buddy_mem_start (remove_from_free_area p k s) = buddy_mem_start s"
  by (simp_all add: remove_from_free_area_def Let_def start_pfn_def)

lemma page_marks [simp]:
  "flags (mark_page_buddy k pg) = PG_BUDDY OR PG_HEAD" "order (mark_page_buddy k pg) = of_nat k"
  "flags (mark_page_allocated k pg) = PG_ALLOCATED OR PG_HEAD" "order (mark_page_allocated k pg) = of_nat k"
  "flags (mark_page_reserved pg) = PG_RESERVED" "flags (clear_page_flags pg) = 0"
  "order (mark_page_reserved pg) = 0" "order (clear_page_flags pg) = 0"
  by (simp_all add: mark_page_buddy_def mark_page_allocated_def mark_page_reserved_def clear_page_flags_def)

lemma inv_holeD:
  assumes "inv_hole H s"
  shows inv_hole_flags: "flags_ok s"
    and inv_hole_lists: "\<exists>fl. free_lists s fl"
    and inv_hole_tiling: "tiling (start_pfn s) (free_set s) (used_set s) H"
  using assms by (simp_all add: inv_hole_def)

lemma inv_hole_no_head:
  "inv_hole H s \<Longrightarrow> p \<in> H \<Longrightarrow> (p, k) \<notin> free_set s \<and> (p, k) \<notin> used_set s"
  using tiling_hole_no_head [OF inv_hole_tiling, of H s p k] by blast

lemma inv_hole_lt: "inv_hole H s \<Longrightarrow> p \<in> H \<Longrightarrow> p < TOTAL_PAGES"
  using tiling_hole [OF inv_hole_tiling, of H s] by auto

text \<open>Filling (part of) the hole with a free block.\<close>

lemma add_to_free_area_free_lists:
  assumes fl: "free_lists s fl" and p: "p < TOTAL_PAGES" and k: "k \<le> MAX_ORDER"
    and new: "\<And>j. (p, j) \<notin> free_set s"
  shows "free_lists (add_to_free_area p k s) (fl(k := fl k @ [p]))"
proof -
  let ?s = "add_to_free_area p k s"
  have F: "free_set ?s = insert (p, k) (free_set s)"
    using p k new by (simp add: head_set_upd head_set_none unat_of_order)
  have sets: "set (fl j) = {q. (q, j) \<in> free_set s}" if "j \<le> MAX_ORDER" for j
    using fl that by (simp add: free_lists_def)
  have "family dlist (nodes ?s) Area {..MAX_ORDER}
      ((\<lambda>j. map Node (fl j))(k := map Node (fl k) @ [Node p]))"
    unfolding add_to_free_area_simps
    by (rule kl.family_add_tail) (use fl k new sets in \<open>auto simp: free_lists_def\<close>)
  moreover have "(\<lambda>j. map Node (fl j))(k := map Node (fl k) @ [Node p])
      = (\<lambda>j. map Node ((fl(k := fl k @ [p])) j))" by auto
  ultimately show ?thesis using fl F sets by (auto simp: free_lists_def)
qed

lemma add_to_free_area_inv:
  assumes inv: "inv_hole H s" and b: "k \<le> MAX_ORDER" "2 ^ k dvd p" "blk (p, k) \<subseteq> H"
    and c: "k < MAX_ORDER \<longrightarrow> (buddy_pfn p k, k) \<notin> free_set s"
  shows "inv_hole (H - blk (p, k)) (add_to_free_area p k s)"
    and "free_set (add_to_free_area p k s) = insert (p, k) (free_set s)"
    and "used_set (add_to_free_area p k s) = used_set s"
proof -
  let ?s = "add_to_free_area p k s"
  have pH: "p \<in> H" using b(3) blk_self by blast
  then have p: "p < TOTAL_PAGES" using inv by (rule inv_hole_lt [rotated])
  have new: "(p, j) \<notin> free_set s \<and> (p, j) \<notin> used_set s" for j
    by (rule inv_hole_no_head [OF inv pH])
  show F: "free_set ?s = insert (p, k) (free_set s)"
    using p b(1) new by (simp add: head_set_upd head_set_none unat_of_order)
  show U: "used_set ?s = used_set s"
    using p new by (simp add: head_set_upd head_set_none)
  obtain fl where fl: "free_lists s fl" using inv_hole_lists [OF inv] by blast
  have "free_lists ?s (fl(k := fl k @ [p]))"
    using add_to_free_area_free_lists [OF fl p b(1)] new by blast
  moreover have "flags_ok ?s" using inv_hole_flags [OF inv] by (auto simp: flags_ok_def)
  moreover have "tiling (start_pfn ?s) (free_set ?s) (used_set ?s) (H - blk (p, k))"
    unfolding F U add_to_free_area_simps(4)
    by (rule tiling_add [OF inv_hole_tiling [OF inv] b]) (use c in blast)
  ultimately show "inv_hole (H - blk (p, k)) ?s" by (auto simp: inv_hole_def)
qed

text \<open>Taking a free block out of its list opens a hole.\<close>

lemma Suc_length_remove1: "x \<in> set xs \<Longrightarrow> Suc (length (remove1 x xs)) = length xs"
  by (induction xs) auto

lemma map_Node_remove1: "map Node (remove1 p xs) = remove1 (Node p) (map Node xs)"
  by (induction xs) auto

lemma remove_from_free_area_free_lists:
  assumes fl: "free_lists s fl" and b: "(p, k) \<in> free_set s" and k: "k \<le> MAX_ORDER"
  shows "free_lists (remove_from_free_area p k s) (fl(k := remove1 p (fl k)))"
proof -
  let ?s = "remove_from_free_area p k s"
  have p: "p < TOTAL_PAGES" using b by (rule head_set_lt)
  have F: "free_set ?s = free_set s - {(p, k)}"
    using p b head_set_minus [OF b] by (simp add: head_set_upd)
  have sets: "set (fl j) = {q. (q, j) \<in> free_set s}" if "j \<le> MAX_ORDER" for j
    using fl that by (simp add: free_lists_def)
  then have mem: "p \<in> set (fl k)" using b k by simp
  have fam: "family dlist (nodes s) Area {..MAX_ORDER} (\<lambda>j. map Node (fl j))"
    using fl by (simp add: free_lists_def)
  have dist: "distinct (fl k)"
    using family_rep [OF fam, of k] k by (auto dest!: dlist_distinct simp: distinct_map)
  have "family dlist (nodes ?s) Area {..MAX_ORDER}
      ((\<lambda>j. map Node (fl j))(k := remove1 (Node p) (map Node (fl k))))"
    unfolding remove_from_free_area_simps
    by (rule kl.family_del [OF fam]) (use k mem in auto)
  moreover have "(\<lambda>j. map Node (fl j))(k := remove1 (Node p) (map Node (fl k)))
      = (\<lambda>j. map Node ((fl(k := remove1 p (fl k))) j))"
    by (auto simp: map_Node_remove1)
  moreover have "of_nat (length (fl k)) - 1 = (of_nat (length (remove1 p (fl k))) :: u32)"
    using Suc_length_remove1 [OF mem] by (metis add_diff_cancel_left' of_nat_Suc)
  ultimately show ?thesis using fl F sets dist by (auto simp: free_lists_def set_remove1_eq)
qed

lemma remove_from_free_area_inv:
  assumes inv: "inv_hole H s" and b: "(p, k) \<in> free_set s"
  shows "inv_hole (H \<union> blk (p, k)) (remove_from_free_area p k s)"
    and "free_set (remove_from_free_area p k s) = free_set s - {(p, k)}"
    and "used_set (remove_from_free_area p k s) = used_set s"
proof -
  let ?s = "remove_from_free_area p k s"
  have p: "p < TOTAL_PAGES" using b by (rule head_set_lt)
  have k: "k \<le> MAX_ORDER" using tiling_block [OF inv_hole_tiling [OF inv], of p k] b by auto
  show F: "free_set ?s = free_set s - {(p, k)}"
    using p b head_set_minus [OF b] by (simp add: head_set_upd)
  show U: "used_set ?s = used_set s"
    using p head_set_other [OF b] by (simp add: head_set_upd)
  have "(p, k) \<notin> used_set s" using tiling_FU [OF inv_hole_tiling [OF inv]] b by blast
  then have nu: "used_set s - {(p, k)} = used_set s" by blast
  obtain fl where fl: "free_lists s fl" using inv_hole_lists [OF inv] by blast
  have "free_lists ?s (fl(k := remove1 p (fl k)))"
    by (rule remove_from_free_area_free_lists [OF fl b k])
  moreover have "flags_ok ?s" using inv_hole_flags [OF inv] by (auto simp: flags_ok_def)
  moreover have "tiling (start_pfn ?s) (free_set ?s) (used_set ?s) (H \<union> blk (p, k))"
    unfolding F U remove_from_free_area_simps(4)
    using tiling_rem [OF inv_hole_tiling [OF inv], of "(p, k)"] b nu by simp
  ultimately show "inv_hole (H \<union> blk (p, k)) ?s" by (auto simp: inv_hole_def)
qed

end
