(* ===== verification/Buddy_Correct.thy ===== *)
theory Buddy_Correct
  imports Buddy_Invariant
begin

text \<open>
  Correctness of the buddy allocator: the splitting loop \<^verbatim>\<open>expand_block\<close>, the merging loop
  \<^verbatim>\<open>buddy_merge_pfn\<close>, the search loop of \<^verbatim>\<open>buddy_alloc_pfn\<close>, the initialisation and the
  public operations preserve \<open>buddy_inv\<close>, and the blocks they hand out and take back are the
  ones asked for.
\<close>

section \<open>Page updates and the invariant\<close>

lemma head_set_upd_same:
  "flags pg = flags (m p) \<Longrightarrow> order pg = order (m p) \<Longrightarrow> head_set f (m(p := pg)) = head_set f m"
  by (auto simp: head_set_def)

lemma inv_hole_cong:
  assumes "inv_hole H s" and "\<And>p. flags (mem_map t p) = flags (mem_map s p)"
    and "\<And>p. order (mem_map t p) = order (mem_map s p)"
    and "nodes t = nodes s" "nr_free t = nr_free s" "buddy_mem_start t = buddy_mem_start s"
  shows "inv_hole H t" and "free_set t = free_set s" and "used_set t = used_set s"
proof -
  have h: "head_set f (mem_map t) = head_set f (mem_map s)" for f
    using assms by (simp add: head_set_def)
  then show "free_set t = free_set s" "used_set t = used_set s" by simp_all
  show "inv_hole H t"
    using assms h by (simp add: inv_hole_def flags_ok_def free_lists_def start_pfn_def)
qed

lemma set_error_sets [simp]:
  "mem_map (buddy_set_error e s) = mem_map s" "nodes (buddy_set_error e s) = nodes s"
  "nr_free (buddy_set_error e s) = nr_free s" "dma_end_pfn (buddy_set_error e s) = dma_end_pfn s"
  "buddy_mem_start (buddy_set_error e s) = buddy_mem_start s"
  "start_pfn (buddy_set_error e s) = start_pfn s" "buddy_last_error (buddy_set_error e s) = e"
  by (simp_all add: buddy_set_error_def start_pfn_def)

lemma set_error_inv [simp]: "inv_hole H (buddy_set_error e s) = inv_hole H s"
  by (auto intro: inv_hole_cong)

lemma free_lists_upd_page:
  "free_lists s fl \<Longrightarrow> free_set (upd_page p f s) = free_set s \<Longrightarrow> free_lists (upd_page p f s) fl"
  by (simp add: free_lists_def)

text \<open>Handing out the hole, and taking an allocated block back.\<close>

lemma mark_allocated_inv:
  assumes inv: "inv_hole H s" and b: "k \<le> MAX_ORDER" "2 ^ k dvd p" "blk (p, k) \<subseteq> H"
  defines "t \<equiv> upd_page p (mark_page_allocated k) s"
  shows "inv_hole (H - blk (p, k)) t" and "free_set t = free_set s"
    and "used_set t = insert (p, k) (used_set s)"
proof -
  have pH: "p \<in> H" using b(3) blk_self by blast
  then have p: "p < TOTAL_PAGES" using inv by (rule inv_hole_lt [rotated])
  have new: "(p, j) \<notin> free_set s \<and> (p, j) \<notin> used_set s" for j
    by (rule inv_hole_no_head [OF inv pH])
  show F: "free_set t = free_set s" using p new by (simp add: t_def head_set_upd head_set_none)
  show U: "used_set t = insert (p, k) (used_set s)"
    using p b(1) new by (simp add: t_def head_set_upd head_set_none unat_of_order)
  obtain fl where "free_lists s fl" using inv_hole_lists [OF inv] by blast
  then have "free_lists t fl" using F unfolding t_def by (rule free_lists_upd_page)
  moreover have "flags_ok t" using inv_hole_flags [OF inv] by (auto simp: t_def flags_ok_def)
  moreover have "start_pfn t = start_pfn s" by (simp add: t_def)
  then have "tiling (start_pfn t) (free_set t) (used_set t) (H - blk (p, k))"
    unfolding F U by (simp only:) (rule tiling_add [OF inv_hole_tiling [OF inv] b], blast)
  ultimately show "inv_hole (H - blk (p, k)) t" by (auto simp: inv_hole_def)
qed

lemma clear_used_inv:
  assumes inv: "inv_hole H s" and b: "(p, k) \<in> used_set s"
  defines "t \<equiv> upd_page p clear_page_flags s"
  shows "inv_hole (H \<union> blk (p, k)) t" and "free_set t = free_set s"
    and "used_set t = used_set s - {(p, k)}"
proof -
  have p: "p < TOTAL_PAGES" using b by (rule head_set_lt)
  show F: "free_set t = free_set s" using p head_set_other [OF b] by (simp add: t_def head_set_upd)
  show U: "used_set t = used_set s - {(p, k)}"
    using p head_set_minus [OF b] by (simp add: t_def head_set_upd)
  obtain fl where "free_lists s fl" using inv_hole_lists [OF inv] by blast
  then have "free_lists t fl" using F unfolding t_def by (rule free_lists_upd_page)
  moreover have "flags_ok t" using inv_hole_flags [OF inv] by (auto simp: t_def flags_ok_def)
  moreover have "(p, k) \<notin> free_set s" using tiling_FU [OF inv_hole_tiling [OF inv]] b by blast
  then have "free_set s - {(p, k)} = free_set s" by blast
  then have "tiling (start_pfn t) (free_set t) (used_set t) (H \<union> blk (p, k))"
    unfolding F U using tiling_rem [OF inv_hole_tiling [OF inv], of "(p, k)"] b by (simp add: t_def)
  ultimately show "inv_hole (H \<union> blk (p, k)) t" by (auto simp: inv_hole_def)
qed

section \<open>The splitting loop\<close>

lemma expand_block_inv:
  assumes "inv_hole H s" "low \<le> high" "high \<le> MAX_ORDER" "2 ^ high dvd p" "blk (p, high) \<subseteq> H"
  shows "\<exists>t. expand_block p high low s = (p, t) \<and>
    inv_hole (H - blk (p, high) \<union> blk (p, low)) t \<and> used_set t = used_set s \<and>
    free_set t = free_set s \<union> {(p + 2 ^ j, j) |j. low \<le> j \<and> j < high} \<and>
    buddy_mem_start t = buddy_mem_start s \<and> dma_end_pfn t = dma_end_pfn s"
  using assms
proof (induction "high - low" arbitrary: high s H)
  case 0
  then have "high = low" by simp
  moreover from 0 have "H - blk (p, high) \<union> blk (p, high) = H" by blast
  moreover have "expand_block p high high s = (p, s)" by (subst expand_block.simps) simp
  ultimately show ?case using 0 by (intro exI [of _ s]) auto
next
  case (Suc n)
  then have "low < high" by simp
  then obtain h where h: "high = Suc h" "low \<le> h" by (cases high) auto
  let ?q = "p + 2 ^ h" and ?t = "add_to_free_area (p + 2 ^ h) h s"
  have dvd: "2 ^ h dvd p" "2 ^ h dvd ?q" using Suc(6) h by (auto dest: power_le_dvd)
  have bq: "buddy_pfn p h = ?q" using xor_exp_nat [OF dvd(1)] Suc(6) h by (simp add: buddy_pfn_alt)
  then have bq: "buddy_pfn ?q h = p" by (metis buddy_pfn_invol)
  have sub: "blk (?q, h) \<subseteq> H" "blk (p, h) \<subseteq> H" using Suc(7) h blk_split [of p h] by auto
  have pH: "p \<in> H" using sub(2) blk_self by blast
  note inv = add_to_free_area_inv [OF Suc(3) _ dvd(2) sub(1)]
  have c: "(buddy_pfn ?q h, h) \<notin> free_set s" unfolding bq using inv_hole_no_head [OF Suc(3) pH] by blast
  have hm: "h \<le> MAX_ORDER" using Suc(5) h by simp
  note inv = inv [OF hm impI [OF c]]
  have n: "n = h - low" using Suc(2) h by simp
  have sub': "blk (p, h) \<subseteq> H - blk (?q, h)" using sub(2) blk_halves_disjoint [of p h] by blast
  from Suc(1) [OF n inv(1) h(2) hm dvd(1) sub', unfolded inv(2,3) add_to_free_area_simps(5,6)]
  obtain t where t: "expand_block p h low ?t = (p, t)"
    "inv_hole (H - blk (?q, h) - blk (p, h) \<union> blk (p, low)) t" "used_set t = used_set s"
    "free_set t = insert (?q, h) (free_set s) \<union> {(p + 2 ^ j, j) |j. low \<le> j \<and> j < h}"
    "buddy_mem_start t = buddy_mem_start s" "dma_end_pfn t = dma_end_pfn s" by (elim exE conjE)
  have "expand_block p high low s = (p, t)"
    using t(1) h by (simp add: expand_block.simps [of p "Suc h"] push_bit_eq_mult)
  moreover have "H - blk (?q, h) - blk (p, h) = H - blk (p, high)"
    unfolding h(1) blk_split by (simp only: Diff_eq Compl_Un Int_ac)
  moreover have "insert (?q, h) {(p + 2 ^ j, j) |j. low \<le> j \<and> j < h}
      = {(p + 2 ^ j, j) |j. low \<le> j \<and> j < high}" using h by (auto simp: less_Suc_eq)
  then have "free_set t = free_set s \<union> {(p + 2 ^ j, j) |j. low \<le> j \<and> j < high}"
    unfolding t(4) by blast
  ultimately show ?case using t by (intro exI [of _ t]) simp
qed

section \<open>The search loop\<close>

lemma free_list_first:
  assumes inv: "inv_hole H s" and k: "k \<le> MAX_ORDER"
  shows "list_empty (Area k) (nodes s) \<longleftrightarrow> (\<forall>p. (p, k) \<notin> free_set s)"
    and "\<not> list_empty (Area k) (nodes s) \<Longrightarrow> (node_pfn (next_of (nodes s) (Area k)), k) \<in> free_set s"
proof -
  obtain fl where fl: "free_lists s fl" using inv_hole_lists [OF inv] by blast
  then have fam: "family dlist (nodes s) Area {..MAX_ORDER} (\<lambda>k. map Node (fl k))"
    and st: "set (fl k) = {p. (p, k) \<in> free_set s}" using k by (auto simp: free_lists_def)
  have d: "dlist (nodes s) (Area k) (map Node (fl k))" using family_rep [OF fam, of k] k by simp
  show "list_empty (Area k) (nodes s) \<longleftrightarrow> (\<forall>p. (p, k) \<notin> free_set s)"
    using dlist_empty [OF d] st by auto
  show "(node_pfn (next_of (nodes s) (Area k)), k) \<in> free_set s" if "\<not> list_empty (Area k) (nodes s)"
    using kl.family_first [OF fam, of k] that k st by auto
qed

text \<open>
  \<open>fit s dma k\<close>: the loop of \<^verbatim>\<open>buddy_alloc_pfn\<close> accepts order \<open>k\<close>, that is, its free list
  is not empty and, for a DMA request, its first block starts inside the DMA zone.
\<close>

definition fit :: "pmm \<Rightarrow> bool \<Rightarrow> nat \<Rightarrow> bool" where
  "fit s dma k \<longleftrightarrow> \<not> list_empty (Area k) (nodes s) \<and>
     (dma \<longrightarrow> node_pfn (next_of (nodes s) (Area k)) < dma_end_pfn s)"

lemma buddy_alloc_from_step:
  "buddy_alloc_from cur ord dma s =
     (if MAX_ORDER < cur then (TOTAL_PAGES, s)
      else if fit s dma cur then
        (let pfn = node_pfn (next_of (nodes s) (Area cur))
         in expand_block pfn cur ord (remove_from_free_area pfn cur s))
      else buddy_alloc_from (Suc cur) ord dma s)"
  by (subst buddy_alloc_from.simps) (auto simp: fit_def Let_def)

lemma buddy_alloc_from_none:
  "\<forall>k. cur \<le> k \<and> k \<le> MAX_ORDER \<longrightarrow> \<not> fit s dma k \<Longrightarrow>
     buddy_alloc_from cur ord dma s = (TOTAL_PAGES, s)"
proof (induction "MAX_ORDER + 1 - cur" arbitrary: cur)
  case (Suc n)
  then show ?case by (subst buddy_alloc_from_step) auto
qed (subst buddy_alloc_from_step, simp)

lemma buddy_alloc_from_some:
  "k \<le> MAX_ORDER \<Longrightarrow> cur \<le> k \<Longrightarrow> fit s dma k \<Longrightarrow> \<forall>j. cur \<le> j \<and> j < k \<longrightarrow> \<not> fit s dma j \<Longrightarrow>
     buddy_alloc_from cur ord dma s =
       (let pfn = node_pfn (next_of (nodes s) (Area k))
        in expand_block pfn k ord (remove_from_free_area pfn k s))"
proof (induction "k - cur" arbitrary: cur)
  case 0
  then show ?case by (subst buddy_alloc_from_step) auto
next
  case (Suc n)
  then have "\<not> fit s dma cur" by auto
  with Suc show ?case by (subst buddy_alloc_from_step) auto
qed

text \<open>What a successful search returns: the block is carved out of one free block.\<close>

definition carved :: "pmm \<Rightarrow> nat \<Rightarrow> nat \<Rightarrow> nat \<Rightarrow> pmm \<Rightarrow> bool" where
  "carved s p k ord t \<longleftrightarrow> (p, k) \<in> free_set s \<and> ord \<le> k \<and> k \<le> MAX_ORDER \<and>
     inv_hole (blk (p, ord)) t \<and> used_set t = used_set s \<and>
     free_set t = free_set s - {(p, k)} \<union> {(p + 2 ^ j, j) |j. ord \<le> j \<and> j < k} \<and>
     buddy_mem_start t = buddy_mem_start s \<and> dma_end_pfn t = dma_end_pfn s"

lemma remove_expand_carved:
  assumes inv: "buddy_inv s" and b: "(p, k) \<in> free_set s" and ord: "ord \<le> k"
  shows "\<exists>t. expand_block p k ord (remove_from_free_area p k s) = (p, t) \<and> carved s p k ord t"
proof -
  have inv: "inv_hole {} s" using inv by (simp add: buddy_inv_def)
  have k: "k \<le> MAX_ORDER" "2 ^ k dvd p"
    using tiling_block [OF inv_hole_tiling [OF inv], of p k] b by auto
  note r = remove_from_free_area_inv [OF inv b]
  from expand_block_inv [OF r(1) ord k] r show ?thesis using b ord k by (auto simp: carved_def)
qed

lemma buddy_alloc_pfn_cases:
  assumes inv: "buddy_inv s"
  obtains (none) "buddy_alloc_pfn ord dma s = (TOTAL_PAGES, s)"
      "\<And>k. ord \<le> k \<Longrightarrow> k \<le> MAX_ORDER \<Longrightarrow> \<not> fit s dma k"
  | (some) p k t where "buddy_alloc_pfn ord dma s = (p, t)" "carved s p k ord t"
      "\<And>j. ord \<le> j \<Longrightarrow> j < k \<Longrightarrow> \<not> fit s dma j" "dma \<Longrightarrow> p < dma_end_pfn s"
      "fit s dma k"
proof (cases "\<exists>k. ord \<le> k \<and> k \<le> MAX_ORDER \<and> fit s dma k")
  case False
  then show ?thesis using none buddy_alloc_from_none [of ord s dma ord] by (auto simp: buddy_alloc_pfn_def)
next
  case True
  define k where "k = (LEAST k. ord \<le> k \<and> k \<le> MAX_ORDER \<and> fit s dma k)"
  have k: "ord \<le> k" "k \<le> MAX_ORDER" "fit s dma k" using LeastI_ex [OF True] by (auto simp: k_def)
  have least: "\<not> fit s dma j" if "ord \<le> j" "j < k" for j
    using not_less_Least [of j "\<lambda>k. ord \<le> k \<and> k \<le> MAX_ORDER \<and> fit s dma k"] that k(2) by (simp add: k_def)
  let ?p = "node_pfn (next_of (nodes s) (Area k))"
  have b: "(?p, k) \<in> free_set s"
    using free_list_first(2) [of "{}" s k] inv k by (simp add: fit_def buddy_inv_def)
  from remove_expand_carved [OF inv b k(1)] obtain t where
    t: "expand_block ?p k ord (remove_from_free_area ?p k s) = (?p, t)" "carved s ?p k ord t" by blast
  then show ?thesis
    using some [of ?p t k] k least buddy_alloc_from_some [of k ord s dma ord]
    by (auto simp: buddy_alloc_pfn_def fit_def)
qed

section \<open>The merging loop\<close>

lemma page_flags_cases:
  assumes "inv_hole H s" and "p < TOTAL_PAGES"
  shows "page_is_buddy (mem_map s p) \<longleftrightarrow> (p, unat (order (mem_map s p))) \<in> free_set s"
    and "page_is_allocated (mem_map s p) \<and> flags (mem_map s p) AND PG_HEAD \<noteq> 0 \<longleftrightarrow>
      (p, unat (order (mem_map s p))) \<in> used_set s"
  using inv_hole_flags [OF assms(1)] assms(2)
  by (auto simp: flags_ok_def head_set_def page_is_buddy_def page_is_allocated_def PG_vals)

definition merged :: "pmm \<Rightarrow> nat \<Rightarrow> nat \<Rightarrow> nat \<Rightarrow> nat \<Rightarrow> pmm \<Rightarrow> bool" where
  "merged s p k p' k' t \<longleftrightarrow> k' \<le> MAX_ORDER \<and> 2 ^ k' dvd p' \<and> blk (p, k) \<subseteq> blk (p', k') \<and>
     inv_hole (blk (p', k')) t \<and> used_set t = used_set s \<and>
     (k' < MAX_ORDER \<longrightarrow> (buddy_pfn p' k', k') \<notin> free_set t) \<and>
     buddy_mem_start t = buddy_mem_start s \<and> dma_end_pfn t = dma_end_pfn s"

lemma buddy_merge_stop:
  assumes "inv_hole H s" and "\<not> (k < MAX_ORDER \<and> (buddy_pfn p k, k) \<in> free_set s)"
  shows "buddy_merge_pfn p k s = (p, k, s)"
  using assms(2) page_flags_cases(1) [OF assms(1), of "buddy_pfn p k"]
  by (subst buddy_merge_pfn.simps) (auto simp: Let_def)

lemma buddy_merge_step:
  assumes "inv_hole H s" and "k < MAX_ORDER" and "(buddy_pfn p k, k) \<in> free_set s"
  shows "buddy_merge_pfn p k s = buddy_merge_pfn (if buddy_pfn p k < p then buddy_pfn p k else p)
    (Suc k) (remove_from_free_area (buddy_pfn p k) k s)"
proof -
  have "buddy_pfn p k < TOTAL_PAGES" "unat (order (mem_map s (buddy_pfn p k))) = k"
    using assms(3) by (auto simp: head_set_def)
  moreover from this have "page_is_buddy (mem_map s (buddy_pfn p k))"
    using assms page_flags_cases(1) by simp
  ultimately show ?thesis using assms(2) by (subst buddy_merge_pfn.simps) (simp add: Let_def)
qed

lemma buddy_merge_inv:
  assumes "inv_hole (blk (p, k)) s" "k \<le> MAX_ORDER" "2 ^ k dvd p"
  shows "\<exists>p' k' t. buddy_merge_pfn p k s = (p', k', t) \<and> merged s p k p' k' t"
  using assms
proof (induction "MAX_ORDER - k" arbitrary: p k s rule: less_induct)
  case less
  show ?case
  proof (cases "k < MAX_ORDER \<and> (buddy_pfn p k, k) \<in> free_set s")
    case False
    with buddy_merge_stop [OF less(2) False] less(2-) show ?thesis by (auto simp: merged_def)
  next
    case True
    let ?m = "if buddy_pfn p k < p then buddy_pfn p k else p"
    let ?s = "remove_from_free_area (buddy_pfn p k) k s"
    note r = remove_from_free_area_inv [OF less(2) True [THEN conjunct2]]
    note m = blk_merge [OF less(4)]
    have k: "MAX_ORDER - Suc k < MAX_ORDER - k" "Suc k \<le> MAX_ORDER" using True by auto
    from less(1) [OF k(1) r(1) [unfolded m(2)] k(2) m(1)]
    obtain p' k' t where t: "buddy_merge_pfn ?m (Suc k) ?s = (p', k', t)" "merged ?s ?m (Suc k) p' k' t"
      by blast
    have "blk (p, k) \<subseteq> blk (?m, Suc k)" using m(2) by blast
    then have "merged s p k p' k' t" using t(2) r(3) by (auto simp: merged_def)
    moreover have "buddy_merge_pfn p k s = (p', k', t)"
      using buddy_merge_step [OF less(2)] True t(1) by simp
    ultimately show ?thesis by blast
  qed
qed

section \<open>Addresses of blocks\<close>

lemma pfn_pa_roundtrip [simp]: "p < TOTAL_PAGES \<Longrightarrow> pa_to_pfn (pfn_to_pa p) = p"
proof -
  assume p: "p < TOTAL_PAGES"
  then have "unat (push_bit 12 (of_nat p :: u64)) = p * 4096"
    by (subst unat_push_bit_noov) (simp_all add: unat_of_nat_noov layout_simps)
  then show ?thesis
    by (simp add: pa_to_pfn_def pfn_to_pa_def unat_drop_bit_div layout_simps)
qed

lemma unat_pfn_to_pa: "p < TOTAL_PAGES \<Longrightarrow> unat (pfn_to_pa p) = 0x40000000 + p * 4096"
proof -
  assume p: "p < TOTAL_PAGES"
  then have "unat (push_bit 12 (of_nat p :: u64)) = p * 4096"
    by (subst unat_push_bit_noov) (simp_all add: unat_of_nat_noov layout_simps)
  with p show ?thesis
    by (simp add: pfn_to_pa_def layout_simps) (subst unat_add_noov, simp_all)
qed

lemma pfn_to_pa_nonzero: "p < TOTAL_PAGES \<Longrightarrow> pfn_to_pa p \<noteq> 0"
  using unat_pfn_to_pa [of p] by (metis add_is_0 unat_0 zero_neq_numeral)

lemma page_aligned_pfn: "p < TOTAL_PAGES \<Longrightarrow> page_aligned (pfn_to_pa p)"
proof -
  assume p: "p < TOTAL_PAGES"
  have "unat (take_bit 12 (pfn_to_pa p)) = 0"
    using unat_pfn_to_pa [OF p] by (simp add: unat_take_bit_mod mod_eq_0_iff_dvd)
  then have "take_bit 12 (pfn_to_pa p) = 0" by (simp only: unat_eq_0)
  then show ?thesis
    by (simp add: page_aligned_def layout_simps take_bit_eq_mask mask_eq_decr_exp)
qed

lemma pfn_aligned_dvd: "pfn_aligned_to_order p k \<longleftrightarrow> 2 ^ k dvd p"
proof -
  have "p AND (push_bit k 1 - 1) = take_bit k p"
    by (simp add: take_bit_eq_mask mask_eq_exp_minus_1 push_bit_eq_mult)
  then show ?thesis by (simp add: pfn_aligned_to_order_def take_bit_eq_mod mod_eq_0_iff_dvd)
qed

lemma pfn_to_pa_range:
  assumes "p < TOTAL_PAGES" and "start_pfn s \<le> p" and "start_ok s"
  shows "pa_in_range s (pfn_to_pa p)"
  using assms unat_pfn_to_pa [of p] unat_pfn_to_pa [of "start_pfn s"]
  by (simp add: pa_in_range_def start_ok_def word_le_nat_alt layout_simps)

lemma pa_pfn:
  assumes "PHYS_MEM_START \<le> pa" and "pa \<le> BUDDY_MEM_END"
  shows "pa_to_pfn pa = (unat pa - 0x40000000) div 4096" and "pa_to_pfn pa < TOTAL_PAGES"
    and "page_aligned pa \<Longrightarrow> pfn_to_pa (pa_to_pfn pa) = pa"
proof -
  have lo: "0x40000000 \<le> unat pa" and hi: "unat pa \<le> 0x4FFFFFFF"
    using assms by (simp_all add: word_le_nat_alt layout_simps)
  then have "unat (pa - 0x40000000) = unat pa - 0x40000000"
    by (subst unat_sub) (simp_all add: word_le_nat_alt)
  then show pfn: "pa_to_pfn pa = (unat pa - 0x40000000) div 4096"
    by (simp add: pa_to_pfn_def unat_drop_bit_div layout_simps)
  show lt: "pa_to_pfn pa < TOTAL_PAGES" using hi pfn by (simp add: layout_simps)
  assume "page_aligned pa"
  then have "unat (take_bit 12 pa) = 0"
    by (simp add: page_aligned_def layout_simps take_bit_eq_mask mask_eq_decr_exp)
  then have "4096 dvd unat pa" by (simp add: unat_take_bit_mod mod_eq_0_iff_dvd)
  then obtain q where "unat pa = 4096 * q" by blast
  with lo pfn have "0x40000000 + pa_to_pfn pa * 4096 = unat pa" by simp
  then have "unat (pfn_to_pa (pa_to_pfn pa)) = unat pa" unfolding unat_pfn_to_pa [OF lt] .
  then show "pfn_to_pa (pa_to_pfn pa) = pa" by (simp only: word_unat_eq_iff)
qed

lemma pa_in_range_pfn:
  assumes "pa_in_range s pa" and "page_aligned pa" and "start_ok s"
  shows "pa_to_pfn pa < TOTAL_PAGES" and "start_pfn s \<le> pa_to_pfn pa" and "pfn_to_pa (pa_to_pfn pa) = pa"
proof -
  have lo: "0x40000000 + start_pfn s * 4096 \<le> unat pa" and hi: "pa \<le> BUDDY_MEM_END"
    using assms unat_pfn_to_pa [of "start_pfn s"]
    by (simp_all add: pa_in_range_def start_ok_def word_le_nat_alt)
  then have "PHYS_MEM_START \<le> pa" by (simp add: word_le_nat_alt layout_simps)
  note p = pa_pfn [OF this hi]
  then show "pa_to_pfn pa < TOTAL_PAGES" "pfn_to_pa (pa_to_pfn pa) = pa" using assms(2) by simp_all
  show "start_pfn s \<le> pa_to_pfn pa" using lo p(1) by linarith
qed

section \<open>The public operations\<close>

lemma buddy_invD: "buddy_inv s \<Longrightarrow> inv_hole {} s" "buddy_inv s \<Longrightarrow> start_ok s"
  by (simp_all add: buddy_inv_def)

lemma buddy_inv_set_error [simp]: "buddy_inv (buddy_set_error e s) = buddy_inv s"
  by (simp add: buddy_inv_def start_ok_def)

lemma buddy_inv_block:
  assumes "buddy_inv s" and "(p, k) \<in> free_set s \<union> used_set s"
  shows "k \<le> MAX_ORDER" and "2 ^ k dvd p" and "p < TOTAL_PAGES" and "start_pfn s \<le> p"
    and "p + 2 ^ k \<le> TOTAL_PAGES"
proof -
  note t = tiling_block [OF inv_hole_tiling [OF buddy_invD(1) [OF assms(1)]] assms(2)]
  then show "k \<le> MAX_ORDER" "2 ^ k dvd p" by simp_all
  have "p \<in> {start_pfn s..<TOTAL_PAGES}" using t blk_self by blast
  then show "p < TOTAL_PAGES" "start_pfn s \<le> p" by simp_all
  have "(1::nat) \<le> 2 ^ k" by simp
  then have "p + 2 ^ k - 1 \<in> blk (p, k)" unfolding blk_mem by linarith
  then have "p + 2 ^ k - 1 \<in> {start_pfn s..<TOTAL_PAGES}" using t by blast
  then show "p + 2 ^ k \<le> TOTAL_PAGES" by auto
qed

lemma upd_ref_count_inv [simp]:
  "inv_hole H (upd_page p (\<lambda>pg. pg\<lparr>ref_count := f pg\<rparr>) s) = inv_hole H s"
  by (auto intro: inv_hole_cong)

lemma head_set_ref_count [simp]:
  "head_set g (m(p := pg\<lparr>ref_count := n\<rparr>)) = head_set g (m(p := pg))"
  by (auto simp: head_set_def)

text \<open>The two outcomes of \<^verbatim>\<open>alloc_phys_pages\<close>, and what the state is after each.\<close>

definition allocated :: "pmm \<Rightarrow> nat \<Rightarrow> nat \<Rightarrow> nat \<Rightarrow> pmm \<Rightarrow> bool" where
  "allocated s p k ord t \<longleftrightarrow> buddy_inv t \<and> (p, k) \<in> free_set s \<and> ord \<le> k \<and>
     used_set t = insert (p, ord) (used_set s) \<and>
     free_set t = free_set s - {(p, k)} \<union> {(p + 2 ^ j, j) |j. ord \<le> j \<and> j < k} \<and>
     ref_count (mem_map t p) = 1 \<and> buddy_last_error t = BUDDY_OK \<and>
     buddy_mem_start t = buddy_mem_start s \<and> dma_end_pfn t = dma_end_pfn s"

lemma carved_allocated:
  assumes inv: "buddy_inv s" and c: "carved s p k ord t"
  shows "allocated s p k ord (buddy_set_error BUDDY_OK
    (upd_page p (\<lambda>p. p\<lparr>ref_count := 1\<rparr>) (upd_page p (mark_page_allocated ord) t)))"
    (is "allocated s p k ord (buddy_set_error BUDDY_OK (upd_page p _ ?u))")
proof -
  have b: "(p, k) \<in> free_set s" "ord \<le> k" using c by (simp_all add: carved_def)
  have "2 ^ k dvd p" "k \<le> MAX_ORDER" using buddy_inv_block [OF inv, of p k] b by auto
  then have d: "2 ^ ord dvd p" "ord \<le> MAX_ORDER" using b(2) by (auto dest: power_le_dvd)
  have h: "inv_hole (blk (p, ord)) t" using c by (simp add: carved_def)
  note m = mark_allocated_inv [OF h d(2,1) subset_refl]
  have "start_ok t" using c buddy_invD(2) [OF inv] by (simp add: carved_def start_ok_def start_pfn_def)
  then have "buddy_inv ?u" using m(1) by (simp add: buddy_inv_def start_ok_def)
  then have "buddy_inv (upd_page p (\<lambda>p. p\<lparr>ref_count := 1\<rparr>) ?u)" by (simp add: buddy_inv_def start_ok_def)
  then show ?thesis using m(2,3) c by (simp add: allocated_def carved_def)
qed

lemma alloc_phys_pages_cases:
  assumes inv: "buddy_inv s" and ord: "ord \<le> MAX_ORDER"
  obtains (none) "alloc_phys_pages ord g s = (0, buddy_set_error BUDDY_ERR_NO_MEMORY s)"
      "\<And>k. ord \<le> k \<Longrightarrow> k \<le> MAX_ORDER \<Longrightarrow> \<not> fit s (g AND GFP_DMA \<noteq> 0) k"
  | (some) p k t where "alloc_phys_pages ord g s = (pfn_to_pa p, t)" "allocated s p k ord t"
      "\<And>j. ord \<le> j \<Longrightarrow> j < k \<Longrightarrow> \<not> fit s (g AND GFP_DMA \<noteq> 0) j" "g AND GFP_DMA \<noteq> 0 \<Longrightarrow> p < dma_end_pfn s"
proof (cases rule: buddy_alloc_pfn_cases [OF inv, of ord "g AND GFP_DMA \<noteq> 0"])
  case 1
  then show ?thesis using none ord by (simp add: alloc_phys_pages_def valid_order_def)
next
  case (2 p k t)
  then have "p < TOTAL_PAGES" using buddy_inv_block(3) [OF inv] by (auto simp: carved_def)
  then show ?thesis using 2 ord some [OF _ carved_allocated [OF inv 2(2)]]
    by (simp add: alloc_phys_pages_def valid_order_def)
qed

text \<open>
  \<^verbatim>\<open>free_phys_pages\<close> takes back exactly the allocated blocks: \<open>free_error\<close> is the error code
  of the checks in their order, \<open>BUDDY_OK\<close> when the block is freed.
\<close>

definition free_error :: "phys_addr_t \<Rightarrow> nat \<Rightarrow> pmm \<Rightarrow> buddy_error" where
  "free_error pa ord s =
     (if \<not> ord \<le> MAX_ORDER then BUDDY_ERR_BAD_ORDER
      else if \<not> pa_in_range s pa then BUDDY_ERR_OUT_OF_RANGE
      else if \<not> page_aligned pa \<or> \<not> 2 ^ ord dvd pa_to_pfn pa then BUDDY_ERR_UNALIGNED
      else if \<exists>k. (pa_to_pfn pa, k) \<in> free_set s then BUDDY_ERR_DOUBLE_FREE
      else if \<not> (\<exists>k. (pa_to_pfn pa, k) \<in> used_set s) then BUDDY_ERR_NOT_ALLOCATED
      else if (pa_to_pfn pa, ord) \<notin> used_set s then BUDDY_ERR_BAD_ORDER
      else BUDDY_OK)"

definition freed :: "pmm \<Rightarrow> nat \<Rightarrow> nat \<Rightarrow> pmm \<Rightarrow> bool" where
  "freed s p ord t \<longleftrightarrow> buddy_inv t \<and> used_set t = used_set s - {(p, ord)} \<and>
     buddy_last_error t = BUDDY_OK \<and>
     buddy_mem_start t = buddy_mem_start s \<and> dma_end_pfn t = dma_end_pfn s \<and>
     (\<exists>q k. (q, k) \<in> free_set t \<and> blk (p, ord) \<subseteq> blk (q, k))"

lemma head_set_ex: "(\<exists>k. (p, k) \<in> head_set f m) \<longleftrightarrow> (p, unat (order (m p))) \<in> head_set f m"
  by (auto simp: head_set_def)

lemma head_set_order: "(p, k) \<in> head_set f m \<Longrightarrow> unat (order (m p)) = k"
  by (simp add: head_set_def)

lemma free_phys_pages_error:
  assumes inv: "buddy_inv s" and e: "free_error pa ord s \<noteq> BUDDY_OK"
  shows "free_phys_pages pa ord s = buddy_set_error (free_error pa ord s) s"
proof (cases "pa_in_range s pa \<and> page_aligned pa")
  case True
  note h = buddy_invD(1) [OF inv]
  have p: "pa_to_pfn pa < TOTAL_PAGES" using pa_in_range_pfn(1) True buddy_invD(2) [OF inv] by blast
  note c = page_flags_cases [OF h p, folded head_set_ex]
  have "\<not> ((pa_to_pfn pa, j) \<in> free_set s \<and> (pa_to_pfn pa, k) \<in> used_set s)" for j k
    using head_set_fst [of "pa_to_pfn pa" j _ "mem_map s" k] PG_neq(1) by blast
  then show ?thesis using True p c e
    by (auto simp: free_phys_pages_def free_error_def valid_order_def pfn_aligned_dvd Let_def
        dest: head_set_order split: if_split_asm)
qed (use e in \<open>auto simp: free_phys_pages_def free_error_def valid_order_def\<close>)

lemma free_phys_pages_ok:
  assumes inv: "buddy_inv s" and b: "(p, ord) \<in> used_set s"
  shows "freed s p ord (free_phys_pages (pfn_to_pa p) ord s)"
proof -
  note p = buddy_inv_block [OF inv, of p ord]
  have lt: "p < TOTAL_PAGES" and sp: "start_pfn s \<le> p" and d: "ord \<le> MAX_ORDER" "2 ^ ord dvd p" using p b by auto
  have chk: "pa_in_range s (pfn_to_pa p)" "page_aligned (pfn_to_pa p)" "pfn_aligned_to_order p ord"
    using pfn_to_pa_range [OF lt sp buddy_invD(2) [OF inv]] page_aligned_pfn [OF lt] d
    by (auto simp: pfn_aligned_dvd)
  have pg: "page_is_allocated (mem_map s p)" "flags (mem_map s p) AND PG_HEAD \<noteq> 0"
    using page_flags_cases(2) [OF buddy_invD(1) [OF inv] lt] b head_set_order [OF b] by auto
  let ?s = "upd_page p clear_page_flags s"
  note c = clear_used_inv [OF buddy_invD(1) [OF inv] b, simplified]
  from buddy_merge_inv [OF c(1) d] obtain p' k' t
    where m: "buddy_merge_pfn p ord ?s = (p', k', t)" "merged ?s p ord p' k' t" by blast
  let ?t = "add_to_free_area p' k' t"
  have eq: "free_phys_pages (pfn_to_pa p) ord s = buddy_set_error BUDDY_OK ?t"
    using m(1) chk pg lt d head_set_order [OF b]
    by (simp add: free_phys_pages_def valid_order_def Let_def)
  have h: "inv_hole (blk (p', k')) t" "k' \<le> MAX_ORDER" "2 ^ k' dvd p'" "blk (p, ord) \<subseteq> blk (p', k')"
    "k' < MAX_ORDER \<longrightarrow> (buddy_pfn p' k', k') \<notin> free_set t" "used_set t = used_set s - {(p, ord)}"
    "buddy_mem_start t = buddy_mem_start s" "dma_end_pfn t = dma_end_pfn s"
    using m(2) c(3) by (simp_all add: merged_def)
  note a = add_to_free_area_inv [OF h(1-3) subset_refl h(5)]
  have "start_ok ?t" using h(7) buddy_invD(2) [OF inv] by (simp add: start_ok_def start_pfn_def)
  then have "buddy_inv ?t" using a(1) by (simp add: buddy_inv_def)
  moreover have "(p', k') \<in> free_set ?t" using a(2) by blast
  ultimately show ?thesis unfolding eq freed_def
    using a(3) h(4,6,7,8) by (simp only: set_error_sets buddy_inv_set_error add_to_free_area_simps(5,6)) blast
qed

end
