(* ===== verification/Buddy_Canonical.thy ===== *)
theory Buddy_Canonical
  imports Buddy_Correct
begin

text \<open>
  Two consequences of the invariant. A coalesced tiling is canonical: the free blocks are
  determined by the allocated ones, so the free lists do not depend on the order in which blocks
  were freed. And the page counters of \<^verbatim>\<open>pmm.c\<close> count the pages of the free blocks.
\<close>

section \<open>Aligned blocks are nested or disjoint\<close>

lemma blk_div: "2 ^ k dvd p \<Longrightarrow> blk (p, k) = {x. x div 2 ^ k = p div 2 ^ k}"
proof -
  assume "2 ^ k dvd p"
  then obtain q where q: "p = 2 ^ k * q" by blast
  have iff: "2 ^ k * q \<le> x \<and> x < 2 ^ k * q + 2 ^ k \<longleftrightarrow> x div 2 ^ k = q" for x :: nat
  proof
    assume "2 ^ k * q \<le> x \<and> x < 2 ^ k * q + 2 ^ k"
    then show "x div 2 ^ k = q" by (intro div_nat_eqI) (simp_all add: mult.commute)
  next
    assume "x div 2 ^ k = q"
    then show "2 ^ k * q \<le> x \<and> x < 2 ^ k * q + 2 ^ k"
      using div_times_less_eq_dividend [of x "2 ^ k"] dividend_less_div_times [of "2 ^ k" x]
      by (simp add: mult.commute add.commute)
  qed
  have "2 ^ k * q div 2 ^ k = q" by simp
  then show ?thesis unfolding blk_def fst_conv snd_conv q by (simp add: iff set_eq_iff)
qed

lemma div_pow_le: "k \<le> j \<Longrightarrow> (x::nat) div 2 ^ j = x div 2 ^ k div 2 ^ (j - k)"
  by (simp add: div_mult2_eq [symmetric] power_add [symmetric])

lemma blk_nested:
  assumes "2 ^ k dvd p" "2 ^ j dvd q" "k \<le> j" "x \<in> blk (p, k)" "x \<in> blk (q, j)"
  shows "blk (p, k) \<subseteq> blk (q, j)"
  using assms(4,5) unfolding blk_div [OF assms(1)] blk_div [OF assms(2)]
  by (auto simp: div_pow_le [OF assms(3)])

lemma blk_eq_iff: "blk (p, k) = blk (q, k) \<longleftrightarrow> p = q"
proof
  assume e: "blk (p, k) = blk (q, k)"
  have "p \<in> blk (q, k)" "q \<in> blk (p, k)" using blk_self [of p k] blk_self [of q k] e by simp_all
  then show "p = q" by (simp add: blk_mem)
qed simp

lemma buddy_blk_sub:
  assumes "2 ^ k dvd p" "2 ^ j dvd q" "k < j" "blk (p, k) \<subseteq> blk (q, j)"
  shows "blk (buddy_pfn p k, k) \<subseteq> blk (q, j)"
proof -
  let ?m = "if buddy_pfn p k < p then buddy_pfn p k else p"
  note m = blk_merge [OF assms(1)]
  have p: "p \<in> blk (?m, Suc k)" "p \<in> blk (q, j)" using m(2) blk_self [of p k] assms(4) by blast+
  have "blk (?m, Suc k) \<subseteq> blk (q, j)"
    by (rule blk_nested [OF m(1) assms(2) _ p]) (use assms(3) in simp)
  then show ?thesis using m(2) by blast
qed

section \<open>The free blocks are determined by the allocated blocks\<close>

lemma tiling_free_pages:
  assumes "tiling lo F U {}"
  shows "\<Union> (blk ` F) = {lo..<TOTAL_PAGES} - \<Union> (blk ` U)"
proof
  have "x \<notin> blk c" if "b \<in> F" "x \<in> blk b" "c \<in> U" for b c x
  proof -
    have "b \<noteq> c" using that tiling_FU [OF assms] by blast
    then have "blk b \<inter> blk c = {}" using that by (intro tiling_disj [OF assms]) auto
    then show ?thesis using that by blast
  qed
  moreover have "blk b \<subseteq> {lo..<TOTAL_PAGES}" if "b \<in> F" for b
    using tiling_block [OF assms, of "fst b" "snd b"] that by auto
  ultimately show "\<Union> (blk ` F) \<subseteq> {lo..<TOTAL_PAGES} - \<Union> (blk ` U)" by blast
  show "{lo..<TOTAL_PAGES} - \<Union> (blk ` U) \<subseteq> \<Union> (blk ` F)" using tiling_cover [OF assms] by blast
qed

text \<open>
  A free block lies inside no larger aligned block all of whose pages are free: a smallest free
  block inside it would have a free buddy.
\<close>

lemma tiling_maximal:
  assumes t: "tiling lo F U {}" and j: "j \<le> MAX_ORDER" "2 ^ j dvd q"
    and sub: "blk (q, j) \<subseteq> \<Union> (blk ` F)"
  shows "(p, k) \<in> F \<Longrightarrow> k < j \<Longrightarrow> \<not> blk (p, k) \<subseteq> blk (q, j)"
proof (induction k arbitrary: p rule: less_induct)
  case (less k)
  show ?case
  proof
    assume pk: "blk (p, k) \<subseteq> blk (q, j)"
    have dp: "2 ^ k dvd p" using tiling_block [OF t, of p k] less(2) by blast
    let ?b = "buddy_pfn p k"
    have "blk (?b, k) \<subseteq> blk (q, j)" by (rule buddy_blk_sub [OF dp j(2) less(3) pk])
    then have "?b \<in> \<Union> (blk ` F)" using sub blk_self by blast
    then obtain r i where ri: "(r, i) \<in> F" "?b \<in> blk (r, i)" by force
    have dr: "2 ^ i dvd r" using tiling_block [OF t, of r i] ri by blast
    have db: "2 ^ k dvd ?b" by (rule buddy_pfn_dvd [OF dp])
    consider "i < k" | "i = k" | "k < i" by linarith
    then show False
    proof cases
      case 1
      then have "blk (r, i) \<subseteq> blk (?b, k)" by (intro blk_nested [OF dr db _ ri(2) blk_self]) simp
      then have "blk (r, i) \<subseteq> blk (q, j)" using \<open>blk (?b, k) \<subseteq> blk (q, j)\<close> by blast
      with less(1) [OF 1 ri(1)] 1 less(3) show False by simp
    next
      case 2
      then have "blk (?b, k) \<subseteq> blk (r, k)" using ri(2) dr by (intro blk_nested [OF db _ _ blk_self]) auto
      moreover have "card (blk (r, k)) = card (blk (?b, k))" by simp
      ultimately have "blk (?b, k) = blk (r, k)" by (intro card_subset_eq) auto
      then have "(?b, k) \<in> F" using ri 2 by (simp add: blk_eq_iff)
      moreover have "k < MAX_ORDER" using less(3) j(1) by simp
      ultimately show False using tiling_coalesced [OF t less(2)] by blast
    next
      case 3
      have "blk (?b, k) \<subseteq> blk (r, i)" using 3 by (intro blk_nested [OF db dr _ blk_self ri(2)]) simp
      from buddy_blk_sub [OF db dr 3 this] have "blk (p, k) \<subseteq> blk (r, i)" by simp
      moreover have "blk (p, k) \<inter> blk (r, i) = {}"
        using 3 less(2) ri(1) by (intro tiling_disj [OF t]) auto
      ultimately show False using blk_self by blast
    qed
  qed
qed

lemma tiling_canonical_sub:
  assumes t: "tiling lo F U {}" and t': "tiling lo F' U {}"
  shows "F \<subseteq> F'"
proof
  fix b assume "b \<in> F"
  then obtain p k where b: "b = (p, k)" "(p, k) \<in> F" by (cases b) auto
  have pages: "\<Union> (blk ` F) = \<Union> (blk ` F')" using tiling_free_pages t t' by simp
  then obtain q j where q: "(q, j) \<in> F'" "p \<in> blk (q, j)" using b(2) blk_self [of p k] by force
  have d: "k \<le> MAX_ORDER" "2 ^ k dvd p" "j \<le> MAX_ORDER" "2 ^ j dvd q"
    using tiling_block [OF t, of p k] tiling_block [OF t', of q j] b q by auto
  have sub: "blk (p, k) \<subseteq> \<Union> (blk ` F')" "blk (q, j) \<subseteq> \<Union> (blk ` F)"
    using pages b(2) q(1) by blast+
  consider "k < j" | "j < k" | "j = k" by linarith
  then have "(p, k) = (q, j)"
  proof cases
    case 1
    with tiling_maximal [OF t d(3,4) sub(2) b(2)] blk_nested [OF d(2,4) _ blk_self q(2)] show ?thesis by simp
  next
    case 2
    with tiling_maximal [OF t' d(1,2) sub(1) q(1)] blk_nested [OF d(4,2) _ q(2) blk_self] show ?thesis by simp
  next
    case 3
    with blk_nested [OF d(4,2) _ q(2) blk_self] blk_nested [OF d(2,4) _ blk_self q(2)] show ?thesis
      by (metis blk_eq_iff order_refl subset_antisym)
  qed
  then show "b \<in> F'" using b q by simp
qed

lemma tiling_canonical: "tiling lo F U {} \<Longrightarrow> tiling lo F' U {} \<Longrightarrow> F = F'"
  by (intro subset_antisym tiling_canonical_sub)

lemma buddy_inv_canonical:
  "buddy_inv s \<Longrightarrow> buddy_inv t \<Longrightarrow> buddy_mem_start s = buddy_mem_start t \<Longrightarrow>
     used_set s = used_set t \<Longrightarrow> free_set s = free_set t"
  by (rule tiling_canonical [of "start_pfn s" _ "used_set s"])
     (auto dest!: buddy_invD(1) inv_hole_tiling simp: start_pfn_def)

section \<open>Counting pages\<close>

definition free_pages :: "pmm \<Rightarrow> nat" where
  "free_pages s = card (\<Union> (blk ` free_set s))"

definition used_pages :: "pmm \<Rightarrow> nat" where
  "used_pages s = card (\<Union> (blk ` used_set s))"

lemma finite_head_set [simp]: "finite (head_set f m)"
proof -
  have "head_set f m \<subseteq> (\<lambda>p. (p, unat (order (m p)))) ` {..<TOTAL_PAGES}" by (auto simp: head_set_def)
  then show ?thesis by (rule finite_subset) simp
qed

lemma card_blocks:
  assumes "finite B" and "\<And>b c. b \<in> B \<Longrightarrow> c \<in> B \<Longrightarrow> b \<noteq> c \<Longrightarrow> blk b \<inter> blk c = {}"
  shows "card (\<Union> (blk ` B)) = (\<Sum>b \<in> B. 2 ^ snd b)"
  using assms by (subst card_UN_disjoint) auto

lemma free_pages_sum:
  assumes "buddy_inv s"
  shows "free_pages s = (\<Sum>k \<le> MAX_ORDER. card {p. (p, k) \<in> free_set s} * 2 ^ k)"
proof -
  note t = inv_hole_tiling [OF buddy_invD(1) [OF assms]]
  let ?S = "\<lambda>k. (\<lambda>p. (p, k)) ` {p. (p, k) \<in> free_set s}"
  have fin: "finite {p. (p, k) \<in> free_set s}" for k
    by (rule finite_subset [of _ "fst ` free_set s"]) force+
  have "free_set s = (\<Union>k \<le> MAX_ORDER. ?S k)" using buddy_inv_block(1) [OF assms] by force
  moreover have "(\<Sum>b \<in> (\<Union>k \<le> MAX_ORDER. ?S k). (2::nat) ^ snd b) = (\<Sum>k \<le> MAX_ORDER. \<Sum>b \<in> ?S k. 2 ^ snd b)"
    using fin by (intro sum.UNION_disjoint) auto
  moreover have "(\<Sum>b \<in> ?S k. 2 ^ snd b) = card {p. (p, k) \<in> free_set s} * 2 ^ k" for k
    by (subst sum.reindex) (auto simp: inj_on_def)
  moreover have "free_pages s = (\<Sum>b \<in> free_set s. 2 ^ snd b)"
    unfolding free_pages_def using tiling_disj [OF t] by (intro card_blocks) auto
  ultimately show ?thesis by simp
qed

lemma pages_total:
  assumes "buddy_inv s"
  shows "free_pages s + used_pages s + start_pfn s = TOTAL_PAGES"
proof -
  note t = inv_hole_tiling [OF buddy_invD(1) [OF assms]]
  have U: "\<Union> (blk ` used_set s) \<subseteq> {start_pfn s..<TOTAL_PAGES}" using tiling_block [OF t] by fastforce
  have "card (\<Union> (blk ` used_set s)) \<le> TOTAL_PAGES - start_pfn s" using card_mono [OF _ U] by simp
  moreover have "free_pages s = TOTAL_PAGES - start_pfn s - used_pages s"
    unfolding free_pages_def used_pages_def tiling_free_pages [OF t] using U
    by (subst card_Diff_subset) (auto intro: finite_subset)
  moreover have "start_pfn s < TOTAL_PAGES" using buddy_invD(2) [OF assms] by (simp add: start_ok_def)
  ultimately show ?thesis unfolding used_pages_def by linarith
qed

lemma nr_free_card:
  assumes "buddy_inv s" and "k \<le> MAX_ORDER"
  shows "nr_free s k = of_nat (card {p. (p, k) \<in> free_set s})"
proof -
  obtain fl where fl: "free_lists s fl" using inv_hole_lists [OF buddy_invD(1) [OF assms(1)]] by blast
  then have "dlist (nodes s) (Area k) (map Node (fl k))"
    using family_rep [of dlist "nodes s" Area "{..MAX_ORDER}" _ k] assms(2) by (auto simp: free_lists_def)
  then have "distinct (fl k)" by (auto dest!: dlist_distinct simp: distinct_map)
  then have "card (set (fl k)) = length (fl k)" by (rule distinct_card)
  then show ?thesis using fl assms(2) by (auto simp: free_lists_def)
qed

lemma fold_add_sum: "fold (\<lambda>k acc. acc + f k) [0..<n] (a :: 'a::comm_monoid_add) = a + (\<Sum>k<n. f k)"
  by (induction n) (auto simp: add.assoc)

lemma free_pages_total:
  assumes "buddy_inv s"
  shows "unat (buddy_nr_free_pages_total s) = free_pages s"
proof -
  have "buddy_nr_free_pages_total s = (\<Sum>k \<le> MAX_ORDER. nr_free s k * 2 ^ k)"
    by (simp add: buddy_nr_free_pages_total_def fold_add_sum push_bit_eq_mult lessThan_Suc_atMost del: upt_Suc)
  also have "\<dots> = (\<Sum>k \<le> MAX_ORDER. of_nat (card {p. (p, k) \<in> free_set s} * 2 ^ k))"
    using nr_free_card [OF assms] by (intro sum.cong) auto
  also have "\<dots> = of_nat (free_pages s)" by (simp add: free_pages_sum [OF assms])
  finally show ?thesis using pages_total [OF assms] by (simp add: unat_of_nat_noov layout_simps)
qed

end
