(* ===== verification/Buddy_Init.thy ===== *)
theory Buddy_Init
  imports Buddy_Canonical
begin

text \<open>
  \<^verbatim>\<open>buddy_init\<close> establishes the invariant from any state: the reserved region below the managed
  memory keeps no block, and the greedy loop that releases the managed region block by block
  produces a coalesced tiling.
\<close>

section \<open>The page loops\<close>

lemma fold_upd_page_same [simp]:
  "nodes (fold (\<lambda>i. upd_page (g i) f) xs s) = nodes s"
  "nr_free (fold (\<lambda>i. upd_page (g i) f) xs s) = nr_free s"
  "buddy_mem_start (fold (\<lambda>i. upd_page (g i) f) xs s) = buddy_mem_start s"
  "dma_end_pfn (fold (\<lambda>i. upd_page (g i) f) xs s) = dma_end_pfn s"
  by (induction xs arbitrary: s) simp_all

lemma fold_upd_page_map:
  assumes "inj_on g (set xs)" and "distinct xs"
  shows "mem_map (fold (\<lambda>i. upd_page (g i) f) xs s) p =
    (if p \<in> g ` set xs then f (mem_map s p) else mem_map s p)"
  using assms
proof (induction xs arbitrary: s)
  case (Cons x xs)
  then have "g x \<notin> g ` set xs" by (auto simp: inj_on_def)
  with Cons show ?case by auto
qed simp

lemma head_set_clear:
  "f \<noteq> 0 \<Longrightarrow> head_set f (m(p := clear_page_flags pg)) = {b \<in> head_set f m. fst b \<noteq> p}"
  by (auto simp: head_set_def)

lemma clear_pages_inv:
  assumes inv: "inv_hole H s" and none: "\<And>p k. p \<in> set ps \<Longrightarrow> (p, k) \<notin> free_set s \<and> (p, k) \<notin> used_set s"
  shows "inv_hole H (clear_pages ps s) \<and> free_set (clear_pages ps s) = free_set s \<and>
    used_set (clear_pages ps s) = used_set s \<and> buddy_mem_start (clear_pages ps s) = buddy_mem_start s \<and>
    dma_end_pfn (clear_pages ps s) = dma_end_pfn s"
  using assms
proof (induction ps arbitrary: s)
  case (Cons p ps)
  let ?t = "upd_page p clear_page_flags s"
  have F: "free_set ?t = free_set s" and U: "used_set ?t = used_set s"
    using Cons(3) [of p] by (simp_all add: head_set_clear head_set_none)
  obtain fl where "free_lists s fl" using inv_hole_lists [OF Cons(2)] by blast
  then have "free_lists ?t fl" using F by (rule free_lists_upd_page)
  moreover have "flags_ok ?t" using inv_hole_flags [OF Cons(2)] by (auto simp: flags_ok_def)
  moreover have "tiling (start_pfn ?t) (free_set ?t) (used_set ?t) H"
    unfolding F U using inv_hole_tiling [OF Cons(2)] by simp
  ultimately have inv: "inv_hole H ?t" by (auto simp: inv_hole_def)
  have "inv_hole H (clear_pages ps ?t) \<and> free_set (clear_pages ps ?t) = free_set ?t \<and>
    used_set (clear_pages ps ?t) = used_set ?t \<and> buddy_mem_start (clear_pages ps ?t) = buddy_mem_start ?t \<and>
    dma_end_pfn (clear_pages ps ?t) = dma_end_pfn ?t"
    by (rule Cons(1) [OF inv]) (unfold F U, use Cons(3) in auto)
  then show ?case unfolding F U by (simp add: clear_pages_def)
qed (simp add: clear_pages_def)

section \<open>The greedy release loop\<close>

lemma init_order_spec:
  assumes "0 < remain"
  shows "init_order p remain m \<le> m \<and> 2 ^ init_order p remain m \<le> remain \<and> 2 ^ init_order p remain m dvd p \<and>
    (\<forall>k \<le> m. 2 ^ k \<le> remain \<and> 2 ^ k dvd p \<longrightarrow> k \<le> init_order p remain m)"
proof (induction m)
  case 0
  then show ?case using assms by (subst (1 2 3 4) init_order.simps) simp
next
  case (Suc m)
  show ?case
  proof (cases "2 ^ Suc m \<le> remain \<and> 2 ^ Suc m dvd p")
    case True
    then have "init_order p remain (Suc m) = Suc m"
      by (subst init_order.simps) (simp add: pfn_aligned_dvd push_bit_eq_mult)
    with True show ?thesis by simp
  next
    case False
    then have "init_order p remain (Suc m) = init_order p remain m"
      by (subst init_order.simps) (auto simp: pfn_aligned_dvd push_bit_eq_mult)
    with Suc False show ?thesis by (auto simp: le_Suc_eq)
  qed
qed

text \<open>
  While the loop runs, a released block that could be the left half of a larger one is cut
  short only by the end of memory.
\<close>

definition greedy :: "pmm \<Rightarrow> bool" where
  "greedy s \<longleftrightarrow> (\<forall>(q, j) \<in> free_set s. j < MAX_ORDER \<and> 2 ^ Suc j dvd q \<longrightarrow> TOTAL_PAGES < q + 2 ^ Suc j)"

lemma init_block_step:
  assumes inv: "inv_hole {p..<TOTAL_PAGES} s" and p: "p < TOTAL_PAGES" and g: "greedy s"
  defines "k \<equiv> init_order p (TOTAL_PAGES - p) MAX_ORDER"
  shows "inv_hole {p + 2 ^ k..<TOTAL_PAGES} (init_block p k s) \<and> greedy (init_block p k s) \<and>
    used_set (init_block p k s) = used_set s \<and> buddy_mem_start (init_block p k s) = buddy_mem_start s \<and>
    dma_end_pfn (init_block p k s) = dma_end_pfn s \<and> p + 2 ^ k \<le> TOTAL_PAGES"
proof -
  have k: "k \<le> MAX_ORDER" "2 ^ k \<le> TOTAL_PAGES - p" "2 ^ k dvd p"
    and mx: "\<And>j. j \<le> MAX_ORDER \<Longrightarrow> 2 ^ j \<le> TOTAL_PAGES - p \<Longrightarrow> 2 ^ j dvd p \<Longrightarrow> j \<le> k"
    using init_order_spec [of "TOTAL_PAGES - p" p MAX_ORDER] p by (auto simp: k_def)
  let ?H = "{p..<TOTAL_PAGES}"
  have fit: "p + 2 ^ k \<le> TOTAL_PAGES" using k(2) p by simp
  have sub: "blk (p, k) \<subseteq> ?H" using fit by (auto simp: blk_mem)
  let ?u = "upd_page p clear_page_flags s"
  have pn: "(p, j) \<notin> free_set s \<and> (p, j) \<notin> used_set s" for j using inv_hole_no_head [OF inv] p by simp
  have u: "inv_hole ?H ?u" "free_set ?u = free_set s" "used_set ?u = used_set s"
    using clear_pages_inv [OF inv, of "[p]"] pn by (simp_all add: clear_pages_def)
  have c: "k < MAX_ORDER \<longrightarrow> (buddy_pfn p k, k) \<notin> free_set ?u"
  proof (intro impI notI)
    assume that: "k < MAX_ORDER" and b: "(buddy_pfn p k, k) \<in> free_set ?u"
    from k(3) show False
    proof (cases rule: buddy_pfn_cases)
      case left
      then have "buddy_pfn p k \<in> ?H" using head_set_lt [OF b] by simp
      then show False using inv_hole_no_head [OF u(1)] b by blast
    next
      case right
      with b g u(2) that have "TOTAL_PAGES < p - 2 ^ k + 2 ^ Suc k" by (auto simp: greedy_def)
      then show False using right(1) fit by simp
    qed
  qed
  note a = add_to_free_area_inv [OF u(1) k(1,3) sub c]
  let ?a = "add_to_free_area p k ?u"
  have H: "?H - blk (p, k) = {p + 2 ^ k..<TOTAL_PAGES}" using fit by (auto simp: blk_mem)
  have none: "(q, j) \<notin> free_set ?a \<and> (q, j) \<notin> used_set ?a" if "q \<in> set [p + 1..<p + push_bit k 1]" for q j
  proof -
    have q: "q \<in> ?H" "q \<noteq> p" using that fit by (auto simp: push_bit_eq_mult)
    then show ?thesis unfolding a(2,3) u(2,3) using inv_hole_no_head [OF inv q(1)] by blast
  qed
  note cl = clear_pages_inv [OF a(1), of "[p + 1..<p + push_bit k 1]", OF none]
  have F: "free_set (init_block p k s) = insert (p, k) (free_set s)"
    using cl unfolding a(2) u(2) init_block_def Let_def by blast
  have big: "TOTAL_PAGES < p + 2 ^ Suc k" if "k < MAX_ORDER" "2 ^ Suc k dvd p"
    using mx [of "Suc k"] that by (cases "2 ^ Suc k \<le> TOTAL_PAGES - p") auto
  have "greedy (init_block p k s)"
    unfolding greedy_def F using g big by (auto simp: greedy_def)
  then show ?thesis
    using cl fit unfolding H a(3) u(3) init_block_def Let_def by simp
qed

lemma init_blocks_inv:
  assumes "inv_hole {p..<TOTAL_PAGES} s" "p \<le> TOTAL_PAGES" "greedy s"
  shows "inv_hole {} (init_blocks p (TOTAL_PAGES - p) s) \<and>
    used_set (init_blocks p (TOTAL_PAGES - p) s) = used_set s \<and>
    buddy_mem_start (init_blocks p (TOTAL_PAGES - p) s) = buddy_mem_start s \<and>
    dma_end_pfn (init_blocks p (TOTAL_PAGES - p) s) = dma_end_pfn s"
  using assms
proof (induction "TOTAL_PAGES - p" arbitrary: p s rule: less_induct)
  case less
  show ?case
  proof (cases "p < TOTAL_PAGES")
    case False
    with less show ?thesis by (subst (1 2 3 4) init_blocks.simps) simp
  next
    case True
    let ?k = "init_order p (TOTAL_PAGES - p) MAX_ORDER"
    note st = init_block_step [OF less(2) True less(4)]
    have lt: "TOTAL_PAGES - (p + 2 ^ ?k) < TOTAL_PAGES - p" using True by (intro diff_less_mono2) simp_all
    have "init_blocks p (TOTAL_PAGES - p) s =
        init_blocks (p + 2 ^ ?k) (TOTAL_PAGES - (p + 2 ^ ?k)) (init_block p ?k s)"
      using True by (subst init_blocks.simps) (simp add: Let_def push_bit_eq_mult)
    with less(1) [OF lt, of "init_block p ?k s"] st show ?thesis by simp
  qed
qed

section \<open>Initialisation\<close>

lemma init_area_simps [simp]:
  "nodes (init_area i s) = INIT_LIST_HEAD (Area i) (nodes s)" "nr_free (init_area i s) = (nr_free s)(i := 0)"
  "buddy_mem_start (init_area i s) = buddy_mem_start s" "dma_end_pfn (init_area i s) = dma_end_pfn s"
  by (simp_all add: init_area_def)

lemma init_areas:
  "n \<le> NR_ORDERS \<Longrightarrow> family dlist (nodes (fold init_area [0..<n] s)) Area {..<n} (\<lambda>_. []) \<and>
     (\<forall>k < n. nr_free (fold init_area [0..<n] s) k = 0) \<and>
     buddy_mem_start (fold init_area [0..<n] s) = buddy_mem_start s \<and>
     dma_end_pfn (fold init_area [0..<n] s) = dma_end_pfn s"
proof (induction n)
  case 0
  then show ?case by (simp add: family_def)
next
  case (Suc n)
  then have "family dlist (INIT_LIST_HEAD (Area n) (nodes (fold init_area [0..<n] s))) Area
      (insert n {..<n}) (\<lambda>_. [])"
    by (intro kl.family_init) (auto simp: inj_on_def)
  with Suc show ?case by (simp add: lessThan_Suc less_Suc_eq)
qed

lemma init_pages:
  "buddy_mem_start (fold init_page [0..<n] s) = buddy_mem_start s \<and>
   dma_end_pfn (fold init_page [0..<n] s) = dma_end_pfn s \<and>
   nr_free (fold init_page [0..<n] s) = nr_free s \<and>
   (\<forall>p < n. flags (mem_map (fold init_page [0..<n] s) p) = 0) \<and>
   (family dlist (nodes s) Area I (\<lambda>_. []) \<longrightarrow>
     family dlist (nodes (fold init_page [0..<n] s)) Area I (\<lambda>_. []))"
proof (induction n)
  case (Suc n)
  have "family dlist (INIT_LIST_HEAD (Node n) h) Area I (\<lambda>_. [])" if "family dlist h Area I (\<lambda>_. [])" for h
    using that by (auto simp: family_def intro: dlist_INIT_frame)
  with Suc show ?case by (auto simp: init_page_def Let_def less_Suc_eq)
qed simp

lemma ALIGN_page_aligned: "page_aligned (ALIGN x PAGE_SIZE)"
proof -
  have "ALIGN x PAGE_SIZE = (x + PAGE_SIZE - 1) AND NOT (mask 12)"
    by (simp add: ALIGN_def layout_simps mask_eq_decr_exp)
  moreover have "take_bit 12 (w AND NOT (mask 12)) = 0" for w :: u64
    by (rule bit_word_eqI) (auto simp: bit_simps)
  ultimately have "take_bit 12 (ALIGN x PAGE_SIZE) = 0" by simp
  then show ?thesis by (simp add: page_aligned_def layout_simps take_bit_eq_mask mask_eq_decr_exp)
qed

definition mem_start_of :: "u64 \<Rightarrow> u64" where
  "mem_start_of kernel_end = ALIGN (kernel_end - 0xffff800000000000) PAGE_SIZE"

lemma managed_pages:
  assumes "PHYS_MEM_START \<le> start" and "start \<le> BUDDY_MEM_END" and "page_aligned start"
  shows "unat (drop_bit PAGE_SHIFT (BUDDY_MEM_END - start + 1)) = TOTAL_PAGES - pa_to_pfn start"
proof -
  note p = pa_pfn [OF assms(1,2)]
  have s: "unat start = 0x40000000 + pa_to_pfn start * 4096"
    using unat_pfn_to_pa [OF p(2)] p(3) [OF assms(3)] by simp
  have d: "unat (BUDDY_MEM_END - start) = 0x4FFFFFFF - unat start"
    using assms(2) by (subst unat_sub) (simp_all add: layout_simps)
  then have "unat (BUDDY_MEM_END - start + 1) = 0x4FFFFFFF - unat start + 1"
    by (subst unat_add_noov) simp_all
  also have "\<dots> = (65536 - pa_to_pfn start) * 4096"
    using s p(2) by (simp add: layout_simps algebra_simps diff_mult_distrib)
  finally show ?thesis by (simp add: unat_drop_bit_div layout_simps)
qed

lemma inv_hole_fresh:
  assumes "family dlist (nodes s) Area {..MAX_ORDER} (\<lambda>_. [])" and "\<forall>k \<le> MAX_ORDER. nr_free s k = 0"
    and fl: "\<And>p. p < TOTAL_PAGES \<Longrightarrow> flags (mem_map s p) = PG_RESERVED"
  shows "inv_hole {start_pfn s..<TOTAL_PAGES} s" and "free_set s = {}" and "used_set s = {}"
proof -
  show F: "free_set s = {}" and U: "used_set s = {}" using fl by (auto simp: head_set_def)
  have "free_lists s (\<lambda>_. [])" using assms F by (simp add: free_lists_def)
  moreover have "flags_ok s" using fl by (simp add: flags_ok_def)
  ultimately show "inv_hole {start_pfn s..<TOTAL_PAGES} s"
    unfolding inv_hole_def F U by (auto simp: tiling_def)
qed

lemma reserve_pages:
  fixes s :: pmm
  assumes "k \<le> TOTAL_PAGES" and "p < TOTAL_PAGES"
  defines "s6 \<equiv> fold (\<lambda>i. upd_page i mark_page_reserved) [0..<k] s"
  shows "flags (mem_map (fold (\<lambda>i. upd_page (k + i) mark_page_reserved) [0..<TOTAL_PAGES - k] s6) p) = PG_RESERVED"
proof -
  have "p \<in> (+) k ` {0..<TOTAL_PAGES - k} \<or> p \<in> {0..<k}"
    using assms(2) by (auto simp: image_iff)
  then show ?thesis
    unfolding s6_def using fold_upd_page_map [of id "[0..<k]" mark_page_reserved s p]
    by (subst fold_upd_page_map) (auto simp: inj_on_def)
qed

lemma buddy_init_establishes:
  assumes "PHYS_MEM_START \<le> mem_start_of kernel_end" and "mem_start_of kernel_end \<le> BUDDY_MEM_END"
  shows "buddy_inv (buddy_init kernel_end s0)" and "used_set (buddy_init kernel_end s0) = {}"
    and "buddy_mem_start (buddy_init kernel_end s0) = mem_start_of kernel_end"
proof -
  let ?st = "mem_start_of kernel_end" and ?k = "pa_to_pfn (mem_start_of kernel_end)"
  define dend where "dend = (if ?st + DMA_ZONE_SIZE > BUDDY_MEM_END then BUDDY_MEM_END else ?st + DMA_ZONE_SIZE)"
  define s3 where "s3 = (buddy_set_error BUDDY_OK s0)\<lparr>buddy_mem_start := ?st, dma_end_pfn := pa_to_pfn dend\<rparr>"
  define s4 where "s4 = fold init_area [0..<NR_ORDERS] s3"
  define s5 where "s5 = fold init_page [0..<TOTAL_PAGES] s4"
  define s6 where "s6 = fold (\<lambda>i. upd_page i mark_page_reserved) [0..<?k] s5"
  define s7 where "s7 = fold (\<lambda>i. upd_page (?k + i) mark_page_reserved) [0..<TOTAL_PAGES - ?k] s6"
  have al: "page_aligned ?st" by (simp add: mem_start_of_def ALIGN_page_aligned)
  note pfn = pa_pfn [OF assms] and m = managed_pages [OF assms al]
  have init: "buddy_init kernel_end s0 = init_blocks ?k (TOTAL_PAGES - ?k) s7"
    unfolding s7_def s6_def s5_def s4_def s3_def dend_def buddy_init_def Let_def mem_start_of_def [symmetric] m by simp
  have s4: "family dlist (nodes s4) Area {..MAX_ORDER} (\<lambda>_. [])" "\<forall>k \<le> MAX_ORDER. nr_free s4 k = 0"
    "buddy_mem_start s4 = ?st"
    using init_areas [of NR_ORDERS s3] by (simp_all add: s4_def s3_def NR_ORDERS_def lessThan_Suc_atMost)
  have s5: "family dlist (nodes s5) Area {..MAX_ORDER} (\<lambda>_. [])" "nr_free s5 = nr_free s4"
    "buddy_mem_start s5 = ?st"
    using init_pages [where n = TOTAL_PAGES and s = s4 and I = "{..MAX_ORDER}"] s4 by (simp_all add: s5_def)
  have s7: "nodes s7 = nodes s5" "nr_free s7 = nr_free s5" "buddy_mem_start s7 = ?st"
    using s5 fold_upd_page_same [where g = "\<lambda>i. i"] by (simp_all add: s7_def s6_def)
  have "flags (mem_map s7 p) = PG_RESERVED" if "p < TOTAL_PAGES" for p
    unfolding s7_def s6_def using pfn(2) that by (intro reserve_pages) simp_all
  note h = inv_hole_fresh [of s7, unfolded s7 s5(2), OF s5(1) s4(2) this]
  have sp: "start_pfn s7 = ?k" by (simp add: start_pfn_def s7)
  have "greedy s7" by (simp add: greedy_def h(2))
  note r = init_blocks_inv [OF h(1) [unfolded sp] _ this] 
  then show U: "used_set (buddy_init kernel_end s0) = {}"
    and bs: "buddy_mem_start (buddy_init kernel_end s0) = ?st" using pfn(2) h(3) s7(3) by (simp_all add: init)
  have "start_ok (buddy_init kernel_end s0)"
    using bs pfn(2,3) al by (simp add: start_ok_def start_pfn_def)
  then show "buddy_inv (buddy_init kernel_end s0)" using r pfn(2) by (simp add: buddy_inv_def init)
qed

end
