(* ===== verification/Buddy_Properties.thy ===== *)
theory Buddy_Properties
  imports Buddy_Init
begin

text \<open>
  The properties of the buddy allocator: what initialisation, allocation and release do on every
  branch, the reachable states, the canonical form of the free lists, the page accounting and
  the reference counts.
\<close>

section \<open>Every operation preserves the invariant\<close>

lemma alloc_phys_pages_inv:
  assumes "buddy_inv s"
  shows "buddy_inv (snd (alloc_phys_pages ord g s))"
    and "buddy_mem_start (snd (alloc_phys_pages ord g s)) = buddy_mem_start s"
proof -
  have "buddy_inv (snd (alloc_phys_pages ord g s)) \<and>
    buddy_mem_start (snd (alloc_phys_pages ord g s)) = buddy_mem_start s"
  proof (cases "ord \<le> MAX_ORDER")
    case True
    then show ?thesis
      by (rule alloc_phys_pages_cases [OF assms, where g = g]) (use assms in \<open>auto simp: allocated_def\<close>)
  qed (use assms in \<open>simp add: alloc_phys_pages_def valid_order_def\<close>)
  then show "buddy_inv (snd (alloc_phys_pages ord g s))"
    "buddy_mem_start (snd (alloc_phys_pages ord g s)) = buddy_mem_start s" by simp_all
qed

lemma free_error_OK:
  assumes "buddy_inv s" and "free_error pa ord s = BUDDY_OK"
  shows "(pa_to_pfn pa, ord) \<in> used_set s" and "pfn_to_pa (pa_to_pfn pa) = pa"
  using assms pa_in_range_pfn(3) [OF _ _ buddy_invD(2) [OF assms(1)]]
  by (auto simp: free_error_def split: if_splits)

lemma free_phys_pages_freed:
  assumes "buddy_inv s" and "free_error pa ord s = BUDDY_OK"
  shows "freed s (pa_to_pfn pa) ord (free_phys_pages pa ord s)"
  using free_phys_pages_ok [OF assms(1) free_error_OK(1) [OF assms]] free_error_OK(2) [OF assms] by simp

lemma free_phys_pages_inv:
  assumes "buddy_inv s"
  shows "buddy_inv (free_phys_pages pa ord s)"
    and "buddy_mem_start (free_phys_pages pa ord s) = buddy_mem_start s"
  using assms free_phys_pages_freed [OF assms, of pa ord] free_phys_pages_error [OF assms, of pa ord]
  by (cases "free_error pa ord s = BUDDY_OK"; simp add: freed_def)+

lemma upd_ref_count_buddy_inv [simp]:
  "buddy_inv (upd_page p (\<lambda>pg. pg\<lparr>ref_count := f pg\<rparr>) s) = buddy_inv s"
  by (simp add: buddy_inv_def start_ok_def)

lemma get_page_inv: "buddy_inv s \<Longrightarrow> buddy_inv (get_page pa s)" "buddy_mem_start (get_page pa s) = buddy_mem_start s"
  by (simp_all add: get_page_def Let_def)

lemma put_page_inv:
  assumes "buddy_inv s"
  shows "buddy_inv (put_page pa s)" and "buddy_mem_start (put_page pa s) = buddy_mem_start s"
  using assms free_phys_pages_inv by (simp_all add: put_page_def Let_def)

section \<open>Reachable states\<close>

inductive buddy_reachable :: "u64 \<Rightarrow> pmm \<Rightarrow> bool" for kernel_end :: u64 where
  init: "buddy_reachable kernel_end (buddy_init kernel_end s0)"
| alloc: "buddy_reachable kernel_end s \<Longrightarrow> buddy_reachable kernel_end (snd (alloc_phys_pages ord g s))"
| free: "buddy_reachable kernel_end s \<Longrightarrow> buddy_reachable kernel_end (free_phys_pages pa ord s)"
| get: "buddy_reachable kernel_end s \<Longrightarrow> buddy_reachable kernel_end (get_page pa s)"
| put: "buddy_reachable kernel_end s \<Longrightarrow> buddy_reachable kernel_end (put_page pa s)"

lemma buddy_reachable_inv:
  assumes "buddy_reachable kernel_end s"
    and "PHYS_MEM_START \<le> mem_start_of kernel_end" and "mem_start_of kernel_end \<le> BUDDY_MEM_END"
  shows "buddy_inv s \<and> buddy_mem_start s = mem_start_of kernel_end"
  using assms
  by (induction rule: buddy_reachable.induct)
     (simp_all add: buddy_init_establishes alloc_phys_pages_inv
       free_phys_pages_inv get_page_inv put_page_inv)

text \<open>A concrete kernel image, used by the witnesses: it ends 2 MiB into the RAM.\<close>

definition demo_end :: u64 where "demo_end = 0xffff800040200123"

lemma demo_start: "PHYS_MEM_START \<le> mem_start_of demo_end" "mem_start_of demo_end \<le> BUDDY_MEM_END"
  "mem_start_of demo_end = 0x40201000"
  by (simp_all add: mem_start_of_def demo_end_def ALIGN_def layout_simps)

definition demo_pmm :: pmm where
  "demo_pmm = buddy_init demo_end
     \<lparr>mem_map = (\<lambda>_. \<lparr>order = 0, page_private = 0, flags = 0, ref_count = 0, virtual_address = 0\<rparr>),
      nodes = \<lparr>next_of = (\<lambda>x. x), prev_of = (\<lambda>x. x)\<rparr>, nr_free = (\<lambda>_. 0), buddy_mem_start = 0,
      dma_end_pfn = 0, buddy_last_error = BUDDY_OK\<rparr>"

lemma demo_reachable: "buddy_reachable demo_end demo_pmm"
  unfolding demo_pmm_def by (rule buddy_reachable.init)

lemma demo_inv: "buddy_inv demo_pmm" "used_set demo_pmm = {}"
  unfolding demo_pmm_def by (rule buddy_init_establishes, rule demo_start, rule demo_start)+

lemma demo_start_pfn: "start_pfn demo_pmm = 513"
  using demo_start(3) buddy_init_establishes(3) [OF demo_start(1,2)]
  by (simp add: demo_pmm_def start_pfn_def pa_to_pfn_def layout_simps unat_drop_bit_div)

lemma demo_free: "\<exists>p k. (p, k) \<in> free_set demo_pmm \<and> 1 \<le> k \<and> k \<le> MAX_ORDER"
proof -
  note t = inv_hole_tiling [OF buddy_invD(1) [OF demo_inv(1)], unfolded demo_inv(2)]
  have F: "\<Union> (blk ` free_set demo_pmm) = {513..<TOTAL_PAGES}"
    using tiling_free_pages [OF t] by (simp add: demo_start_pfn)
  have sub: "blk (1024, 1) \<subseteq> \<Union> (blk ` free_set demo_pmm)"
    unfolding F by (auto simp: blk_mem layout_simps)
  then obtain b where b: "b \<in> free_set demo_pmm" "1024 \<in> blk b" using blk_self by blast
  obtain p k where pk: "b = (p, k)" by (cases b)
  have "k \<noteq> 0"
  proof
    assume "k = 0"
    then have "b = (1024, 0)" using b(2) pk by (simp add: blk_mem)
    moreover have "blk (1024, 0) \<subseteq> blk (1024, 1)" by (auto simp: blk_mem)
    ultimately show False
      using tiling_maximal [OF t _ _ sub, of 1024 0] b(1) by (simp add: MAX_ORDER_def)
  qed
  then show ?thesis using b(1) pk buddy_inv_block(1) [OF demo_inv(1), of p k]
    by (intro exI [of _ p] exI [of _ k]) simp
qed

lemma demo_allocated:
  assumes "ord \<le> 1"
  obtains p t where "alloc_phys_pages ord GFP_KERNEL demo_pmm = (pfn_to_pa p, t)" "pfn_to_pa p \<noteq> 0"
    "buddy_inv t" "used_set t = {(p, ord)}" "ref_count (mem_map t p) = 1" "p < TOTAL_PAGES"
proof -
  have "ord \<le> MAX_ORDER" using assms by (simp add: MAX_ORDER_def)
  with demo_inv(1) show ?thesis
  proof (cases rule: alloc_phys_pages_cases [where g = GFP_KERNEL])
    case none
    obtain p k where pk: "(p, k) \<in> free_set demo_pmm" "1 \<le> k" "k \<le> MAX_ORDER" using demo_free by blast
    have "\<not> fit demo_pmm False k"
      using none(2) [OF _ pk(3)] assms pk(2) by (simp add: GFP_KERNEL_def GFP_DMA_def)
    moreover have "fit demo_pmm False k"
      using free_list_first(1) [OF buddy_invD(1) [OF demo_inv(1)] pk(3)] pk(1) by (simp add: fit_def) (rule exI)
    ultimately show ?thesis by simp
  next
    case (some p k t)
    then have "used_set t = {(p, ord)}" "buddy_inv t" "ref_count (mem_map t p) = 1"
      by (simp_all add: allocated_def demo_inv(2))
    moreover have "p < TOTAL_PAGES" using buddy_inv_block(3) [of t p ord] calculation by simp
    ultimately show ?thesis using that [of p t] some(1) pfn_to_pa_nonzero by blast
  qed
qed

text \<open>C1: every state reached from \<^verbatim>\<open>buddy_init\<close> by allocations, releases and reference count changes
  satisfies the buddy invariant, provided the kernel image ends inside the RAM: the free lists are
  circular lists of exactly the free blocks with exact counters, free and allocated blocks tile the
  managed pages without overlap or gap, and no free block has a free buddy of its order.\<close>

theorem buddy_always_consistent:
  assumes "PHYS_MEM_START \<le> mem_start_of kernel_end" and "mem_start_of kernel_end \<le> BUDDY_MEM_END"
    and "buddy_reachable kernel_end s"
  shows "buddy_inv s"
  using buddy_reachable_inv [OF assms(3,1,2)] by simp

theorem buddy_always_consistent_witness:
  "PHYS_MEM_START \<le> mem_start_of demo_end \<and> mem_start_of demo_end \<le> BUDDY_MEM_END \<and>
   buddy_reachable demo_end demo_pmm \<and> buddy_inv demo_pmm"
  using buddy_always_consistent [OF demo_start(1,2) demo_reachable] demo_start demo_reachable by blast

section \<open>Allocation\<close>

text \<open>C2: a successful \<^verbatim>\<open>alloc_phys_pages\<close> returns the address of a block of exactly the
  requested order that was free, is aligned to its size, lies inside the managed region and
  overlaps no block already handed out; it becomes the only new allocated block, with reference
  count 1; a DMA request starts inside the DMA zone; the block it is carved from is the smallest
  accepted one, and its unused right halves go back to the free lists.\<close>

theorem alloc_phys_pages_correct:
  assumes "buddy_inv s" and "ord \<le> MAX_ORDER" and "alloc_phys_pages ord g s = (pa, t)" and "pa \<noteq> 0"
  shows "\<exists>p k. pa = pfn_to_pa p \<and> (p, k) \<in> free_set s \<and> ord \<le> k \<and>
    2 ^ ord dvd p \<and> start_pfn s \<le> p \<and> p + 2 ^ ord \<le> TOTAL_PAGES \<and>
    (\<forall>b \<in> used_set s. blk b \<inter> blk (p, ord) = {}) \<and> used_set t = insert (p, ord) (used_set s) \<and>
    free_set t = free_set s - {(p, k)} \<union> {(p + 2 ^ j, j) |j. ord \<le> j \<and> j < k} \<and>
    ref_count (mem_map t p) = 1 \<and> buddy_get_last_error t = BUDDY_OK \<and> buddy_inv t \<and>
    (g AND GFP_DMA \<noteq> 0 \<longrightarrow> p < dma_end_pfn s) \<and>
    (g AND GFP_DMA = 0 \<longrightarrow> (\<forall>j q. ord \<le> j \<and> j < k \<longrightarrow> (q, j) \<notin> free_set s))"
  using assms(1,2)
proof (cases rule: alloc_phys_pages_cases [where g = g])
  case none
  with assms show ?thesis by simp
next
  case (some p k t')
  have a: "allocated s p k ord t" and pa: "pa = pfn_to_pa p" using some assms(3) by simp_all
  then have b: "(p, k) \<in> free_set s" "(p, ord) \<in> used_set t" "buddy_inv t" "ord \<le> k"
    by (simp_all add: allocated_def)
  have sp: "start_pfn t = start_pfn s" using a by (simp add: allocated_def start_pfn_def)
  have "blk c \<inter> blk (p, ord) = {}" if "c \<in> used_set s" for c
  proof -
    have "c \<noteq> (p, ord)" using that b(1) head_set_fst PG_neq(1) by (metis prod.collapse fst_conv)
    then show ?thesis using that a b(2)
      by (intro tiling_disj [OF inv_hole_tiling [OF buddy_invD(1) [OF b(3)]]]) (auto simp: allocated_def)
  qed
  moreover have "(q, j) \<notin> free_set s" if "g AND GFP_DMA = 0" "ord \<le> j" "j < k" for j q
  proof -
    have "j \<le> MAX_ORDER" using buddy_inv_block(1) [OF assms(1), of p k] b(1) that(3) by simp
    with some(3) [OF that(2,3)] that(1) free_list_first(1) [OF buddy_invD(1) [OF assms(1)], of j]
    show ?thesis by (simp add: fit_def)
  qed
  moreover have "2 ^ ord dvd p" "start_pfn s \<le> p" "p + 2 ^ ord \<le> TOTAL_PAGES"
    using buddy_inv_block [OF b(3), of p ord] b(2) sp by auto
  ultimately show ?thesis using a b pa some(4)
    by (intro exI [of _ p] exI [of _ k]) (simp add: allocated_def buddy_get_last_error_def)
qed

theorem alloc_phys_pages_correct_witness:
  "\<exists>pa t. alloc_phys_pages 0 GFP_KERNEL demo_pmm = (pa, t) \<and> pa \<noteq> 0 \<and> buddy_inv t \<and>
     (\<exists>p. pa = pfn_to_pa p \<and> used_set t = {(p, 0)})"
proof -
  obtain pa t where pt: "alloc_phys_pages 0 GFP_KERNEL demo_pmm = (pa, t)" "pa \<noteq> 0" by (rule demo_allocated [of 0, simplified])
  with alloc_phys_pages_correct [OF demo_inv(1) _ pt] show ?thesis by (auto simp: demo_inv(2))
qed

text \<open>C3: without \<^verbatim>\<open>GFP_DMA\<close>, \<^verbatim>\<open>alloc_phys_pages\<close> fails exactly when the order is out of range or no
  free block is large enough, and a failure changes nothing but the error code.\<close>

theorem alloc_phys_pages_fails_iff:
  assumes "buddy_inv s" and "g AND GFP_DMA = 0"
  shows "(fst (alloc_phys_pages ord g s) = 0 \<longleftrightarrow>
      MAX_ORDER < ord \<or> (\<forall>p k. (p, k) \<in> free_set s \<longrightarrow> k < ord)) \<and>
    (fst (alloc_phys_pages ord g s) = 0 \<longrightarrow> snd (alloc_phys_pages ord g s) =
      buddy_set_error (if MAX_ORDER < ord then BUDDY_ERR_BAD_ORDER else BUDDY_ERR_NO_MEMORY) s)"
proof (cases "ord \<le> MAX_ORDER")
  case True
  then show ?thesis
  proof (cases rule: alloc_phys_pages_cases [OF assms(1), of ord g])
    case 2
    have "k < ord" if "(p, k) \<in> free_set s" for p k
    proof (rule ccontr)
      assume "\<not> k < ord"
      moreover have k: "k \<le> MAX_ORDER" using buddy_inv_block(1) [OF assms(1), of p k] that by simp
      ultimately have "\<not> fit s False k" using 2(2) [of k] assms(2) by simp
      then show False using free_list_first(1) [OF buddy_invD(1) [OF assms(1)] k] that by (simp add: fit_def)
    qed
    with 2(1) True show ?thesis by auto
  next
    case (3 p k t)
    then have "(p, k) \<in> free_set s" "ord \<le> k" by (simp_all add: allocated_def)
    moreover from this have "pfn_to_pa p \<noteq> 0" using buddy_inv_block(3) [OF assms(1), of p k] pfn_to_pa_nonzero by blast
    ultimately show ?thesis using 3(1) True by (auto simp: not_less)
  qed simp
qed (simp add: alloc_phys_pages_def valid_order_def)

theorem alloc_phys_pages_fails_iff_witness:
  "alloc_phys_pages 11 GFP_KERNEL demo_pmm = (0, buddy_set_error BUDDY_ERR_BAD_ORDER demo_pmm)"
  using alloc_phys_pages_fails_iff [OF demo_inv(1), of GFP_KERNEL 11]
  by (simp add: GFP_KERNEL_def GFP_DMA_def MAX_ORDER_def prod_eq_iff)

section \<open>Release\<close>

text \<open>C4: \<^verbatim>\<open>free_phys_pages\<close> releases exactly the allocated blocks: called with the address and order
  of a block it handed out, it removes that block and nothing else from the allocated blocks and
  leaves it inside one free block, and the invariant (coalescing included) holds again; in every
  other case it reports the error of the first check that fails, double free and wrong order
  included, and changes nothing else.\<close>

theorem free_phys_pages_correct:
  assumes "buddy_inv s"
  shows "if \<exists>p. pa = pfn_to_pa p \<and> (p, ord) \<in> used_set s
    then freed s (pa_to_pfn pa) ord (free_phys_pages pa ord s)
    else free_error pa ord s \<noteq> BUDDY_OK \<and> free_phys_pages pa ord s = buddy_set_error (free_error pa ord s) s"
proof (cases "\<exists>p. pa = pfn_to_pa p \<and> (p, ord) \<in> used_set s")
  case True
  then obtain p where p: "pa = pfn_to_pa p" "(p, ord) \<in> used_set s" by blast
  then have "pa_to_pfn pa = p" using head_set_lt pfn_pa_roundtrip by blast
  then show ?thesis using True p free_phys_pages_ok [OF assms p(2)] by simp
next
  case False
  then have "free_error pa ord s \<noteq> BUDDY_OK" using free_error_OK [OF assms] by metis
  with False free_phys_pages_error [OF assms] show ?thesis by auto
qed

theorem free_phys_pages_correct_witness:
  "(\<exists>p t. alloc_phys_pages 0 GFP_KERNEL demo_pmm = (pfn_to_pa p, t) \<and> freed t p 0 (free_phys_pages (pfn_to_pa p) 0 t)) \<and>
   free_error 0x40201000 0 demo_pmm \<noteq> BUDDY_OK"
proof -
  obtain p t where t: "alloc_phys_pages 0 GFP_KERNEL demo_pmm = (pfn_to_pa p, t)" "buddy_inv t"
    "used_set t = {(p, 0)}" "p < TOTAL_PAGES" by (rule demo_allocated [of 0, simplified])
  then have "\<exists>q. pfn_to_pa p = pfn_to_pa q \<and> (q, 0) \<in> used_set t" by blast
  then have "freed t p 0 (free_phys_pages (pfn_to_pa p) 0 t)"
    using free_phys_pages_correct [OF t(2), of "pfn_to_pa p" 0] t(4) by (simp only: if_True pfn_pa_roundtrip)
  with t(1) free_phys_pages_correct [OF demo_inv(1), of "0x40201000" 0] show ?thesis by (auto simp: demo_inv(2))
qed

text \<open>C5: an allocation followed by the release of the block it returned restores the free blocks,
  the allocated blocks and every free counter.\<close>

theorem alloc_free_roundtrip:
  assumes "buddy_inv s" and "alloc_phys_pages ord g s = (pa, t)" and "pa \<noteq> 0"
  shows "free_set (free_phys_pages pa ord t) = free_set s \<and> used_set (free_phys_pages pa ord t) = used_set s \<and>
    (\<forall>k. buddy_nr_free_blocks k (free_phys_pages pa ord t) = buddy_nr_free_blocks k s)"
proof -
  have "ord \<le> MAX_ORDER" using assms(2,3) by (auto simp: alloc_phys_pages_def valid_order_def split: if_splits)
  then obtain p k where a: "pa = pfn_to_pa p" "allocated s p k ord t"
    using assms by (cases rule: alloc_phys_pages_cases [OF assms(1), where g = g]) auto
  then have t: "buddy_inv t" "(p, ord) \<in> used_set t" "used_set t = insert (p, ord) (used_set s)"
    "(p, k) \<in> free_set s" "buddy_mem_start t = buddy_mem_start s" by (simp_all add: allocated_def)
  have "(p, ord) \<notin> used_set s" using t(4) head_set_fst PG_neq(1) by metis
  let ?u = "free_phys_pages pa ord t"
  have u: "buddy_inv ?u" "used_set ?u = used_set s" "buddy_mem_start ?u = buddy_mem_start s"
    using free_phys_pages_ok [OF t(1,2)] t(3,5) a(1) \<open>(p, ord) \<notin> used_set s\<close> by (auto simp: freed_def)
  have F: "free_set ?u = free_set s" by (rule buddy_inv_canonical [OF u(1) assms(1) u(3,2)])
  have "buddy_nr_free_blocks k ?u = buddy_nr_free_blocks k s" for k
    using nr_free_card [OF u(1), of k] nr_free_card [OF assms(1), of k] F
    by (simp add: buddy_nr_free_blocks_def valid_order_def)
  with F u(2) show ?thesis by blast
qed

theorem alloc_free_roundtrip_witness:
  "\<exists>pa t. alloc_phys_pages 0 GFP_KERNEL demo_pmm = (pa, t) \<and> pa \<noteq> 0 \<and>
     free_set (free_phys_pages pa 0 t) = free_set demo_pmm \<and> used_set (free_phys_pages pa 0 t) = {}"
proof -
  obtain pa t where pt: "alloc_phys_pages 0 GFP_KERNEL demo_pmm = (pa, t)" "pa \<noteq> 0" by (rule demo_allocated [of 0, simplified])
  with alloc_free_roundtrip [OF demo_inv(1) pt] show ?thesis by (auto simp: demo_inv(2))
qed

text \<open>C6: the free blocks are a function of the allocated ones: two histories that leave the same
  blocks allocated leave the same free blocks and counters, whatever the order of the releases.\<close>

theorem buddy_free_state_canonical:
  assumes "PHYS_MEM_START \<le> mem_start_of kernel_end" and "mem_start_of kernel_end \<le> BUDDY_MEM_END"
    and "buddy_reachable kernel_end s" and "buddy_reachable kernel_end t" and "used_set s = used_set t"
  shows "free_set s = free_set t \<and> (\<forall>k. buddy_nr_free_blocks k s = buddy_nr_free_blocks k t) \<and>
    buddy_nr_free_pages_total s = buddy_nr_free_pages_total t"
proof -
  have inv: "buddy_inv s" "buddy_inv t" "buddy_mem_start s = buddy_mem_start t"
    using buddy_reachable_inv assms by simp_all
  have F: "free_set s = free_set t" by (rule buddy_inv_canonical [OF inv assms(5)])
  then have "nr_free s k = nr_free t k" if "k \<le> MAX_ORDER" for k
    using nr_free_card [OF inv(1) that] nr_free_card [OF inv(2) that] by simp
  moreover have "unat (buddy_nr_free_pages_total s) = unat (buddy_nr_free_pages_total t)"
    using free_pages_total [OF inv(1)] free_pages_total [OF inv(2)] F by (simp add: free_pages_def)
  ultimately show ?thesis using F by (simp add: buddy_nr_free_blocks_def valid_order_def word_unat_eq_iff)
qed

theorem buddy_free_state_canonical_witness:
  "\<exists>pa t. alloc_phys_pages 0 GFP_KERNEL demo_pmm = (pa, t) \<and> pa \<noteq> 0 \<and>
     buddy_nr_free_pages_total (free_phys_pages pa 0 t) = buddy_nr_free_pages_total demo_pmm"
proof -
  obtain p t where t: "alloc_phys_pages 0 GFP_KERNEL demo_pmm = (pfn_to_pa p, t)" "pfn_to_pa p \<noteq> 0" "buddy_inv t"
    "used_set t = {(p, 0)}" by (rule demo_allocated [of 0, simplified])
  have r: "buddy_reachable demo_end (free_phys_pages (pfn_to_pa p) 0 t)"
    using buddy_reachable.alloc [OF demo_reachable, of 0 GFP_KERNEL] t(1) by (auto intro: buddy_reachable.free)
  have "used_set (free_phys_pages (pfn_to_pa p) 0 t) = used_set demo_pmm"
    using free_phys_pages_ok [OF t(3), of p 0] by (simp add: t(4) freed_def demo_inv(2))
  from buddy_free_state_canonical [OF demo_start(1,2) r demo_reachable this] t(1,2) show ?thesis by blast
qed

section \<open>Accounting\<close>

lemma used_pages_total:
  assumes "buddy_inv s"
  shows "unat (buddy_nr_used_pages_total s) = start_pfn s + used_pages s"
proof -
  note f = free_pages_total [OF assms] and t = pages_total [OF assms]
  have T: "unat (of_nat TOTAL_PAGES :: u32) = TOTAL_PAGES" by (rule unat_of_nat_noov) (simp add: layout_simps)
  have "buddy_nr_free_pages_total s \<le> of_nat TOTAL_PAGES" using f t T by (simp add: word_le_nat_alt)
  then show ?thesis using f t T by (simp add: buddy_nr_used_pages_total_def unat_sub)
qed

text \<open>C7: in every consistent state the free page counter is exact: the total of
  \<^verbatim>\<open>buddy_nr_free_pages_total\<close> is the number of pages covered by free blocks, free pages,
  allocated pages and the pages below the managed region add up to the RAM, and
  \<^verbatim>\<open>buddy_nr_used_pages_total\<close> is the number of pages allocated or occupied by the kernel image.\<close>

theorem buddy_accounting:
  assumes "buddy_inv s"
  shows "unat (buddy_nr_free_pages_total s) = card (\<Union> (blk ` free_set s)) \<and>
    card (\<Union> (blk ` free_set s)) + card (\<Union> (blk ` used_set s)) + start_pfn s = TOTAL_PAGES \<and>
    unat (buddy_nr_used_pages_total s) = start_pfn s + card (\<Union> (blk ` used_set s))"
  using used_pages_total [OF assms] free_pages_total [OF assms] pages_total [OF assms]
  by (simp add: free_pages_def used_pages_def)

theorem buddy_accounting_witness:
  "unat (buddy_nr_free_pages_total demo_pmm) = 65023 \<and> unat (buddy_nr_used_pages_total demo_pmm) = 513"
  using buddy_accounting [OF demo_inv(1)] by (simp add: demo_inv(2) demo_start_pfn layout_simps)

text \<open>\<^verbatim>\<open>total_used_pages\<close> counts the pages of the kernel image twice: it exceeds the number of
  pages that are not free by exactly the pages below the managed region.\<close>

theorem total_used_pages_double_count:
  assumes "buddy_inv s"
  shows "unat (total_used_pages s) = (TOTAL_PAGES - card (\<Union> (blk ` free_set s))) + start_pfn s"
proof -
  have s: "start_pfn s < TOTAL_PAGES" "unat (buddy_mem_start s) = 0x40000000 + start_pfn s * 4096"
    using buddy_invD(2) [OF assms] unat_pfn_to_pa [of "start_pfn s"] by (simp_all add: start_ok_def)
  then have "unat (buddy_mem_start s - PHYS_MEM_START) = start_pfn s * 4096"
    by (subst unat_sub) (simp_all add: word_le_nat_alt layout_simps)
  then have k: "unat ((buddy_mem_start s - PHYS_MEM_START) div PAGE_SIZE) = start_pfn s"
    by (simp add: unat_div layout_simps)
  have u: "unat (ucast (buddy_nr_used_pages_total s) :: u64) = start_pfn s + used_pages s"
    using used_pages_total [OF assms] pages_total [OF assms]
    by (simp add: unsigned_ucast_eq take_bit_nat_eq_self layout_simps)
  show ?thesis
    using s(1) pages_total [OF assms] k u unfolding total_used_pages_def
    by (subst unat_add_noov) (simp_all add: layout_simps free_pages_def)
qed

theorem total_used_pages_double_count_witness:
  "unat (total_used_pages demo_pmm) = 1026"
  using total_used_pages_double_count [OF demo_inv(1)] pages_total [OF demo_inv(1)]
  by (simp add: demo_start_pfn layout_simps free_pages_def used_pages_def demo_inv(2))

section \<open>Reference counts\<close>

text \<open>C8: the reference count of a page obtained from \<^verbatim>\<open>alloc_page\<close>: \<^verbatim>\<open>put_page\<close> frees a single page
  exactly when it drops the last reference and otherwise only decrements the count; a page whose
  count is already 0 is left alone; \<^verbatim>\<open>get_page\<close> followed by \<^verbatim>\<open>put_page\<close> changes nothing while
  the count neither wraps nor is 0.\<close>

theorem put_page_correct:
  assumes "buddy_inv s" and "(p, 0) \<in> used_set s"
  shows "(ref_count (mem_map s p) = 0 \<longrightarrow> put_page (pfn_to_pa p) s = s) \<and>
    (ref_count (mem_map s p) = 1 \<longrightarrow> freed s p 0 (put_page (pfn_to_pa p) s)) \<and>
    (1 < ref_count (mem_map s p) \<longrightarrow>
       put_page (pfn_to_pa p) s = upd_page p (\<lambda>pg. pg\<lparr>ref_count := ref_count pg - 1\<rparr>) s) \<and>
    (0 < ref_count (mem_map s p) \<and> ref_count (mem_map s p) \<noteq> - 1 \<longrightarrow>
       put_page (pfn_to_pa p) (get_page (pfn_to_pa p) s) = s)"
proof -
  have p: "p < TOTAL_PAGES" using assms(2) by (rule head_set_lt)
  let ?t = "upd_page p (\<lambda>pg. pg\<lparr>ref_count := ref_count pg - 1\<rparr>) s"
  have "buddy_inv ?t" "used_set ?t = used_set s" "buddy_mem_start ?t = buddy_mem_start s" "dma_end_pfn ?t = dma_end_pfn s"
    using assms by (simp_all add: head_set_upd_same)
  then have "freed s p 0 (free_phys_pages (pfn_to_pa p) 0 ?t)"
    using free_phys_pages_ok [of ?t p 0] assms(2) by (simp add: freed_def)
  then have one: "ref_count (mem_map s p) = 1 \<longrightarrow> freed s p 0 (put_page (pfn_to_pa p) s)"
    using p by (simp add: put_page_def)
  have two: "1 < ref_count (mem_map s p) \<longrightarrow> put_page (pfn_to_pa p) s = ?t"
    using p by (auto simp: put_page_def Let_def)
  have "put_page (pfn_to_pa p) (get_page (pfn_to_pa p) s) = s"
    if "0 < ref_count (mem_map s p)" "ref_count (mem_map s p) \<noteq> - 1"
  proof -
    have "ref_count (mem_map s p) + 1 \<noteq> 0" using that(2) by (metis add.commute eq_neg_iff_add_eq_0)
    with that p show ?thesis by (simp add: put_page_def get_page_def upd_page_def)
  qed
  with one two p show ?thesis by (simp add: put_page_def)
qed

theorem put_page_correct_witness:
  "\<exists>p t. alloc_phys_pages 0 GFP_KERNEL demo_pmm = (pfn_to_pa p, t) \<and> freed t p 0 (put_page (pfn_to_pa p) t)"
proof -
  obtain p t where t: "alloc_phys_pages 0 GFP_KERNEL demo_pmm = (pfn_to_pa p, t)" "buddy_inv t"
    "used_set t = {(p, 0)}" "ref_count (mem_map t p) = 1" by (rule demo_allocated [of 0, simplified])
  with put_page_correct [of t p] show ?thesis by blast
qed

text \<open>\<^verbatim>\<open>put_page\<close> on the last reference of a block of several pages frees nothing: it drops
  the count to 0, reports a wrong order and leaves the block allocated, and no later
  \<^verbatim>\<open>put_page\<close> releases it.\<close>

theorem put_page_leaks_blocks:
  assumes "buddy_inv s" and "(p, k) \<in> used_set s" and "0 < k" and "ref_count (mem_map s p) = 1"
  shows "used_set (put_page (pfn_to_pa p) s) = used_set s \<and>
    buddy_get_last_error (put_page (pfn_to_pa p) s) = BUDDY_ERR_BAD_ORDER \<and>
    put_page (pfn_to_pa p) (put_page (pfn_to_pa p) s) = put_page (pfn_to_pa p) s"
proof -
  have p: "p < TOTAL_PAGES" "start_pfn s \<le> p" using buddy_inv_block [OF assms(1), of p k] assms(2) by auto
  let ?t = "upd_page p (\<lambda>pg. pg\<lparr>ref_count := ref_count pg - 1\<rparr>) s"
  have t: "buddy_inv ?t" "used_set ?t = used_set s" "free_set ?t = free_set s" "pa_in_range ?t = pa_in_range s"
    using assms(1) by (simp_all add: head_set_upd_same pa_in_range_def fun_eq_iff)
  have "(p, j) \<notin> free_set s" for j using head_set_fst [OF assms(2), of j "PG_BUDDY OR PG_HEAD"] by auto
  moreover have "(p, 0) \<notin> used_set s" using head_set_fst [OF assms(2), of 0] assms(3) by auto
  ultimately have "free_error (pfn_to_pa p) 0 ?t = BUDDY_ERR_BAD_ORDER"
    unfolding free_error_def t(2,3,4) using p assms(2) pfn_to_pa_range [OF p buddy_invD(2) [OF assms(1)]]
      page_aligned_pfn [OF p(1)] by auto
  then have "put_page (pfn_to_pa p) s = buddy_set_error BUDDY_ERR_BAD_ORDER ?t"
    using free_phys_pages_error [OF t(1), of "pfn_to_pa p" 0] p(1) assms(4) by (simp add: put_page_def)
  then show ?thesis using t(2) p(1) assms(4) by (simp add: buddy_get_last_error_def put_page_def)
qed

theorem put_page_leaks_blocks_witness:
  "\<exists>p t. alloc_phys_pages 1 GFP_KERNEL demo_pmm = (pfn_to_pa p, t) \<and>
     used_set (put_page (pfn_to_pa p) t) = {(p, 1)} \<and>
     buddy_get_last_error (put_page (pfn_to_pa p) t) = BUDDY_ERR_BAD_ORDER"
proof -
  obtain p t where t: "alloc_phys_pages 1 GFP_KERNEL demo_pmm = (pfn_to_pa p, t)" "buddy_inv t"
    "used_set t = {(p, 1)}" "ref_count (mem_map t p) = 1" by (rule demo_allocated [OF order_refl])
  with put_page_leaks_blocks [of t p 1] show ?thesis by auto
qed

end
