(* ===== verification/Machine.thy ===== *)
theory Machine
  imports Buddy_Properties
begin

text \<open>
  The state the memory managers above the buddy allocator share: the page allocator, the memory
  seen through the linear map as 64-bit words, the translation registers of the CPU and the
  globals of \<^verbatim>\<open>kernel/mmu.c\<close> and \<^verbatim>\<open>kernel/pgtbl.c\<close>. Every access of the modelled code is to an
  aligned 64-bit word, so the memory is a function from the address of a word to its value. The
  components above extend the record, and the operations here are defined on every extension.
  Also here: the address helpers of \<^verbatim>\<open>include/mmu.h\<close> and the register set-up of
  \<^verbatim>\<open>kernel/mmu.c\<close>.
\<close>

record kmem =
  km_pmm :: pmm
  mem64 :: "u64 \<Rightarrow> u64"
  slab_linear_map_base :: u64
  slab_l0_table_pa :: u64
  linear_map_base :: u64
  l0_table_pa :: u64
  ttbr0_el1 :: u64
  ttbr1_el1 :: u64
  mair_el1 :: u64
  tcr_el1 :: u64
  sctlr_el1 :: u64
  tlb_flushes :: nat

section \<open>Memory and the linear map\<close>

definition load64 :: "u64 \<Rightarrow> ('a) kmem_scheme \<Rightarrow> u64" where
  "load64 a s = mem64 s a"

definition store64 :: "u64 \<Rightarrow> u64 \<Rightarrow> 'a kmem_scheme \<Rightarrow> 'a kmem_scheme" where
  "store64 a v s = s\<lparr>mem64 := (mem64 s)(a := v)\<rparr>"

text \<open>\<^verbatim>\<open>memset(p, 0, n)\<close>: every word whose address lies in \<open>[p, p + n)\<close>.\<close>

definition memset0 :: "u64 \<Rightarrow> u64 \<Rightarrow> 'a kmem_scheme \<Rightarrow> 'a kmem_scheme" where
  "memset0 p n s = s\<lparr>mem64 := (\<lambda>a. if a - p < n then 0 else mem64 s a)\<rparr>"

definition phys_to_virt :: "'a kmem_scheme \<Rightarrow> phys_addr_t \<Rightarrow> u64" where
  "phys_to_virt s pa = slab_linear_map_base s + pa"

definition virt_to_phys :: "'a kmem_scheme \<Rightarrow> u64 \<Rightarrow> phys_addr_t" where
  "virt_to_phys s va = va - slab_linear_map_base s"

definition va_in_linear_map :: "'a kmem_scheme \<Rightarrow> u64 \<Rightarrow> bool" where
  "va_in_linear_map s va \<longleftrightarrow> slab_linear_map_base s \<le> va"

text \<open>The page allocator as part of the machine.\<close>

definition km_alloc_phys_pages :: "nat \<Rightarrow> gfp_t \<Rightarrow> 'a kmem_scheme \<Rightarrow> phys_addr_t \<times> 'a kmem_scheme" where
  "km_alloc_phys_pages ord g s =
     (let (pa, p) = alloc_phys_pages ord g (km_pmm s) in (pa, s\<lparr>km_pmm := p\<rparr>))"

definition km_free_phys_pages :: "phys_addr_t \<Rightarrow> nat \<Rightarrow> 'a kmem_scheme \<Rightarrow> 'a kmem_scheme" where
  "km_free_phys_pages pa ord s = s\<lparr>km_pmm := free_phys_pages pa ord (km_pmm s)\<rparr>"

definition km_get_page :: "phys_addr_t \<Rightarrow> 'a kmem_scheme \<Rightarrow> 'a kmem_scheme" where
  "km_get_page pa s = s\<lparr>km_pmm := get_page pa (km_pmm s)\<rparr>"

definition km_put_page :: "phys_addr_t \<Rightarrow> 'a kmem_scheme \<Rightarrow> 'a kmem_scheme" where
  "km_put_page pa s = s\<lparr>km_pmm := put_page pa (km_pmm s)\<rparr>"

section \<open>Address helpers of mmu.h\<close>

definition align_up_ul :: "u64 \<Rightarrow> u64 \<Rightarrow> u64" where
  "align_up_ul x a = (x + a - 1) AND NOT (a - 1)"

function ilog2_loop :: "nat \<Rightarrow> nat \<Rightarrow> nat" where
  "ilog2_loop x r = (if 1 < x then ilog2_loop (drop_bit 1 x) (r + 1) else r)"
  by pat_completeness auto
termination
  by (relation "measure fst") (auto simp: drop_bit_Suc)

declare ilog2_loop.simps [simp del]

definition ilog2_ul :: "u64 \<Rightarrow> nat" where
  "ilog2_ul x = ilog2_loop (unat x) 0"

definition get_order_ul :: "u64 \<Rightarrow> nat" where
  "get_order_ul sz =
     (if sz = 0 then 0
      else order_loop (unat (drop_bit PAGE_SHIFT (sz + PAGE_SIZE - 1))) 0)"

lemma ilog2_loop_spec: "0 < x \<Longrightarrow> 2 ^ (ilog2_loop x r - r) \<le> x \<and> x < 2 ^ (ilog2_loop x r - r + 1) \<and> r \<le> ilog2_loop x r"
proof (induction x r rule: ilog2_loop.induct)
  case (1 x r)
  show ?case
  proof (cases "1 < x")
    case True
    let ?l = "ilog2_loop (x div 2) (r + 1)"
    have ih: "2 ^ (?l - (r + 1)) \<le> x div 2" "x div 2 < 2 ^ (?l - (r + 1) + 1)" "r + 1 \<le> ?l"
      using 1 True by (auto simp: drop_bit_Suc)
    have l: "ilog2_loop x r = ?l" using True by (subst ilog2_loop.simps) (simp add: drop_bit_Suc)
    obtain d where d: "?l = r + 1 + d" using ih(3) le_Suc_ex by blast
    have e: "?l - (r + 1) = d" "?l - r = d + 1" using d by simp_all
    have lo: "2 ^ d \<le> x div 2" and hi: "x div 2 < 2 * 2 ^ d" using ih(1,2) unfolding e by simp_all
    have "2 * 2 ^ d \<le> x" "x < 4 * 2 ^ d" using lo hi by linarith+
    then show ?thesis unfolding l e using d by simp
  next
    case False
    with 1 have "x = 1" by simp
    then show ?thesis by (subst (1 2 3) ilog2_loop.simps) simp
  qed
qed

lemma ilog2_ul_spec: "0 < x \<Longrightarrow> 2 ^ ilog2_ul x \<le> unat x \<and> unat x < 2 ^ (ilog2_ul x + 1)"
  using ilog2_loop_spec [of "unat x" 0] by (simp add: ilog2_ul_def word_greater_zero_iff unat_gt_0)

text \<open>The order of a request is the least one whose block holds it.\<close>

lemma get_order_ul_pages:
  assumes "unat sz + 4095 < 2 ^ 64" and "0 < sz"
  shows "get_order_ul sz = order_loop ((unat sz + 4095) div 4096) 0"
proof -
  have "sz + PAGE_SIZE - 1 = sz + 4095" by (simp add: layout_simps)
  moreover have "unat (sz + 4095) = unat sz + 4095" using assms(1) by (subst unat_add_noov) simp_all
  ultimately have "unat (drop_bit PAGE_SHIFT (sz + PAGE_SIZE - 1)) = (unat sz + 4095) div 4096"
    by (simp only: unat_drop_bit_div PAGE_SHIFT_def) simp
  then show ?thesis using assms(2) by (simp add: get_order_ul_def word_gt_0)
qed

lemma get_order_ul_spec:
  assumes "unat sz + 4095 < 2 ^ 64" and "0 < sz"
  shows "unat sz \<le> 4096 * 2 ^ get_order_ul sz"
    and "unat sz \<le> 4096 * 2 ^ k \<Longrightarrow> get_order_ul sz \<le> k"
proof -
  let ?n = "(unat sz + 4095) div 4096"
  have n: "unat sz \<le> 4096 * ?n" by linarith
  also have "\<dots> \<le> 4096 * 2 ^ get_order_ul sz"
    unfolding get_order_ul_pages [OF assms] using order_loop_ge by simp
  finally show "unat sz \<le> 4096 * 2 ^ get_order_ul sz" .
  assume "unat sz \<le> 4096 * 2 ^ k"
  then have "?n \<le> 2 ^ k" by linarith
  then show "get_order_ul sz \<le> k"
    unfolding get_order_ul_pages [OF assms] by (intro order_loop_least) simp_all
qed

section \<open>Translation registers\<close>

definition set_mair_el1 :: "'a kmem_scheme \<Rightarrow> 'a kmem_scheme" where
  "set_mair_el1 s =
     (let mair = 0;
          mair = mair OR push_bit 0 0xFF;
          mair = mair OR push_bit 8 0x44;
          mair = mair OR push_bit 16 0;
          mair = mair OR push_bit 24 0;
          mair = mair OR push_bit 32 0;
          mair = mair OR push_bit 40 0;
          mair = mair OR push_bit 48 0;
          mair = mair OR push_bit 56 0
      in s\<lparr>mair_el1 := mair\<rparr>)"

definition set_tcr_el1 :: "'a kmem_scheme \<Rightarrow> 'a kmem_scheme" where
  "set_tcr_el1 s =
     (let tcr = 0;
          tcr = tcr OR push_bit 0 16;
          tcr = tcr OR push_bit 14 0;
          tcr = tcr OR push_bit 12 2;
          tcr = tcr OR push_bit 10 1;
          tcr = tcr OR push_bit 8 1;
          tcr = tcr OR push_bit 16 16;
          tcr = tcr OR push_bit 30 2;
          tcr = tcr OR push_bit 28 2;
          tcr = tcr OR push_bit 26 1;
          tcr = tcr OR push_bit 24 1;
          tcr = tcr OR push_bit 32 2
      in s\<lparr>tcr_el1 := tcr\<rparr>)"

text \<open>The writes of \<^verbatim>\<open>set_sctlr_el1\<close>: the value or-ed in at each bit position, from bit 0 up.\<close>

definition sctlr_bits :: "u64 list" where
  "sctlr_bits =
     [1, 1, 1, 1, 1, 0, 0, 1, 1, 0, 0, 1, 1, 0, 0, 0, 0, 0, 0, 1, 0, 1, 1, 1, 0, 0, 0, 0, 0, 1, 0, 0, 0]"

definition set_sctlr_el1 :: "'a kmem_scheme \<Rightarrow> 'a kmem_scheme" where
  "set_sctlr_el1 s =
     s\<lparr>sctlr_el1 := fold (\<lambda>i sctlr. sctlr OR push_bit i (sctlr_bits ! i)) [0..<33] 0\<rparr>"

definition read_ttbr0 :: "'a kmem_scheme \<Rightarrow> u64" where
  "read_ttbr0 s = ttbr0_el1 s"

definition read_ttbr1 :: "'a kmem_scheme \<Rightarrow> u64" where
  "read_ttbr1 s = ttbr1_el1 s"

definition flush_tlb :: "'a kmem_scheme \<Rightarrow> 'a kmem_scheme" where
  "flush_tlb s = s\<lparr>tlb_flushes := tlb_flushes s + 1\<rparr>"

definition switch_ttbr0 :: "u64 \<Rightarrow> 'a kmem_scheme \<Rightarrow> 'a kmem_scheme" where
  "switch_ttbr0 pa s = flush_tlb (s\<lparr>ttbr0_el1 := pa\<rparr>)"

definition reg_field :: "u64 \<Rightarrow> nat \<Rightarrow> nat \<Rightarrow> u64" where
  "reg_field r lsb width = take_bit width (drop_bit lsb r)"

lemma tcr_value: "tcr_el1 (set_tcr_el1 s) = 0x2A5102510"
  by (simp add: set_tcr_el1_def)

lemma sctlr_value: "sctlr_el1 (set_sctlr_el1 s) = 0x20E8199F"
  by (simp add: set_sctlr_el1_def sctlr_bits_def upt_rec)

end
