(* ===== verification/Page_Table.thy ===== *)
theory Page_Table
  imports Machine "HOL-Library.Sublist"
begin

text \<open>
  The four-level page tables of \<^verbatim>\<open>kernel/mmu.c\<close>, \<^verbatim>\<open>kernel/pgtbl.c\<close> and \<^verbatim>\<open>include/pgtbl.h\<close>:
  mapping and unmapping one page with the tables created and released on the way, address
  translation, copying and freeing a user tree, and the dump. A table is the physical address of
  its page; an entry is the 64-bit word at index \<open>i\<close> of that page, read through the linear map.
\<close>

section \<open>Entries\<close>

definition PTRS_PER_PTE :: nat where "PTRS_PER_PTE = 512"
definition ARM64_PTE_VALID :: u64 where "ARM64_PTE_VALID = push_bit 0 1"
definition ARM64_PTE_TYPE_TABLE :: u64 where "ARM64_PTE_TYPE_TABLE = push_bit 1 1"
definition ARM64_PTE_TYPE_PAGE :: u64 where "ARM64_PTE_TYPE_PAGE = push_bit 1 1"
definition ARM64_PTE_AF :: u64 where "ARM64_PTE_AF = push_bit 10 1"
definition ARM64_PTE_NG :: u64 where "ARM64_PTE_NG = push_bit 11 0"
definition ARM64_PTE_SH_NON_SHAREABLE :: u64 where "ARM64_PTE_SH_NON_SHAREABLE = push_bit 8 0"
definition ARM64_PTE_SH_INNER_SHAREABLE :: u64 where "ARM64_PTE_SH_INNER_SHAREABLE = push_bit 8 3"
definition ARM64_PTE_AP_KERNEL_RW_EL0_NONE :: u64 where "ARM64_PTE_AP_KERNEL_RW_EL0_NONE = push_bit 6 0"
definition ARM64_PTE_AP_KERNEL_RW_EL0_RW :: u64 where "ARM64_PTE_AP_KERNEL_RW_EL0_RW = push_bit 6 1"
definition ARM64_PTE_AP_KERNEL_RO_EL0_NONE :: u64 where "ARM64_PTE_AP_KERNEL_RO_EL0_NONE = push_bit 6 2"
definition ARM64_PTE_AP_KERNEL_RO_EL0_RO :: u64 where "ARM64_PTE_AP_KERNEL_RO_EL0_RO = push_bit 6 3"
definition ARM64_PTE_NS_RES0 :: u64 where "ARM64_PTE_NS_RES0 = push_bit 5 0"
definition ARM64_PTE_ATTRIDX :: "u64 \<Rightarrow> u64" where "ARM64_PTE_ATTRIDX idx = push_bit 2 idx"
definition ARM64_PTE_UXN :: u64 where "ARM64_PTE_UXN = push_bit 54 1"
definition ARM64_PTE_PXN :: u64 where "ARM64_PTE_PXN = push_bit 53 1"
definition ARM64_TABLE_PROT :: u64 where "ARM64_TABLE_PROT = ARM64_PTE_VALID OR ARM64_PTE_TYPE_TABLE"
definition ARM64_PTE_ADDR_MASK :: u64 where "ARM64_PTE_ADDR_MASK = 0x0000FFFFFFFFF000"

definition PAGE_KERNEL_RW :: u64 where
  "PAGE_KERNEL_RW = ARM64_PTE_VALID OR ARM64_PTE_TYPE_PAGE OR ARM64_PTE_AF OR ARM64_PTE_NG OR
     ARM64_PTE_SH_INNER_SHAREABLE OR ARM64_PTE_AP_KERNEL_RW_EL0_NONE OR ARM64_PTE_NS_RES0 OR
     ARM64_PTE_ATTRIDX 0 OR ARM64_PTE_UXN OR ARM64_PTE_PXN"
definition PAGE_KERNEL_RX :: u64 where
  "PAGE_KERNEL_RX = ARM64_PTE_VALID OR ARM64_PTE_TYPE_PAGE OR ARM64_PTE_AF OR ARM64_PTE_NG OR
     ARM64_PTE_SH_INNER_SHAREABLE OR ARM64_PTE_AP_KERNEL_RO_EL0_NONE OR ARM64_PTE_NS_RES0 OR
     ARM64_PTE_ATTRIDX 0 OR ARM64_PTE_UXN OR ARM64_PTE_PXN"
definition PAGE_DMA :: u64 where
  "PAGE_DMA = ARM64_PTE_VALID OR ARM64_PTE_TYPE_PAGE OR ARM64_PTE_AF OR ARM64_PTE_NG OR
     ARM64_PTE_SH_INNER_SHAREABLE OR ARM64_PTE_AP_KERNEL_RW_EL0_NONE OR ARM64_PTE_NS_RES0 OR
     ARM64_PTE_ATTRIDX 1 OR ARM64_PTE_UXN OR ARM64_PTE_PXN"
definition PAGE_DEVICE :: u64 where
  "PAGE_DEVICE = ARM64_PTE_VALID OR ARM64_PTE_TYPE_PAGE OR ARM64_PTE_AF OR ARM64_PTE_NG OR
     ARM64_PTE_SH_NON_SHAREABLE OR ARM64_PTE_AP_KERNEL_RW_EL0_NONE OR ARM64_PTE_NS_RES0 OR
     ARM64_PTE_ATTRIDX 2 OR ARM64_PTE_UXN OR ARM64_PTE_PXN"
definition PAGE_USER_RW :: u64 where
  "PAGE_USER_RW = ARM64_PTE_VALID OR ARM64_PTE_TYPE_PAGE OR ARM64_PTE_AF OR ARM64_PTE_NG OR
     ARM64_PTE_SH_INNER_SHAREABLE OR ARM64_PTE_AP_KERNEL_RW_EL0_RW OR ARM64_PTE_NS_RES0 OR
     ARM64_PTE_ATTRIDX 0 OR ARM64_PTE_UXN OR ARM64_PTE_PXN"
definition PAGE_USER_RX :: u64 where
  "PAGE_USER_RX = ARM64_PTE_VALID OR ARM64_PTE_TYPE_PAGE OR ARM64_PTE_AF OR ARM64_PTE_NG OR
     ARM64_PTE_SH_INNER_SHAREABLE OR ARM64_PTE_AP_KERNEL_RO_EL0_RO OR ARM64_PTE_NS_RES0 OR
     ARM64_PTE_ATTRIDX 0 OR ARM64_PTE_UXN OR ARM64_PTE_PXN"

definition L0_INDEX :: "u64 \<Rightarrow> u64" where "L0_INDEX va = drop_bit 39 va AND 0x1FF"
definition L1_INDEX :: "u64 \<Rightarrow> u64" where "L1_INDEX va = drop_bit 30 va AND 0x1FF"
definition L2_INDEX :: "u64 \<Rightarrow> u64" where "L2_INDEX va = drop_bit 21 va AND 0x1FF"
definition L3_INDEX :: "u64 \<Rightarrow> u64" where "L3_INDEX va = drop_bit 12 va AND 0x1FF"

definition pte_to_phys :: "u64 \<Rightarrow> phys_addr_t" where
  "pte_to_phys pte = pte AND ARM64_PTE_ADDR_MASK"

definition pte_present :: "u64 \<Rightarrow> bool" where
  "pte_present pte \<longleftrightarrow> pte AND ARM64_PTE_VALID \<noteq> 0"

definition is_user_addr :: "u64 \<Rightarrow> bool" where
  "is_user_addr va \<longleftrightarrow> drop_bit 47 va = 0"

text \<open>The table \<open>(pte_t *) phys_to_virt(pa)\<close>, indexed.\<close>

definition entry_addr :: "'a kmem_scheme \<Rightarrow> phys_addr_t \<Rightarrow> u64 \<Rightarrow> u64" where
  "entry_addr s tbl i = phys_to_virt s tbl + 8 * i"

definition pte_get :: "'a kmem_scheme \<Rightarrow> phys_addr_t \<Rightarrow> u64 \<Rightarrow> u64" where
  "pte_get s tbl i = load64 (entry_addr s tbl i) s"

definition pte_set :: "phys_addr_t \<Rightarrow> u64 \<Rightarrow> u64 \<Rightarrow> 'a kmem_scheme \<Rightarrow> 'a kmem_scheme" where
  "pte_set tbl i v s = store64 (entry_addr s tbl i) v s"

definition pte_table_empty :: "phys_addr_t \<Rightarrow> 'a kmem_scheme \<Rightarrow> bool" where
  "pte_table_empty tbl s \<longleftrightarrow> (\<forall>i \<in> set [0..<PTRS_PER_PTE]. pte_get s tbl (of_nat i) = 0)"

section \<open>Mapping and unmapping one page\<close>

definition l0_table :: "'a kmem_scheme \<Rightarrow> u64 \<Rightarrow> phys_addr_t" where
  "l0_table s va = (if is_user_addr va then read_ttbr0 s else read_ttbr1 s)"

text \<open>The step repeated at each level: follow a present entry, or allocate, clear and link a table.\<close>

definition next_table :: "phys_addr_t \<Rightarrow> u64 \<Rightarrow> 'a kmem_scheme \<Rightarrow> phys_addr_t option \<times> 'a kmem_scheme" where
  "next_table tbl i s =
     (if \<not> pte_present (pte_get s tbl i) then
        (let (pa, s1) = km_alloc_phys_pages 0 GFP_KERNEL s in
         if pa = 0 then (None, s1)
         else (let s2 = memset0 (phys_to_virt s1 pa) PAGE_SIZE s1
               in (Some pa, pte_set tbl i (ARM64_TABLE_PROT OR pa) s2)))
      else (Some (pte_to_phys (pte_get s tbl i)), s))"

definition arm64_map_one_page :: "u64 \<Rightarrow> phys_addr_t \<Rightarrow> u64 \<Rightarrow> 'a kmem_scheme \<Rightarrow> int \<times> 'a kmem_scheme" where
  "arm64_map_one_page va pa prot s =
     (let l0_pa = l0_table s va in
      if l0_pa = 0 then (-1, s)
      else (case next_table l0_pa (L0_INDEX va) s of
          (None, s1) \<Rightarrow> (-1, s1)
        | (Some l1_pa, s1) \<Rightarrow> (case next_table l1_pa (L1_INDEX va) s1 of
            (None, s2) \<Rightarrow> (-1, s2)
          | (Some l2_pa, s2) \<Rightarrow> (case next_table l2_pa (L2_INDEX va) s2 of
              (None, s3) \<Rightarrow> (-1, s3)
            | (Some l3_pa, s3) \<Rightarrow>
                (0, pte_set l3_pa (L3_INDEX va) (prot OR (pa AND ARM64_PTE_ADDR_MASK)) s3)))))"

text \<open>The second half of \<^verbatim>\<open>arm64_unmap_one_page\<close>: release the tables that became empty, bottom up.\<close>

definition release_empty_tables ::
  "u64 \<Rightarrow> phys_addr_t \<Rightarrow> phys_addr_t \<Rightarrow> phys_addr_t \<Rightarrow> phys_addr_t \<Rightarrow> 'a kmem_scheme \<Rightarrow> 'a kmem_scheme" where
  "release_empty_tables va l0_pa l1_pa l2_pa l3_pa s1 =
     (if \<not> pte_table_empty l3_pa s1 then s1
      else (let s2 = km_free_phys_pages l3_pa 0 (pte_set l2_pa (L2_INDEX va) 0 s1) in
        if \<not> pte_table_empty l2_pa s2 then s2
        else (let s3 = km_free_phys_pages l2_pa 0 (pte_set l1_pa (L1_INDEX va) 0 s2) in
          if \<not> pte_table_empty l1_pa s3 then s3
          else km_free_phys_pages l1_pa 0 (pte_set l0_pa (L0_INDEX va) 0 s3))))"

definition arm64_unmap_one_page :: "u64 \<Rightarrow> 'a kmem_scheme \<Rightarrow> 'a kmem_scheme" where
  "arm64_unmap_one_page va s =
     (let l0_pa = l0_table s va; idx0 = L0_INDEX va; idx1 = L1_INDEX va; idx2 = L2_INDEX va; idx3 = L3_INDEX va in
      if l0_pa = 0 then s
      else if \<not> pte_present (pte_get s l0_pa idx0) then s
      else (let l1_pa = pte_to_phys (pte_get s l0_pa idx0) in
        if \<not> pte_present (pte_get s l1_pa idx1) then s
        else (let l2_pa = pte_to_phys (pte_get s l1_pa idx1) in
          if \<not> pte_present (pte_get s l2_pa idx2) then s
          else (let l3_pa = pte_to_phys (pte_get s l2_pa idx2) in
            if \<not> pte_present (pte_get s l3_pa idx3) then s
            else release_empty_tables va l0_pa l1_pa l2_pa l3_pa (flush_tlb (pte_set l3_pa idx3 0 s))))))"

definition arm64_get_phys_from_va :: "u64 \<Rightarrow> 'a kmem_scheme \<Rightarrow> phys_addr_t" where
  "arm64_get_phys_from_va va s =
     (let l0_pa = l0_table s va in
      if l0_pa = 0 then 0
      else if \<not> pte_present (pte_get s l0_pa (L0_INDEX va)) then 0
      else (let l1 = pte_to_phys (pte_get s l0_pa (L0_INDEX va)) in
        if \<not> pte_present (pte_get s l1 (L1_INDEX va)) then 0
        else (let l2 = pte_to_phys (pte_get s l1 (L1_INDEX va)) in
          if \<not> pte_present (pte_get s l2 (L2_INDEX va)) then 0
          else (let l3 = pte_to_phys (pte_get s l2 (L2_INDEX va)) in
            if \<not> pte_present (pte_get s l3 (L3_INDEX va)) then 0
            else pte_to_phys (pte_get s l3 (L3_INDEX va))))))"

definition map_page :: "u64 \<Rightarrow> phys_addr_t \<Rightarrow> u64 \<Rightarrow> 'a kmem_scheme \<Rightarrow> int \<times> 'a kmem_scheme" where
  "map_page va pa prot s = arm64_map_one_page va pa prot s"

definition unmap_page :: "u64 \<Rightarrow> 'a kmem_scheme \<Rightarrow> 'a kmem_scheme" where
  "unmap_page va s = arm64_unmap_one_page va s"

definition get_phys_from_va :: "u64 \<Rightarrow> 'a kmem_scheme \<Rightarrow> phys_addr_t" where
  "get_phys_from_va va s = arm64_get_phys_from_va va s"

definition flush_tlb_all :: "'a kmem_scheme \<Rightarrow> 'a kmem_scheme" where
  "flush_tlb_all s = flush_tlb s"

section \<open>The wrappers of pgtbl.c\<close>

definition sync_globals :: "'a kmem_scheme \<Rightarrow> 'a kmem_scheme" where
  "sync_globals s = s\<lparr>linear_map_base := slab_linear_map_base s, l0_table_pa := slab_l0_table_pa s\<rparr>"

definition pgtbl_map_one_page :: "u64 \<Rightarrow> phys_addr_t \<Rightarrow> u64 \<Rightarrow> 'a kmem_scheme \<Rightarrow> int \<times> 'a kmem_scheme" where
  "pgtbl_map_one_page va pa prot s = map_page va pa prot (sync_globals s)"

definition pgtbl_unmap_one_page :: "u64 \<Rightarrow> 'a kmem_scheme \<Rightarrow> 'a kmem_scheme" where
  "pgtbl_unmap_one_page va s = unmap_page va (sync_globals s)"

text \<open>
  The loops \<^verbatim>\<open>for (off = 0; off < len; off += 4096)\<close>; \<^verbatim>\<open>len\<close> is \<open>(size + 4095) & ~4095\<close>, where
  \<^verbatim>\<open>~4095\<close> is an \<^verbatim>\<open>int\<close> and sign-extends to the 64-bit mask.
\<close>

definition range_len :: "u64 \<Rightarrow> u64" where
  "range_len sz = (sz + 4095) AND NOT 4095"

fun map_pages_from :: "nat \<Rightarrow> u64 \<Rightarrow> phys_addr_t \<Rightarrow> u64 \<Rightarrow> 'a kmem_scheme \<Rightarrow> int \<times> 'a kmem_scheme" where
  "map_pages_from 0 va pa prot s = (0, s)"
| "map_pages_from (Suc n) va pa prot s =
     (let (r, s1) = pgtbl_map_one_page va pa prot s in
      if r \<noteq> 0 then (-1, s1) else map_pages_from n (va + 4096) (pa + 4096) prot s1)"

definition pgtbl_map_range :: "u64 \<Rightarrow> phys_addr_t \<Rightarrow> u64 \<Rightarrow> u64 \<Rightarrow> 'a kmem_scheme \<Rightarrow> int \<times> 'a kmem_scheme" where
  "pgtbl_map_range va pa sz prot s = map_pages_from (unat (range_len sz) div 4096) va pa prot s"

fun unmap_pages_from :: "nat \<Rightarrow> u64 \<Rightarrow> 'a kmem_scheme \<Rightarrow> 'a kmem_scheme" where
  "unmap_pages_from 0 va s = s"
| "unmap_pages_from (Suc n) va s = unmap_pages_from n (va + 4096) (pgtbl_unmap_one_page va s)"

definition pgtbl_unmap_range :: "u64 \<Rightarrow> u64 \<Rightarrow> 'a kmem_scheme \<Rightarrow> 'a kmem_scheme" where
  "pgtbl_unmap_range va sz s = unmap_pages_from (unat (range_len sz) div 4096) va s"

definition map_kernel_page :: "u64 \<Rightarrow> phys_addr_t \<Rightarrow> u64 \<Rightarrow> 'a kmem_scheme \<Rightarrow> 'a kmem_scheme" where
  "map_kernel_page va pa prot s = snd (pgtbl_map_one_page va pa prot s)"

definition unmap_kernel_page :: "u64 \<Rightarrow> 'a kmem_scheme \<Rightarrow> 'a kmem_scheme" where
  "unmap_kernel_page va s = pgtbl_unmap_one_page va s"

section \<open>Copying, freeing and dumping a tree\<close>

definition table_indices :: "u64 list" where
  "table_indices = map of_nat [0..<PTRS_PER_PTE]"

definition copy_l3_entry :: "phys_addr_t \<Rightarrow> phys_addr_t \<Rightarrow> u64 \<Rightarrow> 'a kmem_scheme \<Rightarrow> 'a kmem_scheme" where
  "copy_l3_entry src_l3 dst_l3 idx3 s =
     (let pte = pte_get s src_l3 idx3 in
      if \<not> pte_present pte then s
      else (let pte' = (if pte AND push_bit 6 1 \<noteq> 0 \<and> pte AND push_bit 7 1 = 0 then pte OR push_bit 7 1 else pte);
                s1 = pte_set dst_l3 idx3 pte' s
            in km_get_page (pte_to_phys (pte_get s1 src_l3 idx3)) s1))"

text \<open>
  One level of \<^verbatim>\<open>copy_user_page_table\<close>: skip an absent source entry; make sure the destination
  entry has a table (skipping the entry when the allocation fails); recurse with the two tables.
\<close>

definition copy_table_entry ::
  "(phys_addr_t \<Rightarrow> phys_addr_t \<Rightarrow> 'a kmem_scheme \<Rightarrow> 'a kmem_scheme) \<Rightarrow>
   phys_addr_t \<Rightarrow> phys_addr_t \<Rightarrow> u64 \<Rightarrow> 'a kmem_scheme \<Rightarrow> 'a kmem_scheme" where
  "copy_table_entry copy_sub src dst idx s =
     (if \<not> pte_present (pte_get s src idx) then s
      else (let sub = pte_to_phys (pte_get s src idx) in
        if \<not> pte_present (pte_get s dst idx) then
          (let (pa, s1) = km_alloc_phys_pages 0 GFP_KERNEL s in
           if pa = 0 then s1
           else (let s2 = memset0 (phys_to_virt s1 pa) PAGE_SIZE s1;
                     s3 = pte_set dst idx (ARM64_TABLE_PROT OR pa) s2
                 in copy_sub sub (pte_to_phys (pte_get s3 dst idx)) s3))
        else copy_sub sub (pte_to_phys (pte_get s dst idx)) s))"

definition copy_l3 :: "phys_addr_t \<Rightarrow> phys_addr_t \<Rightarrow> 'a kmem_scheme \<Rightarrow> 'a kmem_scheme" where
  "copy_l3 src dst s = fold (copy_l3_entry src dst) table_indices s"

definition copy_l2 :: "phys_addr_t \<Rightarrow> phys_addr_t \<Rightarrow> 'a kmem_scheme \<Rightarrow> 'a kmem_scheme" where
  "copy_l2 src dst s = fold (copy_table_entry copy_l3 src dst) table_indices s"

definition copy_l1 :: "phys_addr_t \<Rightarrow> phys_addr_t \<Rightarrow> 'a kmem_scheme \<Rightarrow> 'a kmem_scheme" where
  "copy_l1 src dst s = fold (copy_table_entry copy_l2 src dst) table_indices s"

definition copy_user_page_table :: "phys_addr_t \<Rightarrow> phys_addr_t \<Rightarrow> 'a kmem_scheme \<Rightarrow> 'a kmem_scheme" where
  "copy_user_page_table src_pgd_pa dst_pgd_pa s =
     fold (copy_table_entry copy_l1 src_pgd_pa dst_pgd_pa) table_indices s"

definition copy_user_pgd :: "phys_addr_t \<Rightarrow> phys_addr_t \<Rightarrow> 'a kmem_scheme \<Rightarrow> 'a kmem_scheme" where
  "copy_user_pgd src dst s = copy_user_page_table src dst s"

definition free_l3_entry :: "phys_addr_t \<Rightarrow> u64 \<Rightarrow> 'a kmem_scheme \<Rightarrow> 'a kmem_scheme" where
  "free_l3_entry l3 idx3 s =
     (if pte_present (pte_get s l3 idx3) then km_put_page (pte_to_phys (pte_get s l3 idx3)) s else s)"

definition free_table_entry ::
  "(phys_addr_t \<Rightarrow> 'a kmem_scheme \<Rightarrow> 'a kmem_scheme) \<Rightarrow> phys_addr_t \<Rightarrow> u64 \<Rightarrow> 'a kmem_scheme \<Rightarrow> 'a kmem_scheme" where
  "free_table_entry free_sub tbl idx s =
     (if \<not> pte_present (pte_get s tbl idx) then s
      else (let s1 = free_sub (pte_to_phys (pte_get s tbl idx)) s
            in km_free_phys_pages (pte_to_phys (pte_get s1 tbl idx)) 0 s1))"

definition free_l3 :: "phys_addr_t \<Rightarrow> 'a kmem_scheme \<Rightarrow> 'a kmem_scheme" where
  "free_l3 tbl s = fold (free_l3_entry tbl) table_indices s"

definition free_l2 :: "phys_addr_t \<Rightarrow> 'a kmem_scheme \<Rightarrow> 'a kmem_scheme" where
  "free_l2 tbl s = fold (free_table_entry free_l3 tbl) table_indices s"

definition free_l1 :: "phys_addr_t \<Rightarrow> 'a kmem_scheme \<Rightarrow> 'a kmem_scheme" where
  "free_l1 tbl s = fold (free_table_entry free_l2 tbl) table_indices s"

definition free_page_table_tree :: "phys_addr_t \<Rightarrow> 'a kmem_scheme \<Rightarrow> 'a kmem_scheme" where
  "free_page_table_tree pgd_pa s =
     km_free_phys_pages pgd_pa 0 (fold (free_table_entry free_l1 pgd_pa) table_indices s)"

definition free_pgd_tree :: "phys_addr_t \<Rightarrow> 'a kmem_scheme \<Rightarrow> 'a kmem_scheme" where
  "free_pgd_tree pgd_pa s = free_page_table_tree pgd_pa s"

text \<open>The lines \<^verbatim>\<open>dump_page_table\<close> prints, with the values of their conversions.\<close>

datatype dump_line =
    DumpPgd u64 | DumpL0 u64 u64 | DumpL1 u64 u64 | DumpTable u64 u64
  | DumpPage u64 u64 u64 u64 | DumpBlock u64 u64 u64 u64

definition dump_l3 :: "'a kmem_scheme \<Rightarrow> u64 \<Rightarrow> u64 \<Rightarrow> u64 \<Rightarrow> phys_addr_t \<Rightarrow> dump_line list" where
  "dump_l3 s idx0 idx1 idx2 l3 =
     concat (map (\<lambda>idx3. let e = pte_get s l3 idx3 in
       if \<not> pte_present e then []
       else [DumpPage idx3
               (push_bit 39 idx0 OR push_bit 30 idx1 OR push_bit 21 idx2 OR push_bit 12 idx3)
               (pte_to_phys e) (e AND NOT ARM64_PTE_ADDR_MASK)]) table_indices)"

definition dump_l2 :: "'a kmem_scheme \<Rightarrow> u64 \<Rightarrow> u64 \<Rightarrow> phys_addr_t \<Rightarrow> dump_line list" where
  "dump_l2 s idx0 idx1 l2 =
     concat (map (\<lambda>idx2. let e = pte_get s l2 idx2 in
       if \<not> pte_present e then []
       else if e AND ARM64_PTE_TYPE_TABLE \<noteq> 0 then
         DumpTable idx2 (pte_to_phys e) # dump_l3 s idx0 idx1 idx2 (pte_to_phys e)
       else [DumpBlock idx2 (push_bit 39 idx0 OR push_bit 30 idx1 OR push_bit 21 idx2)
               (pte_to_phys e) (e AND NOT ARM64_PTE_ADDR_MASK)]) table_indices)"

definition dump_l1 :: "'a kmem_scheme \<Rightarrow> u64 \<Rightarrow> phys_addr_t \<Rightarrow> dump_line list" where
  "dump_l1 s idx0 l1 =
     concat (map (\<lambda>idx1. let e = pte_get s l1 idx1 in
       if \<not> pte_present e then [] else DumpL1 idx1 (pte_to_phys e) # dump_l2 s idx0 idx1 (pte_to_phys e))
       table_indices)"

definition dump_page_table :: "phys_addr_t \<Rightarrow> 'a kmem_scheme \<Rightarrow> dump_line list" where
  "dump_page_table pgd_pa s =
     DumpPgd pgd_pa # concat (map (\<lambda>idx0. let e = pte_get s pgd_pa idx0 in
       if \<not> pte_present e then [] else DumpL0 idx0 (pte_to_phys e) # dump_l1 s idx0 (pte_to_phys e))
       table_indices)"

end
