(* ===== verification/Page_Table_Correct.thy ===== *)
theory Page_Table_Correct
  imports Page_Table
begin

text \<open>
  Correctness of the page tables. \<open>walk s r p\<close> follows the entries of the path \<open>p\<close> from the
  table \<open>r\<close>; a virtual address is translated by the walk of its four indices. The invariant
  \<open>pt_wf R s\<close> says that the tables reached from the roots \<open>R\<close> are single allocated pages and
  that no two paths reach the same table. Under it a write to one entry changes only the walks
  through that entry, and a freshly allocated table is none of the existing ones.
\<close>

section \<open>Entry addresses\<close>

lemma unat_entry_offset:
  assumes "f < TOTAL_PAGES" and "i < 512"
  shows "unat (pfn_to_pa f + 8 * i) = 0x40000000 + f * 4096 + 8 * unat i"
proof -
  have i: "unat i < 512" using assms(2) by (simp add: word_less_nat_alt)
  then have "unat (8 * i) = 8 * unat i" by (simp add: unat_word_ariths)
  with i assms(1) unat_pfn_to_pa [OF assms(1)] show ?thesis
    by (subst unat_add_noov) (simp_all add: layout_simps)
qed

lemma entry_addr_inj:
  assumes "f < TOTAL_PAGES" "g < TOTAL_PAGES" "i < 512" "j < 512"
    and "entry_addr s (pfn_to_pa f) i = entry_addr s (pfn_to_pa g) j"
  shows "f = g \<and> i = j"
proof -
  have "pfn_to_pa f + 8 * i = pfn_to_pa g + 8 * j"
    using assms(5) by (simp add: entry_addr_def phys_to_virt_def)
  then have e: "f * 4096 + 8 * unat i = g * 4096 + 8 * unat j"
    using unat_entry_offset [OF assms(1,3)] unat_entry_offset [OF assms(2,4)] by simp
  have "unat i < 512" "unat j < 512" using assms(3,4) by (simp_all add: word_less_nat_alt)
  with e have "f = g" by linarith
  moreover from this e have "unat i = unat j" by simp
  ultimately show ?thesis by (simp add: word_unat_eq_iff)
qed

lemma entry_addr_in_page:
  assumes "f < TOTAL_PAGES" "g < TOTAL_PAGES" "i < 512"
  shows "entry_addr s (pfn_to_pa g) i - phys_to_virt s (pfn_to_pa f) < PAGE_SIZE \<longleftrightarrow> g = f"
proof -
  let ?x = "pfn_to_pa g + 8 * i" and ?y = "pfn_to_pa f"
  have i: "unat i < 512" using assms(3) by (simp add: word_less_nat_alt)
  have x: "unat ?x = 0x40000000 + g * 4096 + 8 * unat i" by (rule unat_entry_offset [OF assms(2,3)])
  have y: "unat ?y = 0x40000000 + f * 4096" by (rule unat_pfn_to_pa [OF assms(1)])
  have d: "entry_addr s (pfn_to_pa g) i - phys_to_virt s (pfn_to_pa f) = ?x - ?y"
    by (simp add: entry_addr_def phys_to_virt_def)
  have "unat (?x - ?y) < 4096 \<longleftrightarrow> g = f"
  proof (cases "f \<le> g")
    case True
    then have "?y \<le> ?x" using x y by (simp add: word_le_nat_alt)
    then have "unat (?x - ?y) = (g - f) * 4096 + 8 * unat i"
      using x y True by (simp add: unat_sub diff_mult_distrib)
    then show ?thesis using True i by (cases "g = f") auto
  next
    case False
    then have lt: "g * 4096 + 4096 \<le> f * 4096" by linarith
    then have "\<not> ?y \<le> ?x" using x y i by (simp add: word_le_nat_alt)
    then have "unat (?x - ?y) = 2 ^ 64 + unat ?x - unat ?y" by (simp add: unat_sub_if_size word_size word_le_nat_alt)
    then show ?thesis using x y False assms(1) by (simp add: layout_simps)
  qed
  then show ?thesis unfolding d by (simp add: word_less_nat_alt layout_simps)
qed

lemma L_INDEX_lt: "L0_INDEX va < 512" "L1_INDEX va < 512" "L2_INDEX va < 512" "L3_INDEX va < 512"
proof -
  have "w AND 0x1FF < (512 :: u64)" for w
  proof -
    have "w AND 0x1FF \<le> 0x1FF" by (rule word_and_le1)
    also have "\<dots> < 512" by simp
    finally show ?thesis .
  qed
  then show "L0_INDEX va < 512" "L1_INDEX va < 512" "L2_INDEX va < 512" "L3_INDEX va < 512"
    by (simp_all only: L0_INDEX_def L1_INDEX_def L2_INDEX_def L3_INDEX_def)
qed

section \<open>Walks\<close>

fun walk :: "'a kmem_scheme \<Rightarrow> phys_addr_t \<Rightarrow> u64 list \<Rightarrow> phys_addr_t option" where
  "walk s t [] = Some t"
| "walk s t (i # is) = (if pte_present (pte_get s t i) then walk s (pte_to_phys (pte_get s t i)) is else None)"

lemma walk_append: "walk s t (p @ q) = (case walk s t p of None \<Rightarrow> None | Some u \<Rightarrow> walk s u q)"
  by (induction p arbitrary: t) auto

definition idx_ok :: "u64 list \<Rightarrow> bool" where
  "idx_ok p \<longleftrightarrow> (\<forall>i \<in> set p. i < 512)"

lemma idx_ok_simps [simp]: "idx_ok []" "idx_ok (i # p) \<longleftrightarrow> i < 512 \<and> idx_ok p"
  "idx_ok (p @ q) \<longleftrightarrow> idx_ok p \<and> idx_ok q"
  by (auto simp: idx_ok_def)

definition table_page :: "'a kmem_scheme \<Rightarrow> phys_addr_t \<Rightarrow> bool" where
  "table_page s a \<longleftrightarrow> (\<exists>f. a = pfn_to_pa f \<and> f < TOTAL_PAGES \<and> (f, 0) \<in> used_set (km_pmm s))"

definition pt_wf :: "phys_addr_t set \<Rightarrow> 'a kmem_scheme \<Rightarrow> bool" where
  "pt_wf R s \<longleftrightarrow>
     (\<forall>r \<in> R. \<forall>p a. idx_ok p \<and> length p \<le> 3 \<and> walk s r p = Some a \<longrightarrow> table_page s a) \<and>
     (\<forall>r \<in> R. \<forall>r' \<in> R. \<forall>p q a. idx_ok p \<and> length p \<le> 3 \<and> idx_ok q \<and> length q \<le> 3 \<and>
        walk s r p = Some a \<and> walk s r' q = Some a \<longrightarrow> r = r' \<and> p = q)"

definition va_path :: "u64 \<Rightarrow> u64 list" where
  "va_path va = [L0_INDEX va, L1_INDEX va, L2_INDEX va, L3_INDEX va]"

lemma va_path_ok [simp]: "idx_ok (va_path va)" "length (va_path va) = 4"
  by (simp_all add: va_path_def L_INDEX_lt)

lemma get_phys_walk:
  "arm64_get_phys_from_va va s =
     (if l0_table s va = 0 then 0 else case walk s (l0_table s va) (va_path va) of None \<Rightarrow> 0 | Some a \<Rightarrow> a)"
  by (simp add: arm64_get_phys_from_va_def Let_def va_path_def)

lemma pt_wfD:
  assumes "pt_wf R s" "r \<in> R" "idx_ok p" "length p \<le> 3" "walk s r p = Some a"
  shows pt_wf_page: "table_page s a"
    and pt_wf_unique: "r' \<in> R \<Longrightarrow> idx_ok q \<Longrightarrow> length q \<le> 3 \<Longrightarrow> walk s r' q = Some a \<Longrightarrow> r' = r \<and> q = p"
  using assms unfolding pt_wf_def by blast+

text \<open>Reading back one entry after a write to another.\<close>

lemma pte_set_simps [simp]:
  "km_pmm (pte_set t i v s) = km_pmm s" "slab_linear_map_base (pte_set t i v s) = slab_linear_map_base s"
  "ttbr0_el1 (pte_set t i v s) = ttbr0_el1 s" "ttbr1_el1 (pte_set t i v s) = ttbr1_el1 s"
  "phys_to_virt (pte_set t i v s) = phys_to_virt s" "entry_addr (pte_set t i v s) = entry_addr s"
  "table_page (pte_set t i v s) = table_page s" "l0_table (pte_set t i v s) = l0_table s"
  by (simp_all add: pte_set_def store64_def phys_to_virt_def entry_addr_def fun_eq_iff table_page_def
      l0_table_def read_ttbr0_def read_ttbr1_def)

lemma pte_get_set:
  assumes "table_page s t" "table_page s u" "i < 512" "j < 512"
  shows "pte_get (pte_set t i v s) u j = (if u = t \<and> j = i then v else pte_get s u j)"
proof -
  from assms(1,2) obtain f g where fg: "t = pfn_to_pa f" "f < TOTAL_PAGES" "u = pfn_to_pa g" "g < TOTAL_PAGES"
    by (auto simp: table_page_def)
  have "entry_addr s u j = entry_addr s t i \<longleftrightarrow> u = t \<and> j = i"
    using entry_addr_inj [OF fg(4,2) assms(4,3), of s] fg by blast
  then show ?thesis by (simp add: pte_get_def load64_def) (simp add: pte_set_def store64_def)
qed

lemma walk_pte_set_frame:
  assumes wf: "pt_wf R s" and r0: "r0 \<in> R" "idx_ok p0" "length p0 \<le> 3" "walk s r0 p0 = Some t" "i < 512"
    and r: "r \<in> R"
  shows "idx_ok q \<Longrightarrow> length q \<le> 4 \<Longrightarrow> \<not> (r = r0 \<and> prefix (p0 @ [i]) q) \<Longrightarrow>
    walk (pte_set t i v s) r q = walk s r q"
proof (induction q rule: rev_induct)
  case (snoc j q)
  have "\<not> (r = r0 \<and> prefix (p0 @ [i]) q)" using snoc(4) by (auto intro: prefix_prefix)
  then have ih: "walk (pte_set t i v s) r q = walk s r q" using snoc by simp
  show ?case
  proof (cases "walk s r q")
    case (Some u)
    have q: "idx_ok q" "length q \<le> 3" "j < 512" using snoc by auto
    have "\<not> (u = t \<and> j = i)"
    proof
      assume "u = t \<and> j = i"
      then have "r = r0 \<and> q = p0" using pt_wf_unique [OF wf r0(1-4) r q(1,2)] Some by blast
      then show False using snoc(4) \<open>u = t \<and> j = i\<close> by simp
    qed
    then have "pte_get (pte_set t i v s) u j = pte_get s u j"
      using pte_get_set [OF pt_wf_page [OF wf r0(1-4)] pt_wf_page [OF wf r q(1,2) Some] r0(5) q(3)] by auto
    with ih Some show ?thesis by (simp add: walk_append)
  qed (use ih in \<open>simp add: walk_append\<close>)
qed simp

lemma walk_pte_set_at:
  assumes wf: "pt_wf R s" and r0: "r0 \<in> R" "idx_ok p0" "length p0 \<le> 3" "walk s r0 p0 = Some t" "i < 512"
  shows "walk (pte_set t i v s) r0 (p0 @ i # q) =
    (if pte_present v then walk (pte_set t i v s) (pte_to_phys v) q else None)"
proof -
  have "\<not> prefix (p0 @ [i]) p0" by (auto dest: prefix_length_le)
  then have "walk (pte_set t i v s) r0 p0 = Some t"
    using walk_pte_set_frame [OF assms r0(1), of p0 v] r0 by simp
  moreover have "pte_get (pte_set t i v s) t i = v"
    using pte_get_set [OF pt_wf_page [OF wf r0(1-4)] pt_wf_page [OF wf r0(1-4)] r0(5,5)] by simp
  ultimately show ?thesis by (simp add: walk_append)
qed

section \<open>Growing the tree\<close>

lemma km_alloc_simps:
  assumes "km_alloc_phys_pages ord g s = (pa, s1)"
  shows "mem64 s1 = mem64 s" "slab_linear_map_base s1 = slab_linear_map_base s" "ttbr0_el1 s1 = ttbr0_el1 s"
    "ttbr1_el1 s1 = ttbr1_el1 s" "alloc_phys_pages ord g (km_pmm s) = (pa, km_pmm s1)"
    "kmem.more s1 = kmem.more s"
  using assms by (auto simp: km_alloc_phys_pages_def split: prod.splits)

lemma walk_cong:
  "mem64 t = mem64 s \<Longrightarrow> slab_linear_map_base t = slab_linear_map_base s \<Longrightarrow> walk t r p = walk s r p"
  by (induction p arbitrary: r) (simp_all add: pte_get_def load64_def entry_addr_def phys_to_virt_def)

lemma pt_wf_mono:
  assumes "pt_wf R s" and "\<And>r p. r \<in> R \<Longrightarrow> idx_ok p \<Longrightarrow> length p \<le> 3 \<Longrightarrow> walk t r p = walk s r p"
    and "\<And>r p a. r \<in> R \<Longrightarrow> idx_ok p \<Longrightarrow> length p \<le> 3 \<Longrightarrow> walk s r p = Some a \<Longrightarrow> table_page s a \<Longrightarrow> table_page t a"
  shows "pt_wf R t"
  using assms unfolding pt_wf_def by (smt (verit, best))

text \<open>Clearing a page that is no table changes no walk.\<close>

definition unlinked :: "phys_addr_t set \<Rightarrow> 'a kmem_scheme \<Rightarrow> phys_addr_t \<Rightarrow> bool" where
  "unlinked R s a \<longleftrightarrow> (\<forall>r \<in> R. \<forall>p. idx_ok p \<and> length p \<le> 3 \<longrightarrow> walk s r p \<noteq> Some a)"

lemma walk_memset0:
  assumes wf: "pt_wf R s" and f: "f < TOTAL_PAGES" "unlinked R s (pfn_to_pa f)" and r: "r \<in> R"
  shows "idx_ok q \<Longrightarrow> length q \<le> 4 \<Longrightarrow> walk (memset0 (phys_to_virt s (pfn_to_pa f)) PAGE_SIZE s) r q = walk s r q"
proof (induction q rule: rev_induct)
  case (snoc j q)
  let ?m = "memset0 (phys_to_virt s (pfn_to_pa f)) PAGE_SIZE s"
  show ?case
  proof (cases "walk s r q")
    case (Some u)
    have q: "idx_ok q" "length q \<le> 3" "j < 512" using snoc by auto
    from pt_wf_page [OF wf r q(1,2) Some] obtain g
      where g: "u = pfn_to_pa g" "g < TOTAL_PAGES" by (auto simp: table_page_def)
    have "g \<noteq> f" using f(2) r q Some g(1) by (auto simp: unlinked_def)
    then have "pte_get ?m u j = pte_get s u j"
      using entry_addr_in_page [OF f(1) g(2) q(3), of s] g(1)
      by (simp add: pte_get_def load64_def memset0_def entry_addr_def phys_to_virt_def)
    with snoc Some show ?thesis by (simp add: walk_append)
  qed (use snoc in \<open>simp add: walk_append\<close>)
qed simp

lemma pte_get_memset0:
  "f < TOTAL_PAGES \<Longrightarrow> i < 512 \<Longrightarrow>
     pte_get (memset0 (phys_to_virt s (pfn_to_pa f)) PAGE_SIZE s) (pfn_to_pa f) i = 0"
  using entry_addr_in_page [of f f i s]
  by (simp add: pte_get_def load64_def memset0_def entry_addr_def phys_to_virt_def)

lemma ADDR_MASK_alt: "ARM64_PTE_ADDR_MASK = mask 48 AND NOT (mask 12)"
  by (simp add: ARM64_PTE_ADDR_MASK_def mask_eq_decr_exp)

lemma pfn_to_pa_masked: "f < TOTAL_PAGES \<Longrightarrow> pfn_to_pa f AND ARM64_PTE_ADDR_MASK = pfn_to_pa f"
proof -
  assume f: "f < TOTAL_PAGES"
  have u: "unat (pfn_to_pa f) = 0x40000000 + f * 4096" by (rule unat_pfn_to_pa [OF f])
  then have "take_bit 48 (pfn_to_pa f) = pfn_to_pa f"
    using f by (simp add: word_unat_eq_iff unat_take_bit_mod layout_simps)
  moreover have "unat (pfn_to_pa f AND NOT (mask 12)) = unat (pfn_to_pa f)"
    using u by (simp add: unat_and_not_mask mod_eq_0_iff_dvd)
  then have "pfn_to_pa f AND NOT (mask 12) = pfn_to_pa f" by (simp only: word_unat_eq_iff)
  ultimately show ?thesis by (metis ADDR_MASK_alt and.assoc take_bit_eq_mask)
qed

lemma pte_present_bit: "pte_present v \<longleftrightarrow> bit v 0"
  by (simp add: pte_present_def ARM64_PTE_VALID_def and_one_eq bit_0 odd_iff_mod_2_eq_one)

lemma pte_present_or: "pte_present v \<Longrightarrow> pte_present (v OR w)"
  by (simp add: pte_present_bit bit_or_iff)

lemma table_entry_decode:
  assumes "f < TOTAL_PAGES"
  shows "pte_present (ARM64_TABLE_PROT OR pfn_to_pa f)" and "pte_to_phys (ARM64_TABLE_PROT OR pfn_to_pa f) = pfn_to_pa f"
proof -
  have "pte_present ARM64_TABLE_PROT"
    by (simp add: pte_present_def ARM64_TABLE_PROT_def ARM64_PTE_VALID_def ARM64_PTE_TYPE_TABLE_def)
  then show "pte_present (ARM64_TABLE_PROT OR pfn_to_pa f)" by (rule pte_present_or)
  have "ARM64_TABLE_PROT AND ARM64_PTE_ADDR_MASK = 0"
    by (simp add: ARM64_TABLE_PROT_def ARM64_PTE_VALID_def ARM64_PTE_TYPE_TABLE_def ARM64_PTE_ADDR_MASK_def)
  then show "pte_to_phys (ARM64_TABLE_PROT OR pfn_to_pa f) = pfn_to_pa f"
    by (simp add: pte_to_phys_def bit.conj_disj_distrib2 pfn_to_pa_masked [OF assms])
qed

text \<open>
  What one level of the mapping walk does: the translations stay as they were, the tree stays
  well formed, and on success the path is extended by one table.
\<close>

definition grown :: "phys_addr_t set \<Rightarrow> 'a kmem_scheme \<Rightarrow> 'a kmem_scheme \<Rightarrow> bool" where
  "grown R s t \<longleftrightarrow> buddy_inv (km_pmm t) \<and> pt_wf R t \<and> used_set (km_pmm s) \<subseteq> used_set (km_pmm t) \<and>
     slab_linear_map_base t = slab_linear_map_base s \<and> ttbr0_el1 t = ttbr0_el1 s \<and> ttbr1_el1 t = ttbr1_el1 s \<and>
     kmem.more t = kmem.more s \<and>
     (\<forall>r \<in> R. \<forall>q. idx_ok q \<and> length q = 4 \<longrightarrow> walk t r q = walk s r q)"

lemma grown_refl: "buddy_inv (km_pmm s) \<Longrightarrow> pt_wf R s \<Longrightarrow> grown R s s"
  by (simp add: grown_def)

lemma grown_trans: "grown R s t \<Longrightarrow> grown R t u \<Longrightarrow> grown R s u"
  by (auto simp: grown_def)

lemma alloc_one_page:
  assumes "buddy_inv s" and "alloc_phys_pages 0 g s = (pa, t)"
  shows "pa = 0 \<and> buddy_inv t \<and> used_set t = used_set s \<or>
    (\<exists>f. pa = pfn_to_pa f \<and> f < TOTAL_PAGES \<and> pa \<noteq> 0 \<and> (f, 0) \<notin> used_set s \<and>
       used_set t = insert (f, 0) (used_set s) \<and> buddy_inv t)"
proof (cases rule: alloc_phys_pages_cases [OF assms(1), of 0 g])
  case 2
  then show ?thesis using assms by auto
next
  case (3 f k t')
  then have a: "allocated s f k 0 t" "pa = pfn_to_pa f" using assms(2) by simp_all
  then have f: "(f, k) \<in> free_set s" "f < TOTAL_PAGES"
    using buddy_inv_block(3) [OF assms(1), of f k] by (auto simp: allocated_def)
  then have "(f, 0) \<notin> used_set s" using head_set_fst [OF f(1), of 0 "PG_ALLOCATED OR PG_HEAD"] by auto
  then show ?thesis using a f pfn_to_pa_nonzero by (auto simp: allocated_def)
qed simp

lemma memset0_simps [simp]:
  "km_pmm (memset0 p n s) = km_pmm s" "slab_linear_map_base (memset0 p n s) = slab_linear_map_base s"
  "ttbr0_el1 (memset0 p n s) = ttbr0_el1 s" "ttbr1_el1 (memset0 p n s) = ttbr1_el1 s"
  "table_page (memset0 p n s) = table_page s" "phys_to_virt (memset0 p n s) = phys_to_virt s"
  "kmem.more (memset0 p n s) = kmem.more s" "kmem.more (pte_set t i v s) = kmem.more s"
  by (simp_all add: memset0_def table_page_def phys_to_virt_def fun_eq_iff pte_set_def store64_def)

text \<open>Linking a freshly cleared table.\<close>

lemma link_table:
  assumes wf: "pt_wf R s" and r0: "r0 \<in> R" "idx_ok p0" "length p0 < 3" "walk s r0 p0 = Some t" "i < 512"
    and abs: "\<not> pte_present (pte_get s t i)"
    and f: "f < TOTAL_PAGES" "unlinked R s (pfn_to_pa f)"
    and zero: "\<forall>j < 512. pte_get s (pfn_to_pa f) j = 0" and tp: "table_page s (pfn_to_pa f)"
  defines "s' \<equiv> pte_set t i (ARM64_TABLE_PROT OR pfn_to_pa f) s"
  shows "pt_wf R s'" and "walk s' r0 (p0 @ [i]) = Some (pfn_to_pa f)"
    and "\<And>r q. r \<in> R \<Longrightarrow> idx_ok q \<Longrightarrow> length q = 4 \<Longrightarrow> walk s' r q = walk s r q"
proof -
  have len: "length p0 \<le> 3" using r0(3) by simp
  note fr = walk_pte_set_frame [OF wf r0(1,2) len r0(4,5), where v = "ARM64_TABLE_PROT OR pfn_to_pa f", folded s'_def]
  note at = walk_pte_set_at [OF wf r0(1,2) len r0(4,5), of "ARM64_TABLE_PROT OR pfn_to_pa f", folded s'_def,
      unfolded table_entry_decode(2) [OF f(1)], simplified table_entry_decode(1) [OF f(1)] if_True]
  have old: "walk s r0 (p0 @ i # q) = None" for q using r0(4) abs by (simp add: walk_append)
  have tne: "t \<noteq> pfn_to_pa f" using f(2) r0 len by (auto simp: unlinked_def)
  have zero': "pte_get s' (pfn_to_pa f) j = 0" if "j < 512" for j
    unfolding s'_def using pte_get_set [OF pt_wf_page [OF wf r0(1,2) len r0(4)] tp r0(5) that] tne zero that by simp
  have below: "walk s' r0 (p0 @ i # j # q) = None" if "j < 512" for j q
    unfolding at using zero' [OF that] by (simp add: pte_present_def)
  show new: "walk s' r0 (p0 @ [i]) = Some (pfn_to_pa f)" by (simp add: at)
  show "walk s' r q = walk s r q" if as: "r \<in> R" "idx_ok q" "length q = 4" for r q
  proof (cases "r = r0 \<and> prefix (p0 @ [i]) q")
    case True
    then obtain q' where q': "q = p0 @ i # q'" by (auto simp: prefix_def)
    then obtain j q'' where "q' = j # q''" using r0(3) as(3) by (cases q') auto
    then show ?thesis using True q' below old as(2) by simp
  qed (use fr [OF as(1,2)] as in simp)
  have cases3: "walk s r q = Some a \<or> (r = r0 \<and> q = p0 @ [i] \<and> a = pfn_to_pa f)"
    if as: "r \<in> R" "idx_ok q" "length q \<le> 3" "walk s' r q = Some a" for r q a
  proof (cases "r = r0 \<and> prefix (p0 @ [i]) q")
    case True
    then obtain q' where q': "q = p0 @ i # q'" by (auto simp: prefix_def)
    show ?thesis using as True q' below new by (cases q') auto
  qed (use fr [OF as(1,2)] as in simp)
  show "pt_wf R s'"
    unfolding pt_wf_def
  proof (intro conjI ballI allI impI)
    fix r p a assume "r \<in> R" "idx_ok p \<and> length p \<le> 3 \<and> walk s' r p = Some a"
    with cases3 [of r p a] show "table_page s' a" using pt_wf_page [OF wf] tp by (auto simp: s'_def)
  next
    fix r r' p q a assume r: "r \<in> R" "r' \<in> R"
      and *: "idx_ok p \<and> length p \<le> 3 \<and> idx_ok q \<and> length q \<le> 3 \<and> walk s' r p = Some a \<and> walk s' r' q = Some a"
    show "r = r'" and "p = q"
      using cases3 [of r p a] cases3 [of r' q a] r * f(2) pt_wf_unique [OF wf r(1), of p a r' q] r
      unfolding unlinked_def by metis+
  qed
qed

lemma next_table_spec:
  assumes inv: "buddy_inv (km_pmm s)" and wf: "pt_wf R s"
    and r0: "r0 \<in> R" "idx_ok p0" "length p0 < 3" "walk s r0 p0 = Some t" "i < 512"
    and nt: "next_table t i s = (res, s')"
  shows "grown R s s'" and "res = Some t' \<Longrightarrow> walk s' r0 (p0 @ [i]) = Some t'"
proof -
  have "grown R s s' \<and> (\<forall>t'. res = Some t' \<longrightarrow> walk s' r0 (p0 @ [i]) = Some t')"
  proof (cases "pte_present (pte_get s t i)")
    case True
    then have "s' = s" "res = Some (pte_to_phys (pte_get s t i))" using nt by (auto simp: next_table_def)
    with True r0(4) grown_refl [OF inv wf] show ?thesis by (simp add: walk_append)
  next
    case False
    obtain pa s1 where al: "km_alloc_phys_pages 0 GFP_KERNEL s = (pa, s1)" by (cases "km_alloc_phys_pages 0 GFP_KERNEL s")
    note k = km_alloc_simps [OF al]
    have w1: "walk s1 r q = walk s r q" for r q by (rule walk_cong [OF k(1,2)])
    have pv: "phys_to_virt s1 = phys_to_virt s" using k(2) by (simp add: phys_to_virt_def fun_eq_iff)
    have pg: "pte_get s1 = pte_get s" using k(1,2) by (simp add: pte_get_def load64_def entry_addr_def pv fun_eq_iff)
    from alloc_one_page [OF inv k(5)] show ?thesis
    proof
      assume a: "pa = 0 \<and> buddy_inv (km_pmm s1) \<and> used_set (km_pmm s1) = used_set (km_pmm s)"
      then have wf1: "pt_wf R s1" by (intro pt_wf_mono [OF wf]) (auto simp: w1 table_page_def)
      have "s' = s1" "res = None" using a False al nt by (auto simp: next_table_def)
      with a k wf1 show ?thesis by (simp add: grown_def w1)
    next
      assume "\<exists>f. pa = pfn_to_pa f \<and> f < TOTAL_PAGES \<and> pa \<noteq> 0 \<and> (f, 0) \<notin> used_set (km_pmm s) \<and>
        used_set (km_pmm s1) = insert (f, 0) (used_set (km_pmm s)) \<and> buddy_inv (km_pmm s1)"
      then obtain f where f: "pa = pfn_to_pa f" "f < TOTAL_PAGES" "pa \<noteq> 0" "(f, 0) \<notin> used_set (km_pmm s)"
        "used_set (km_pmm s1) = insert (f, 0) (used_set (km_pmm s))" "buddy_inv (km_pmm s1)" by blast
      let ?m = "memset0 (phys_to_virt s1 pa) PAGE_SIZE s1"
      have nt': "s' = pte_set t i (ARM64_TABLE_PROT OR pfn_to_pa f) ?m" "res = Some (pfn_to_pa f)"
        using False al f nt by (auto simp: next_table_def)
      have un: "unlinked R s1 (pfn_to_pa f)"
        unfolding unlinked_def
      proof (intro ballI allI impI notI)
        fix r p assume "r \<in> R" "idx_ok p \<and> length p \<le> 3" "walk s1 r p = Some (pfn_to_pa f)"
        then have "table_page s (pfn_to_pa f)" using pt_wf_page [OF wf] w1 by metis
        then obtain g where "pfn_to_pa f = pfn_to_pa g" "g < TOTAL_PAGES" "(g, 0) \<in> used_set (km_pmm s)"
          by (auto simp: table_page_def)
        then show False using f(2,4) pfn_pa_roundtrip by metis
      qed
      have wf1: "pt_wf R s1" by (rule pt_wf_mono [OF wf]) (auto simp: w1 table_page_def f(5))
      have wm: "walk ?m r q = walk s r q" if "r \<in> R" "idx_ok q" "length q \<le> 4" for r q
        using walk_memset0 [OF wf1 f(2) un that(1,2,3)] f(1) w1 by simp
      have wfm: "pt_wf R ?m" by (rule pt_wf_mono [OF wf1]) (auto simp: wm w1)
      have unm: "unlinked R ?m (pfn_to_pa f)" using un wm w1 by (simp add: unlinked_def)
      have tpm: "table_page ?m (pfn_to_pa f)" using f(2,5) by (auto simp: table_page_def)
      have zero: "\<forall>j < 512. pte_get ?m (pfn_to_pa f) j = 0" using pte_get_memset0 [OF f(2), of _ s1] f(1) by simp
      have wt: "walk ?m r0 p0 = Some t" using wm r0 by simp
      have abs: "\<not> pte_present (pte_get ?m t i)"
        using wm [OF r0(1), of "p0 @ [i]"] wt r0 False by (auto simp: walk_append split: if_splits)
      note l = link_table [OF wfm r0(1-3) wt r0(5) abs f(2) unm zero tpm]
      show ?thesis
        using l f k(2-6) wm unfolding nt' grown_def by (auto simp: wm)
    qed
  qed
  then show "grown R s s'" and "res = Some t' \<Longrightarrow> walk s' r0 (p0 @ [i]) = Some t'" by blast+
qed

section \<open>Mapping one page\<close>

definition pt_inv :: "phys_addr_t set \<Rightarrow> 'a kmem_scheme \<Rightarrow> bool" where
  "pt_inv R s \<longleftrightarrow> buddy_inv (km_pmm s) \<and> pt_wf R s \<and> 0 \<notin> R \<and>
     ttbr0_el1 s \<in> insert 0 R \<and> ttbr1_el1 s \<in> insert 0 R"

lemma pt_inv_root: "pt_inv R s \<Longrightarrow> l0_table s va \<noteq> 0 \<Longrightarrow> l0_table s va \<in> R"
  by (auto simp: pt_inv_def l0_table_def read_ttbr0_def read_ttbr1_def split: if_splits)

lemma grown_l0: "grown R s t \<Longrightarrow> l0_table t va = l0_table s va"
  by (simp add: grown_def l0_table_def read_ttbr0_def read_ttbr1_def)

lemma grown_inv: "grown R s t \<Longrightarrow> pt_inv R s \<Longrightarrow> pt_inv R t"
  by (auto simp: grown_def pt_inv_def)

lemma grown_translation:
  assumes "grown R s t" and "pt_inv R s"
  shows "arm64_get_phys_from_va va t = arm64_get_phys_from_va va s"
  using assms(1) pt_inv_root [OF assms(2), of va] by (simp add: get_phys_walk grown_l0 [OF assms(1)] grown_def)

definition va_key :: "'a kmem_scheme \<Rightarrow> u64 \<Rightarrow> phys_addr_t \<times> u64 list" where
  "va_key s va = (l0_table s va, va_path va)"

text \<open>The tables of the walk for one address, all present or created.\<close>

lemma next_table_inv:
  assumes "pt_inv R s" "r0 \<in> R" "idx_ok p0" "length p0 < 3" "walk s r0 p0 = Some t" "i < 512"
    "next_table t i s = (res, s')"
  shows "grown R s s'" and "pt_inv R s'" and "res = Some t' \<Longrightarrow> walk s' r0 (p0 @ [i]) = Some t'"
  using next_table_spec [of s R r0 p0 t i res s'] grown_inv [of R s s'] assms
  by (auto simp: pt_inv_def)

lemma arm64_map_one_page_cases:
  assumes inv: "pt_inv R s" and m: "arm64_map_one_page va pa prot s = (r, s')"
  obtains (fail) "r = -1" "pt_inv R s'" "grown R s s'"
  | (ok) s3 l3 where "r = 0" "grown R s s3" "pt_inv R s3" "l0_table s va \<in> R"
      "walk s3 (l0_table s va) [L0_INDEX va, L1_INDEX va, L2_INDEX va] = Some l3"
      "s' = pte_set l3 (L3_INDEX va) (prot OR (pa AND ARM64_PTE_ADDR_MASK)) s3"
proof (cases "l0_table s va = 0")
  case True
  then show ?thesis using fail m inv grown_refl [of s R] by (auto simp: arm64_map_one_page_def pt_inv_def)
next
  case False
  let ?r = "l0_table s va"
  have root: "?r \<in> R" by (rule pt_inv_root [OF inv False])
  obtain o1 s1 where n1: "next_table ?r (L0_INDEX va) s = (o1, s1)" by (cases "next_table ?r (L0_INDEX va) s")
  have p: "length ([] :: u64 list) < 3" "idx_ok ([] @ [L0_INDEX va])" "length ([] @ [L0_INDEX va]) < 3"
    "idx_ok (([] @ [L0_INDEX va]) @ [L1_INDEX va])" "length (([] @ [L0_INDEX va]) @ [L1_INDEX va]) < 3"
    by (simp_all add: L_INDEX_lt)
  note t1 = next_table_inv [OF inv root idx_ok_simps(1) p(1) walk.simps(1) L_INDEX_lt(1) n1]
  show ?thesis
  proof (cases o1)
    case None
    then show ?thesis using fail m False n1 t1 by (simp add: arm64_map_one_page_def Let_def)
  next
    case (Some l1)
    obtain o2 s2 where n2: "next_table l1 (L1_INDEX va) s1 = (o2, s2)" by (cases "next_table l1 (L1_INDEX va) s1")
    note t2 = next_table_inv [OF t1(2) root p(2,3) t1(3) [OF Some] L_INDEX_lt(2) n2]
    show ?thesis
    proof (cases o2)
      case None
      then show ?thesis using fail m False n1 n2 Some t2(2) grown_trans [OF t1(1) t2(1)]
        by (simp add: arm64_map_one_page_def Let_def)
    next
      case (Some l2)
      obtain o3 s3 where n3: "next_table l2 (L2_INDEX va) s2 = (o3, s3)" by (cases "next_table l2 (L2_INDEX va) s2")
      note t3 = next_table_inv [OF t2(2) root p(4,5) t2(3) [OF Some] L_INDEX_lt(3) n3]
      note g = grown_trans [OF grown_trans [OF t1(1) t2(1)] t3(1)]
      show ?thesis
        using m False n1 n2 n3 \<open>o1 = Some l1\<close> Some t3(2,3) g root fail ok
        by (cases o3) (auto simp: arm64_map_one_page_def Let_def)
    qed
  qed
qed

lemma prefix_same_length: "prefix p q \<Longrightarrow> length p = length q \<Longrightarrow> p = q"
  by (auto simp: prefix_def)

lemma map_page_correct_lemma:
  assumes inv: "pt_inv R s" and prot: "pte_present prot" "prot AND ARM64_PTE_ADDR_MASK = 0"
    and m: "map_page va pa prot s = (r, s')"
  shows "pt_inv R s' \<and> (r = 0 \<or> r = -1) \<and>
    (r = 0 \<longrightarrow> get_phys_from_va va s' = pa AND ARM64_PTE_ADDR_MASK) \<and>
    (\<forall>va'. r \<noteq> 0 \<or> va_key s va' \<noteq> va_key s va \<longrightarrow> get_phys_from_va va' s' = get_phys_from_va va' s)"
  using inv m [unfolded map_page_def]
proof (cases rule: arm64_map_one_page_cases)
  case fail
  then show ?thesis using grown_translation [OF fail(3) inv] by (simp add: get_phys_from_va_def)
next
  case (ok s3 l3)
  let ?p = "[L0_INDEX va, L1_INDEX va, L2_INDEX va]" and ?r = "l0_table s va"
  let ?e = "prot OR (pa AND ARM64_PTE_ADDR_MASK)"
  have wf: "pt_wf R s3" using ok(3) by (simp add: pt_inv_def)
  have p: "idx_ok ?p" "length ?p \<le> 3" by (simp_all add: L_INDEX_lt)
  note fr = walk_pte_set_frame [OF wf ok(4) p ok(5) L_INDEX_lt(4) [of va], where v = ?e, folded ok(6)]
  have same3: "walk s' r q = walk s3 r q" if "r \<in> R" "idx_ok q" "length q \<le> 3" for r q
    using that by (intro fr) (auto dest: prefix_length_le)
  have "pt_wf R s'" by (rule pt_wf_mono [OF wf same3]) (simp_all add: ok(6))
  then have inv': "pt_inv R s'" using ok(3) by (simp add: pt_inv_def ok(6))
  have pres: "pte_present ?e" by (rule pte_present_or [OF prot(1)])
  have phys: "pte_to_phys ?e = pa AND ARM64_PTE_ADDR_MASK"
    by (simp add: pte_to_phys_def bit.conj_disj_distrib2 prot(2) and.assoc)
  have vp: "va_path va = ?p @ [L3_INDEX va]" by (simp add: va_path_def)
  have "walk s' ?r (va_path va) = Some (pa AND ARM64_PTE_ADDR_MASK)"
    unfolding vp ok(6) using walk_pte_set_at [OF wf ok(4) p ok(5) L_INDEX_lt(4) [of va], where v = ?e and q = "[]"] pres phys by simp
  moreover have l0: "l0_table s' v = l0_table s v" for v using grown_l0 [OF ok(2)] by (simp add: ok(6))
  moreover have "?r \<noteq> 0" using ok(4) inv by (auto simp: pt_inv_def)
  ultimately have hit: "arm64_get_phys_from_va va s' = pa AND ARM64_PTE_ADDR_MASK" by (simp add: get_phys_walk)
  have "arm64_get_phys_from_va v s' = arm64_get_phys_from_va v s3" if k: "va_key s v \<noteq> va_key s va" for v
  proof (cases "l0_table s v = 0")
    case False
    have "\<not> (l0_table s v = ?r \<and> prefix (va_path va) (va_path v))"
      using k prefix_same_length [of "va_path va" "va_path v"] by (auto simp: va_key_def)
    then have "walk s' (l0_table s v) (va_path v) = walk s3 (l0_table s v) (va_path v)"
      unfolding vp by (intro fr pt_inv_root [OF inv False]) auto
    then show ?thesis using grown_l0 [OF ok(2)] l0 by (simp add: get_phys_walk)
  qed (use grown_l0 [OF ok(2)] l0 in \<open>simp add: get_phys_walk\<close>)
  with inv' hit ok(1) grown_translation [OF ok(2) inv] show ?thesis by (simp add: get_phys_from_va_def)
qed

section \<open>Unmapping one page\<close>

definition shrunk :: "phys_addr_t set \<Rightarrow> 'a kmem_scheme \<Rightarrow> 'a kmem_scheme \<Rightarrow> bool" where
  "shrunk R s t \<longleftrightarrow> pt_inv R t \<and> used_set (km_pmm t) \<subseteq> used_set (km_pmm s) \<and>
     slab_linear_map_base t = slab_linear_map_base s \<and> ttbr0_el1 t = ttbr0_el1 s \<and> ttbr1_el1 t = ttbr1_el1 s \<and>
     kmem.more t = kmem.more s \<and>
     (\<forall>r \<in> R. \<forall>q. idx_ok q \<and> length q = 4 \<longrightarrow> walk t r q = walk s r q)"

lemma shrunk_refl: "pt_inv R s \<Longrightarrow> shrunk R s s"
  by (simp add: shrunk_def)

lemma shrunk_trans: "shrunk R s t \<Longrightarrow> shrunk R t u \<Longrightarrow> shrunk R s u"
  by (auto simp: shrunk_def)

lemma km_free_simps [simp]:
  "mem64 (km_free_phys_pages pa k s) = mem64 s"
  "slab_linear_map_base (km_free_phys_pages pa k s) = slab_linear_map_base s"
  "ttbr0_el1 (km_free_phys_pages pa k s) = ttbr0_el1 s" "ttbr1_el1 (km_free_phys_pages pa k s) = ttbr1_el1 s"
  "km_pmm (km_free_phys_pages pa k s) = free_phys_pages pa k (km_pmm s)"
  "kmem.more (km_free_phys_pages pa k s) = kmem.more s"
  by (simp_all add: km_free_phys_pages_def)

lemma walk_km_free [simp]: "walk (km_free_phys_pages pa k s) r q = walk s r q"
  by (rule walk_cong) simp_all

lemma pte_table_empty_get: "pte_table_empty t s \<Longrightarrow> j < 512 \<Longrightarrow> pte_get s t j = 0"
proof -
  assume e: "pte_table_empty t s" and "j < 512"
  then have "unat j \<in> set [0..<PTRS_PER_PTE]" by (simp add: word_less_nat_alt PTRS_PER_PTE_def)
  with e have "pte_get s t (of_nat (unat j)) = 0" unfolding pte_table_empty_def by blast
  then show ?thesis by simp
qed

lemma unlink_step:
  assumes inv: "pt_inv R s" and r0: "r0 \<in> R" "idx_ok (p0 @ [i])" "length p0 < 3" "walk s r0 p0 = Some t"
    and sub: "walk s r0 (p0 @ [i]) = Some u" "pte_table_empty u s"
  defines "s' \<equiv> km_free_phys_pages u 0 (pte_set t i 0 s)"
  shows "shrunk R s s'"
    and "\<And>r q. r \<in> R \<Longrightarrow> idx_ok q \<Longrightarrow> length q \<le> 4 \<Longrightarrow> \<not> (r = r0 \<and> prefix (p0 @ [i]) q) \<Longrightarrow> walk s' r q = walk s r q"
proof -
  have wf: "pt_wf R s" and bi: "buddy_inv (km_pmm s)" using inv by (simp_all add: pt_inv_def)
  have p0: "idx_ok p0" "length p0 \<le> 3" "i < 512" "length (p0 @ [i]) \<le> 3" using r0 by auto
  show fr: "walk s' r q = walk s r q"
    if "r \<in> R" "idx_ok q" "length q \<le> 4" "\<not> (r = r0 \<and> prefix (p0 @ [i]) q)" for r q
    unfolding s'_def walk_km_free
    by (rule walk_pte_set_frame [OF wf r0(1) p0(1,2) r0(4) p0(3) that])
  have gone: "walk s' r0 (p0 @ i # q) = None" for q
    unfolding s'_def walk_km_free walk_pte_set_at [OF wf r0(1) p0(1,2) r0(4) p0(3)]
    by (simp add: pte_present_def)
  have below: "walk s r0 (p0 @ i # j # q) = None" if "j < 512" for j q
    using sub(1) pte_table_empty_get [OF sub(2) that] walk_append [of s r0 "p0 @ [i]" "j # q"]
    by (simp add: pte_present_def)
  have four: "walk s' r q = walk s r q" if as: "r \<in> R" "idx_ok q" "length q = 4" for r q
  proof (cases "r = r0 \<and> prefix (p0 @ [i]) q")
    case True
    then obtain q' where q': "q = p0 @ i # q'" by (auto simp: prefix_def)
    then obtain j q'' where "q' = j # q''" using r0(3) as(3) by (cases q') auto
    then show ?thesis using True q' below gone as(2) by simp
  qed (use fr [OF as(1,2)] as in simp)
  from pt_wf_page [OF wf r0(1,2) p0(4) sub(1)]
  obtain f where f: "u = pfn_to_pa f" "f < TOTAL_PAGES" "(f, 0) \<in> used_set (km_pmm s)" by (auto simp: table_page_def)
  have fd: "freed (km_pmm s) f 0 (km_pmm s')"
    using free_phys_pages_ok [OF bi f(3)] by (simp add: s'_def f(1))
  have three: "walk s r q = Some a \<and> a \<noteq> u"
    if as: "r \<in> R" "idx_ok q" "length q \<le> 3" "walk s' r q = Some a" for r q a
  proof -
    have np: "\<not> (r = r0 \<and> prefix (p0 @ [i]) q)" using as(4) gone by (auto simp: prefix_def)
    then have w: "walk s r q = Some a" using fr [OF as(1,2)] as(3,4) by simp
    moreover have "a \<noteq> u" using pt_wf_unique [OF wf r0(1,2) p0(4) sub(1) as(1-3)] w np by auto
    ultimately show ?thesis by simp
  qed
  have page: "table_page s' a" if "table_page s a" "a \<noteq> u" for a
    using that fd f(1) by (auto simp: table_page_def freed_def)
  have "pt_wf R s'"
    unfolding pt_wf_def
  proof (intro conjI ballI allI impI)
    fix r p a assume "r \<in> R" "idx_ok p \<and> length p \<le> 3 \<and> walk s' r p = Some a"
    then show "table_page s' a" using three page pt_wf_page [OF wf] by metis
  next
    fix r r' p q a assume r: "r \<in> R" "r' \<in> R"
      and *: "idx_ok p \<and> length p \<le> 3 \<and> idx_ok q \<and> length q \<le> 3 \<and> walk s' r p = Some a \<and> walk s' r' q = Some a"
    then have "r' = r \<and> q = p" using three pt_wf_unique [OF wf r(1), of p a r' q] by blast
    then show "r = r'" and "p = q" by simp_all
  qed
  then have "pt_inv R s'" using inv fd by (auto simp: pt_inv_def freed_def s'_def)
  with four fd show "shrunk R s s'" by (auto simp: shrunk_def freed_def s'_def)
qed

lemma release_empty_tables_shrunk:
  assumes inv: "pt_inv R s" and r: "r \<in> R"
    and w: "walk s r [L0_INDEX va] = Some l1" "walk s r [L0_INDEX va, L1_INDEX va] = Some l2"
      "walk s r [L0_INDEX va, L1_INDEX va, L2_INDEX va] = Some l3"
  shows "shrunk R s (release_empty_tables va r l1 l2 l3 s)"
proof -
  let ?s2 = "km_free_phys_pages l3 0 (pte_set l2 (L2_INDEX va) 0 s)"
  let ?s3 = "km_free_phys_pages l2 0 (pte_set l1 (L1_INDEX va) 0 ?s2)"
  let ?s4 = "km_free_phys_pages l1 0 (pte_set r (L0_INDEX va) 0 ?s3)"
  have a: "shrunk R s ?s2" "walk ?s2 r [L0_INDEX va] = Some l1" "walk ?s2 r [L0_INDEX va, L1_INDEX va] = Some l2"
    if "pte_table_empty l3 s"
    using unlink_step [of R s r "[L0_INDEX va, L1_INDEX va]" "L2_INDEX va" l2 l3] inv w that r
    by (simp_all add: L_INDEX_lt del: walk.simps)
  have b: "shrunk R ?s2 ?s3" "walk ?s3 r [L0_INDEX va] = Some l1"
    if "pte_table_empty l3 s" "pte_table_empty l2 ?s2"
    using unlink_step [of R ?s2 r "[L0_INDEX va]" "L1_INDEX va" l1 l2] a [OF that(1)] that r
    by (simp_all add: L_INDEX_lt shrunk_def del: walk.simps)
  have c: "shrunk R ?s3 ?s4"
    if "pte_table_empty l3 s" "pte_table_empty l2 ?s2" "pte_table_empty l1 ?s3"
    using unlink_step(1) [of R ?s3 r "[]" "L0_INDEX va" r l1] b [OF that(1,2)] that r walk.simps(1) [of ?s3 r]
    by (simp add: L_INDEX_lt shrunk_def del: walk.simps)
  consider "\<not> pte_table_empty l3 s" | "pte_table_empty l3 s" "\<not> pte_table_empty l2 ?s2"
    | "pte_table_empty l3 s" "pte_table_empty l2 ?s2" "\<not> pte_table_empty l1 ?s3"
    | "pte_table_empty l3 s" "pte_table_empty l2 ?s2" "pte_table_empty l1 ?s3" by blast
  then show ?thesis
  proof cases
    case 1
    then show ?thesis using shrunk_refl [OF inv] by (simp add: release_empty_tables_def)
  next
    case 2
    then show ?thesis using a(1) by (simp add: release_empty_tables_def)
  next
    case 3
    then show ?thesis using shrunk_trans [OF a(1) b(1)] by (simp add: release_empty_tables_def)
  next
    case 4
    then show ?thesis using shrunk_trans [OF shrunk_trans [OF a(1) b(1)] c] by (simp add: release_empty_tables_def)
  qed
qed

lemma flush_tlb_simps [simp]:
  "walk (flush_tlb s) r q = walk s r q" "km_pmm (flush_tlb s) = km_pmm s"
  "ttbr0_el1 (flush_tlb s) = ttbr0_el1 s" "ttbr1_el1 (flush_tlb s) = ttbr1_el1 s"
  "l0_table (flush_tlb s) = l0_table s" "kmem.more (flush_tlb s) = kmem.more s"
  "slab_linear_map_base (flush_tlb s) = slab_linear_map_base s"
  "mem64 (flush_tlb s) = mem64 s"
  by (auto simp: flush_tlb_def l0_table_def fun_eq_iff read_ttbr0_def read_ttbr1_def intro: walk_cong)

lemma table_page_flush [simp]: "table_page (flush_tlb s) = table_page s"
  by (simp add: table_page_def fun_eq_iff)

lemma shrunk_l0: "shrunk R s t \<Longrightarrow> l0_table t va = l0_table s va"
  by (simp add: shrunk_def l0_table_def read_ttbr0_def read_ttbr1_def)

text \<open>The two outcomes of the unmapping walk.\<close>

lemma arm64_unmap_cases:
  obtains (absent) "arm64_unmap_one_page va s = s" "arm64_get_phys_from_va va s = 0"
  | (present) l1 l2 l3 where "l0_table s va \<noteq> 0" "walk s (l0_table s va) [L0_INDEX va] = Some l1"
      "walk s (l0_table s va) [L0_INDEX va, L1_INDEX va] = Some l2"
      "walk s (l0_table s va) [L0_INDEX va, L1_INDEX va, L2_INDEX va] = Some l3"
      "arm64_unmap_one_page va s =
        release_empty_tables va (l0_table s va) l1 l2 l3 (flush_tlb (pte_set l3 (L3_INDEX va) 0 s))"
  by (cases "l0_table s va = 0 \<or> walk s (l0_table s va) (va_path va) = None")
     (auto simp: arm64_unmap_one_page_def get_phys_walk va_path_def Let_def split: if_splits)

lemma unmap_page_correct_lemma:
  assumes inv: "pt_inv R s"
  shows "pt_inv R (unmap_page va s) \<and> get_phys_from_va va (unmap_page va s) = 0 \<and>
    (\<forall>va'. va_key s va' \<noteq> va_key s va \<longrightarrow> get_phys_from_va va' (unmap_page va s) = get_phys_from_va va' s)"
proof (cases va s rule: arm64_unmap_cases)
  case absent
  then show ?thesis using inv by (simp add: unmap_page_def get_phys_from_va_def)
next
  case (present l1 l2 l3)
  let ?p = "[L0_INDEX va, L1_INDEX va, L2_INDEX va]" and ?r = "l0_table s va"
  let ?s1 = "flush_tlb (pte_set l3 (L3_INDEX va) 0 s)"
  have wf: "pt_wf R s" using inv by (simp add: pt_inv_def)
  have root: "?r \<in> R" by (rule pt_inv_root [OF inv present(1)])
  have p: "idx_ok ?p" "length ?p \<le> 3" by (simp_all add: L_INDEX_lt)
  have fr: "walk ?s1 r q = walk s r q"
    if "r \<in> R" "idx_ok q" "length q \<le> 4" "\<not> (r = ?r \<and> prefix (va_path va) q)" for r q
    using walk_pte_set_frame [OF wf root p present(4) L_INDEX_lt(4) [of va] that(1-3)] that(4) by (simp add: va_path_def)
  have same3: "walk ?s1 r q = walk s r q" if "r \<in> R" "idx_ok q" "length q \<le> 3" for r q
    using that by (intro fr) (auto dest: prefix_length_le)
  have "pt_wf R ?s1" by (rule pt_wf_mono [OF wf same3]) simp_all
  then have inv1: "pt_inv R ?s1" using inv by (simp add: pt_inv_def)
  have w1: "walk ?s1 ?r [L0_INDEX va] = Some l1" "walk ?s1 ?r [L0_INDEX va, L1_INDEX va] = Some l2"
    "walk ?s1 ?r [L0_INDEX va, L1_INDEX va, L2_INDEX va] = Some l3"
    using same3 [OF root] present(2-4) by (simp_all add: L_INDEX_lt del: walk.simps flush_tlb_simps)
  have sh: "shrunk R ?s1 (unmap_page va s)"
    using release_empty_tables_shrunk [OF inv1 root w1] present(5) by (simp add: unmap_page_def)
  have l0: "l0_table (unmap_page va s) v = l0_table s v" for v using shrunk_l0 [OF sh] by simp
  have four: "walk (unmap_page va s) r q = walk ?s1 r q" if "r \<in> R" "idx_ok q" "length q = 4" for r q
    using sh that by (simp add: shrunk_def)
  have "walk ?s1 ?r (va_path va) = None"
    using walk_pte_set_at [OF wf root p present(4) L_INDEX_lt(4) [of va], of 0 "[]"]
    by (simp add: va_path_def pte_present_def del: walk.simps)
  then have hit: "get_phys_from_va va (unmap_page va s) = 0"
    using four [OF root] l0 by (simp add: get_phys_from_va_def get_phys_walk)
  have "get_phys_from_va v (unmap_page va s) = get_phys_from_va v s" if k: "va_key s v \<noteq> va_key s va" for v
  proof (cases "l0_table s v = 0")
    case False
    have "\<not> (l0_table s v = ?r \<and> prefix (va_path va) (va_path v))"
      using k prefix_same_length [of "va_path va" "va_path v"] by (auto simp: va_key_def)
    then have "walk ?s1 (l0_table s v) (va_path v) = walk s (l0_table s v) (va_path v)"
      by (intro fr pt_inv_root [OF inv False]) auto
    then show ?thesis
      using four [OF pt_inv_root [OF inv False]] l0 by (simp add: get_phys_from_va_def get_phys_walk)
  qed (simp add: get_phys_from_va_def get_phys_walk l0)
  with hit sh show ?thesis by (simp add: shrunk_def)
qed

section \<open>Mapping succeeds while pages are left\<close>

lemma alloc_one_page_succeeds:
  assumes "buddy_inv s" and "1 \<le> free_pages s" and "alloc_phys_pages 0 GFP_KERNEL s = (pa, t)"
  shows "pa \<noteq> 0" and "free_pages s = Suc (free_pages t)"
proof -
  have "free_set s \<noteq> {}" using assms(2) by (auto simp: free_pages_def)
  then obtain b where b: "b \<in> free_set s" by blast
  obtain p k where pk: "(p, k) \<in> free_set s" using b by (cases b) auto
  have k: "k \<le> MAX_ORDER" using buddy_inv_block(1) [OF assms(1)] pk by blast
  have dma: "(GFP_KERNEL AND GFP_DMA \<noteq> 0) = False" by (simp add: GFP_KERNEL_def GFP_DMA_def)
  have z: "(0::nat) \<le> MAX_ORDER" by simp
  show nz: "pa \<noteq> 0"
    using assms(1) z
  proof (cases rule: alloc_phys_pages_cases [where g = GFP_KERNEL])
    case none
    have "fit s False k" using free_list_first(1) [OF buddy_invD(1) [OF assms(1)] k] pk by (simp add: fit_def) (rule exI)
    then show ?thesis using none(2) [OF _ k] by (simp add: dma)
  next
    case (some p k t')
    then have "p < TOTAL_PAGES" using buddy_inv_block(3) [OF assms(1), of p k] by (simp add: allocated_def)
    then show ?thesis using some(1) assms(3) pfn_to_pa_nonzero by simp
  qed
  from alloc_one_page [OF assms(1,3)] nz obtain f where f: "(f, 0) \<notin> used_set s" "used_set t = insert (f, 0) (used_set s)" "buddy_inv t"
    by blast
  have st: "start_pfn t = start_pfn s"
    using alloc_phys_pages_inv(2) [OF assms(1), of 0 GFP_KERNEL] assms(3) by (simp add: start_pfn_def)
  have "card (\<Union> (blk ` used_set t)) = (\<Sum>b \<in> used_set t. 2 ^ snd b)"
    using tiling_disj [OF inv_hole_tiling [OF buddy_invD(1) [OF f(3)]]] by (intro card_blocks) auto
  moreover have "card (\<Union> (blk ` used_set s)) = (\<Sum>b \<in> used_set s. 2 ^ snd b)"
    using tiling_disj [OF inv_hole_tiling [OF buddy_invD(1) [OF assms(1)]]] by (intro card_blocks) auto
  ultimately have "used_pages t = Suc (used_pages s)" using f(1,2) by (simp add: used_pages_def)
  then show "free_pages s = Suc (free_pages t)" using pages_total [OF assms(1)] pages_total [OF f(3)] st by simp
qed

lemma next_table_succeeds:
  assumes "buddy_inv (km_pmm s)" and "1 \<le> free_pages (km_pmm s)" and "next_table t i s = (res, s')"
  shows "res \<noteq> None" and "free_pages (km_pmm s) \<le> Suc (free_pages (km_pmm s'))"
proof -
  obtain pa s1 where al: "km_alloc_phys_pages 0 GFP_KERNEL s = (pa, s1)" by (cases "km_alloc_phys_pages 0 GFP_KERNEL s")
  note a = alloc_one_page_succeeds [OF assms(1,2) km_alloc_simps(5) [OF al]]
  show "res \<noteq> None" "free_pages (km_pmm s) \<le> Suc (free_pages (km_pmm s'))"
    using assms(3) al a by (auto simp: next_table_def Let_def split: if_splits)
qed

lemma map_page_succeeds_lemma:
  assumes inv: "pt_inv R s" and l0: "l0_table s va \<noteq> 0" and fp: "3 \<le> free_pages (km_pmm s)"
  shows "fst (map_page va pa prot s) = 0"
proof -
  let ?r = "l0_table s va"
  have root: "?r \<in> R" by (rule pt_inv_root [OF inv l0])
  have p: "length ([] :: u64 list) < 3" "idx_ok ([] @ [L0_INDEX va])" "length ([] @ [L0_INDEX va]) < 3"
    by (simp_all add: L_INDEX_lt)
  have bi: "buddy_inv (km_pmm t)" if "pt_inv R t" for t :: "'a kmem_scheme" using that by (simp add: pt_inv_def)
  obtain o1 s1 where n1: "next_table ?r (L0_INDEX va) s = (o1, s1)" by (cases "next_table ?r (L0_INDEX va) s")
  note t1 = next_table_inv [OF inv root idx_ok_simps(1) p(1) walk.simps(1) L_INDEX_lt(1) n1]
  from next_table_succeeds [OF bi [OF inv] _ n1] fp obtain l1 where o1: "o1 = Some l1"
    and f1: "2 \<le> free_pages (km_pmm s1)" by auto
  obtain o2 s2 where n2: "next_table l1 (L1_INDEX va) s1 = (o2, s2)" by (cases "next_table l1 (L1_INDEX va) s1")
  note t2 = next_table_inv [OF t1(2) root p(2,3) t1(3) [OF o1] L_INDEX_lt(2) n2]
  from next_table_succeeds [OF bi [OF t1(2)] _ n2] f1 obtain l2 where o2: "o2 = Some l2"
    and f2: "1 \<le> free_pages (km_pmm s2)" by auto
  obtain o3 s3 where n3: "next_table l2 (L2_INDEX va) s2 = (o3, s3)" by (cases "next_table l2 (L2_INDEX va) s2")
  from next_table_succeeds [OF bi [OF t2(2)] f2 n3] obtain l3 where "o3 = Some l3" by auto
  then show ?thesis using l0 n1 n2 n3 o1 o2 by (simp add: map_page_def arm64_map_one_page_def Let_def)
qed

end
