(* ===== verification/Page_Table_Properties.thy ===== *)
theory Page_Table_Properties
  imports Page_Table_Correct
begin

text \<open>
  The properties of the page tables: mapping, unmapping and their composition, ranges, the copy of
  a last-level table by \<^verbatim>\<open>copy_user_page_table\<close>, and the translation registers.
\<close>

section \<open>A concrete machine\<close>

text \<open>One allocated, empty top-level table in \<^verbatim>\<open>TTBR1\<close> and no user table.\<close>

definition demo_kmem :: kmem where
  "demo_kmem =
     (let (pa, t) = alloc_phys_pages 0 GFP_KERNEL demo_pmm in
      \<lparr>km_pmm = t, mem64 = (\<lambda>_. 0), slab_linear_map_base = 0xffff800000000000, slab_l0_table_pa = pa,
       linear_map_base = 0, l0_table_pa = 0, ttbr0_el1 = 0, ttbr1_el1 = pa, mair_el1 = 0, tcr_el1 = 0,
       sctlr_el1 = 0, tlb_flushes = 0\<rparr>)"

lemma walk_zero: "mem64 s = (\<lambda>_. 0) \<Longrightarrow> walk s r q = (if q = [] then Some r else None)"
  by (cases q) (simp_all add: pte_get_def load64_def pte_present_def)

lemma demo_kmem_inv: "pt_inv {ttbr1_el1 demo_kmem} demo_kmem" and demo_kmem_root: "ttbr1_el1 demo_kmem \<noteq> 0"
proof -
  obtain p t where t: "alloc_phys_pages 0 GFP_KERNEL demo_pmm = (pfn_to_pa p, t)" "pfn_to_pa p \<noteq> 0" "buddy_inv t"
    "used_set t = {(p, 0)}" "p < TOTAL_PAGES" by (rule demo_allocated [of 0, simplified])
  have m: "mem64 demo_kmem = (\<lambda>_. 0)" "ttbr1_el1 demo_kmem = pfn_to_pa p" "ttbr0_el1 demo_kmem = 0" "km_pmm demo_kmem = t"
    using t(1) by (simp_all add: demo_kmem_def)
  then show "ttbr1_el1 demo_kmem \<noteq> 0" using t(2) by simp
  have "table_page demo_kmem (pfn_to_pa p)" using t(4,5) m(4) by (auto simp: table_page_def)
  then have "pt_wf {pfn_to_pa p} demo_kmem" by (simp add: pt_wf_def walk_zero [OF m(1)])
  then show "pt_inv {ttbr1_el1 demo_kmem} demo_kmem" using t(2,3) m by (simp add: pt_inv_def)
qed

lemma prot_ok:
  "pte_present PAGE_KERNEL_RW" "PAGE_KERNEL_RW AND ARM64_PTE_ADDR_MASK = 0"
  "pte_present PAGE_USER_RW" "PAGE_USER_RW AND ARM64_PTE_ADDR_MASK = 0"
  "pte_present PAGE_USER_RX" "PAGE_USER_RX AND ARM64_PTE_ADDR_MASK = 0"
  "pte_present PAGE_KERNEL_RX" "PAGE_KERNEL_RX AND ARM64_PTE_ADDR_MASK = 0"
  "pte_present PAGE_DMA" "PAGE_DMA AND ARM64_PTE_ADDR_MASK = 0"
  "pte_present PAGE_DEVICE" "PAGE_DEVICE AND ARM64_PTE_ADDR_MASK = 0"
  by (simp_all add: pte_present_def PAGE_KERNEL_RW_def PAGE_USER_RW_def PAGE_USER_RX_def PAGE_KERNEL_RX_def
      PAGE_DMA_def PAGE_DEVICE_def ARM64_PTE_VALID_def ARM64_PTE_TYPE_PAGE_def ARM64_PTE_AF_def ARM64_PTE_NG_def
      ARM64_PTE_SH_INNER_SHAREABLE_def ARM64_PTE_SH_NON_SHAREABLE_def ARM64_PTE_AP_KERNEL_RW_EL0_NONE_def
      ARM64_PTE_AP_KERNEL_RO_EL0_NONE_def ARM64_PTE_AP_KERNEL_RW_EL0_RW_def ARM64_PTE_AP_KERNEL_RO_EL0_RO_def
      ARM64_PTE_NS_RES0_def ARM64_PTE_ATTRIDX_def ARM64_PTE_UXN_def ARM64_PTE_PXN_def ARM64_PTE_ADDR_MASK_def)

lemma demo_kmem_free: "free_pages (km_pmm demo_kmem) = 65022"
proof -
  obtain p t where t: "alloc_phys_pages 0 GFP_KERNEL demo_pmm = (pfn_to_pa p, t)" "buddy_inv t"
    "used_set t = {(p, 0)}" by (rule demo_allocated [of 0, simplified])
  have k: "km_pmm demo_kmem = t" using t(1) by (simp add: demo_kmem_def)
  have "buddy_mem_start t = buddy_mem_start demo_pmm"
    using alloc_phys_pages_inv(2) [OF demo_inv(1), of 0 GFP_KERNEL] t(1) by simp
  then have "start_pfn t = 513" using demo_start_pfn by (simp add: start_pfn_def)
  moreover have "used_pages t = 1" by (simp add: used_pages_def t(3))
  ultimately show ?thesis using pages_total [OF t(2)] by (simp add: k layout_simps)
qed

lemma demo_map:
  obtains s' where "map_page 0xffff000000000000 pa prot demo_kmem = (0, s')"
proof -
  have "l0_table demo_kmem 0xffff000000000000 \<noteq> 0"
    using demo_kmem_root by (simp add: l0_table_def is_user_addr_def read_ttbr1_def)
  then have "fst (map_page 0xffff000000000000 pa prot demo_kmem) = 0"
    by (intro map_page_succeeds_lemma [OF demo_kmem_inv]) (simp_all add: demo_kmem_free)
  then show ?thesis using that by (metis prod.collapse)
qed

section \<open>Mapping and unmapping\<close>

text \<open>C9: \<^verbatim>\<open>map_page\<close> on well-formed page tables either returns 0, and then the address translates to
  the page asked for and every other virtual page translates as before, or returns -1 (no root
  table, or out of memory for a table) and no translation changes; in both cases the tables stay
  well formed: every table is a distinct allocated page.\<close>

theorem map_page_correct:
  assumes "pt_inv R s" and "pte_present prot" and "prot AND ARM64_PTE_ADDR_MASK = 0"
    and "map_page va pa prot s = (r, s')"
  shows "pt_inv R s' \<and> (r = 0 \<or> r = -1) \<and>
    (r = 0 \<longrightarrow> get_phys_from_va va s' = pa AND ARM64_PTE_ADDR_MASK) \<and>
    (\<forall>va'. r \<noteq> 0 \<or> va_key s va' \<noteq> va_key s va \<longrightarrow> get_phys_from_va va' s' = get_phys_from_va va' s)"
  by (rule map_page_correct_lemma [OF assms])

theorem map_page_correct_witness:
  "\<exists>s'. map_page 0xffff000000000000 0x45000000 PAGE_KERNEL_RW demo_kmem = (0, s') \<and>
     pt_inv {ttbr1_el1 demo_kmem} s' \<and> get_phys_from_va 0xffff000000000000 s' = 0x45000000"
proof -
  obtain s' where m: "map_page 0xffff000000000000 0x45000000 PAGE_KERNEL_RW demo_kmem = (0, s')"
    by (rule demo_map)
  from map_page_correct [OF demo_kmem_inv prot_ok(1,2) m] m show ?thesis by (auto simp: ARM64_PTE_ADDR_MASK_def)
qed

text \<open>C10: \<^verbatim>\<open>map_page\<close> succeeds whenever the address has a root table and three physical pages are
  free, the most it may need for missing tables.\<close>

theorem map_page_succeeds:
  assumes "pt_inv R s" and "l0_table s va \<noteq> 0" and "3 \<le> unat (buddy_nr_free_pages_total (km_pmm s))"
  shows "fst (map_page va pa prot s) = 0"
proof -
  have "buddy_inv (km_pmm s)" using assms(1) by (simp add: pt_inv_def)
  then show ?thesis using map_page_succeeds_lemma [OF assms(1,2)] assms(3) free_pages_total by simp
qed

theorem map_page_succeeds_witness:
  "fst (map_page 0xffff000000000000 0x45000000 PAGE_DEVICE demo_kmem) = 0"
proof (rule map_page_succeeds [OF demo_kmem_inv])
  show "l0_table demo_kmem 0xffff000000000000 \<noteq> 0"
    using demo_kmem_root by (simp add: l0_table_def is_user_addr_def read_ttbr1_def)
  have "buddy_inv (km_pmm demo_kmem)" using demo_kmem_inv by (simp add: pt_inv_def)
  then show "3 \<le> unat (buddy_nr_free_pages_total (km_pmm demo_kmem))"
    using free_pages_total demo_kmem_free by simp
qed



lemma va_key_eq_translation: "va_key s va = va_key s va' \<Longrightarrow> get_phys_from_va va s = get_phys_from_va va' s"
  by (simp add: va_key_def get_phys_from_va_def get_phys_walk)

lemma map_page_l0: "pt_inv R s \<Longrightarrow> map_page va pa prot s = (r, s') \<Longrightarrow> va_key s' v = va_key s v"
proof -
  assume inv: "pt_inv R s" and m: "map_page va pa prot s = (r, s')"
  from inv m [unfolded map_page_def] show ?thesis
    by (cases rule: arm64_map_one_page_cases) (auto simp: va_key_def dest: grown_l0)
qed

lemma unmap_page_key: "va_key (unmap_page va s) v = va_key s v"
  by (simp add: unmap_page_def arm64_unmap_one_page_def release_empty_tables_def Let_def va_key_def l0_table_def
      read_ttbr0_def read_ttbr1_def)

text \<open>Mapping a page that had no translation and unmapping it again restores every translation.\<close>

theorem map_unmap_roundtrip:
  assumes "pt_inv R s" and "pte_present prot" and "prot AND ARM64_PTE_ADDR_MASK = 0"
    and "get_phys_from_va va s = 0" and "map_page va pa prot s = (r, s')"
  shows "get_phys_from_va va' (unmap_page va s') = get_phys_from_va va' s"
proof (cases "va_key s va' = va_key s va")
  case True
  note m = map_page_correct_lemma [OF assms(1-3,5)]
  have "va_key (unmap_page va s') va' = va_key (unmap_page va s') va"
    using True map_page_l0 [OF assms(1,5)] by (simp add: unmap_page_key)
  then have "get_phys_from_va va' (unmap_page va s') = 0"
    using unmap_page_correct_lemma [of R s' va] m va_key_eq_translation by metis
  then show ?thesis using va_key_eq_translation [OF True] assms(4) by simp
next
  case False
  note m = map_page_correct_lemma [OF assms(1-3,5)]
  then have "get_phys_from_va va' (unmap_page va s') = get_phys_from_va va' s'"
    using unmap_page_correct_lemma [of R s' va] False map_page_l0 [OF assms(1,5)] by simp
  then show ?thesis using m False by simp
qed

theorem map_unmap_roundtrip_witness:
  "\<exists>s'. map_page 0xffff000000000000 0x45000000 PAGE_KERNEL_RW demo_kmem = (0, s') \<and>
     get_phys_from_va 0xffff000000000000 (unmap_page 0xffff000000000000 s') = 0"
proof -
  obtain s' where m: "map_page 0xffff000000000000 0x45000000 PAGE_KERNEL_RW demo_kmem = (0, s')" by (rule demo_map)
  have "mem64 demo_kmem = (\<lambda>_. 0)" by (simp add: demo_kmem_def split: prod.splits)
  then have z: "get_phys_from_va va demo_kmem = 0" for va
    using walk_zero [of demo_kmem "l0_table demo_kmem va" "va_path va"]
    by (simp add: get_phys_from_va_def get_phys_walk va_path_def)
  from map_unmap_roundtrip [OF demo_kmem_inv prot_ok(1,2) z m] m z show ?thesis by metis
qed

section \<open>Ranges\<close>

lemma L_INDEX_bits:
  "bit (L0_INDEX va) n \<longleftrightarrow> n < 9 \<and> bit va (n + 39)" "bit (L1_INDEX va) n \<longleftrightarrow> n < 9 \<and> bit va (n + 30)"
  "bit (L2_INDEX va) n \<longleftrightarrow> n < 9 \<and> bit va (n + 21)" "bit (L3_INDEX va) n \<longleftrightarrow> n < 9 \<and> bit va (n + 12)"
proof -
  have m: "(0x1FF :: u64) = mask 9" by (simp add: mask_eq_decr_exp)
  show "bit (L0_INDEX va) n \<longleftrightarrow> n < 9 \<and> bit va (n + 39)" "bit (L1_INDEX va) n \<longleftrightarrow> n < 9 \<and> bit va (n + 30)"
    "bit (L2_INDEX va) n \<longleftrightarrow> n < 9 \<and> bit va (n + 21)" "bit (L3_INDEX va) n \<longleftrightarrow> n < 9 \<and> bit va (n + 12)"
    unfolding L0_INDEX_def L1_INDEX_def L2_INDEX_def L3_INDEX_def m
    by (auto simp: bit_simps add.commute dest: bit_imp_le_length)
qed

lemma va_path_page:
  assumes "va_path v = va_path w"
  shows "take_bit 36 (drop_bit 12 v) = take_bit 36 (drop_bit 12 w)"
proof (rule bit_word_eqI)
  fix n assume "n < LENGTH(64)"
  have e: "L0_INDEX v = L0_INDEX w" "L1_INDEX v = L1_INDEX w" "L2_INDEX v = L2_INDEX w" "L3_INDEX v = L3_INDEX w"
    using assms by (simp_all add: va_path_def)
  consider "n < 9" | "9 \<le> n" "n < 18" | "18 \<le> n" "n < 27" | "27 \<le> n" "n < 36" | "36 \<le> n" by linarith
  then have "n < 36 \<longrightarrow> bit v (12 + n) = bit w (12 + n)"
  proof cases
    case 1
    then show ?thesis using L_INDEX_bits(4) [of v n] L_INDEX_bits(4) [of w n] e(4) by (simp add: add.commute)
  next
    case 2
    then show ?thesis using L_INDEX_bits(3) [of v "n - 9"] L_INDEX_bits(3) [of w "n - 9"] e(3) by (auto simp: add.commute)
  next
    case 3
    then show ?thesis using L_INDEX_bits(2) [of v "n - 18"] L_INDEX_bits(2) [of w "n - 18"] e(2) by (auto simp: add.commute)
  next
    case 4
    then show ?thesis using L_INDEX_bits(1) [of v "n - 27"] L_INDEX_bits(1) [of w "n - 27"] e(1) by (auto simp: add.commute)
  qed simp
  then show "bit (take_bit 36 (drop_bit 12 v)) n = bit (take_bit 36 (drop_bit 12 w)) n"
    by (auto simp: bit_simps)
qed

lemma va_path_offset_neq:
  assumes "0 < k" and "k < 2 ^ 36"
  shows "va_path (va + 4096 * of_nat k) \<noteq> va_path va"
proof
  assume "va_path (va + 4096 * of_nat k) = va_path va"
  then have "unat (take_bit 36 (drop_bit 12 (va + 4096 * of_nat k))) = unat (take_bit 36 (drop_bit 12 va))"
    using va_path_page by metis
  then have e: "unat (va + 4096 * of_nat k) div 4096 mod 2 ^ 36 = unat va div 4096 mod 2 ^ 36"
    by (simp add: unat_take_bit_mod unat_drop_bit_div)
  have "unat (4096 * of_nat k :: u64) = 4096 * k" using assms(2)
    by (simp add: unat_word_ariths unat_of_nat_noov)
  then have s: "unat (va + 4096 * of_nat k) = (unat va + 4096 * k) mod 2 ^ 64"
    by (simp add: unat_word_ariths)
  have "take_bit 36 (drop_bit 12 (take_bit 64 x)) = take_bit 36 (drop_bit 12 x)" for x :: nat
    by (simp add: drop_bit_take_bit)
  from this [of "unat va + 4096 * k"]
  have "(unat va + 4096 * k) mod 2 ^ 64 div 4096 mod 2 ^ 36 = (unat va + 4096 * k) div 4096 mod 2 ^ 36"
    by (simp add: take_bit_eq_mod drop_bit_eq_div)
  then have "(unat va div 4096 + k) mod 2 ^ 36 = unat va div 4096 mod 2 ^ 36"
    using e s by (simp add: add.commute)
  then have "2 ^ 36 dvd k" by (simp add: mod_eq_dvd_iff_nat)
  then show False using assms by (auto dest: dvd_imp_le)
qed

lemma sync_globals_simps [simp]:
  "walk (sync_globals s) r q = walk s r q" "l0_table (sync_globals s) = l0_table s"
  "pt_inv R (sync_globals s) = pt_inv R s" "km_pmm (sync_globals s) = km_pmm s"
proof -
  have w: "walk (sync_globals s) r q = walk s r q" for r q by (rule walk_cong) (simp_all add: sync_globals_def)
  then show "walk (sync_globals s) r q = walk s r q" .
  show "l0_table (sync_globals s) = l0_table s"
    by (simp add: fun_eq_iff l0_table_def read_ttbr0_def read_ttbr1_def sync_globals_def)
  have f: "km_pmm (sync_globals s) = km_pmm s" "ttbr0_el1 (sync_globals s) = ttbr0_el1 s"
    "ttbr1_el1 (sync_globals s) = ttbr1_el1 s" by (simp_all add: sync_globals_def)
  then show "km_pmm (sync_globals s) = km_pmm s" by simp
  show "pt_inv R (sync_globals s) = pt_inv R s" by (simp add: pt_inv_def pt_wf_def w f table_page_def)
qed

lemma map_pages_from_correct:
  assumes "pt_inv R s" and prot: "pte_present prot" "prot AND ARM64_PTE_ADDR_MASK = 0" and "n \<le> 2 ^ 36"
    and "map_pages_from n va pa prot s = (0, s')"
  shows "pt_inv R s' \<and> (\<forall>v. va_key s' v = va_key s v) \<and>
    (\<forall>k < n. get_phys_from_va (va + 4096 * of_nat k) s' = (pa + 4096 * of_nat k) AND ARM64_PTE_ADDR_MASK) \<and>
    (\<forall>v. (\<forall>k < n. va_key s v \<noteq> va_key s (va + 4096 * of_nat k)) \<longrightarrow> get_phys_from_va v s' = get_phys_from_va v s)"
  using assms(1,4,5)
proof (induction n arbitrary: va pa s)
  case (Suc n)
  let ?g = "sync_globals s"
  obtain r s1 where m: "map_page va pa prot ?g = (r, s1)" by fastforce
  have g: "pt_inv R ?g" "va_key ?g v = va_key s v" "get_phys_from_va v ?g = get_phys_from_va v s" for v
    using Suc(2) by (simp_all add: va_key_def get_phys_from_va_def get_phys_walk)
  have r0: "r = 0" and rest: "map_pages_from n (va + 4096) (pa + 4096) prot s1 = (0, s')"
    using Suc(4) m by (auto simp: pgtbl_map_one_page_def split: if_splits)
  note c = map_page_correct_lemma [OF g(1) prot m] and k1 = map_page_l0 [OF g(1) m]
  have inv1: "pt_inv R s1" using c by blast
  have ih: "pt_inv R s' \<and> (\<forall>v. va_key s' v = va_key s1 v) \<and>
    (\<forall>k < n. get_phys_from_va (va + 4096 + 4096 * of_nat k) s' = (pa + 4096 + 4096 * of_nat k) AND ARM64_PTE_ADDR_MASK) \<and>
    (\<forall>v. (\<forall>k < n. va_key s1 v \<noteq> va_key s1 (va + 4096 + 4096 * of_nat k)) \<longrightarrow> get_phys_from_va v s' = get_phys_from_va v s1)"
    by (rule Suc(1) [OF inv1 _ rest]) (use Suc(3) in simp)
  have sh: "va + 4096 + 4096 * of_nat k = va + 4096 * of_nat (Suc k)" "pa + 4096 + 4096 * of_nat k = pa + 4096 * of_nat (Suc k)" for k
    by (simp_all add: algebra_simps)
  have far: "va_key s va \<noteq> va_key s (va + 4096 * of_nat (Suc k))" if "k < n" for k
    using va_path_offset_neq [of "Suc k" va] that Suc(3) by (auto simp: va_key_def)
  have first: "get_phys_from_va va s' = pa AND ARM64_PTE_ADDR_MASK"
    using ih c r0 far unfolding sh by (simp add: k1 g(2) del: of_nat_Suc)
  have "get_phys_from_va (va + 4096 * of_nat k) s' = (pa + 4096 * of_nat k) AND ARM64_PTE_ADDR_MASK" if "k < Suc n" for k
    using first ih that unfolding sh by (cases k) (simp_all del: of_nat_Suc)
  moreover have "get_phys_from_va v s' = get_phys_from_va v s"
    if "\<forall>k < Suc n. va_key s v \<noteq> va_key s (va + 4096 * of_nat k)" for v
  proof -
    have "va_key s v \<noteq> va_key s va" using that [rule_format, of 0] by simp
    moreover have "\<forall>k < n. va_key s v \<noteq> va_key s (va + 4096 * of_nat (Suc k))" using that by blast
    ultimately show ?thesis using ih c g(2,3) unfolding sh by (simp add: k1 del: of_nat_Suc)
  qed
  ultimately show ?case using ih k1 g(2) by simp
qed simp

text \<open>C12: a successful \<^verbatim>\<open>pgtbl_map_range\<close> maps every page of the range, in order, to the
  corresponding physical page, whatever the page boundaries of the intermediate tables, and leaves
  the translation of every address outside the range alone.\<close>

theorem pgtbl_map_range_correct:
  assumes "pt_inv R s" and "pte_present prot" and "prot AND ARM64_PTE_ADDR_MASK = 0"
    and "unat sz \<le> 2 ^ 47" and "pgtbl_map_range va pa sz prot s = (0, s')"
  shows "pt_inv R s' \<and>
    (\<forall>k < (unat sz + 4095) div 4096.
       get_phys_from_va (va + 4096 * of_nat k) s' = (pa + 4096 * of_nat k) AND ARM64_PTE_ADDR_MASK) \<and>
    (\<forall>v. (\<forall>k < (unat sz + 4095) div 4096. va_key s v \<noteq> va_key s (va + 4096 * of_nat k)) \<longrightarrow>
       get_phys_from_va v s' = get_phys_from_va v s)"
proof -
  have m: "NOT (4095 :: u64) = NOT (mask 12)" by (simp add: mask_eq_decr_exp)
  have "unat (sz + 4095) = unat sz + 4095" using assms(4) by (subst unat_add_noov) simp_all
  then have "unat (range_len sz) = unat sz + 4095 - (unat sz + 4095) mod 4096"
    unfolding range_len_def m by (simp add: unat_and_not_mask)
  also have "\<dots> = (unat sz + 4095) div 4096 * 4096" by (simp add: minus_mod_eq_div_mult)
  finally have n: "unat (range_len sz) div 4096 = (unat sz + 4095) div 4096" by simp
  have "(unat sz + 4095) div 4096 \<le> 2 ^ 36" using assms(4) by simp
  from map_pages_from_correct [OF assms(1-3) this] assms(5) show ?thesis
    unfolding pgtbl_map_range_def n by blast
qed

theorem pgtbl_map_range_correct_witness:
  "\<exists>s'. pgtbl_map_range 0xffff000000000000 0x9000000 0x100 PAGE_DEVICE demo_kmem = (0, s') \<and>
     get_phys_from_va 0xffff000000000000 s' = 0x9000000"
proof -
  have n: "unat (range_len 0x100) div 4096 = Suc 0" by (simp add: range_len_def)
  have l0: "l0_table (sync_globals demo_kmem) 0xffff000000000000 \<noteq> 0"
    using demo_kmem_root by (simp add: l0_table_def is_user_addr_def read_ttbr1_def)
  have inv: "pt_inv {ttbr1_el1 demo_kmem} (sync_globals demo_kmem)" by (simp add: demo_kmem_inv)
  have "fst (map_page 0xffff000000000000 0x9000000 PAGE_DEVICE (sync_globals demo_kmem)) = 0"
    by (rule map_page_succeeds_lemma [OF inv l0]) (simp add: demo_kmem_free)
  then obtain s' where "map_page 0xffff000000000000 0x9000000 PAGE_DEVICE (sync_globals demo_kmem) = (0, s')"
    by (metis prod.collapse)
  then have m: "pgtbl_map_range 0xffff000000000000 0x9000000 0x100 PAGE_DEVICE demo_kmem = (0, s')"
    unfolding pgtbl_map_range_def n by (simp add: pgtbl_map_one_page_def)
  have "\<forall>k < (unat (0x100 :: u64) + 4095) div 4096.
      get_phys_from_va (0xffff000000000000 + 4096 * of_nat k) s' = (0x9000000 + 4096 * of_nat k) AND ARM64_PTE_ADDR_MASK"
    using pgtbl_map_range_correct [OF demo_kmem_inv prot_ok(11,12) _ m] by simp
  from this [rule_format, of 0] m show ?thesis by (simp add: ARM64_PTE_ADDR_MASK_def)
qed

section \<open>Copying a table\<close>

definition cow_pte :: "u64 \<Rightarrow> u64" where
  "cow_pte pte = (if pte AND push_bit 6 1 \<noteq> 0 \<and> pte AND push_bit 7 1 = 0 then pte OR push_bit 7 1 else pte)"

definition page_ref :: "'a kmem_scheme \<Rightarrow> nat \<Rightarrow> u64" where
  "page_ref s f = ref_count (mem_map (km_pmm s) f)"

lemma km_get_page_simps [simp]:
  "pte_get (km_get_page pa s) t i = pte_get s t i"
  "page_ref (km_get_page pa s) f = page_ref s f + (if pa_to_pfn pa = f \<and> f < TOTAL_PAGES then 1 else 0)"
  by (auto simp: km_get_page_def pte_get_def load64_def entry_addr_def phys_to_virt_def page_ref_def get_page_def Let_def)

lemma pte_get_set_pages:
  assumes "f < TOTAL_PAGES" "g < TOTAL_PAGES" "i < 512" "j < 512"
  shows "pte_get (pte_set (pfn_to_pa g) i v s) (pfn_to_pa f) j = (if f = g \<and> j = i then v else pte_get s (pfn_to_pa f) j)"
  using entry_addr_inj [OF assms(1,2,4,3), of s]
  by (auto simp: pte_get_def load64_def pte_set_def store64_def entry_addr_def phys_to_virt_def)

lemma page_ref_pte_set: "page_ref (pte_set t i v s) p = page_ref s p"
  by (simp add: page_ref_def)

lemma copy_l3_fold:
  assumes f: "f < TOTAL_PAGES" "g < TOTAL_PAGES" "f \<noteq> g"
  shows "distinct xs \<Longrightarrow> \<forall>i \<in> set xs. i < 512 \<Longrightarrow>
    (\<forall>i < 512. pte_get (fold (copy_l3_entry (pfn_to_pa f) (pfn_to_pa g)) xs s) (pfn_to_pa f) i = pte_get s (pfn_to_pa f) i \<and>
      pte_get (fold (copy_l3_entry (pfn_to_pa f) (pfn_to_pa g)) xs s) (pfn_to_pa g) i =
        (if i \<in> set xs \<and> pte_present (pte_get s (pfn_to_pa f) i) then cow_pte (pte_get s (pfn_to_pa f) i)
         else pte_get s (pfn_to_pa g) i)) \<and>
    (\<forall>p < TOTAL_PAGES. page_ref (fold (copy_l3_entry (pfn_to_pa f) (pfn_to_pa g)) xs s) p = page_ref s p +
       of_nat (length (filter (\<lambda>i. pte_present (pte_get s (pfn_to_pa f) i) \<and>
         pa_to_pfn (pte_to_phys (pte_get s (pfn_to_pa f) i)) = p) xs)))"
proof (induction xs arbitrary: s)
  case (Cons x xs)
  let ?e = "pte_get s (pfn_to_pa f) x"
  let ?s = "copy_l3_entry (pfn_to_pa f) (pfn_to_pa g) x s"
  have x: "x < 512" "x \<notin> set xs" using Cons by auto
  have src: "pte_get ?s (pfn_to_pa f) i = pte_get s (pfn_to_pa f) i" if "i < 512" for i
    using f(3) by (simp add: copy_l3_entry_def Let_def pte_get_set_pages [OF f(1,2) x(1) that])
  have dst: "pte_get ?s (pfn_to_pa g) i = (if i = x \<and> pte_present ?e then cow_pte ?e else pte_get s (pfn_to_pa g) i)"
    if "i < 512" for i
    by (simp add: copy_l3_entry_def Let_def cow_pte_def pte_get_set_pages [OF f(2,2) x(1) that]
        pte_get_set_pages [OF f(2,2) x(1,1)])
  have ref: "page_ref ?s p = page_ref s p + (if pte_present ?e \<and> pa_to_pfn (pte_to_phys ?e) = p then 1 else 0)"
    if "p < TOTAL_PAGES" for p
    using that f(3)
    by (simp add: copy_l3_entry_def Let_def page_ref_pte_set pte_get_set_pages [OF f(1,2) x(1,1)])
  have flt: "filter (\<lambda>i. pte_present (pte_get ?s (pfn_to_pa f) i) \<and> pa_to_pfn (pte_to_phys (pte_get ?s (pfn_to_pa f) i)) = p) xs =
      filter (\<lambda>i. pte_present (pte_get s (pfn_to_pa f) i) \<and> pa_to_pfn (pte_to_phys (pte_get s (pfn_to_pa f) i)) = p) xs" for p
    using Cons(3) src by (intro filter_cong) auto
  note ih = Cons(1) [of ?s, unfolded flt]
  show ?case using ih Cons(2,3) src dst ref x by auto
qed simp

text \<open>C13: copying a last-level table for a child process: the child's entry for every present page is
  the parent's with the read-only bit set when it was user-writable, absent entries stay absent,
  and the reference count of every page grows by the number of times the table maps it. The
  parent's own entries are not changed: a page that was writable for the parent stays writable
  for it while the child reads the same physical page.\<close>

theorem copy_l3_correct:
  assumes "f < TOTAL_PAGES" and "g < TOTAL_PAGES" and "f \<noteq> g" and "i < 512" and "p < TOTAL_PAGES"
    and t: "t = copy_l3 (pfn_to_pa f) (pfn_to_pa g) s"
  shows "pte_get t (pfn_to_pa f) i = pte_get s (pfn_to_pa f) i \<and>
    pte_get t (pfn_to_pa g) i =
      (if pte_present (pte_get s (pfn_to_pa f) i) then cow_pte (pte_get s (pfn_to_pa f) i)
       else pte_get s (pfn_to_pa g) i) \<and>
    page_ref t p = page_ref s p + of_nat (length (filter (\<lambda>i. pte_present (pte_get s (pfn_to_pa f) i) \<and>
      pa_to_pfn (pte_to_phys (pte_get s (pfn_to_pa f) i)) = p) table_indices))"
proof -
  have small: "unat (of_nat n :: u64) = n" if "n < 512" for n using that by (intro unat_of_nat_noov) simp
  have "inj_on (of_nat :: nat \<Rightarrow> u64) {0..<512}" by (rule inj_onI) (metis atLeastLessThan_iff small)
  then have d: "distinct table_indices" by (simp add: table_indices_def PTRS_PER_PTE_def distinct_map)
  have mem: "i \<in> set table_indices" if "i < 512" for i
  proof -
    have "unat i < 512" using that by (simp add: word_less_nat_alt)
    then have "i \<in> of_nat ` {0..<512}" by (intro image_eqI [of _ _ "unat i"]) simp_all
    then show ?thesis by (simp add: table_indices_def PTRS_PER_PTE_def)
  qed
  have lt: "\<forall>i \<in> set table_indices. i < 512"
    using small by (auto simp: table_indices_def PTRS_PER_PTE_def word_less_nat_alt)
  show ?thesis
    using copy_l3_fold [OF assms(1-3) d lt, of s] mem [OF assms(4)] assms(4,5) by (simp add: t copy_l3_def)
qed

theorem copy_l3_correct_witness:
  "\<exists>t. t = copy_l3 (pfn_to_pa 1000) (pfn_to_pa 2000)
       (pte_set (pfn_to_pa 1000) 3 (PAGE_USER_RW OR 0x45000000) demo_kmem) \<and>
     pte_get t (pfn_to_pa 1000) 3 = PAGE_USER_RW OR 0x45000000 \<and>
     pte_get t (pfn_to_pa 2000) 3 = cow_pte (PAGE_USER_RW OR 0x45000000) \<and>
     cow_pte (PAGE_USER_RW OR 0x45000000) \<noteq> PAGE_USER_RW OR 0x45000000"
proof -
  let ?s = "pte_set (pfn_to_pa 1000) 3 (PAGE_USER_RW OR 0x45000000) demo_kmem"
  have e: "pte_get ?s (pfn_to_pa 1000) 3 = PAGE_USER_RW OR 0x45000000"
    by (subst pte_get_set_pages) (simp_all add: layout_simps)
  have "pte_present (PAGE_USER_RW OR 0x45000000)" by (rule pte_present_or [OF prot_ok(3)])
  moreover have "cow_pte (PAGE_USER_RW OR 0x45000000) \<noteq> PAGE_USER_RW OR 0x45000000"
    by (simp add: cow_pte_def PAGE_USER_RW_def ARM64_PTE_VALID_def ARM64_PTE_TYPE_PAGE_def ARM64_PTE_AF_def
        ARM64_PTE_NG_def ARM64_PTE_SH_INNER_SHAREABLE_def ARM64_PTE_AP_KERNEL_RW_EL0_RW_def ARM64_PTE_NS_RES0_def
        ARM64_PTE_ATTRIDX_def ARM64_PTE_UXN_def ARM64_PTE_PXN_def)
  ultimately show ?thesis
    using copy_l3_correct [of 1000 2000 3 0 _ ?s, OF _ _ _ _ _ refl] e by (simp add: layout_simps)
qed

text \<open>The translation control register is set up for 48-bit virtual addresses and 4 KiB granules in
  both halves; the physical address size field holds 2, which is 40 bits.\<close>

theorem set_tcr_el1_fields:
  "reg_field (tcr_el1 (set_tcr_el1 s)) 0 6 = 16 \<and> reg_field (tcr_el1 (set_tcr_el1 s)) 16 6 = 16 \<and>
   reg_field (tcr_el1 (set_tcr_el1 s)) 14 2 = 0 \<and> reg_field (tcr_el1 (set_tcr_el1 s)) 30 2 = 2 \<and>
   reg_field (tcr_el1 (set_tcr_el1 s)) 32 3 = 2"
  by (simp add: tcr_value reg_field_def)

end
