(* ===== verification/Slab.thy ===== *)
theory Slab
  imports Page_Table
begin

text \<open>
  The slab allocator of \<^verbatim>\<open>kernel/slab.c\<close>. The static arrays \<^verbatim>\<open>slab_caches\<close>, \<^verbatim>\<open>slab_pages\<close> and
  \<^verbatim>\<open>large_allocs\<close> are functions from the index; a pointer into one of them is an index, NULL is
  \<open>None\<close>. Free objects are chained through their first word in the memory of the machine; an
  object pointer is its virtual address, NULL is 0. \<^verbatim>\<open>kmalloc\<close> and \<^verbatim>\<open>kfree\<close> run under
  \<^verbatim>\<open>slab_lock\<close> with interrupts off, so each is one atomic step. The two loops over a cache's list
  of slab pages are given fuel \<open>MAX_SLAB_PAGES + 1\<close>: a NULL-terminated list of slab pages visits
  at most \<open>MAX_SLAB_PAGES\<close> of them, so \<open>None\<close> means that the call does not return: the loop does
  not end, or a NULL \<^verbatim>\<open>sp->cache\<close> is dereferenced.
\<close>

section \<open>State\<close>

definition SZ_8K :: u64 where "SZ_8K = 8 * 1024"
definition SZ_4M :: u64 where "SZ_4M = 4 * 1024 * 1024"
definition SLAB_CACHE_COUNT :: nat where "SLAB_CACHE_COUNT = 11"
definition MAX_SLAB_PAGES :: nat where "MAX_SLAB_PAGES = 4096"
definition MAX_LARGE_ALLOCS :: nat where "MAX_LARGE_ALLOCS = 2048"
definition SLAB_MAGIC :: u64 where "SLAB_MAGIC = 0x534C4142"
definition LARGE_MAGIC :: u64 where "LARGE_MAGIC = 0x4C415247"

record slab_page =
  sp_magic :: u64
  sp_cache :: "nat option"
  sp_next :: "nat option"
  sp_pa :: phys_addr_t
  sp_va :: u64
  sp_order :: nat
  sp_obj_size :: u64
  sp_capacity :: u32
  sp_inuse :: u32
  sp_freelist :: u64
  sp_used :: bool

record slab_cache =
  sc_size :: u64
  sc_partial :: "nat option"

record large_alloc =
  la_magic :: u64
  la_va :: u64
  la_pa :: phys_addr_t
  la_size :: u64
  la_order :: nat
  la_used :: bool

record kslab = kmem +
  slab_caches :: "nat \<Rightarrow> slab_cache"
  slab_pages :: "nat \<Rightarrow> slab_page"
  large_allocs :: "nat \<Rightarrow> large_alloc"

definition slab_sizes :: "u64 list" where
  "slab_sizes = [8, 16, 32, 64, 128, 256, 512, 1024, 2048, 4096, 8192]"

definition zero_slab_page :: slab_page where
  "zero_slab_page = \<lparr>sp_magic = 0, sp_cache = None, sp_next = None, sp_pa = 0, sp_va = 0, sp_order = 0,
     sp_obj_size = 0, sp_capacity = 0, sp_inuse = 0, sp_freelist = 0, sp_used = False\<rparr>"

definition zero_large_alloc :: large_alloc where
  "zero_large_alloc = \<lparr>la_magic = 0, la_va = 0, la_pa = 0, la_size = 0, la_order = 0, la_used = False\<rparr>"

definition upd_sp :: "nat \<Rightarrow> (slab_page \<Rightarrow> slab_page) \<Rightarrow> 'a kslab_scheme \<Rightarrow> 'a kslab_scheme" where
  "upd_sp i f s = s\<lparr>slab_pages := (slab_pages s)(i := f (slab_pages s i))\<rparr>"

definition upd_sc :: "nat \<Rightarrow> (slab_cache \<Rightarrow> slab_cache) \<Rightarrow> 'a kslab_scheme \<Rightarrow> 'a kslab_scheme" where
  "upd_sc i f s = s\<lparr>slab_caches := (slab_caches s)(i := f (slab_caches s i))\<rparr>"

definition upd_la :: "nat \<Rightarrow> (large_alloc \<Rightarrow> large_alloc) \<Rightarrow> 'a kslab_scheme \<Rightarrow> 'a kslab_scheme" where
  "upd_la i f s = s\<lparr>large_allocs := (large_allocs s)(i := f (large_allocs s i))\<rparr>"

section \<open>Metadata pools\<close>

definition alloc_slab_page_meta :: "'a kslab_scheme \<Rightarrow> nat option \<times> 'a kslab_scheme" where
  "alloc_slab_page_meta s =
     (case find (\<lambda>i. \<not> sp_used (slab_pages s i)) [0..<MAX_SLAB_PAGES] of
        None \<Rightarrow> (None, s)
      | Some i \<Rightarrow> (Some i, upd_sp i (\<lambda>_. zero_slab_page\<lparr>sp_used := True, sp_magic := SLAB_MAGIC\<rparr>) s))"

definition free_slab_page_meta :: "nat \<Rightarrow> 'a kslab_scheme \<Rightarrow> 'a kslab_scheme" where
  "free_slab_page_meta i s = upd_sp i (\<lambda>_. zero_slab_page) s"

definition alloc_large_meta :: "'a kslab_scheme \<Rightarrow> nat option \<times> 'a kslab_scheme" where
  "alloc_large_meta s =
     (case find (\<lambda>i. \<not> la_used (large_allocs s i)) [0..<MAX_LARGE_ALLOCS] of
        None \<Rightarrow> (None, s)
      | Some i \<Rightarrow> (Some i, upd_la i (\<lambda>_. zero_large_alloc\<lparr>la_used := True, la_magic := LARGE_MAGIC\<rparr>) s))"

definition free_large_meta :: "nat \<Rightarrow> 'a kslab_scheme \<Rightarrow> 'a kslab_scheme" where
  "free_large_meta i s = upd_la i (\<lambda>_. zero_large_alloc) s"

section \<open>Caches\<close>

definition find_slab_cache :: "u64 \<Rightarrow> 'a kslab_scheme \<Rightarrow> nat option" where
  "find_slab_cache sz s = find (\<lambda>i. sz \<le> sc_size (slab_caches s i)) [0..<SLAB_CACHE_COUNT]"

definition slab_order_for_size :: "u64 \<Rightarrow> nat" where
  "slab_order_for_size obj_size = order_loop (unat ((obj_size + PAGE_SIZE - 1) div PAGE_SIZE)) 0"

definition slab_cache_add_page :: "nat \<Rightarrow> nat \<Rightarrow> 'a kslab_scheme \<Rightarrow> 'a kslab_scheme" where
  "slab_cache_add_page c i s =
     (let s1 = upd_sp i (\<lambda>p. p\<lparr>sp_next := sc_partial (slab_caches s c)\<rparr>) s
      in upd_sc c (\<lambda>x. x\<lparr>sc_partial := Some i\<rparr>) s1)"

text \<open>
  \<^verbatim>\<open>slab_cache_del_page\<close> walks with a pointer to a link field: \<open>None\<close> is the address of
  \<^verbatim>\<open>cache->partial\<close>, \<open>Some j\<close> the address of the \<^verbatim>\<open>next\<close> field of slab page \<open>j\<close>.
\<close>

definition link_get :: "nat \<Rightarrow> nat option \<Rightarrow> 'a kslab_scheme \<Rightarrow> nat option" where
  "link_get c pp s = (case pp of None \<Rightarrow> sc_partial (slab_caches s c) | Some j \<Rightarrow> sp_next (slab_pages s j))"

definition link_set :: "nat \<Rightarrow> nat option \<Rightarrow> nat option \<Rightarrow> 'a kslab_scheme \<Rightarrow> 'a kslab_scheme" where
  "link_set c pp v s =
     (case pp of None \<Rightarrow> upd_sc c (\<lambda>x. x\<lparr>sc_partial := v\<rparr>) s | Some j \<Rightarrow> upd_sp j (\<lambda>p. p\<lparr>sp_next := v\<rparr>) s)"

fun del_page_from :: "nat \<Rightarrow> nat \<Rightarrow> nat \<Rightarrow> nat option \<Rightarrow> 'a kslab_scheme \<Rightarrow> 'a kslab_scheme option" where
  "del_page_from 0 c i pp s = None"
| "del_page_from (Suc fuel) c i pp s =
     (case link_get c pp s of
        None \<Rightarrow> Some s
      | Some j \<Rightarrow>
          if j = i then
            (let s1 = link_set c pp (sp_next (slab_pages s i)) s
             in Some (upd_sp i (\<lambda>p. p\<lparr>sp_next := None\<rparr>) s1))
          else del_page_from fuel c i (Some j) s)"

definition slab_cache_del_page :: "nat \<Rightarrow> nat \<Rightarrow> 'a kslab_scheme \<Rightarrow> 'a kslab_scheme option" where
  "slab_cache_del_page c i s = del_page_from (MAX_SLAB_PAGES + 1) c i None s"

definition slab_page_covers :: "'a kslab_scheme \<Rightarrow> u64 \<Rightarrow> nat \<Rightarrow> bool" where
  "slab_page_covers s addr i \<longleftrightarrow>
     sp_used (slab_pages s i) \<and> sp_magic (slab_pages s i) = SLAB_MAGIC \<and>
     sp_va (slab_pages s i) \<le> addr \<and>
     addr < sp_va (slab_pages s i) + push_bit (sp_order (slab_pages s i)) PAGE_SIZE"

definition slab_find_page_by_va :: "u64 \<Rightarrow> 'a kslab_scheme \<Rightarrow> nat option" where
  "slab_find_page_by_va va s = find (slab_page_covers s va) [0..<MAX_SLAB_PAGES]"

definition large_find_by_va :: "u64 \<Rightarrow> 'a kslab_scheme \<Rightarrow> nat option" where
  "large_find_by_va va s =
     find (\<lambda>i. la_used (large_allocs s i) \<and> la_magic (large_allocs s i) = LARGE_MAGIC \<and> la_va (large_allocs s i) = va)
       [0..<MAX_LARGE_ALLOCS]"

section \<open>Slab pages\<close>

text \<open>The loop that chains the objects of a new slab page, lowest address first.\<close>

fun chain_objects :: "nat \<Rightarrow> nat \<Rightarrow> u64 \<Rightarrow> u64 \<Rightarrow> nat \<Rightarrow> 'a kslab_scheme \<Rightarrow> 'a kslab_scheme" where
  "chain_objects 0 n base sz i s = s"
| "chain_objects (Suc k) n base sz i s =
     (let obj = base + of_nat n * sz;
          s1 = store64 obj (sp_freelist (slab_pages s i)) s;
          s2 = upd_sp i (\<lambda>p. p\<lparr>sp_freelist := obj\<rparr>) s1
      in chain_objects k (Suc n) base sz i s2)"

definition slab_grow :: "nat \<Rightarrow> gfp_t \<Rightarrow> 'a kslab_scheme \<Rightarrow> nat option \<times> 'a kslab_scheme" where
  "slab_grow c g s =
     (let sz = sc_size (slab_caches s c);
          order = slab_order_for_size sz;
          span = push_bit order PAGE_SIZE;
          capacity = (ucast (span div sz) :: u32)
      in if capacity = 0 then (None, s)
         else (case alloc_slab_page_meta s of
             (None, s1) \<Rightarrow> (None, s1)
           | (Some i, s1) \<Rightarrow>
               (let (pa, s2) = km_alloc_phys_pages order g s1 in
                if pa = 0 then (None, free_slab_page_meta i s2)
                else (let va = phys_to_virt s2 pa;
                          s3 = upd_sp i (\<lambda>p. p\<lparr>sp_cache := Some c, sp_pa := pa, sp_va := va, sp_order := order,
                                 sp_obj_size := sz, sp_capacity := capacity, sp_inuse := 0, sp_freelist := 0\<rparr>) s2;
                          s4 = chain_objects (unat capacity) 0 va sz i s3
                      in (Some i, slab_cache_add_page c i s4)))))"

definition slab_destroy_page :: "nat \<Rightarrow> 'a kslab_scheme \<Rightarrow> 'a kslab_scheme option" where
  "slab_destroy_page i s =
     (case (case sp_cache (slab_pages s i) of None \<Rightarrow> None | Some c \<Rightarrow> slab_cache_del_page c i s) of
        None \<Rightarrow> None
      | Some s1 \<Rightarrow>
          Some (free_slab_page_meta i (km_free_phys_pages (sp_pa (slab_pages s1 i)) (sp_order (slab_pages s1 i)) s1)))"

section \<open>Objects\<close>

fun find_partial :: "nat \<Rightarrow> 'a kslab_scheme \<Rightarrow> nat option \<Rightarrow> nat option option" where
  "find_partial 0 s sp = None"
| "find_partial (Suc fuel) s None = Some None"
| "find_partial (Suc fuel) s (Some i) =
     (if sp_freelist (slab_pages s i) \<noteq> 0 then Some (Some i)
      else find_partial fuel s (sp_next (slab_pages s i)))"

definition take_object :: "nat \<Rightarrow> 'a kslab_scheme \<Rightarrow> u64 \<times> 'a kslab_scheme" where
  "take_object i s =
     (let obj = sp_freelist (slab_pages s i)
      in (obj, upd_sp i (\<lambda>p. p\<lparr>sp_freelist := load64 obj s, sp_inuse := sp_inuse p + 1\<rparr>) s))"

definition slab_alloc :: "nat \<Rightarrow> gfp_t \<Rightarrow> 'a kslab_scheme \<Rightarrow> (u64 \<times> 'a kslab_scheme) option" where
  "slab_alloc c g s =
     (case find_partial (MAX_SLAB_PAGES + 1) s (sc_partial (slab_caches s c)) of
        None \<Rightarrow> None
      | Some (Some i) \<Rightarrow> Some (take_object i s)
      | Some None \<Rightarrow>
          (case slab_grow c g s of
             (None, s1) \<Rightarrow> Some (0, s1)
           | (Some i, s1) \<Rightarrow> Some (take_object i s1)))"

definition slab_free_obj :: "u64 \<Rightarrow> 'a kslab_scheme \<Rightarrow> 'a kslab_scheme option" where
  "slab_free_obj va s =
     (case slab_find_page_by_va va s of
        None \<Rightarrow> Some s
      | Some i \<Rightarrow>
          (let s1 = store64 va (sp_freelist (slab_pages s i)) s;
               s2 = upd_sp i (\<lambda>p. p\<lparr>sp_freelist := va\<rparr>) s1;
               s3 = (if sp_inuse (slab_pages s2 i) \<noteq> 0
                     then upd_sp i (\<lambda>p. p\<lparr>sp_inuse := sp_inuse p - 1\<rparr>) s2 else s2)
           in if sp_inuse (slab_pages s3 i) = 0 then slab_destroy_page i s3 else Some s3))"

section \<open>Large blocks\<close>

definition large_alloc_block :: "u64 \<Rightarrow> gfp_t \<Rightarrow> 'a kslab_scheme \<Rightarrow> u64 \<times> 'a kslab_scheme" where
  "large_alloc_block sz g s =
     (let order = get_order_ul sz in
      case alloc_large_meta s of
        (None, s1) \<Rightarrow> (0, s1)
      | (Some i, s1) \<Rightarrow>
          (let (pa, s2) = km_alloc_phys_pages order g s1 in
           if pa = 0 then (0, free_large_meta i s2)
           else (let va = phys_to_virt s2 pa in
                 (va, upd_la i (\<lambda>l. l\<lparr>la_va := va, la_pa := pa, la_size := sz, la_order := order\<rparr>) s2))))"

definition large_free :: "nat \<Rightarrow> 'a kslab_scheme \<Rightarrow> 'a kslab_scheme" where
  "large_free i s =
     free_large_meta i (km_free_phys_pages (la_pa (large_allocs s i)) (la_order (large_allocs s i)) s)"

section \<open>The interface\<close>

definition slab_init :: "'a kslab_scheme \<Rightarrow> 'a kslab_scheme" where
  "slab_init s =
     (let s1 = s\<lparr>slab_caches := (\<lambda>_. \<lparr>sc_size = 0, sc_partial = None\<rparr>),
                 slab_pages := (\<lambda>_. zero_slab_page), large_allocs := (\<lambda>_. zero_large_alloc)\<rparr>
      in fold (\<lambda>i. upd_sc i (\<lambda>x. x\<lparr>sc_size := slab_sizes ! i\<rparr>)) [0..<SLAB_CACHE_COUNT] s1)"

definition kmalloc :: "u64 \<Rightarrow> gfp_t \<Rightarrow> 'a kslab_scheme \<Rightarrow> (u64 \<times> 'a kslab_scheme) option" where
  "kmalloc sz g s =
     (if sz = 0 then Some (0, s)
      else if SZ_4M < sz then Some (0, s)
      else if sz \<le> SZ_8K then
        (case find_slab_cache sz s of None \<Rightarrow> Some (0, s) | Some c \<Rightarrow> slab_alloc c g s)
      else Some (large_alloc_block sz g s))"

definition kfree :: "u64 \<Rightarrow> 'a kslab_scheme \<Rightarrow> 'a kslab_scheme option" where
  "kfree va s =
     (if va = 0 then Some s
      else if \<not> va_in_linear_map s va then Some s
      else (case large_find_by_va va s of
          Some i \<Rightarrow> Some (large_free i s)
        | None \<Rightarrow> slab_free_obj va s))"

end
