(* ===== verification/RBtree.thy ===== *)
theory RBtree
  imports Linked_List
begin

text \<open>
  The intrusive red-black tree of \<^verbatim>\<open>kernel/ds/rbtree.c\<close>, at the level of its pointers: the state is
  the \<^verbatim>\<open>parent\<close>, \<^verbatim>\<open>left\<close>, \<^verbatim>\<open>right\<close> and \<^verbatim>\<open>color\<close> fields of every node, the root and the
  sentinel \<^verbatim>\<open>nil\<close>. The comparison callback is a parameter of the operations. A \<^verbatim>\<open>while\<close> loop is a
  \<open>partial_function\<close>: \<open>None\<close> is a loop that does not end. \<open>NULL\<close> is a distinguished node
  \<open>null_node\<close>, a parameter of the operations that use it.
\<close>

datatype rb_color = RB_RED | RB_BLACK

record 'a rb_tree =
  rb_parent :: "'a \<Rightarrow> 'a"
  rb_left :: "'a \<Rightarrow> 'a"
  rb_right :: "'a \<Rightarrow> 'a"
  rb_col :: "'a \<Rightarrow> rb_color"
  rb_root :: 'a
  rb_nil :: 'a

definition set_parent :: "'a \<Rightarrow> 'a \<Rightarrow> 'a rb_tree \<Rightarrow> 'a rb_tree" where
  "set_parent n v t = t\<lparr>rb_parent := (rb_parent t)(n := v)\<rparr>"

definition set_left :: "'a \<Rightarrow> 'a \<Rightarrow> 'a rb_tree \<Rightarrow> 'a rb_tree" where
  "set_left n v t = t\<lparr>rb_left := (rb_left t)(n := v)\<rparr>"

definition set_right :: "'a \<Rightarrow> 'a \<Rightarrow> 'a rb_tree \<Rightarrow> 'a rb_tree" where
  "set_right n v t = t\<lparr>rb_right := (rb_right t)(n := v)\<rparr>"

definition set_color :: "'a \<Rightarrow> rb_color \<Rightarrow> 'a rb_tree \<Rightarrow> 'a rb_tree" where
  "set_color n c t = t\<lparr>rb_col := (rb_col t)(n := c)\<rparr>"

definition set_root :: "'a \<Rightarrow> 'a rb_tree \<Rightarrow> 'a rb_tree" where
  "set_root n t = t\<lparr>rb_root := n\<rparr>"

section \<open>Initialisation, extrema, neighbours, search\<close>

definition rb_node_init :: "'a \<Rightarrow> 'a \<Rightarrow> 'a rb_tree \<Rightarrow> 'a rb_tree" where
  "rb_node_init null_node node t =
     set_color node RB_RED (set_right node null_node (set_left node null_node (set_parent node null_node t)))"

text \<open>\<^verbatim>\<open>nil\<close> is the node \<^verbatim>\<open>kmalloc\<close> returned for the sentinel.\<close>

definition rb_tree_init :: "'a \<Rightarrow> 'a rb_tree \<Rightarrow> 'a rb_tree" where
  "rb_tree_init nil t =
     (let t1 = t\<lparr>rb_nil := nil\<rparr>;
          t2 = set_color nil RB_BLACK (set_right nil nil (set_left nil nil (set_parent nil nil t1)))
      in set_root nil t2)"

partial_function (option) rb_tree_min :: "'a rb_tree \<Rightarrow> 'a \<Rightarrow> 'a option" where
  "rb_tree_min t subtree =
     (if rb_left t subtree \<noteq> rb_nil t then rb_tree_min t (rb_left t subtree) else Some subtree)"

partial_function (option) rb_tree_max :: "'a rb_tree \<Rightarrow> 'a \<Rightarrow> 'a option" where
  "rb_tree_max t subtree =
     (if rb_right t subtree \<noteq> rb_nil t then rb_tree_max t (rb_right t subtree) else Some subtree)"

text \<open>
  \<^verbatim>\<open>rb_tree_next\<close> climbs to a node that is its own parent and takes it for the \<^verbatim>\<open>nil\<close> field of the
  tree by \<^verbatim>\<open>container_of\<close>. \<^verbatim>\<open>nil\<close> is a pointer field, so this is the tree only when that field
  happens to lie where the sentinel points; what the tree found there has for its own \<^verbatim>\<open>nil\<close> is
  the parameter \<open>nil_of\<close>.
\<close>

partial_function (option) climb_self :: "'a rb_tree \<Rightarrow> 'a \<Rightarrow> 'a option" where
  "climb_self t n = (if rb_parent t n \<noteq> n then climb_self t (rb_parent t n) else Some n)"

partial_function (option) climb_right :: "'a rb_tree \<Rightarrow> 'a \<Rightarrow> 'a \<Rightarrow> 'a \<Rightarrow> 'a option" where
  "climb_right t nil node p =
     (if p \<noteq> nil \<and> node = rb_right t p then climb_right t nil p (rb_parent t p) else Some p)"

partial_function (option) climb_left :: "'a rb_tree \<Rightarrow> 'a \<Rightarrow> 'a \<Rightarrow> 'a \<Rightarrow> 'a option" where
  "climb_left t nil node p =
     (if p \<noteq> nil \<and> node = rb_left t p then climb_left t nil p (rb_parent t p) else Some p)"

definition rb_tree_next :: "('a \<Rightarrow> 'a) \<Rightarrow> 'a \<Rightarrow> 'a rb_tree \<Rightarrow> 'a option" where
  "rb_tree_next nil_of node t =
     (case climb_self t (rb_parent t node) of
        None \<Rightarrow> None
      | Some nil_node \<Rightarrow>
          (let t' = t\<lparr>rb_nil := nil_of nil_node\<rparr> in
           if rb_right t node \<noteq> rb_nil t' then rb_tree_min t' (rb_right t node)
           else climb_right t (rb_nil t') node (rb_parent t node)))"

definition rb_tree_prev :: "('a \<Rightarrow> 'a) \<Rightarrow> 'a \<Rightarrow> 'a rb_tree \<Rightarrow> 'a option" where
  "rb_tree_prev nil_of node t =
     (case climb_self t (rb_parent t node) of
        None \<Rightarrow> None
      | Some nil_node \<Rightarrow>
          (let t' = t\<lparr>rb_nil := nil_of nil_node\<rparr> in
           if rb_left t node \<noteq> rb_nil t' then rb_tree_max t' (rb_left t node)
           else climb_left t (rb_nil t') node (rb_parent t node)))"

text \<open>The search returns \<open>Some None\<close> for NULL.\<close>

partial_function (option) search_from ::
  "('a \<Rightarrow> 'a \<Rightarrow> int) \<Rightarrow> 'a \<Rightarrow> 'a rb_tree \<Rightarrow> 'a \<Rightarrow> 'a option option" where
  "search_from compare key t cur =
     (if cur \<noteq> rb_nil t then
        (if compare key cur = 0 then Some (Some cur)
         else if compare key cur < 0 then search_from compare key t (rb_left t cur)
         else search_from compare key t (rb_right t cur))
      else Some None)"

definition rb_tree_search :: "('a \<Rightarrow> 'a \<Rightarrow> int) \<Rightarrow> 'a \<Rightarrow> 'a rb_tree \<Rightarrow> 'a option option" where
  "rb_tree_search compare key t = search_from compare key t (rb_root t)"

section \<open>Rotations\<close>

definition rb_left_rotate :: "'a \<Rightarrow> 'a rb_tree \<Rightarrow> 'a rb_tree" where
  "rb_left_rotate x t =
     (let y = rb_right t x;
          t1 = set_right x (rb_left t y) t;
          t2 = (if rb_left t1 y \<noteq> rb_nil t1 then set_parent (rb_left t1 y) x t1 else t1);
          t3 = set_parent y (rb_parent t2 x) t2;
          t4 = (if rb_parent t3 x = rb_nil t3 then set_root y t3
                else if x = rb_left t3 (rb_parent t3 x) then set_left (rb_parent t3 x) y t3
                else set_right (rb_parent t3 x) y t3);
          t5 = set_left y x t4
      in set_parent x y t5)"

definition rb_right_rotate :: "'a \<Rightarrow> 'a rb_tree \<Rightarrow> 'a rb_tree" where
  "rb_right_rotate y t =
     (let x = rb_left t y;
          t1 = set_left y (rb_right t x) t;
          t2 = (if rb_right t1 x \<noteq> rb_nil t1 then set_parent (rb_right t1 x) y t1 else t1);
          t3 = set_parent x (rb_parent t2 y) t2;
          t4 = (if rb_parent t3 y = rb_nil t3 then set_root x t3
                else if y = rb_left t3 (rb_parent t3 y) then set_left (rb_parent t3 y) x t3
                else set_right (rb_parent t3 y) x t3);
          t5 = set_right x y t4
      in set_parent y x t5)"

section \<open>Insertion\<close>

text \<open>One iteration of the fix-up loop: the new \<^verbatim>\<open>z\<close> and the new tree.\<close>

definition insert_fixup_step :: "'a \<Rightarrow> 'a rb_tree \<Rightarrow> 'a \<times> 'a rb_tree" where
  "insert_fixup_step z t =
     (let p = rb_parent t z; g = rb_parent t p in
      if p = rb_left t g then
        (let y = rb_right t g in
         if rb_col t y = RB_RED then
           (g, set_color g RB_RED (set_color y RB_BLACK (set_color p RB_BLACK t)))
         else
           (let (z', t1) = (if z = rb_right t p then (p, rb_left_rotate p t) else (z, t));
                t2 = set_color (rb_parent t1 z') RB_BLACK t1;
                t3 = set_color (rb_parent t2 (rb_parent t2 z')) RB_RED t2
            in (z', rb_right_rotate (rb_parent t3 (rb_parent t3 z')) t3)))
      else
        (let y = rb_left t g in
         if rb_col t y = RB_RED then
           (g, set_color g RB_RED (set_color y RB_BLACK (set_color p RB_BLACK t)))
         else
           (let (z', t1) = (if z = rb_left t p then (p, rb_right_rotate p t) else (z, t));
                t2 = set_color (rb_parent t1 z') RB_BLACK t1;
                t3 = set_color (rb_parent t2 (rb_parent t2 z')) RB_RED t2
            in (z', rb_left_rotate (rb_parent t3 (rb_parent t3 z')) t3))))"

partial_function (option) rb_insert_fixup :: "'a \<Rightarrow> 'a rb_tree \<Rightarrow> 'a rb_tree option" where
  "rb_insert_fixup z t =
     (if rb_col t (rb_parent t z) = RB_RED then
        rb_insert_fixup (fst (insert_fixup_step z t)) (snd (insert_fixup_step z t))
      else Some (set_color (rb_root t) RB_BLACK t))"

partial_function (option) insert_descend ::
  "('a \<Rightarrow> 'a \<Rightarrow> int) \<Rightarrow> 'a \<Rightarrow> 'a rb_tree \<Rightarrow> 'a \<Rightarrow> 'a \<Rightarrow> 'a option" where
  "insert_descend compare z t y x =
     (if x \<noteq> rb_nil t then
        (if compare z x < 0 then insert_descend compare z t x (rb_left t x)
         else insert_descend compare z t x (rb_right t x))
      else Some y)"

definition insert_leaf :: "('a \<Rightarrow> 'a \<Rightarrow> int) \<Rightarrow> 'a \<Rightarrow> 'a \<Rightarrow> 'a rb_tree \<Rightarrow> 'a rb_tree" where
  "insert_leaf compare z y t =
     (let t1 = set_parent z y t;
          t2 = (if y = rb_nil t1 then set_root z t1
                else if compare z y < 0 then set_left y z t1
                else set_right y z t1)
      in set_color z RB_RED (set_right z (rb_nil t2) (set_left z (rb_nil t2) t2)))"

definition rb_tree_insert :: "('a \<Rightarrow> 'a \<Rightarrow> int) \<Rightarrow> 'a \<Rightarrow> 'a rb_tree \<Rightarrow> 'a rb_tree option" where
  "rb_tree_insert compare z t =
     (case insert_descend compare z t (rb_nil t) (rb_root t) of
        None \<Rightarrow> None
      | Some y \<Rightarrow> rb_insert_fixup z (insert_leaf compare z y t))"

section \<open>Deletion\<close>

definition rb_transplant :: "'a \<Rightarrow> 'a \<Rightarrow> 'a rb_tree \<Rightarrow> 'a rb_tree" where
  "rb_transplant u v t =
     (let t1 = (if rb_parent t u = rb_nil t then set_root v t
                else if u = rb_left t (rb_parent t u) then set_left (rb_parent t u) v t
                else set_right (rb_parent t u) v t)
      in set_parent v (rb_parent t1 u) t1)"

definition delete_fixup_left :: "'a \<Rightarrow> 'a rb_tree \<Rightarrow> 'a \<times> 'a rb_tree" where
  "delete_fixup_left x t =
     (let w = rb_right t (rb_parent t x);
          (w, t) = (if rb_col t w = RB_RED then
             (let t1 = rb_left_rotate (rb_parent t x)
                    (set_color (rb_parent t x) RB_RED (set_color w RB_BLACK t))
              in (rb_right t1 (rb_parent t1 x), t1)) else (w, t))
      in if rb_col t (rb_left t w) = RB_BLACK \<and> rb_col t (rb_right t w) = RB_BLACK then
           (rb_parent t x, set_color w RB_RED t)
         else
           (let (w, t) = (if rb_col t (rb_right t w) = RB_BLACK then
                  (let t1 = rb_right_rotate w (set_color w RB_RED (set_color (rb_left t w) RB_BLACK t))
                   in (rb_right t1 (rb_parent t1 x), t1)) else (w, t));
                t1 = set_color w (rb_col t (rb_parent t x)) t;
                t2 = set_color (rb_parent t1 x) RB_BLACK t1;
                t3 = set_color (rb_right t2 w) RB_BLACK t2;
                t4 = rb_left_rotate (rb_parent t3 x) t3
            in (rb_root t4, t4)))"

definition delete_fixup_right :: "'a \<Rightarrow> 'a rb_tree \<Rightarrow> 'a \<times> 'a rb_tree" where
  "delete_fixup_right x t =
     (let w = rb_left t (rb_parent t x);
          (w, t) = (if rb_col t w = RB_RED then
             (let t1 = rb_right_rotate (rb_parent t x)
                    (set_color (rb_parent t x) RB_RED (set_color w RB_BLACK t))
              in (rb_left t1 (rb_parent t1 x), t1)) else (w, t))
      in if rb_col t (rb_right t w) = RB_BLACK \<and> rb_col t (rb_left t w) = RB_BLACK then
           (rb_parent t x, set_color w RB_RED t)
         else
           (let (w, t) = (if rb_col t (rb_left t w) = RB_BLACK then
                  (let t1 = rb_left_rotate w (set_color w RB_RED (set_color (rb_right t w) RB_BLACK t))
                   in (rb_left t1 (rb_parent t1 x), t1)) else (w, t));
                t1 = set_color w (rb_col t (rb_parent t x)) t;
                t2 = set_color (rb_parent t1 x) RB_BLACK t1;
                t3 = set_color (rb_left t2 w) RB_BLACK t2;
                t4 = rb_right_rotate (rb_parent t3 x) t3
            in (rb_root t4, t4)))"

definition delete_fixup_step :: "'a \<Rightarrow> 'a rb_tree \<Rightarrow> 'a \<times> 'a rb_tree" where
  "delete_fixup_step x t =
     (if x = rb_left t (rb_parent t x) then delete_fixup_left x t else delete_fixup_right x t)"

partial_function (option) rb_delete_fixup :: "'a \<Rightarrow> 'a rb_tree \<Rightarrow> 'a rb_tree option" where
  "rb_delete_fixup x t =
     (if x \<noteq> rb_root t \<and> rb_col t x = RB_BLACK then
        rb_delete_fixup (fst (delete_fixup_step x t)) (snd (delete_fixup_step x t))
      else Some (set_color x RB_BLACK t))"

text \<open>The node put in place of a node with two children.\<close>

definition delete_splice :: "'a \<Rightarrow> 'a \<Rightarrow> 'a rb_tree \<Rightarrow> 'a rb_tree" where
  "delete_splice z y t =
     (let x = rb_right t y;
          t1 = (if rb_parent t y = z then set_parent x y t
                else (let t1 = rb_transplant y (rb_right t y) t;
                          t2 = set_right y (rb_right t1 z) t1
                      in set_parent (rb_right t2 y) y t2));
          t2 = rb_transplant z y t1;
          t3 = set_left y (rb_left t2 z) t2;
          t4 = set_parent (rb_left t3 y) y t3
      in set_color y (rb_col t4 z) t4)"

definition rb_tree_delete :: "'a \<Rightarrow> 'a rb_tree \<Rightarrow> 'a rb_tree option" where
  "rb_tree_delete z t =
     (if rb_left t z = rb_nil t then
        (let x = rb_right t z; t1 = rb_transplant z (rb_right t z) t
         in if rb_col t z = RB_BLACK then rb_delete_fixup x t1 else Some t1)
      else if rb_right t z = rb_nil t then
        (let x = rb_left t z; t1 = rb_transplant z (rb_left t z) t
         in if rb_col t z = RB_BLACK then rb_delete_fixup x t1 else Some t1)
      else (case rb_tree_min t (rb_right t z) of
          None \<Rightarrow> None
        | Some y \<Rightarrow>
            (let x = rb_right t y; t1 = delete_splice z y t
             in if rb_col t y = RB_BLACK then rb_delete_fixup x t1 else Some t1)))"

section \<open>Traversal\<close>

text \<open>The visit callback is a state transformer; the recursion over the children is with fuel.\<close>

fun inorder_visit ::
  "nat \<Rightarrow> 'a rb_tree \<Rightarrow> ('a \<Rightarrow> 's \<Rightarrow> 's) \<Rightarrow> 'a \<Rightarrow> 's \<Rightarrow> 's option" where
  "inorder_visit 0 t visit node st = None"
| "inorder_visit (Suc fuel) t visit node st =
     (if node \<noteq> rb_nil t then
        (case inorder_visit fuel t visit (rb_left t node) st of
           None \<Rightarrow> None
         | Some st1 \<Rightarrow> inorder_visit fuel t visit (rb_right t node) (visit node st1))
      else Some st)"

definition rb_tree_inorder :: "nat \<Rightarrow> 'a rb_tree \<Rightarrow> ('a \<Rightarrow> 's \<Rightarrow> 's) \<Rightarrow> 's \<Rightarrow> 's option" where
  "rb_tree_inorder fuel t visit st = inorder_visit fuel t visit (rb_root t) st"

end
