(* ===== verification/Vmap.thy ===== *)
theory Vmap
  imports Slab RBtree "HOL-Library.Monad_Syntax"
begin

text \<open>
  The kernel virtual address allocator of \<^verbatim>\<open>kernel/vmap.c\<close>. A \<^verbatim>\<open>struct vmap_area\<close> is the address
  of its slab object. Its first three fields \<^verbatim>\<open>va_start\<close>, \<^verbatim>\<open>va_end\<close> and \<^verbatim>\<open>flags\<close> are the words at
  offsets 0, 8 and 16 of that object in the machine memory, so that a read after \<^verbatim>\<open>kfree\<close> sees what
  the slab allocator wrote there. The list links and tree links, which the code never touches after
  \<^verbatim>\<open>kfree\<close>, are kept in a list heap and a red-black tree indexed by the area. Each operation runs
  under \<^verbatim>\<open>va_mgr.lock\<close> with interrupts off and is one atomic step; \<open>None\<close> is an operation that
  does not end. The list nodes of the vmalloc layer share the heap.
\<close>

datatype knode =
    FreeHead | FreeNode u64 | BusyHead | BusyNode u64
  | VmHead | VmNode u64 | IoHead | IoNode u64 | DmaHead | DmaNode u64

fun knode_obj :: "knode \<Rightarrow> u64" where
  "knode_obj (FreeNode a) = a"
| "knode_obj (BusyNode a) = a"
| "knode_obj (VmNode a) = a"
| "knode_obj (IoNode a) = a"
| "knode_obj (DmaNode a) = a"
| "knode_obj _ = 0"

record kvmap = kslab +
  knodes :: "knode list_heap"
  free_tree :: "u64 rb_tree"
  va_mgr_start :: u64
  va_mgr_end :: u64
  total_free :: u64
  nr_busy :: u64

definition VA_ALIGN_DEFAULT :: u64 where "VA_ALIGN_DEFAULT = 0x1000"
definition VA_FLAG_VMALLOC :: u64 where "VA_FLAG_VMALLOC = push_bit 0 1"
definition VA_FLAG_VMAP :: u64 where "VA_FLAG_VMAP = push_bit 1 1"
definition VA_FLAG_IOREMAP :: u64 where "VA_FLAG_IOREMAP = push_bit 2 1"
definition VMALLOC_START :: u64 where "VMALLOC_START = 0xffff000000000000"
definition VMALLOC_SIZE :: u64 where "VMALLOC_SIZE = 0x1000000000"
definition VMALLOC_END :: u64 where "VMALLOC_END = VMALLOC_START + VMALLOC_SIZE"
definition sizeof_vmap_area :: u64 where "sizeof_vmap_area = 104"
definition sizeof_rb_node :: u64 where "sizeof_rb_node = 32"

definition va_start :: "'a kmem_scheme \<Rightarrow> u64 \<Rightarrow> u64" where
  "va_start s a = load64 a s"

definition va_end :: "'a kmem_scheme \<Rightarrow> u64 \<Rightarrow> u64" where
  "va_end s a = load64 (a + 8) s"

definition va_flags :: "'a kmem_scheme \<Rightarrow> u64 \<Rightarrow> u64" where
  "va_flags s a = load64 (a + 16) s"

definition set_va_start :: "u64 \<Rightarrow> u64 \<Rightarrow> 'a kmem_scheme \<Rightarrow> 'a kmem_scheme" where
  "set_va_start a v s = store64 a v s"

definition set_va_end :: "u64 \<Rightarrow> u64 \<Rightarrow> 'a kmem_scheme \<Rightarrow> 'a kmem_scheme" where
  "set_va_end a v s = store64 (a + 8) v s"

definition set_va_flags :: "u64 \<Rightarrow> u64 \<Rightarrow> 'a kmem_scheme \<Rightarrow> 'a kmem_scheme" where
  "set_va_flags a v s = store64 (a + 16) v s"

definition va_size :: "'a kmem_scheme \<Rightarrow> u64 \<Rightarrow> u64" where
  "va_size s a = va_end s a - va_start s a"

text \<open>The comparison of two areas given by their bounds.\<close>

definition compare_bounds :: "u64 \<times> u64 \<Rightarrow> u64 \<times> u64 \<Rightarrow> int" where
  "compare_bounds a b =
     (let size_a = snd a - fst a; size_b = snd b - fst b in
      if size_a < size_b then -1
      else if size_b < size_a then 1
      else if fst a < fst b then -1
      else if fst b < fst a then 1
      else 0)"

definition va_compare_size :: "'a kmem_scheme \<Rightarrow> u64 \<Rightarrow> u64 \<Rightarrow> int" where
  "va_compare_size s a b = compare_bounds (va_start s a, va_end s a) (va_start s b, va_end s b)"

definition va_insert_free :: "u64 \<Rightarrow> 'a kvmap_scheme \<Rightarrow> 'a kvmap_scheme option" where
  "va_insert_free va s = do {
     (pos, _) \<leftarrow> list_for_each_entry (knodes s) FreeHead
        (\<lambda>n (_ :: unit). ((), va_start s va < va_start s (knode_obj n))) ();
     let s1 = s\<lparr>knodes := list_add_tail (FreeNode va) pos (knodes s)\<rparr>;
     t \<leftarrow> rb_tree_insert (va_compare_size s1) va (free_tree s1);
     Some (s1\<lparr>free_tree := t\<rparr>) }"

definition va_remove_free :: "u64 \<Rightarrow> 'a kvmap_scheme \<Rightarrow> 'a kvmap_scheme option" where
  "va_remove_free va s = do {
     t \<leftarrow> rb_tree_delete va (free_tree s);
     let s1 = s\<lparr>free_tree := t\<rparr>;
     Some (s1\<lparr>knodes := list_del (FreeNode va) (knodes s1)\<rparr>) }"

text \<open>
  The key of the tree search is a \<^verbatim>\<open>target\<close> on the stack with \<^verbatim>\<open>va_start = 0\<close>; its only use is the
  comparison with the nodes of the tree.
\<close>

definition va_find_best_fit :: "u64 \<Rightarrow> 'a kvmap_scheme \<Rightarrow> u64 option option" where
  "va_find_best_fit sz s = do {
     r \<leftarrow> rb_tree_search (\<lambda>_ b. compare_bounds (0, sz) (va_start s b, va_end s b)) 0 (free_tree s);
     (case r of
        Some n \<Rightarrow> Some (Some n)
      | None \<Rightarrow> do {
          (_, best) \<leftarrow> list_for_each_entry (knodes s) FreeHead
             (\<lambda>n best. let va = knode_obj n in
                (if sz \<le> va_size s va then
                   (case best of None \<Rightarrow> Some va | Some b \<Rightarrow> if va_size s va < va_size s b then Some va else best)
                 else best, False)) None;
          Some best }) }"

definition va_find_by_addr :: "u64 \<Rightarrow> 'a kvmap_scheme \<Rightarrow> u64 option option" where
  "va_find_by_addr addr s = do {
     (_, r) \<leftarrow> list_for_each_entry (knodes s) BusyHead
        (\<lambda>n r. if va_start s (knode_obj n) = addr then (Some (knode_obj n), True) else (r, False)) None;
     Some r }"

definition va_find_prev_free :: "u64 \<Rightarrow> 'a kvmap_scheme \<Rightarrow> u64 option option" where
  "va_find_prev_free addr s = do {
     (_, prev) \<leftarrow> list_for_each_entry (knodes s) FreeHead
        (\<lambda>n prev. if va_end s (knode_obj n) \<le> addr then (Some (knode_obj n), False) else (prev, True)) None;
     Some prev }"

definition va_find_next_free :: "u64 \<Rightarrow> 'a kvmap_scheme \<Rightarrow> u64 option option" where
  "va_find_next_free addr s = do {
     (_, r) \<leftarrow> list_for_each_entry (knodes s) FreeHead
        (\<lambda>n r. if addr < va_start s (knode_obj n) then (Some (knode_obj n), True) else (r, False)) None;
     Some r }"

definition va_manager_init :: "'a kvmap_scheme \<Rightarrow> 'a kvmap_scheme option" where
  "va_manager_init s = do {
     let s1 = s\<lparr>va_mgr_start := VMALLOC_START, va_mgr_end := VMALLOC_END\<rparr>;
     (nil, s2) \<leftarrow> kmalloc sizeof_rb_node GFP_KERNEL s1;
     let s3 = s2\<lparr>free_tree := rb_tree_init nil (free_tree s2)\<rparr>;
     let s4 = s3\<lparr>knodes := INIT_LIST_HEAD BusyHead (INIT_LIST_HEAD FreeHead (knodes s3))\<rparr>;
     let s5 = s4\<lparr>total_free := VMALLOC_END - VMALLOC_START, nr_busy := 0\<rparr>;
     (init_area, s6) \<leftarrow> kmalloc sizeof_vmap_area GFP_KERNEL s5;
     (if init_area = 0 then Some s6
      else va_insert_free init_area
        (set_va_flags init_area 0 (set_va_end init_area VMALLOC_END (set_va_start init_area VMALLOC_START s6)))) }"

text \<open>The two splits of \<^verbatim>\<open>va_alloc\<close>: the part before the aligned start, and the part after the size.\<close>

definition split_before :: "u64 \<Rightarrow> u64 \<Rightarrow> 'a kvmap_scheme \<Rightarrow> 'a kvmap_scheme option" where
  "split_before va align s =
     (let aligned_start = (va_start s va + align - 1) AND NOT (align - 1);
          waste = aligned_start - va_start s va
      in if 0 < waste then do {
           (before, s1) \<leftarrow> kmalloc sizeof_vmap_area GFP_KERNEL s;
           s2 \<leftarrow> (if before \<noteq> 0 then
                    va_insert_free before
                      (set_va_flags before 0 (set_va_end before aligned_start (set_va_start before (va_start s1 va) s1)))
                  else Some s1);
           Some (set_va_start va aligned_start s2) }
         else Some s)"

definition split_after :: "u64 \<Rightarrow> u64 \<Rightarrow> 'a kvmap_scheme \<Rightarrow> 'a kvmap_scheme option" where
  "split_after va sz s =
     (if sz + VA_ALIGN_DEFAULT < va_size s va then do {
        (remain, s1) \<leftarrow> kmalloc sizeof_vmap_area GFP_KERNEL s;
        (if remain \<noteq> 0 then
           (let s2 = set_va_start remain (va_start s1 va + sz) s1;
                s3 = set_va_end remain (va_end s2 va) s2;
                s4 = set_va_flags remain 0 s3;
                s5 = set_va_end va (va_start s4 va + sz) s4
            in va_insert_free remain s5)
         else Some s1) }
      else Some s)"

definition va_alloc :: "u64 \<Rightarrow> u64 \<Rightarrow> u64 \<Rightarrow> 'a kvmap_scheme \<Rightarrow> (u64 \<times> 'a kvmap_scheme) option" where
  "va_alloc size0 align0 vflags s =
     (if size0 = 0 then Some (0, s)
      else (let align = (if align0 < VA_ALIGN_DEFAULT then VA_ALIGN_DEFAULT else align0);
                sz = (size0 + VA_ALIGN_DEFAULT - 1) AND NOT (VA_ALIGN_DEFAULT - 1)
            in do {
              r \<leftarrow> va_find_best_fit sz s;
              (case r of
                 None \<Rightarrow> Some (0, s)
               | Some va \<Rightarrow> do {
                   s1 \<leftarrow> va_remove_free va s;
                   s2 \<leftarrow> split_before va align s1;
                   s3 \<leftarrow> split_after va sz s2;
                   let s4 = set_va_flags va vflags s3;
                   let s5 = s4\<lparr>knodes := list_add (BusyNode va) BusyHead (knodes s4)\<rparr>;
                   let s6 = s5\<lparr>nr_busy := nr_busy s5 + 1\<rparr>;
                   let s7 = s6\<lparr>total_free := total_free s6 - va_size s6 va\<rparr>;
                   Some (va_start s7 va, s7) }) }))"

definition merge_prev :: "u64 \<Rightarrow> 'a kvmap_scheme \<Rightarrow> (u64 \<times> 'a kvmap_scheme) option" where
  "merge_prev to_insert s = do {
     prev \<leftarrow> va_find_prev_free (va_start s to_insert) s;
     (case prev of
        None \<Rightarrow> Some (to_insert, s)
      | Some p \<Rightarrow>
          if va_end s p = va_start s to_insert then do {
            s1 \<leftarrow> va_remove_free p s;
            let s2 = set_va_end p (va_end s1 to_insert) s1;
            s3 \<leftarrow> kfree to_insert s2;
            Some (p, s3) }
          else Some (to_insert, s)) }"

definition merge_next :: "u64 \<Rightarrow> 'a kvmap_scheme \<Rightarrow> 'a kvmap_scheme option" where
  "merge_next to_insert s = do {
     nxt \<leftarrow> va_find_next_free (va_end s to_insert) s;
     (case nxt of
        None \<Rightarrow> Some s
      | Some n \<Rightarrow>
          if va_end s to_insert = va_start s n then do {
            s1 \<leftarrow> va_remove_free n s;
            let s2 = set_va_end to_insert (va_end s1 n) s1;
            kfree n s2 }
          else Some s) }"

definition va_free :: "u64 \<Rightarrow> 'a kvmap_scheme \<Rightarrow> 'a kvmap_scheme option" where
  "va_free addr s =
     (if addr = 0 then Some s
      else do {
        r \<leftarrow> va_find_by_addr addr s;
        (case r of
           None \<Rightarrow> Some s
         | Some va \<Rightarrow> do {
             let s1 = s\<lparr>knodes := list_del (BusyNode va) (knodes s)\<rparr>;
             let s2 = s1\<lparr>nr_busy := nr_busy s1 - 1\<rparr>;
             (to_insert, s3) \<leftarrow> merge_prev va s2;
             s4 \<leftarrow> merge_next to_insert s3;
             let s5 = s4\<lparr>total_free := total_free s4 + va_size s4 va\<rparr>;
             va_insert_free to_insert s5 }) })"

end
