(* ===== verification/Vmalloc.thy ===== *)
theory Vmalloc
  imports Vmap
begin

text \<open>
  The upper layer of kernel virtual memory, \<^verbatim>\<open>kernel/vmalloc.c\<close>: \<^verbatim>\<open>vmalloc\<close>, \<^verbatim>\<open>vfree\<close>,
  \<^verbatim>\<open>ioremap\<close>, \<^verbatim>\<open>iounmap\<close> and the DMA buffers. The descriptors \<^verbatim>\<open>vm_struct\<close>, \<^verbatim>\<open>io_mapping\<close> and
  \<^verbatim>\<open>dma_mapping\<close> are the addresses of their slab objects, with their fields in one map each; an
  array of page pointers is the address of its object, with the page frame numbers in a map.
\<close>

record vm_struct =
  vm_addr :: u64
  vm_size :: u64
  vm_nr_pages :: u32
  vm_pages :: u64
  vm_flags :: u64

record io_mapping =
  io_addr :: u64
  io_nr_pages :: u64

record dma_mapping =
  dma_va :: u64
  dma_pa :: phys_addr_t
  dma_nr_pages :: u64
  dma_order :: nat

record kvm = kvmap +
  vm_structs :: "u64 \<Rightarrow> vm_struct"
  page_arrays :: "u64 \<Rightarrow> nat \<Rightarrow> nat"
  io_mappings :: "u64 \<Rightarrow> io_mapping"
  dma_mappings :: "u64 \<Rightarrow> dma_mapping"
  vm_errors :: nat

definition sizeof_vm_struct :: u64 where "sizeof_vm_struct = 56"
definition sizeof_io_mapping :: u64 where "sizeof_io_mapping = 32"
definition sizeof_dma_mapping :: u64 where "sizeof_dma_mapping = 48"

definition km_alloc_page :: "gfp_t \<Rightarrow> 'a kmem_scheme \<Rightarrow> nat option \<times> 'a kmem_scheme" where
  "km_alloc_page g s = (let (r, p) = alloc_page g (km_pmm s) in (r, s\<lparr>km_pmm := p\<rparr>))"

definition km_free_page :: "nat \<Rightarrow> 'a kmem_scheme \<Rightarrow> 'a kmem_scheme" where
  "km_free_page pfn s = s\<lparr>km_pmm := free_page pfn (km_pmm s)\<rparr>"

definition pages_for :: "u64 \<Rightarrow> u64" where
  "pages_for sz = (sz + PAGE_SIZE - 1) div PAGE_SIZE"

section \<open>vmalloc\<close>

text \<open>
  The loop that fills the page array: \<open>(n, s)\<close> with \<open>n\<close> the number of pages obtained; the loop
  stops early when the page allocator fails.
\<close>

fun fill_pages :: "nat \<Rightarrow> nat \<Rightarrow> u64 \<Rightarrow> 'a kvm_scheme \<Rightarrow> nat \<times> 'a kvm_scheme" where
  "fill_pages 0 i arr s = (i, s)"
| "fill_pages (Suc k) i arr s =
     (case km_alloc_page GFP_KERNEL s of
        (None, s1) \<Rightarrow> (i, s1)
      | (Some pfn, s1) \<Rightarrow>
          fill_pages k (Suc i) arr
            (s1\<lparr>page_arrays := (page_arrays s1)(arr := (page_arrays s1 arr)(i := pfn))\<rparr>))"

fun map_page_array :: "nat \<Rightarrow> nat \<Rightarrow> u64 \<Rightarrow> u64 \<Rightarrow> u64 \<Rightarrow> 'a kvm_scheme \<Rightarrow> 'a kvm_scheme" where
  "map_page_array 0 i va arr prot s = s"
| "map_page_array (Suc k) i va arr prot s =
     map_page_array k (Suc i) va arr prot
       (map_kernel_page (va + of_nat i * PAGE_SIZE) (pfn_to_pa (page_arrays s arr i)) prot s)"

fun free_page_array :: "nat \<Rightarrow> nat \<Rightarrow> u64 \<Rightarrow> 'a kvm_scheme \<Rightarrow> 'a kvm_scheme" where
  "free_page_array 0 i arr s = s"
| "free_page_array (Suc k) i arr s = free_page_array k (Suc i) arr (km_free_page (page_arrays s arr i) s)"

fun unmap_kernel_pages :: "nat \<Rightarrow> nat \<Rightarrow> u64 \<Rightarrow> 'a kmem_scheme \<Rightarrow> 'a kmem_scheme" where
  "unmap_kernel_pages 0 i va s = s"
| "unmap_kernel_pages (Suc k) i va s =
     unmap_kernel_pages k (Suc i) va (unmap_kernel_page (va + of_nat i * PAGE_SIZE) s)"

text \<open>The failure exit \<^verbatim>\<open>fail:\<close>.\<close>

definition vmalloc_fail :: "u64 \<Rightarrow> u64 \<Rightarrow> u64 \<Rightarrow> 'a kvm_scheme \<Rightarrow> (u64 \<times> 'a kvm_scheme) option" where
  "vmalloc_fail addr vm arr s = do {
     s1 \<leftarrow> (if arr \<noteq> 0 then kfree arr s else Some s);
     s2 \<leftarrow> (if vm \<noteq> 0 then kfree vm s1 else Some s1);
     s3 \<leftarrow> va_free addr s2;
     Some (0, s3) }"

definition vmalloc_node_range ::
  "u64 \<Rightarrow> u64 \<Rightarrow> u64 \<Rightarrow> u64 \<Rightarrow> 'a kvm_scheme \<Rightarrow> (u64 \<times> 'a kvm_scheme) option" where
  "vmalloc_node_range sz align vflags prot s = do {
     (addr, s1) \<leftarrow> va_alloc sz align vflags s;
     (if addr = 0 then Some (0, s1)
      else do {
        let nr_pages = pages_for sz;
        (vm, s2) \<leftarrow> kmalloc sizeof_vm_struct GFP_KERNEL s1;
        (arr, s3) \<leftarrow> kmalloc (8 * nr_pages) GFP_KERNEL s2;
        (if vm = 0 \<or> arr = 0 then vmalloc_fail addr vm arr s3
         else (let (n, s4) = fill_pages (unat nr_pages) 0 arr s3 in
           if n < unat nr_pages then vmalloc_fail addr vm arr (free_page_array n 0 arr s4)
           else (let s5 = map_page_array (unat nr_pages) 0 addr arr prot s4;
                     s6 = s5\<lparr>vm_structs := (vm_structs s5)(vm := \<lparr>vm_addr = addr, vm_size = sz,
                            vm_nr_pages = ucast nr_pages, vm_pages = arr, vm_flags = vflags\<rparr>)\<rparr>;
                     s7 = s6\<lparr>knodes := list_add_tail (VmNode vm) VmHead (knodes s6)\<rparr>
                 in Some (addr, s7)))) }) }"

definition vmalloc :: "u64 \<Rightarrow> 'a kvm_scheme \<Rightarrow> (u64 \<times> 'a kvm_scheme) option" where
  "vmalloc sz s = vmalloc_node_range sz PAGE_SIZE VA_FLAG_VMALLOC PAGE_KERNEL_RW s"

text \<open>
  The \<^verbatim>\<open>memset\<close> of \<^verbatim>\<open>vzalloc\<close> goes through the new mapping; the model clears the words at those
  virtual addresses.
\<close>

definition vzalloc :: "u64 \<Rightarrow> 'a kvm_scheme \<Rightarrow> (u64 \<times> 'a kvm_scheme) option" where
  "vzalloc sz s = do {
     (addr, s1) \<leftarrow> vmalloc sz s;
     Some (addr, if addr \<noteq> 0 then memset0 addr sz s1 else s1) }"

definition vfree :: "u64 \<Rightarrow> 'a kvm_scheme \<Rightarrow> 'a kvm_scheme option" where
  "vfree addr s =
     (if addr = 0 then Some s
      else do {
        (_, r) \<leftarrow> list_for_each_entry (knodes s) VmHead
           (\<lambda>n r. if vm_addr (vm_structs s (knode_obj n)) = addr then (Some (knode_obj n), True) else (r, False)) None;
        (case r of
           None \<Rightarrow> Some (s\<lparr>vm_errors := vm_errors s + 1\<rparr>)
         | Some vm \<Rightarrow> do {
             let s1 = s\<lparr>knodes := list_del (VmNode vm) (knodes s)\<rparr>;
             let n = unat (vm_nr_pages (vm_structs s1 vm));
             let s2 = unmap_kernel_pages n 0 addr s1;
             let s3 = free_page_array n 0 (vm_pages (vm_structs s2 vm)) s2;
             s4 \<leftarrow> kfree (vm_pages (vm_structs s3 vm)) s3;
             s5 \<leftarrow> va_free addr s4;
             kfree vm s5 }) })"

section \<open>ioremap\<close>

fun map_device_pages :: "nat \<Rightarrow> nat \<Rightarrow> u64 \<Rightarrow> phys_addr_t \<Rightarrow> u64 \<Rightarrow> 'a kmem_scheme \<Rightarrow> 'a kmem_scheme" where
  "map_device_pages 0 i va pa prot s = s"
| "map_device_pages (Suc k) i va pa prot s =
     map_device_pages k (Suc i) va pa prot
       (map_kernel_page (va + of_nat i * PAGE_SIZE) (pa + of_nat i * PAGE_SIZE) prot s)"

definition ioremap :: "u64 \<Rightarrow> u64 \<Rightarrow> 'a kvm_scheme \<Rightarrow> (u64 \<times> 'a kvm_scheme) option" where
  "ioremap phys_addr sz s = do {
     let offset = phys_addr AND (PAGE_SIZE - 1);
     let paddr_aligned = phys_addr AND PAGE_MASK;
     let map_size = sz + offset;
     (addr, s1) \<leftarrow> va_alloc map_size PAGE_SIZE VA_FLAG_IOREMAP s;
     (if addr = 0 then Some (0, s1)
      else do {
        let nr_pages = pages_for map_size;
        let s2 = map_device_pages (unat nr_pages) 0 addr paddr_aligned PAGE_DEVICE s1;
        (io, s3) \<leftarrow> kmalloc sizeof_io_mapping GFP_KERNEL s2;
        let s4 = (if io \<noteq> 0 then
                    (let s4 = s3\<lparr>io_mappings := (io_mappings s3)(io := \<lparr>io_addr = addr, io_nr_pages = nr_pages\<rparr>)\<rparr>
                     in s4\<lparr>knodes := list_add (IoNode io) IoHead (knodes s4)\<rparr>)
                  else s3);
        Some (addr + offset, s4) }) }"

definition iounmap :: "u64 \<Rightarrow> 'a kvm_scheme \<Rightarrow> 'a kvm_scheme option" where
  "iounmap addr s =
     (if addr = 0 then Some s
      else do {
        let va_aligned = addr AND PAGE_MASK;
        (_, r) \<leftarrow> list_for_each_entry (knodes s) IoHead
           (\<lambda>n r. if io_addr (io_mappings s (knode_obj n)) = va_aligned then (Some (knode_obj n), True) else (r, False)) None;
        (nr_pages, s1) \<leftarrow> (case r of
            None \<Rightarrow> Some (1, s)
          | Some io \<Rightarrow> do {
              s1 \<leftarrow> kfree io (s\<lparr>knodes := list_del (IoNode io) (knodes s)\<rparr>);
              Some (io_nr_pages (io_mappings s io), s1) });
        let s2 = unmap_kernel_pages (unat nr_pages) 0 va_aligned s1;
        va_free va_aligned s2 })"

section \<open>DMA buffers\<close>

definition dma_alloc_coherent :: "u64 \<Rightarrow> 'a kvm_scheme \<Rightarrow> (u64 \<times> phys_addr_t option \<times> 'a kvm_scheme) option" where
  "dma_alloc_coherent sz s =
     (let pages = pages_for sz;
          order = order_loop (unat pages) 0;
          (pa, s1) = km_alloc_phys_pages order GFP_DMA s
      in if pa = 0 then Some (0, None, s1)
         else do {
           (va, s2) \<leftarrow> va_alloc (pages * PAGE_SIZE) PAGE_SIZE VA_FLAG_IOREMAP s1;
           (if va = 0 then Some (0, Some pa, km_free_phys_pages pa order s2)
            else do {
              let s3 = map_device_pages (unat pages) 0 va pa PAGE_DMA s2;
              (dma, s4) \<leftarrow> kmalloc sizeof_dma_mapping GFP_KERNEL s3;
              let s5 = (if dma \<noteq> 0 then
                   (let s5 = s4\<lparr>dma_mappings := (dma_mappings s4)(dma :=
                          \<lparr>dma_va = va, dma_pa = pa, dma_nr_pages = pages, dma_order = order\<rparr>)\<rparr>
                    in s5\<lparr>knodes := list_add (DmaNode dma) DmaHead (knodes s5)\<rparr>)
                 else s4);
              Some (va, Some pa, s5) }) })"

definition dma_free_coherent :: "u64 \<Rightarrow> 'a kvm_scheme \<Rightarrow> 'a kvm_scheme option" where
  "dma_free_coherent va s =
     (if va = 0 then Some s
      else do {
        let va_aligned = va AND PAGE_MASK;
        (_, r) \<leftarrow> list_for_each_entry (knodes s) DmaHead
           (\<lambda>n r. if dma_va (dma_mappings s (knode_obj n)) = va_aligned then (Some (knode_obj n), True) else (r, False)) None;
        (case r of
           None \<Rightarrow> Some s
         | Some dma \<Rightarrow> do {
             let s1 = s\<lparr>knodes := list_del (DmaNode dma) (knodes s)\<rparr>;
             let s2 = unmap_kernel_pages (unat (dma_nr_pages (dma_mappings s1 dma))) 0 va_aligned s1;
             let s3 = km_free_phys_pages (dma_pa (dma_mappings s2 dma)) (dma_order (dma_mappings s2 dma)) s2;
             kfree dma s3 }) })"

end
