(* ===== verification/Mm.thy ===== *)
theory Mm
  imports Vmalloc
begin

text \<open>
  Process address spaces: \<^verbatim>\<open>kernel/mm.c\<close>, \<^verbatim>\<open>kernel/brk.c\<close>, \<^verbatim>\<open>kernel/sys_mm.c\<close> and the page fault
  handler \<^verbatim>\<open>kernel/page_fault.c\<close>. \<^verbatim>\<open>mm_struct\<close> and \<^verbatim>\<open>vma_area\<close> objects are the addresses of their
  slab objects with their fields in one map each; the VMA list is singly linked, NULL is 0.
  Messages (without their newline) and signals of the fault handler are recorded as events; the
  VMA lookup it calls is on
  the Rust side of the kernel and is a parameter of the handler. The loops whose end depends on the
  list or on address arithmetic are partial functions: \<open>None\<close> is a loop that does not end.
\<close>

section \<open>State\<close>

record vma_area =
  vm_start :: u64
  vm_end :: u64
  vma_flags :: u64
  vm_next :: u64

record mm_struct =
  mm_mmap :: u64
  mm_start_brk :: u64
  mm_brk :: u64
  mm_start_stack :: u64
  mm_pgd :: u64

datatype pf_event = PfPuts string | PfHex u64 | SigKill | SigSegv

record kproc = kvm +
  mm_structs :: "u64 \<Rightarrow> mm_struct"
  vmas :: "u64 \<Rightarrow> vma_area"
  current_mm :: u64
  pf_events :: "pf_event list"

definition MMAP_BASE :: u64 where "MMAP_BASE = 0xffff000010000000"
definition VM_READ :: u64 where "VM_READ = push_bit 0 1"
definition VM_WRITE :: u64 where "VM_WRITE = push_bit 1 1"
definition VM_EXEC :: u64 where "VM_EXEC = push_bit 2 1"
definition VM_ANONYMOUS :: u64 where "VM_ANONYMOUS = push_bit 3 1"
definition sizeof_mm_struct :: u64 where "sizeof_mm_struct = 48"
definition sizeof_vma_area :: u64 where "sizeof_vma_area = 32"

definition upd_mm :: "u64 \<Rightarrow> (mm_struct \<Rightarrow> mm_struct) \<Rightarrow> 'a kproc_scheme \<Rightarrow> 'a kproc_scheme" where
  "upd_mm m f s = s\<lparr>mm_structs := (mm_structs s)(m := f (mm_structs s m))\<rparr>"

definition upd_vma :: "u64 \<Rightarrow> (vma_area \<Rightarrow> vma_area) \<Rightarrow> 'a kproc_scheme \<Rightarrow> 'a kproc_scheme" where
  "upd_vma v f s = s\<lparr>vmas := (vmas s)(v := f (vmas s v))\<rparr>"

text \<open>The address of a link: the \<^verbatim>\<open>mmap\<close> field of an address space or the \<^verbatim>\<open>vm_next\<close> field of a VMA.\<close>

datatype vma_link = MmapOf u64 | NextOf u64

fun vlink_get :: "vma_link \<Rightarrow> 'a kproc_scheme \<Rightarrow> u64" where
  "vlink_get (MmapOf m) s = mm_mmap (mm_structs s m)"
| "vlink_get (NextOf v) s = vm_next (vmas s v)"

fun vlink_set :: "vma_link \<Rightarrow> u64 \<Rightarrow> 'a kproc_scheme \<Rightarrow> 'a kproc_scheme" where
  "vlink_set (MmapOf m) x s = upd_mm m (\<lambda>r. r\<lparr>mm_mmap := x\<rparr>) s"
| "vlink_set (NextOf v) x s = upd_vma v (\<lambda>r. r\<lparr>vm_next := x\<rparr>) s"

section \<open>Address spaces\<close>

definition mm_create :: "'a kproc_scheme \<Rightarrow> (u64 \<times> 'a kproc_scheme) option" where
  "mm_create s = do {
     (mm, s1) \<leftarrow> kmalloc sizeof_mm_struct GFP_KERNEL s;
     (if mm = 0 then Some (0, s1)
      else Some (mm, upd_mm mm
        (\<lambda>_. \<lparr>mm_mmap = 0, mm_start_brk = 0, mm_brk = 0, mm_start_stack = 0, mm_pgd = 0\<rparr>) s1)) }"

partial_function (option) destroy_vmas :: "u64 \<Rightarrow> 'a kproc_scheme \<Rightarrow> 'a kproc_scheme option" where
  "destroy_vmas vma s =
     (if vma = 0 then Some s
      else Option.bind (kfree vma s) (\<lambda>s1. destroy_vmas (vm_next (vmas s vma)) s1))"

definition mm_destroy :: "u64 \<Rightarrow> 'a kproc_scheme \<Rightarrow> 'a kproc_scheme option" where
  "mm_destroy mm s =
     (if mm = 0 then Some s
      else do { s1 \<leftarrow> destroy_vmas (mm_mmap (mm_structs s mm)) s; kfree mm s1 })"

partial_function (option) copy_vmas ::
  "u64 \<Rightarrow> vma_link \<Rightarrow> u64 \<Rightarrow> 'a kproc_scheme \<Rightarrow> (u64 \<times> 'a kproc_scheme) option" where
  "copy_vmas dst pp svma s =
     (if svma = 0 then Some (dst, s)
      else Option.bind (kmalloc sizeof_vma_area GFP_KERNEL s) (\<lambda>(dvma, s1).
        if dvma = 0 then Option.bind (mm_destroy dst s1) (\<lambda>s2. Some (0, s2))
        else (let s2 = upd_vma dvma (\<lambda>_. \<lparr>vm_start = vm_start (vmas s1 svma), vm_end = vm_end (vmas s1 svma),
                         vma_flags = vma_flags (vmas s1 svma), vm_next = 0\<rparr>) s1;
                  s3 = vlink_set pp dvma s2
              in copy_vmas dst (NextOf dvma) (vm_next (vmas s3 svma)) s3)))"

definition mm_copy :: "u64 \<Rightarrow> 'a kproc_scheme \<Rightarrow> (u64 \<times> 'a kproc_scheme) option" where
  "mm_copy src s =
     (if src = 0 then Some (0, s)
      else do {
        (dst, s1) \<leftarrow> mm_create s;
        (if dst = 0 then Some (0, s1)
         else (let s2 = upd_mm dst (\<lambda>r. r\<lparr>mm_start_brk := mm_start_brk (mm_structs s1 src),
                       mm_brk := mm_brk (mm_structs s1 src), mm_start_stack := mm_start_stack (mm_structs s1 src),
                       mm_pgd := mm_pgd (mm_structs s1 src)\<rparr>) s1
               in copy_vmas dst (MmapOf dst) (mm_mmap (mm_structs s2 src)) s2)) })"

section \<open>VMAs\<close>

partial_function (option) vma_slot :: "u64 \<Rightarrow> vma_link \<Rightarrow> 'a kproc_scheme \<Rightarrow> vma_link option" where
  "vma_slot start pp s =
     (if vlink_get pp s \<noteq> 0 \<and> vm_start (vmas s (vlink_get pp s)) < start
      then vma_slot start (NextOf (vlink_get pp s)) s else Some pp)"

definition vma_create :: "u64 \<Rightarrow> u64 \<Rightarrow> u64 \<Rightarrow> u64 \<Rightarrow> 'a kproc_scheme \<Rightarrow> (int \<times> 'a kproc_scheme) option" where
  "vma_create mm start fin fl s =
     (if mm = 0 \<or> fin \<le> start then Some (-1, s)
      else do {
        (vma, s1) \<leftarrow> kmalloc sizeof_vma_area GFP_KERNEL s;
        (if vma = 0 then Some (-1, s1)
         else do {
           let s2 = upd_vma vma (\<lambda>_. \<lparr>vm_start = start, vm_end = fin, vma_flags = fl, vm_next = 0\<rparr>) s1;
           pp \<leftarrow> vma_slot start (MmapOf mm) s2;
           let s3 = upd_vma vma (\<lambda>r. r\<lparr>vm_next := vlink_get pp s2\<rparr>) s2;
           Some (0, vlink_set pp vma s3) }) })"

partial_function (option) vma_find_from :: "u64 \<Rightarrow> u64 \<Rightarrow> 'a kproc_scheme \<Rightarrow> u64 option" where
  "vma_find_from addr vma s =
     (if vma = 0 then Some 0
      else if vm_start (vmas s vma) \<le> addr \<and> addr < vm_end (vmas s vma) then Some vma
      else vma_find_from addr (vm_next (vmas s vma)) s)"

definition vma_find :: "u64 \<Rightarrow> u64 \<Rightarrow> 'a kproc_scheme \<Rightarrow> u64 option" where
  "vma_find mm addr s = (if mm = 0 then Some 0 else vma_find_from addr (mm_mmap (mm_structs s mm)) s)"

partial_function (option) vma_link_to :: "u64 \<Rightarrow> vma_link \<Rightarrow> 'a kproc_scheme \<Rightarrow> vma_link option" where
  "vma_link_to vma pp s =
     (if vlink_get pp s \<noteq> 0 \<and> vlink_get pp s \<noteq> vma then vma_link_to vma (NextOf (vlink_get pp s)) s else Some pp)"

definition vma_unlink :: "u64 \<Rightarrow> u64 \<Rightarrow> 'a kproc_scheme \<Rightarrow> 'a kproc_scheme option" where
  "vma_unlink mm vma s = do {
     pp \<leftarrow> vma_link_to vma (MmapOf mm) s;
     Some (if vlink_get pp s \<noteq> 0 then vlink_set pp (vm_next (vmas s vma)) s else s) }"

definition vma_remove :: "u64 \<Rightarrow> u64 \<Rightarrow> 'a kproc_scheme \<Rightarrow> 'a kproc_scheme option" where
  "vma_remove mm vma s =
     (if mm = 0 \<or> vma = 0 then Some s
      else do { s1 \<leftarrow> vma_unlink mm vma s; kfree vma s1 })"

section \<open>mmap and munmap\<close>

text \<open>
  The rounding the code writes: \<^verbatim>\<open>(x + PAGE_SIZE - 1) & ~PAGE_MASK\<close>, where \<^verbatim>\<open>PAGE_MASK\<close> already is
  the complement of the offset bits.
\<close>

definition page_round :: "u64 \<Rightarrow> u64" where
  "page_round x = (x + PAGE_SIZE - 1) AND NOT PAGE_MASK"

partial_function (option) first_conflict :: "u64 \<Rightarrow> u64 \<Rightarrow> u64 \<Rightarrow> 'a kproc_scheme \<Rightarrow> u64 option" where
  "first_conflict addr len vma s =
     (if vma = 0 then Some 0
      else if addr < vm_end (vmas s vma) \<and> vm_start (vmas s vma) < addr + len then Some vma
      else first_conflict addr len (vm_next (vmas s vma)) s)"

partial_function (option) find_free_from :: "u64 \<Rightarrow> u64 \<Rightarrow> u64 \<Rightarrow> 'a kproc_scheme \<Rightarrow> u64 option" where
  "find_free_from mm len addr s =
     Option.bind (first_conflict addr len (mm_mmap (mm_structs s mm)) s) (\<lambda>vma.
       if vma = 0 then Some addr else find_free_from mm len (page_round (vm_end (vmas s vma))) s)"

definition find_free_area :: "u64 \<Rightarrow> u64 \<Rightarrow> 'a kproc_scheme \<Rightarrow> u64 option" where
  "find_free_area mm len s = find_free_from mm len MMAP_BASE s"

definition unmap_put :: "u64 \<Rightarrow> 'a kmem_scheme \<Rightarrow> 'a kmem_scheme" where
  "unmap_put cur s =
     (let rpa = get_phys_from_va cur s; s1 = unmap_page cur s
      in if rpa \<noteq> 0 then km_put_page rpa s1 else s1)"

partial_function (option) mmap_rollback :: "u64 \<Rightarrow> u64 \<Rightarrow> 'a kmem_scheme \<Rightarrow> 'a kmem_scheme option" where
  "mmap_rollback addr cur s =
     (if addr < cur then mmap_rollback addr (cur - PAGE_SIZE) (unmap_put (cur - PAGE_SIZE) s) else Some s)"

definition mmap_fail :: "u64 \<Rightarrow> u64 \<Rightarrow> u64 \<Rightarrow> 'a kproc_scheme \<Rightarrow> (u64 \<times> 'a kproc_scheme) option" where
  "mmap_fail mm addr cur s = do {
     s1 \<leftarrow> mmap_rollback addr cur s;
     vma \<leftarrow> vma_find mm addr s1;
     s2 \<leftarrow> (if vma \<noteq> 0 then vma_remove mm vma s1 else Some s1);
     Some (0, s2) }"

partial_function (option) mmap_pages ::
  "u64 \<Rightarrow> u64 \<Rightarrow> u64 \<Rightarrow> u64 \<Rightarrow> 'a kproc_scheme \<Rightarrow> (u64 \<times> 'a kproc_scheme) option" where
  "mmap_pages mm addr len cur s =
     (if cur < addr + len then
        (let (pa, s1) = km_alloc_phys_pages 0 GFP_KERNEL s in
         if pa = 0 then mmap_fail mm addr cur s1
         else (let s2 = memset0 (phys_to_virt s1 pa) PAGE_SIZE s1;
                   (ret, s3) = map_page cur pa PAGE_USER_RW s2
               in if ret \<noteq> 0 then mmap_fail mm addr cur (km_free_phys_pages pa 0 s3)
                  else mmap_pages mm addr len (cur + PAGE_SIZE) s3))
      else Some (addr, s))"

definition do_mmap :: "u64 \<Rightarrow> u64 \<Rightarrow> u64 \<Rightarrow> u64 \<Rightarrow> 'a kproc_scheme \<Rightarrow> (u64 \<times> 'a kproc_scheme) option" where
  "do_mmap mm addr0 len0 fl s =
     (if mm = 0 \<or> len0 = 0 then Some (0, s)
      else do {
        let len = page_round len0;
        addr \<leftarrow> (if addr0 = 0 then find_free_area mm len s else Some addr0);
        (r, s1) \<leftarrow> vma_create mm addr (addr + len) (fl OR VM_ANONYMOUS) s;
        (if r \<noteq> 0 then Some (0, s1) else mmap_pages mm addr len addr s1) })"

partial_function (option) munmap_pages :: "u64 \<Rightarrow> u64 \<Rightarrow> u64 \<Rightarrow> 'a kmem_scheme \<Rightarrow> 'a kmem_scheme option" where
  "munmap_pages fin vend cur s =
     (if cur < fin \<and> cur < vend then munmap_pages fin vend (cur + PAGE_SIZE) (unmap_put cur s) else Some s)"

definition do_munmap :: "u64 \<Rightarrow> u64 \<Rightarrow> u64 \<Rightarrow> 'a kproc_scheme \<Rightarrow> (int \<times> 'a kproc_scheme) option" where
  "do_munmap mm addr len0 s =
     (if mm = 0 \<or> len0 = 0 then Some (-1, s)
      else do {
        let len = page_round len0;
        vma \<leftarrow> vma_find mm addr s;
        (if vma = 0 then Some (-1, s)
         else do {
           s1 \<leftarrow> vma_unlink mm vma s;
           s2 \<leftarrow> munmap_pages (addr + len) (vm_end (vmas s1 vma)) addr s1;
           s3 \<leftarrow> kfree vma s2;
           Some (0, s3) }) })"

section \<open>brk\<close>

text \<open>The result of the growing loop: \<open>False\<close> when it gave up, with the pages mapped so far kept.\<close>

partial_function (option) brk_grow :: "u64 \<Rightarrow> u64 \<Rightarrow> 'a kmem_scheme \<Rightarrow> (bool \<times> 'a kmem_scheme) option" where
  "brk_grow new_brk addr s =
     (if addr < new_brk then
        (let (pa, s1) = km_alloc_phys_pages 0 GFP_KERNEL s in
         if pa = 0 then Some (False, s1)
         else (let s2 = memset0 (phys_to_virt s1 pa) PAGE_SIZE s1;
                   (ret, s3) = map_page addr pa PAGE_USER_RW s2
               in if ret \<noteq> 0 then Some (False, km_free_phys_pages pa 0 s3)
                  else brk_grow new_brk (addr + PAGE_SIZE) s3))
      else Some (True, s))"

partial_function (option) brk_shrink :: "u64 \<Rightarrow> u64 \<Rightarrow> 'a kmem_scheme \<Rightarrow> 'a kmem_scheme option" where
  "brk_shrink old_brk addr s =
     (if addr < old_brk then
        (let pa = get_phys_from_va addr s; s1 = unmap_page addr s;
             s2 = (if pa \<noteq> 0 then km_free_phys_pages pa 0 s1 else s1)
         in brk_shrink old_brk (addr + PAGE_SIZE) s2)
      else Some s)"

definition do_brk :: "u64 \<Rightarrow> u64 \<Rightarrow> 'a kproc_scheme \<Rightarrow> (u64 \<times> 'a kproc_scheme) option" where
  "do_brk mm new_brk0 s =
     (if mm = 0 then Some (0, s)
      else (let new_brk = page_round new_brk0; old = mm_brk (mm_structs s mm) in
        if new_brk = old then Some (old, s)
        else if old < new_brk then do {
          (ok, s1) \<leftarrow> brk_grow new_brk old s;
          (if ok then Some (new_brk, upd_mm mm (\<lambda>r. r\<lparr>mm_brk := new_brk\<rparr>) s1)
           else Some (mm_brk (mm_structs s1 mm), s1)) }
        else do {
          s1 \<leftarrow> brk_shrink old new_brk s;
          Some (new_brk, upd_mm mm (\<lambda>r. r\<lparr>mm_brk := new_brk\<rparr>) s1) }))"

section \<open>The current address space\<close>

definition sys_get_current_mm :: "'a kproc_scheme \<Rightarrow> u64" where
  "sys_get_current_mm s = current_mm s"

definition sys_set_current_mm :: "u64 \<Rightarrow> 'a kproc_scheme \<Rightarrow> 'a kproc_scheme" where
  "sys_set_current_mm mm s = s\<lparr>current_mm := mm\<rparr>"

section \<open>Page faults\<close>

definition pf_emit :: "pf_event \<Rightarrow> 'a kproc_scheme \<Rightarrow> 'a kproc_scheme" where
  "pf_emit e s = s\<lparr>pf_events := pf_events s @ [e]\<rparr>"

definition vmalloc_fault_map :: "u64 \<Rightarrow> 'a kproc_scheme \<Rightarrow> int \<times> 'a kproc_scheme" where
  "vmalloc_fault_map fault_addr s =
     (let page_addr = fault_addr AND PAGE_MASK;
          (pa, s1) = km_alloc_phys_pages 0 GFP_KERNEL s
      in if pa = 0 then (-1, pf_emit (PfPuts ''[PAGE FAULT] vmalloc: alloc failed'') s1)
         else (let s2 = memset0 (phys_to_virt s1 pa) PAGE_SIZE s1;
                   (ret, s3) = map_page page_addr pa PAGE_KERNEL_RW s2
               in if ret \<noteq> 0 then (-1, pf_emit (PfPuts ''[PAGE FAULT] vmalloc: map failed'') (km_free_phys_pages pa 0 s3))
                  else (0, s3)))"

definition vmalloc_handle_page_fault :: "u64 \<Rightarrow> 'a kproc_scheme \<Rightarrow> (int \<times> 'a kproc_scheme) option" where
  "vmalloc_handle_page_fault fault_addr s =
     (if fault_addr < VMALLOC_START \<or> VMALLOC_START + VMALLOC_SIZE \<le> fault_addr then Some (-1, s)
      else do {
        (_, hit) \<leftarrow> list_for_each_entry (knodes s) BusyHead
           (\<lambda>n hit. if va_start s (knode_obj n) \<le> fault_addr \<and> fault_addr < va_end s (knode_obj n)
                    then (True, True) else (hit, False)) False;
        Some (if hit then vmalloc_fault_map fault_addr s else (-1, s)) })"

definition copy_page :: "u64 \<Rightarrow> u64 \<Rightarrow> 'a kmem_scheme \<Rightarrow> 'a kmem_scheme" where
  "copy_page dst src s =
     s\<lparr>mem64 := (\<lambda>a. if a - dst < PAGE_SIZE then mem64 s (src + (a - dst)) else mem64 s a)\<rparr>"

definition cow_fault :: "u64 \<Rightarrow> phys_addr_t \<Rightarrow> 'a kproc_scheme \<Rightarrow> 'a kproc_scheme" where
  "cow_fault page_addr old_pa s =
     (let (new_pa, s1) = km_alloc_phys_pages 0 GFP_KERNEL s in
      if new_pa = 0 then pf_emit (PfPuts ''[PAGE FAULT] COW: alloc failed'') s1
      else (let s2 = copy_page (phys_to_virt s1 new_pa) (phys_to_virt s1 old_pa) s1;
                s3 = unmap_page page_addr s2;
                s4 = km_put_page old_pa s3;
                (ret, s5) = map_page page_addr new_pa PAGE_USER_RW s4
            in if ret \<noteq> 0 then pf_emit (PfPuts ''[PAGE FAULT] COW: map failed'') (km_free_phys_pages new_pa 0 s5)
               else flush_tlb s5))"

definition demand_fault :: "u64 \<Rightarrow> u64 \<Rightarrow> 'a kproc_scheme \<Rightarrow> 'a kproc_scheme" where
  "demand_fault page_addr prot s =
     (let (pa, s1) = km_alloc_phys_pages 0 GFP_KERNEL s in
      if pa = 0 then pf_emit (PfPuts ''[PAGE FAULT] alloc failed'') s1
      else (let s2 = memset0 (phys_to_virt s1 pa) PAGE_SIZE s1;
                (ret, s3) = map_page page_addr pa prot s2
            in if ret \<noteq> 0 then pf_emit (PfPuts ''[PAGE FAULT] map failed'') (km_free_phys_pages pa 0 s3)
               else s3))"

definition user_fault :: "u64 \<Rightarrow> u64 \<Rightarrow> u64 \<Rightarrow> 'a kproc_scheme \<Rightarrow> 'a kproc_scheme" where
  "user_fault fault_addr esr vflags s =
     (let page_addr = fault_addr AND PAGE_MASK;
          is_write = (drop_bit 6 esr AND 1 \<noteq> 0);
          old_pa = get_phys_from_va fault_addr s
      in if old_pa \<noteq> 0 \<and> is_write then
           (if vflags AND VM_WRITE = 0 then
              pf_emit SigSegv (pf_emit (PfPuts ''[PAGE FAULT] write fault on non-writable VMA, sending SIGSEGV'') s)
            else cow_fault page_addr old_pa s)
         else if is_write \<and> vflags AND VM_WRITE = 0 then
           pf_emit SigSegv (pf_emit (PfPuts ''[PAGE FAULT] write fault on non-writable VMA (demand alloc), sending SIGSEGV'') s)
         else demand_fault page_addr (if vflags AND VM_EXEC \<noteq> 0 then PAGE_USER_RX else PAGE_USER_RW) s)"

definition page_fault_handler :: "(u64 \<Rightarrow> u64 \<Rightarrow> u64) \<Rightarrow> u64 \<Rightarrow> u64 \<Rightarrow> 'a kproc_scheme \<Rightarrow> 'a kproc_scheme option" where
  "page_fault_handler rust_vma_find fault_addr esr s = do {
     (r, s1) \<leftarrow> vmalloc_handle_page_fault fault_addr s;
     Some (if r = 0 then s1
       else if current_mm s1 = 0 then pf_emit (PfPuts ''[PAGE FAULT] no mm'') s1
       else (let vflags = rust_vma_find (current_mm s1) fault_addr in
         if vflags = 0 then
           pf_emit SigKill (pf_emit (PfPuts '', sending SIGKILL'')
             (pf_emit (PfHex fault_addr) (pf_emit (PfPuts ''[PAGE FAULT] no vma at 0x'') s1)))
         else user_fault fault_addr esr vflags s1)) }"

end
