(* ===== verification/Data_Pages.thy ===== *)
theory Data_Pages
  imports Page_Table_Properties Mm
begin

text \<open>
  Pages that hold data, not tables: mapping and unmapping other pages leaves their contents alone.
  With this the page fault handler of \<^verbatim>\<open>kernel/page_fault.c\<close> is shown to give a process a fresh page
  of zeros where it touches an unmapped page of one of its areas.
\<close>

section \<open>Data pages\<close>

definition data_page :: "phys_addr_t set \<Rightarrow> 'a kmem_scheme \<Rightarrow> nat \<Rightarrow> bool" where
  "data_page R s f \<longleftrightarrow> f < TOTAL_PAGES \<and> (f, 0) \<in> used_set (km_pmm s) \<and> unlinked R s (pfn_to_pa f)"

definition page_word :: "'a kmem_scheme \<Rightarrow> nat \<Rightarrow> u64 \<Rightarrow> u64" where
  "page_word s f i = pte_get s (pfn_to_pa f) i"

lemma data_table_page: "data_page R s f \<Longrightarrow> table_page s (pfn_to_pa f)"
  by (auto simp: data_page_def table_page_def)

lemma page_word_pte_set:
  assumes "data_page R s f" and "r \<in> R" "idx_ok p" "length p \<le> 3" "walk s r p = Some t" and "pt_wf R s" and "i < 512" "j < 512"
  shows "page_word (pte_set t i v s) f j = page_word s f j"
proof -
  have "t \<noteq> pfn_to_pa f" using assms(1-5) by (auto simp: data_page_def unlinked_def)
  then show ?thesis
    using pte_get_set [OF pt_wf_page [OF assms(6,2,3,4,5)] data_table_page [OF assms(1)] assms(7,8), of v] by (simp add: page_word_def)
qed

lemma page_word_memset0:
  assumes "f < TOTAL_PAGES" "g < TOTAL_PAGES" "f \<noteq> g" "j < 512"
  shows "page_word (memset0 (phys_to_virt s (pfn_to_pa g)) PAGE_SIZE s) f j = page_word s f j"
proof -
  have "\<not> entry_addr s (pfn_to_pa f) j - phys_to_virt s (pfn_to_pa g) < PAGE_SIZE"
    using entry_addr_in_page [OF assms(2,1,4), of s] assms(3) by simp
  then show ?thesis by (simp add: page_word_def pte_get_def load64_def memset0_def entry_addr_def phys_to_virt_def)
qed

definition keeps_data :: "phys_addr_t set \<Rightarrow> nat \<Rightarrow> 'a kmem_scheme \<Rightarrow> 'a kmem_scheme \<Rightarrow> bool" where
  "keeps_data R f s t \<longleftrightarrow> data_page R t f \<and> (\<forall>j < 512. page_word t f j = page_word s f j)"

lemma keeps_data_refl: "data_page R s f \<Longrightarrow> keeps_data R f s s"
  by (simp add: keeps_data_def)

lemma keeps_data_trans: "keeps_data R f s t \<Longrightarrow> keeps_data R f t u \<Longrightarrow> keeps_data R f s u"
  by (simp add: keeps_data_def)

lemma keeps_data_cong:
  assumes "data_page R s f" and "mem64 t = mem64 s" "slab_linear_map_base t = slab_linear_map_base s"
    and "(f, 0) \<in> used_set (km_pmm t)"
  shows "keeps_data R f s t"
proof -
  have "walk t r p = walk s r p" for r p by (rule walk_cong [OF assms(2,3)])
  then show ?thesis using assms
    by (simp add: keeps_data_def data_page_def unlinked_def page_word_def pte_get_def load64_def entry_addr_def phys_to_virt_def)
qed

text \<open>Linking a table of zeros makes no data page a table.\<close>

lemma unlinked_link:
  assumes wf: "pt_wf R s" and r0: "r0 \<in> R" "idx_ok p0" "length p0 < 3" "walk s r0 p0 = Some t" "i < 512"
    and un: "unlinked R s (pfn_to_pa f)" "f < TOTAL_PAGES" and g: "g < TOTAL_PAGES" "g \<noteq> f"
    and z: "\<forall>j < 512. pte_get s (pfn_to_pa g) j = 0" and tg: "table_page s (pfn_to_pa g)" "pfn_to_pa g \<noteq> t"
  shows "unlinked R (pte_set t i (ARM64_TABLE_PROT OR pfn_to_pa g) s) (pfn_to_pa f)"
proof -
  let ?v = "ARM64_TABLE_PROT OR pfn_to_pa g" let ?s = "pte_set t i ?v s"
  have "walk ?s r q \<noteq> Some (pfn_to_pa f)" if r: "r \<in> R" and q: "idx_ok q" "length q \<le> 3" for r q
  proof (cases "r = r0 \<and> prefix (p0 @ [i]) q")
    case False
    then have "walk ?s r q = walk s r q" using q by (intro walk_pte_set_frame [OF wf r0(1,2) _ r0(4,5) r]) (use r0(3) in auto)
    then show ?thesis using un(1) r q by (simp add: unlinked_def)
  next
    case True
    then obtain u where u: "q = p0 @ i # u" by (auto simp: prefix_def)
    have w: "walk ?s r0 q = walk ?s (pfn_to_pa g) u"
      unfolding u using walk_pte_set_at [OF wf r0(1,2) _ r0(4,5), of ?v u] r0(3) table_entry_decode [OF g(1)] by simp
    show ?thesis
    proof (cases u)
      case Nil
      then show ?thesis using w True g un(2) pfn_pa_roundtrip by (metis option.inject walk.simps(1))
    next
      case (Cons j us)
      have tp: "table_page s t" by (rule pt_wf_page [OF wf r0(1,2) _ r0(4)]) (use r0(3) in simp)
      have "j < 512" using q(1) Cons u by simp
      then have "pte_get ?s (pfn_to_pa g) j = 0" using pte_get_set [OF tp tg(1) r0(5), of j ?v] tg(2) z by simp
      then show ?thesis using w True Cons by (simp add: pte_present_bit)
    qed
  qed
  then show ?thesis by (simp add: unlinked_def)
qed

section \<open>Mapping keeps data pages\<close>

lemma next_table_keeps:
  assumes inv: "pt_inv R s" and f: "data_page R s f"
    and r0: "r0 \<in> R" "idx_ok p0" "length p0 < 3" "walk s r0 p0 = Some t" "i < 512" and nt: "next_table t i s = (res, s')"
  shows "keeps_data R f s s'"
proof (cases "pte_present (pte_get s t i)")
  case True
  then show ?thesis using nt keeps_data_refl [OF f] by (auto simp: next_table_def)
next
  case False
  have bud: "buddy_inv (km_pmm s)" and wf: "pt_wf R s" using inv by (simp_all add: pt_inv_def)
  obtain pa s1 where al: "km_alloc_phys_pages 0 GFP_KERNEL s = (pa, s1)" by (cases "km_alloc_phys_pages 0 GFP_KERNEL s")
  note k = km_alloc_simps [OF al]
  from alloc_one_page [OF bud k(5)] show ?thesis
  proof
    assume a: "pa = 0 \<and> buddy_inv (km_pmm s1) \<and> used_set (km_pmm s1) = used_set (km_pmm s)"
    then have "s' = s1" using False al nt by (auto simp: next_table_def)
    then show ?thesis using keeps_data_cong [OF f k(1,2)] a f by (simp add: data_page_def)
  next
    assume "\<exists>g. pa = pfn_to_pa g \<and> g < TOTAL_PAGES \<and> pa \<noteq> 0 \<and> (g, 0) \<notin> used_set (km_pmm s) \<and>
      used_set (km_pmm s1) = insert (g, 0) (used_set (km_pmm s)) \<and> buddy_inv (km_pmm s1)"
    then obtain g where g: "pa = pfn_to_pa g" "g < TOTAL_PAGES" "pa \<noteq> 0" "(g, 0) \<notin> used_set (km_pmm s)"
      "used_set (km_pmm s1) = insert (g, 0) (used_set (km_pmm s))" by blast
    let ?m = "memset0 (phys_to_virt s1 (pfn_to_pa g)) PAGE_SIZE s1"
    have s': "s' = pte_set t i (ARM64_TABLE_PROT OR pfn_to_pa g) ?m" using False al g nt by (auto simp: next_table_def)
    have fg: "g \<noteq> f" "f < TOTAL_PAGES" using f g(4) by (auto simp: data_page_def)
    have w1: "walk s1 r q = walk s r q" for r q by (rule walk_cong [OF k(1,2)])
    have f1: "keeps_data R f s s1" using f g(5) by (intro keeps_data_cong [OF f k(1,2)]) (simp add: data_page_def)
    have wf1: "pt_wf R s1" by (rule pt_wf_mono [OF wf]) (auto simp: w1 table_page_def g(5))
    have ug: "unlinked R s1 (pfn_to_pa g)" unfolding unlinked_def
    proof (intro ballI allI impI notI)
      fix r p assume "r \<in> R" "idx_ok p \<and> length p \<le> 3" "walk s1 r p = Some (pfn_to_pa g)"
      then have "table_page s (pfn_to_pa g)" using pt_wf_page [OF wf] w1 by metis
      then show False using g(2,4) pfn_pa_roundtrip by (metis table_page_def)
    qed
    have wm: "walk ?m r q = walk s1 r q" if "r \<in> R" "idx_ok q" "length q \<le> 4" for r q by (rule walk_memset0 [OF wf1 g(2) ug that])
    have wfm: "pt_wf R ?m" by (rule pt_wf_mono [OF wf1]) (auto simp: wm)
    have dm: "data_page R ?m f" using f1 wm by (simp add: keeps_data_def data_page_def unlinked_def)
    have wt: "walk ?m r0 p0 = Some t" using wm [OF r0(1,2)] r0(3,4) w1 by simp
    have tg: "table_page ?m (pfn_to_pa g)" using g(2,5) by (auto simp: table_page_def)
    have gt: "pfn_to_pa g \<noteq> t" using ug wm wt r0 w1 by (auto simp: unlinked_def)
    have z: "\<forall>j < 512. pte_get ?m (pfn_to_pa g) j = 0" using pte_get_memset0 [OF g(2), of _ s1] by blast
    have un: "unlinked R ?m (pfn_to_pa f)" using dm by (simp add: data_page_def)
    have "unlinked R s' (pfn_to_pa f)"
      unfolding s' by (rule unlinked_link [OF wfm r0(1-3) wt r0(5) un fg(2) g(2) fg(1) z tg gt])
    moreover have "page_word s' f j = page_word s f j" if "j < 512" for j
    proof -
      have "page_word s' f j = page_word ?m f j"
        unfolding s' using r0(3) by (intro page_word_pte_set [OF dm r0(1,2) _ wt wfm r0(5) that]) simp
      also have "\<dots> = page_word s1 f j" using fg(1) by (intro page_word_memset0 [OF fg(2) g(2) _ that]) simp
      finally show ?thesis using f1 that by (simp add: keeps_data_def)
    qed
    ultimately show ?thesis using dm by (simp add: keeps_data_def data_page_def s')
  qed
qed

lemma map_page_keeps:
  assumes inv: "pt_inv R s" and f: "data_page R s f" and m: "map_page va pa prot s = (r, s')"
  shows "keeps_data R f s s'"
proof (cases "l0_table s va = 0")
  case True
  then show ?thesis using m keeps_data_refl [OF f] by (auto simp: map_page_def arm64_map_one_page_def)
next
  case False
  let ?r = "l0_table s va"
  have root: "?r \<in> R" by (rule pt_inv_root [OF inv False])
  have p: "length ([] :: u64 list) < 3" "idx_ok ([] @ [L0_INDEX va])" "length ([] @ [L0_INDEX va]) < 3"
    "idx_ok (([] @ [L0_INDEX va]) @ [L1_INDEX va])" "length (([] @ [L0_INDEX va]) @ [L1_INDEX va]) < 3"
    "idx_ok ((([] @ [L0_INDEX va]) @ [L1_INDEX va]) @ [L2_INDEX va])" "length ((([] @ [L0_INDEX va]) @ [L1_INDEX va]) @ [L2_INDEX va]) \<le> 3"
    by (simp_all add: L_INDEX_lt)
  obtain o1 s1 where n1: "next_table ?r (L0_INDEX va) s = (o1, s1)" by fastforce
  note t1 = next_table_inv [OF inv root idx_ok_simps(1) p(1) walk.simps(1) L_INDEX_lt(1) n1]
  note k1 = next_table_keeps [OF inv f root idx_ok_simps(1) p(1) walk.simps(1) L_INDEX_lt(1) n1]
  have d: "keeps_data R f s t \<Longrightarrow> data_page R t f" for t by (simp add: keeps_data_def)
  show ?thesis
  proof (cases o1)
    case None
    then show ?thesis using m False n1 k1 by (simp add: map_page_def arm64_map_one_page_def Let_def)
  next
    case (Some l1)
    obtain o2 s2 where n2: "next_table l1 (L1_INDEX va) s1 = (o2, s2)" by fastforce
    note t2 = next_table_inv [OF t1(2) root p(2,3) t1(3) [OF Some] L_INDEX_lt(2) n2]
    note k2 = keeps_data_trans [OF k1 next_table_keeps [OF t1(2) d [OF k1] root p(2,3) t1(3) [OF Some] L_INDEX_lt(2) n2]]
    show ?thesis
    proof (cases o2)
      case None
      then show ?thesis using m False n1 n2 Some k2 by (simp add: map_page_def arm64_map_one_page_def Let_def)
    next
      case (Some l2)
      obtain o3 s3 where n3: "next_table l2 (L2_INDEX va) s2 = (o3, s3)" by fastforce
      note t3 = next_table_inv [OF t2(2) root p(4,5) t2(3) [OF Some] L_INDEX_lt(3) n3]
      note k3 = keeps_data_trans [OF k2 next_table_keeps [OF t2(2) d [OF k2] root p(4,5) t2(3) [OF Some] L_INDEX_lt(3) n3]]
      show ?thesis
      proof (cases o3)
        case None
        then show ?thesis using m False n1 n2 n3 \<open>o1 = Some l1\<close> Some k3 by (simp add: map_page_def arm64_map_one_page_def Let_def)
      next
        case o3: (Some l3)
        let ?v = "prot OR (pa AND ARM64_PTE_ADDR_MASK)"
        have s': "s' = pte_set l3 (L3_INDEX va) ?v s3"
          using m False n1 n2 n3 \<open>o1 = Some l1\<close> Some o3 by (simp add: map_page_def arm64_map_one_page_def Let_def)
        have wf3: "pt_wf R s3" using t3(2) by (simp add: pt_inv_def)
        note w3 = t3(3) [OF o3]
        have "walk s' r q = walk s3 r q" if "r \<in> R" "idx_ok q" "length q \<le> 3" for r q
          unfolding s' using that by (intro walk_pte_set_frame [OF wf3 root p(6,7) w3 L_INDEX_lt(4)]) (auto dest: prefix_length_le)
        then have "data_page R s' f" using d [OF k3] by (simp add: data_page_def unlinked_def s')
        moreover have "page_word s' f j = page_word s3 f j" if "j < 512" for j
          unfolding s' by (rule page_word_pte_set [OF d [OF k3] root p(6,7) w3 wf3 L_INDEX_lt(4) that])
        ultimately show ?thesis using k3 by (simp add: keeps_data_def)
      qed
    qed
  qed
qed

section \<open>A new data page\<close>

lemma fresh_unlinked:
  assumes "pt_wf R s" and "(g, 0) \<notin> used_set (km_pmm s)" and "g < TOTAL_PAGES"
  shows "unlinked R s (pfn_to_pa g)"
  unfolding unlinked_def
proof (intro ballI allI impI notI)
  fix r p assume "r \<in> R" "idx_ok p \<and> length p \<le> 3" "walk s r p = Some (pfn_to_pa g)"
  then have "table_page s (pfn_to_pa g)" using pt_wf_page [OF assms(1)] by blast
  then show False using assms(2,3) pfn_pa_roundtrip by (metis table_page_def)
qed

lemma alloc_data_page:
  assumes inv: "pt_inv R s" and free: "1 \<le> free_pages (km_pmm s)" and al: "km_alloc_phys_pages 0 GFP_KERNEL s = (pa, s1)"
  obtains g where "pa = pfn_to_pa g" "g < TOTAL_PAGES" "pa \<noteq> 0" "(g, 0) \<notin> used_set (km_pmm s)"
    "used_set (km_pmm s1) = insert (g, 0) (used_set (km_pmm s))" "pt_inv R s1" "data_page R s1 g"
    "free_pages (km_pmm s) = Suc (free_pages (km_pmm s1))"
    "\<And>f. data_page R s f \<Longrightarrow> keeps_data R f s s1" "\<And>r q. walk s1 r q = walk s r q"
proof -
  have bud: "buddy_inv (km_pmm s)" and wf: "pt_wf R s" using inv by (simp_all add: pt_inv_def)
  note k = km_alloc_simps [OF al]
  note ok = alloc_one_page_succeeds [OF bud free k(5)]
  obtain g where g: "pa = pfn_to_pa g" "g < TOTAL_PAGES" "(g, 0) \<notin> used_set (km_pmm s)"
      "used_set (km_pmm s1) = insert (g, 0) (used_set (km_pmm s))" "buddy_inv (km_pmm s1)"
    using alloc_one_page [OF bud k(5)] ok(1) by blast
  have w: "walk s1 r q = walk s r q" for r q by (rule walk_cong [OF k(1,2)])
  have wf1: "pt_wf R s1" by (rule pt_wf_mono [OF wf]) (auto simp: w table_page_def g(4))
  have "pt_inv R s1" using inv wf1 g(5) k(3,4) by (simp add: pt_inv_def)
  moreover have "data_page R s1 g" using fresh_unlinked [OF wf g(3,2)] g by (simp add: data_page_def unlinked_def w)
  moreover have "keeps_data R f s s1" if "data_page R s f" for f
    using that g(4) by (intro keeps_data_cong [OF that k(1,2)]) (simp add: data_page_def)
  ultimately show ?thesis using that g ok w by blast
qed

text \<open>Writing into a data page changes no translation.\<close>

lemma write_data_page:
  assumes inv: "pt_inv R s" and g: "data_page R s g"
    and t: "t = s\<lparr>mem64 := m\<rparr>" and m: "\<And>a. \<not> a - phys_to_virt s (pfn_to_pa g) < PAGE_SIZE \<Longrightarrow> m a = mem64 s a"
  shows "pt_inv R t" and "data_page R t g" and "\<And>f. data_page R s f \<Longrightarrow> f \<noteq> g \<Longrightarrow> keeps_data R f s t"
    and "\<And>va. get_phys_from_va va t = get_phys_from_va va s"
proof -
  have wf: "pt_wf R s" using inv by (simp add: pt_inv_def)
  have gl: "g < TOTAL_PAGES" using g by (simp add: data_page_def)
  have ea: "entry_addr t = entry_addr s" by (simp add: entry_addr_def phys_to_virt_def t fun_eq_iff)
  have other: "pte_get t (pfn_to_pa f) i = pte_get s (pfn_to_pa f) i" if "f < TOTAL_PAGES" "f \<noteq> g" "i < 512" for f i
  proof -
    have "m (entry_addr s (pfn_to_pa f) i) = mem64 s (entry_addr s (pfn_to_pa f) i)"
      using entry_addr_in_page [OF gl that(1,3), of s] that(2) by (intro m) simp
    then show ?thesis by (simp add: pte_get_def load64_def ea) (simp add: t)
  qed
  have walk: "walk t r q = walk s r q" if r: "r \<in> R" and q: "idx_ok q" "length q \<le> 4" for r q
    using q
  proof (induction q rule: rev_induct)
    case (snoc j q)
    then have ih: "walk t r q = walk s r q" and j: "j < 512" and q: "idx_ok q" "length q \<le> 3" by simp_all
    show ?case
    proof (cases "walk s r q")
      case (Some a)
      then obtain f where f: "a = pfn_to_pa f" "f < TOTAL_PAGES" using pt_wf_page [OF wf r q Some] by (auto simp: table_page_def)
      then have "f \<noteq> g" using g Some r q by (auto simp: data_page_def unlinked_def)
      then show ?thesis using ih Some other [OF f(2) _ j] f(1) by (simp add: walk_append)
    qed (use ih in \<open>simp add: walk_append\<close>)
  qed simp
  have "pt_wf R t" by (rule pt_wf_mono [OF wf], simp add: walk, simp add: table_page_def t)
  then show inv': "pt_inv R t" using inv by (simp add: pt_inv_def t)
  show "data_page R t g" using g walk by (simp add: data_page_def unlinked_def t)
  show "keeps_data R f s t" if "data_page R s f" "f \<noteq> g" for f
    using that walk other by (simp add: keeps_data_def data_page_def unlinked_def page_word_def t)
  show "get_phys_from_va va t = get_phys_from_va va s" for va
  proof -
    have l0: "l0_table t va = l0_table s va" by (simp add: l0_table_def read_ttbr0_def read_ttbr1_def t)
    have "l0_table s va \<noteq> 0 \<Longrightarrow> walk t (l0_table s va) (va_path va) = walk s (l0_table s va) (va_path va)"
      by (rule walk [OF pt_inv_root [OF inv]]) simp_all
    then show ?thesis by (simp add: get_phys_from_va_def get_phys_walk l0)
  qed
qed

section \<open>The same page\<close>

lemma INDEX_mask: "L0_INDEX (va AND PAGE_MASK) = L0_INDEX va" "L1_INDEX (va AND PAGE_MASK) = L1_INDEX va"
  "L2_INDEX (va AND PAGE_MASK) = L2_INDEX va" "L3_INDEX (va AND PAGE_MASK) = L3_INDEX va"
proof -
  have d: "drop_bit n (va AND PAGE_MASK) = drop_bit n va" if "12 \<le> n" for n
    using that by (intro bit_word_eqI) (auto simp: PAGE_MASK_val bit_simps dest: bit_imp_le_length)
  show "L0_INDEX (va AND PAGE_MASK) = L0_INDEX va" "L1_INDEX (va AND PAGE_MASK) = L1_INDEX va"
    "L2_INDEX (va AND PAGE_MASK) = L2_INDEX va" "L3_INDEX (va AND PAGE_MASK) = L3_INDEX va"
    by (simp_all add: L0_INDEX_def L1_INDEX_def L2_INDEX_def L3_INDEX_def d del: drop_bit_and)
qed

lemma va_key_mask: "va_key s (va AND PAGE_MASK) = va_key s va"
proof -
  have "drop_bit 47 (va AND PAGE_MASK) = drop_bit 47 va"
    by (intro bit_word_eqI) (auto simp: PAGE_MASK_val bit_simps dest: bit_imp_le_length)
  then show ?thesis by (simp add: va_key_def l0_table_def is_user_addr_def va_path_def INDEX_mask del: drop_bit_and)
qed

lemma get_phys_key: "va_key s va = va_key s va' \<Longrightarrow> get_phys_from_va va s = get_phys_from_va va' s"
  by (simp add: get_phys_from_va_def get_phys_walk va_key_def)

section \<open>Demand paging\<close>

text \<open>The page the handler has put under an address: new, and with the given contents.\<close>

definition backed :: "phys_addr_t set \<Rightarrow> u64 \<Rightarrow> (u64 \<Rightarrow> u64) \<Rightarrow> 'a kmem_scheme \<Rightarrow> 'a kmem_scheme \<Rightarrow> bool" where
  "backed R va w s t \<longleftrightarrow> pt_inv R t \<and>
     (\<exists>f. data_page R t f \<and> (f, 0) \<notin> used_set (km_pmm s) \<and> get_phys_from_va va t = pfn_to_pa f \<and>
        (\<forall>i < 512. page_word t f i = w i)) \<and>
     (\<forall>va'. va_key s va' \<noteq> va_key s va \<longrightarrow> get_phys_from_va va' t = get_phys_from_va va' s)"

lemma map_data_page:
  assumes inv: "pt_inv R s" and g: "data_page R s g" "(g, 0) \<notin> used_set (km_pmm s0)" and prot: "pte_present prot" "prot AND ARM64_PTE_ADDR_MASK = 0"
    and m: "map_page va (pfn_to_pa g) prot s = (0, t)" and key: "\<And>va. va_key s va = va_key s0 va"
    and tr: "\<And>va'. va_key s va' \<noteq> va_key s va \<Longrightarrow> get_phys_from_va va' s = get_phys_from_va va' s0"
    and w: "\<And>i. i < 512 \<Longrightarrow> page_word s g i = w i"
  shows "backed R va w s0 t"
proof -
  note c = map_page_correct_lemma [OF inv prot m] and k = map_page_keeps [OF inv g(1) m]
  have g': "g < TOTAL_PAGES" "data_page R t g" using k by (simp_all add: keeps_data_def data_page_def)
  have "get_phys_from_va va t = pfn_to_pa g" using c pfn_to_pa_masked [OF g'(1)] by simp
  moreover have "page_word t g i = w i" if "i < 512" for i using k w that by (simp add: keeps_data_def)
  moreover have "get_phys_from_va va' t = get_phys_from_va va' s0" if "va_key s0 va' \<noteq> va_key s0 va" for va'
    using c tr [of va'] that by (simp add: key)
  ultimately show ?thesis using c g' g(2) by (auto simp: backed_def)
qed

lemma map_page_more:
  assumes "pt_inv R s" and "map_page va pa prot s = (r, t)"
  shows "kmem.more t = kmem.more s"
  using assms(1) assms(2) [unfolded map_page_def] by (cases rule: arm64_map_one_page_cases) (simp_all add: grown_def)

lemma more_pf_events:
  fixes s t :: "'a kproc_scheme"
  shows "kmem.more t = kmem.more s \<Longrightarrow> pf_events t = pf_events s"
  by (cases s, cases t) simp

lemma map_page_free:
  assumes inv: "pt_inv R s" and l0: "l0_table s va \<noteq> 0" and fp: "3 \<le> free_pages (km_pmm s)" and m: "map_page va pa prot s = (r, t)"
  shows "free_pages (km_pmm s) \<le> free_pages (km_pmm t) + 3"
proof -
  let ?r = "l0_table s va"
  have root: "?r \<in> R" by (rule pt_inv_root [OF inv l0])
  have p: "length ([] :: u64 list) < 3" "idx_ok ([] @ [L0_INDEX va])" "length ([] @ [L0_INDEX va]) < 3" by (simp_all add: L_INDEX_lt)
  have bi: "buddy_inv (km_pmm t)" if "pt_inv R t" for t :: "'a kmem_scheme" using that by (simp add: pt_inv_def)
  obtain o1 s1 where n1: "next_table ?r (L0_INDEX va) s = (o1, s1)" by fastforce
  note t1 = next_table_inv [OF inv root idx_ok_simps(1) p(1) walk.simps(1) L_INDEX_lt(1) n1]
  from next_table_succeeds [OF bi [OF inv] _ n1] fp obtain l1 where o1: "o1 = Some l1"
    and f1: "free_pages (km_pmm s) \<le> Suc (free_pages (km_pmm s1))" by auto
  obtain o2 s2 where n2: "next_table l1 (L1_INDEX va) s1 = (o2, s2)" by fastforce
  note t2 = next_table_inv [OF t1(2) root p(2,3) t1(3) [OF o1] L_INDEX_lt(2) n2]
  have "1 \<le> free_pages (km_pmm s1)" using fp f1 by linarith
  from next_table_succeeds [OF bi [OF t1(2)] this n2] obtain l2 where o2: "o2 = Some l2"
    and f2: "free_pages (km_pmm s1) \<le> Suc (free_pages (km_pmm s2))" by auto
  obtain o3 s3 where n3: "next_table l2 (L2_INDEX va) s2 = (o3, s3)" by fastforce
  have "1 \<le> free_pages (km_pmm s2)" using fp f1 f2 by linarith
  from next_table_succeeds [OF bi [OF t2(2)] this n3] obtain l3 where o3: "o3 = Some l3"
    and f3: "free_pages (km_pmm s2) \<le> Suc (free_pages (km_pmm s3))" by auto
  have "t = pte_set l3 (L3_INDEX va) (prot OR (pa AND ARM64_PTE_ADDR_MASK)) s3"
    using m l0 n1 n2 n3 o1 o2 o3 by (simp add: map_page_def arm64_map_one_page_def Let_def)
  then show ?thesis using f1 f2 f3 by simp
qed

lemma memset0_write:
  "memset0 (phys_to_virt s (pfn_to_pa g)) PAGE_SIZE s = s\<lparr>mem64 := (\<lambda>a. if a - phys_to_virt s (pfn_to_pa g) < PAGE_SIZE then 0 else mem64 s a)\<rparr>"
  by (simp add: memset0_def)

lemma demand_fault_ok:
  assumes inv: "pt_inv R s" and l0: "l0_table s va \<noteq> 0" and free: "4 \<le> free_pages (km_pmm s)"
    and prot: "pte_present prot" "prot AND ARM64_PTE_ADDR_MASK = 0"
  shows "backed R va (\<lambda>_. 0) s (demand_fault va prot s)" and "pf_events (demand_fault va prot s) = pf_events s"
    and "free_pages (km_pmm s) \<le> free_pages (km_pmm (demand_fault va prot s)) + 4" and "kmem.more (demand_fault va prot s) = kmem.more s"
    and "l0_table (demand_fault va prot s) v = l0_table s v"
proof -
  obtain pa s1 where al: "km_alloc_phys_pages 0 GFP_KERNEL s = (pa, s1)" by fastforce
  have "1 \<le> free_pages (km_pmm s)" using free by simp
  from alloc_data_page [OF inv this al] obtain g where g: "pa = pfn_to_pa g" "g < TOTAL_PAGES" "pa \<noteq> 0"
    "(g, 0) \<notin> used_set (km_pmm s)" "pt_inv R s1" "data_page R s1 g" "free_pages (km_pmm s) = Suc (free_pages (km_pmm s1))"
    and w1: "\<And>r q. walk s1 r q = walk s r q" by metis
  note k = km_alloc_simps [OF al]
  let ?m = "memset0 (phys_to_virt s1 pa) PAGE_SIZE s1"
  have mw: "?m = s1\<lparr>mem64 := (\<lambda>a. if a - phys_to_virt s1 (pfn_to_pa g) < PAGE_SIZE then 0 else mem64 s1 a)\<rparr>"
    unfolding g(1) by (rule memset0_write)
  note wr = write_data_page [OF g(5,6) mw]
  have invm: "pt_inv R ?m" and dm: "data_page R ?m g" and gm: "\<And>va. get_phys_from_va va ?m = get_phys_from_va va s1" by (rule wr; simp)+
  have l0m: "l0_table ?m v = l0_table s v" for v using k(3,4) by (simp add: l0_table_def read_ttbr0_def read_ttbr1_def)
  have g1: "get_phys_from_va v s1 = get_phys_from_va v s" for v
    using k(3,4) by (simp add: get_phys_from_va_def get_phys_walk w1 l0_table_def read_ttbr0_def read_ttbr1_def)
  have "fst (map_page va pa prot ?m) = 0" using l0 g(7) free by (intro map_page_succeeds_lemma [OF invm]) (simp_all add: l0m)
  then obtain t where t: "map_page va pa prot ?m = (0, t)" by (metis prod.collapse)
  have d: "demand_fault va prot s = t" using al g(3) t by (simp add: demand_fault_def Let_def)
  have t': "map_page va (pfn_to_pa g) prot ?m = (0, t)" using t g(1) by simp
  have z: "page_word ?m g i = 0" if "i < 512" for i using pte_get_memset0 [OF g(2) that, of s1] by (simp add: page_word_def g(1))
  show "backed R va (\<lambda>_. 0) s (demand_fault va prot s)"
    unfolding d by (rule map_data_page [OF invm dm g(4) prot t']) (simp_all add: z gm g1 va_key_def l0m)
  have mt: "kmem.more t = kmem.more s" using map_page_more [OF invm t] k(6) by simp
  then show "pf_events (demand_fault va prot s) = pf_events s" unfolding d by (rule more_pf_events)
  show "kmem.more (demand_fault va prot s) = kmem.more s" unfolding d by (rule mt)
  have "free_pages (km_pmm ?m) \<le> free_pages (km_pmm t) + 3" using l0 g(7) free by (intro map_page_free [OF invm _ _ t]) (simp_all add: l0m)
  then show "free_pages (km_pmm s) \<le> free_pages (km_pmm (demand_fault va prot s)) + 4" unfolding d using g(7) by simp
  show "l0_table (demand_fault va prot s) v = l0_table s v"
    unfolding d using map_page_l0 [OF invm t, of v] by (simp add: va_key_def l0m)
qed

section \<open>Unmapping keeps data pages\<close>

definition trimmed :: "phys_addr_t set \<Rightarrow> nat \<Rightarrow> 'a kmem_scheme \<Rightarrow> 'a kmem_scheme \<Rightarrow> bool" where
  "trimmed R f s t \<longleftrightarrow> shrunk R s t \<and> keeps_data R f s t \<and> buddy_mem_start (km_pmm t) = buddy_mem_start (km_pmm s)"

lemma trimmed_refl: "pt_inv R s \<Longrightarrow> data_page R s f \<Longrightarrow> trimmed R f s s"
  by (simp add: trimmed_def shrunk_refl keeps_data_refl)

lemma trimmed_trans: "trimmed R f s t \<Longrightarrow> trimmed R f t u \<Longrightarrow> trimmed R f s u"
  unfolding trimmed_def using shrunk_trans keeps_data_trans by fastforce

lemma trimmedD: "trimmed R f s t \<Longrightarrow> pt_inv R t" "trimmed R f s t \<Longrightarrow> data_page R t f"
  by (simp_all add: trimmed_def shrunk_def keeps_data_def)

lemma unlink_trims:
  assumes inv: "pt_inv R s" and f: "data_page R s f" and r0: "r0 \<in> R" "idx_ok (p0 @ [i])" "length p0 < 3" "walk s r0 p0 = Some t"
    and sub: "walk s r0 (p0 @ [i]) = Some u" "pte_table_empty u s"
  defines "s' \<equiv> km_free_phys_pages u 0 (pte_set t i 0 s)"
  shows "trimmed R f s s'" and "\<And>r q. r \<in> R \<Longrightarrow> idx_ok q \<Longrightarrow> length q \<le> 4 \<Longrightarrow> \<not> (r = r0 \<and> prefix (p0 @ [i]) q) \<Longrightarrow> walk s' r q = walk s r q"
proof -
  have wf: "pt_wf R s" and bi: "buddy_inv (km_pmm s)" using inv by (simp_all add: pt_inv_def)
  have p0: "idx_ok p0" "length p0 \<le> 3" "i < 512" "length (p0 @ [i]) \<le> 3" using r0 by auto
  note st = unlink_step [OF inv r0 sub, folded s'_def]
  show "walk s' r q = walk s r q" if "r \<in> R" "idx_ok q" "length q \<le> 4" "\<not> (r = r0 \<and> prefix (p0 @ [i]) q)" for r q
    by (rule st(2) [OF that])
  from pt_wf_page [OF wf r0(1,2) p0(4) sub(1)]
  obtain g where g: "u = pfn_to_pa g" "g < TOTAL_PAGES" "(g, 0) \<in> used_set (km_pmm s)" by (auto simp: table_page_def)
  have fd: "freed (km_pmm s) g 0 (km_pmm s')" using free_phys_pages_ok [OF bi g(3)] by (simp add: s'_def g(1))
  have gf: "g \<noteq> f" using f sub(1) r0(1,2) p0(4) g(1) by (auto simp: data_page_def unlinked_def)
  have "walk s' r q \<noteq> Some (pfn_to_pa f)" if r: "r \<in> R" and q: "idx_ok q" "length q \<le> 3" for r q
  proof (cases "r = r0 \<and> prefix (p0 @ [i]) q")
    case True
    then obtain q' where "q = p0 @ i # q'" by (auto simp: prefix_def)
    then have "walk s' r q = None" using True walk_pte_set_at [OF wf r0(1) p0(1,2) r0(4) p0(3), of 0 q'] by (simp add: s'_def pte_present_def)
    then show ?thesis by simp
  next
    case False
    then show ?thesis using st(2) [OF r q(1) _ False] f r q by (simp add: data_page_def unlinked_def)
  qed
  then have "data_page R s' f" using f fd gf by (simp add: data_page_def unlinked_def freed_def)
  moreover have "page_word s' f j = page_word s f j" if "j < 512" for j
    using page_word_pte_set [OF f r0(1) p0(1,2) r0(4) wf p0(3) that, of 0]
    by (simp add: s'_def page_word_def pte_get_def load64_def entry_addr_def phys_to_virt_def)
  ultimately show "trimmed R f s s'" using st(1) fd by (simp add: trimmed_def keeps_data_def freed_def)
qed

lemma release_empty_tables_trims:
  assumes inv: "pt_inv R s" and f: "data_page R s f" and r: "r \<in> R"
    and w: "walk s r [L0_INDEX va] = Some l1" "walk s r [L0_INDEX va, L1_INDEX va] = Some l2"
      "walk s r [L0_INDEX va, L1_INDEX va, L2_INDEX va] = Some l3"
  shows "trimmed R f s (release_empty_tables va r l1 l2 l3 s)"
proof -
  let ?s2 = "km_free_phys_pages l3 0 (pte_set l2 (L2_INDEX va) 0 s)"
  let ?s3 = "km_free_phys_pages l2 0 (pte_set l1 (L1_INDEX va) 0 ?s2)"
  let ?s4 = "km_free_phys_pages l1 0 (pte_set r (L0_INDEX va) 0 ?s3)"
  have a: "trimmed R f s ?s2" "walk ?s2 r [L0_INDEX va] = Some l1" "walk ?s2 r [L0_INDEX va, L1_INDEX va] = Some l2"
    if "pte_table_empty l3 s"
    using unlink_trims [of R s f r "[L0_INDEX va, L1_INDEX va]" "L2_INDEX va" l2 l3] inv f w that r
    by (simp_all add: L_INDEX_lt del: walk.simps)
  have b: "trimmed R f ?s2 ?s3" "walk ?s3 r [L0_INDEX va] = Some l1"
    if "pte_table_empty l3 s" "pte_table_empty l2 ?s2"
    using unlink_trims [of R ?s2 f r "[L0_INDEX va]" "L1_INDEX va" l1 l2] a [OF that(1)] trimmedD [OF a(1) [OF that(1)]] that r
    by (simp_all add: L_INDEX_lt del: walk.simps)
  have c: "trimmed R f ?s3 ?s4"
    if "pte_table_empty l3 s" "pte_table_empty l2 ?s2" "pte_table_empty l1 ?s3"
    using unlink_trims(1) [of R ?s3 f r "[]" "L0_INDEX va" r l1] b [OF that(1,2)] trimmedD [OF b(1) [OF that(1,2)]] that r walk.simps(1) [of ?s3 r]
    by (simp add: L_INDEX_lt del: walk.simps)
  consider "\<not> pte_table_empty l3 s" | "pte_table_empty l3 s" "\<not> pte_table_empty l2 ?s2"
    | "pte_table_empty l3 s" "pte_table_empty l2 ?s2" "\<not> pte_table_empty l1 ?s3"
    | "pte_table_empty l3 s" "pte_table_empty l2 ?s2" "pte_table_empty l1 ?s3" by blast
  then show ?thesis
  proof cases
    case 1
    then show ?thesis using trimmed_refl [OF inv f] by (simp add: release_empty_tables_def)
  next
    case 2
    then show ?thesis using a(1) by (simp add: release_empty_tables_def)
  next
    case 3
    then show ?thesis using trimmed_trans [OF a(1) b(1)] by (simp add: release_empty_tables_def)
  next
    case 4
    then show ?thesis using trimmed_trans [OF trimmed_trans [OF a(1) b(1)] c] by (simp add: release_empty_tables_def)
  qed
qed

lemma unmap_page_keeps:
  assumes inv: "pt_inv R s" and f: "data_page R s f"
  shows "keeps_data R f s (unmap_page va s)" and "used_set (km_pmm (unmap_page va s)) \<subseteq> used_set (km_pmm s)"
    and "buddy_mem_start (km_pmm (unmap_page va s)) = buddy_mem_start (km_pmm s)" and "l0_table (unmap_page va s) v = l0_table s v"
    and "kmem.more (unmap_page va s) = kmem.more s" and "slab_linear_map_base (unmap_page va s) = slab_linear_map_base s"
proof -
  have "keeps_data R f s (unmap_page va s) \<and> used_set (km_pmm (unmap_page va s)) \<subseteq> used_set (km_pmm s) \<and>
    buddy_mem_start (km_pmm (unmap_page va s)) = buddy_mem_start (km_pmm s) \<and> l0_table (unmap_page va s) v = l0_table s v \<and>
    kmem.more (unmap_page va s) = kmem.more s \<and> slab_linear_map_base (unmap_page va s) = slab_linear_map_base s"
  proof (cases va s rule: arm64_unmap_cases)
    case absent
    then show ?thesis using keeps_data_refl [OF f] by (simp add: unmap_page_def)
  next
    case (present l1 l2 l3)
    let ?p = "[L0_INDEX va, L1_INDEX va, L2_INDEX va]" and ?r = "l0_table s va"
    let ?s1 = "flush_tlb (pte_set l3 (L3_INDEX va) 0 s)"
    have wf: "pt_wf R s" using inv by (simp add: pt_inv_def)
    have root: "?r \<in> R" by (rule pt_inv_root [OF inv present(1)])
    have p: "idx_ok ?p" "length ?p \<le> 3" by (simp_all add: L_INDEX_lt)
    have same3: "walk ?s1 r q = walk s r q" if "r \<in> R" "idx_ok q" "length q \<le> 3" for r q
    proof -
      have "walk (pte_set l3 (L3_INDEX va) 0 s) r q = walk s r q"
        by (rule walk_pte_set_frame [OF wf root p present(4) L_INDEX_lt(4) that(1,2)]) (use that(3) in \<open>auto dest: prefix_length_le\<close>)
      then show ?thesis by simp
    qed
    have "pt_wf R ?s1" by (rule pt_wf_mono [OF wf same3]) simp_all
    then have inv1: "pt_inv R ?s1" using inv by (simp add: pt_inv_def)
    have w1: "walk ?s1 ?r [L0_INDEX va] = Some l1" "walk ?s1 ?r [L0_INDEX va, L1_INDEX va] = Some l2"
      "walk ?s1 ?r [L0_INDEX va, L1_INDEX va, L2_INDEX va] = Some l3"
      using same3 [OF root] present(2-4) by (simp_all add: L_INDEX_lt del: walk.simps flush_tlb_simps)
    have "data_page R ?s1 f" using f same3 by (simp add: data_page_def unlinked_def del: flush_tlb_simps(1))
    moreover have "page_word ?s1 f j = page_word s f j" if "j < 512" for j
      using page_word_pte_set [OF f root p present(4) wf L_INDEX_lt(4) [of va] that, of 0]
      by (simp add: page_word_def pte_get_def load64_def entry_addr_def phys_to_virt_def)
    ultimately have k1: "keeps_data R f s ?s1" by (simp add: keeps_data_def)
    then have "data_page R ?s1 f" by (simp add: keeps_data_def)
    from release_empty_tables_trims [OF inv1 this root w1] have tr: "trimmed R f ?s1 (unmap_page va s)" using present(5) by (simp add: unmap_page_def)
    show ?thesis using keeps_data_trans [OF k1] tr shrunk_l0 [of R ?s1 "unmap_page va s" v] by (simp add: trimmed_def shrunk_def)
  qed
  then show "keeps_data R f s (unmap_page va s)" "used_set (km_pmm (unmap_page va s)) \<subseteq> used_set (km_pmm s)"
    "buddy_mem_start (km_pmm (unmap_page va s)) = buddy_mem_start (km_pmm s)" "l0_table (unmap_page va s) v = l0_table s v"
    "kmem.more (unmap_page va s) = kmem.more s" "slab_linear_map_base (unmap_page va s) = slab_linear_map_base s" by blast+
qed

section \<open>Copy on write\<close>

lemma free_pages_mono:
  assumes "buddy_inv s" and "buddy_inv t" and "used_set t \<subseteq> used_set s" and "buddy_mem_start t = buddy_mem_start s"
  shows "free_pages s \<le> free_pages t"
proof -
  have "\<Union> (blk ` used_set s) \<subseteq> {..<TOTAL_PAGES}" using tiling_block [OF inv_hole_tiling [OF buddy_invD(1) [OF assms(1)]]] by fastforce
  then have "finite (\<Union> (blk ` used_set s))" by (rule finite_subset) simp
  then have "used_pages t \<le> used_pages s" unfolding used_pages_def using assms(3) by (intro card_mono) auto
  then show ?thesis using pages_total [OF assms(1)] pages_total [OF assms(2)] assms(4) by (simp add: start_pfn_def)
qed

lemma put_page_effect:
  assumes inv: "buddy_inv s" and p: "(p, 0) \<in> used_set s"
  shows "buddy_inv (put_page (pfn_to_pa p) s)" and "used_set (put_page (pfn_to_pa p) s) \<subseteq> used_set s"
    and "used_set s - {(p, 0)} \<subseteq> used_set (put_page (pfn_to_pa p) s)" and "buddy_mem_start (put_page (pfn_to_pa p) s) = buddy_mem_start s"
proof -
  show "buddy_inv (put_page (pfn_to_pa p) s)" "buddy_mem_start (put_page (pfn_to_pa p) s) = buddy_mem_start s"
    using put_page_inv [OF inv] by simp_all
  have lt: "p < TOTAL_PAGES" using p by (rule head_set_lt)
  let ?t = "upd_page p (\<lambda>pg. pg\<lparr>ref_count := ref_count pg - 1\<rparr>) s"
  have t: "buddy_inv ?t" "used_set ?t = used_set s" using inv by (simp_all add: head_set_upd_same)
  then have "freed ?t p 0 (free_phys_pages (pfn_to_pa p) 0 ?t)" using free_phys_pages_ok [of ?t p 0] p by simp
  then have "used_set (free_phys_pages (pfn_to_pa p) 0 ?t) = used_set s - {(p, 0)}" using t by (simp add: freed_def)
  then have "used_set (put_page (pfn_to_pa p) s) = used_set s \<or> used_set (put_page (pfn_to_pa p) s) = used_set s - {(p, 0)}"
    using lt t by (auto simp: put_page_def Let_def)
  then show "used_set (put_page (pfn_to_pa p) s) \<subseteq> used_set s" "used_set s - {(p, 0)} \<subseteq> used_set (put_page (pfn_to_pa p) s)" by auto
qed

lemma l0_put_page: "l0_table (km_put_page pa s) v = l0_table s v"
  by (simp add: l0_table_def read_ttbr0_def read_ttbr1_def km_put_page_def)

lemma put_data_page:
  assumes inv: "pt_inv R s" and o: "data_page R s p" and g: "data_page R s g" "g \<noteq> p"
  shows "pt_inv R (km_put_page (pfn_to_pa p) s)" and "keeps_data R g s (km_put_page (pfn_to_pa p) s)"
    and "get_phys_from_va va (km_put_page (pfn_to_pa p) s) = get_phys_from_va va s"
    and "free_pages (km_pmm s) \<le> free_pages (km_pmm (km_put_page (pfn_to_pa p) s))"
proof -
  let ?t = "km_put_page (pfn_to_pa p) s"
  have bud: "buddy_inv (km_pmm s)" and wf: "pt_wf R s" using inv by (simp_all add: pt_inv_def)
  have p: "(p, 0) \<in> used_set (km_pmm s)" using o by (simp add: data_page_def)
  note e = put_page_effect [OF bud p]
  have w: "walk ?t r q = walk s r q" for r q by (rule walk_cong) (simp_all add: km_put_page_def)
  have tp: "table_page ?t a" if "r \<in> R" "idx_ok q" "length q \<le> 3" "walk s r q = Some a" "table_page s a" for r q a
  proof -
    note as = that
    obtain h where h: "a = pfn_to_pa h" "h < TOTAL_PAGES" "(h, 0) \<in> used_set (km_pmm s)" using as(5) by (auto simp: table_page_def)
    then have "h \<noteq> p" using o as(1-4) by (auto simp: data_page_def unlinked_def)
    then show ?thesis using h e(3) by (auto simp: table_page_def km_put_page_def)
  qed
  have "pt_wf R ?t" by (rule pt_wf_mono [OF wf w tp])
  then show "pt_inv R ?t" using inv e(1) by (simp add: pt_inv_def km_put_page_def)
  show "keeps_data R g s ?t" using g e(3) by (intro keeps_data_cong [OF g(1)]) (auto simp: km_put_page_def data_page_def)
  show "get_phys_from_va va ?t = get_phys_from_va va s"
    by (simp add: get_phys_from_va_def get_phys_walk w l0_table_def read_ttbr0_def read_ttbr1_def) (simp add: km_put_page_def)
  show "free_pages (km_pmm s) \<le> free_pages (km_pmm ?t)" using free_pages_mono [OF bud e(1,2,4)] by (simp add: km_put_page_def)
qed

lemma copy_page_word:
  assumes "f < TOTAL_PAGES" "g < TOTAL_PAGES" "i < 512"
  shows "page_word (copy_page (phys_to_virt s (pfn_to_pa g)) (phys_to_virt s (pfn_to_pa f)) s) g i = page_word s f i"
proof -
  have e: "entry_addr s (pfn_to_pa h) i - phys_to_virt s (pfn_to_pa h) = 8 * i" for h
    by (simp add: entry_addr_def)
  have "entry_addr s (pfn_to_pa g) i - phys_to_virt s (pfn_to_pa g) < PAGE_SIZE"
    using entry_addr_in_page [OF assms(2,2,3), of s] by simp
  then show ?thesis
    by (simp add: page_word_def pte_get_def load64_def copy_page_def entry_addr_def phys_to_virt_def)
qed

lemma flush_keeps: "pt_inv R (flush_tlb t) = pt_inv R t" "data_page R (flush_tlb t) f = data_page R t f" "page_word (flush_tlb t) = page_word t"
  "get_phys_from_va va (flush_tlb t) = get_phys_from_va va t"
  by (simp_all add: pt_inv_def pt_wf_def data_page_def unlinked_def page_word_def pte_get_def load64_def entry_addr_def phys_to_virt_def fun_eq_iff
      get_phys_from_va_def get_phys_walk)

lemma cow_fault_ok:
  assumes inv: "pt_inv R s" and l0: "l0_table s va \<noteq> 0" and free: "4 \<le> free_pages (km_pmm s)" and o: "data_page R s p"
  shows "backed R va (page_word s p) s (cow_fault va (pfn_to_pa p) s)" and "pf_events (cow_fault va (pfn_to_pa p) s) = pf_events s"
proof -
  obtain pa s1 where al: "km_alloc_phys_pages 0 GFP_KERNEL s = (pa, s1)" by fastforce
  have "1 \<le> free_pages (km_pmm s)" using free by simp
  from alloc_data_page [OF inv this al] obtain g where g: "pa = pfn_to_pa g" "g < TOTAL_PAGES" "pa \<noteq> 0"
    "(g, 0) \<notin> used_set (km_pmm s)" "pt_inv R s1" "data_page R s1 g" "free_pages (km_pmm s) = Suc (free_pages (km_pmm s1))"
    and keep1: "\<And>f. data_page R s f \<Longrightarrow> keeps_data R f s s1" and w1: "\<And>r q. walk s1 r q = walk s r q" by metis
  note k = km_alloc_simps [OF al]
  have pl: "p < TOTAL_PAGES" and gp: "g \<noteq> p" using o g(4) by (auto simp: data_page_def)
  have o1: "data_page R s1 p" and ow1: "\<And>i. i < 512 \<Longrightarrow> page_word s1 p i = page_word s p i" using keep1 [OF o] by (simp_all add: keeps_data_def)
  let ?s2 = "copy_page (phys_to_virt s1 pa) (phys_to_virt s1 (pfn_to_pa p)) s1"
  have c2: "?s2 = s1\<lparr>mem64 := (\<lambda>a. if a - phys_to_virt s1 (pfn_to_pa g) < PAGE_SIZE then mem64 s1 (phys_to_virt s1 (pfn_to_pa p) + (a - phys_to_virt s1 (pfn_to_pa g)))
      else mem64 s1 a)\<rparr>" unfolding g(1) by (simp add: copy_page_def)
  note wr = write_data_page [OF g(5,6) c2]
  have inv2: "pt_inv R ?s2" and d2: "data_page R ?s2 g" and gm: "\<And>va. get_phys_from_va va ?s2 = get_phys_from_va va s1" by (rule wr; simp)+
  have o2: "data_page R ?s2 p" using wr(3) [OF _ o1] gp by (simp add: keeps_data_def)
  have w2: "page_word ?s2 g i = page_word s p i" if "i < 512" for i
    using copy_page_word [OF pl g(2) that, of s1] ow1 [OF that] by (simp add: g(1))
  have l02: "l0_table ?s2 v = l0_table s v" for v using k(3,4) by (simp add: c2 l0_table_def read_ttbr0_def read_ttbr1_def)
  have g1: "get_phys_from_va v s1 = get_phys_from_va v s" for v
    using k(3,4) by (simp add: get_phys_from_va_def get_phys_walk w1 l0_table_def read_ttbr0_def read_ttbr1_def)
  let ?s3 = "unmap_page va ?s2"
  note u = unmap_page_correct_lemma [OF inv2, of va] and ug = unmap_page_keeps [OF inv2 d2, of va] and uo = unmap_page_keeps(1) [OF inv2 o2, of va]
  have inv3: "pt_inv R ?s3" using u by simp
  have d3: "data_page R ?s3 g" "data_page R ?s3 p" using ug(1) uo by (simp_all add: keeps_data_def)
  let ?s4 = "km_put_page (pfn_to_pa p) ?s3"
  note q = put_data_page [OF inv3 d3(2,1) gp]
  have d4: "data_page R ?s4 g" using q(2) by (simp add: keeps_data_def)
  have "free_pages (km_pmm s1) \<le> free_pages (km_pmm ?s3)"
    using ug(2,3) inv3 g(5) by (intro free_pages_mono) (simp_all add: pt_inv_def c2)
  then have fp: "3 \<le> free_pages (km_pmm ?s4)" using q(4) g(7) free by linarith
  have l04: "l0_table ?s4 v = l0_table s v" for v
    using ug(4) [of v] l02 by (simp add: l0_put_page)
  have "fst (map_page va pa PAGE_USER_RW ?s4) = 0" using l0 fp by (intro map_page_succeeds_lemma [OF q(1)]) (simp_all add: l04)
  then obtain t where t: "map_page va pa PAGE_USER_RW ?s4 = (0, t)" by (metis prod.collapse)
  have d: "cow_fault va (pfn_to_pa p) s = flush_tlb t" using al g(3) t by (simp add: cow_fault_def Let_def)
  have t': "map_page va (pfn_to_pa g) PAGE_USER_RW ?s4 = (0, t)" using t g(1) by simp
  have key: "va_key ?s4 v = va_key s v" for v by (simp add: va_key_def l04)
  have "backed R va (page_word s p) s t"
  proof (rule map_data_page [OF q(1) d4 g(4) prot_ok(3,4) t' key])
    show "get_phys_from_va v ?s4 = get_phys_from_va v s" if "va_key ?s4 v \<noteq> va_key ?s4 va" for v
    proof -
      have "va_key ?s2 v \<noteq> va_key ?s2 va" using that by (simp add: va_key_def l04 l02)
      then show ?thesis using u q(3) by (simp add: gm g1)
    qed
    show "page_word ?s4 g i = page_word s p i" if "i < 512" for i
      using q(2) ug(1) w2 that by (simp add: keeps_data_def)
  qed
  then show "backed R va (page_word s p) s (cow_fault va (pfn_to_pa p) s)"
    unfolding d backed_def by (simp add: flush_keeps)
  have "kmem.more t = kmem.more s" using map_page_more [OF q(1) t] ug(5) k(6) by (simp add: km_put_page_def c2)
  then show "pf_events (cow_fault va (pfn_to_pa p) s) = pf_events s" unfolding d by (intro more_pf_events) simp
qed

end
