(* ===== verification/Libc.thy ===== *)
theory Libc
  imports Kernel_Prelude "HOL-Library.Sublist" "HOL-Library.Monad_Syntax"
begin

text \<open>
  The string and memory routines of \<^verbatim>\<open>kernel/libc.c\<close>. Memory is a function from addresses to
  bytes; a pointer is an address, NULL is 0. The loops bounded by a count are folds over the
  indices in the order the code visits them; the loops that run to a NUL byte are partial functions
  whose value \<open>None\<close> is a loop that does not end. The lemmas: what each routine computes on C
  strings, and that \<^verbatim>\<open>memmove\<close> moves a block intact however its source and target overlap.
  \<^verbatim>\<open>c_print_str\<close> and the two allocation wrappers of the Rust side are in the theories of what
  they call.
\<close>

type_synonym bytes = "u64 \<Rightarrow> u8"

section \<open>Memory\<close>

definition memcmp :: "bytes \<Rightarrow> u64 \<Rightarrow> u64 \<Rightarrow> u64 \<Rightarrow> int" where
  "memcmp m a b n =
     (case find (\<lambda>i. m (a + of_nat i) \<noteq> m (b + of_nat i)) [0..<unat n] of
        None \<Rightarrow> 0
      | Some i \<Rightarrow> uint (m (a + of_nat i)) - uint (m (b + of_nat i)))"

definition copy_byte :: "u64 \<Rightarrow> u64 \<Rightarrow> nat \<Rightarrow> bytes \<Rightarrow> bytes" where
  "copy_byte dst src i m = m(dst + of_nat i := m (src + of_nat i))"

definition memmove :: "u64 \<Rightarrow> u64 \<Rightarrow> u64 \<Rightarrow> bytes \<Rightarrow> u64 \<times> bytes" where
  "memmove dst src n m =
     (dst, if dst < src then fold (copy_byte dst src) [0..<unat n] m
           else fold (copy_byte dst src) (rev [0..<unat n]) m)"

definition memcpy :: "u64 \<Rightarrow> u64 \<Rightarrow> u64 \<Rightarrow> bytes \<Rightarrow> u64 \<times> bytes" where
  "memcpy dst src n m = (dst, fold (copy_byte dst src) [0..<unat n] m)"

definition memset :: "u64 \<Rightarrow> int \<Rightarrow> u64 \<Rightarrow> bytes \<Rightarrow> u64 \<times> bytes" where
  "memset dst c n m = (dst, fold (\<lambda>i m. m(dst + of_nat i := of_int c)) [0..<unat n] m)"

definition memchr :: "bytes \<Rightarrow> u64 \<Rightarrow> int \<Rightarrow> u64 \<Rightarrow> u64" where
  "memchr m s c n =
     (case find (\<lambda>i. m (s + of_nat i) = of_int c) [0..<unat n] of None \<Rightarrow> 0 | Some i \<Rightarrow> s + of_nat i)"

section \<open>Strings\<close>

partial_function (option) strlen_from :: "bytes \<Rightarrow> u64 \<Rightarrow> u64 \<Rightarrow> u64 option" where
  "strlen_from m s len = (if m (s + len) \<noteq> 0 then strlen_from m s (len + 1) else Some len)"

definition strlen :: "bytes \<Rightarrow> u64 \<Rightarrow> u64 option" where
  "strlen m s = strlen_from m s 0"

partial_function (option) strnlen_from :: "bytes \<Rightarrow> u64 \<Rightarrow> u64 \<Rightarrow> u64 \<Rightarrow> u64 option" where
  "strnlen_from m s maxlen len =
     (if len < maxlen \<and> m (s + len) \<noteq> 0 then strnlen_from m s maxlen (len + 1) else Some len)"

definition strnlen :: "bytes \<Rightarrow> u64 \<Rightarrow> u64 \<Rightarrow> u64 option" where
  "strnlen m s maxlen = strnlen_from m s maxlen 0"

partial_function (option) strrchr_from :: "bytes \<Rightarrow> u8 \<Rightarrow> u64 \<Rightarrow> u64 \<Rightarrow> (u64 \<times> u64) option" where
  "strrchr_from m c s lst =
     (if m s \<noteq> 0 then strrchr_from m c (s + 1) (if m s = c then s else lst) else Some (s, lst))"

definition strrchr :: "bytes \<Rightarrow> u64 \<Rightarrow> int \<Rightarrow> u64 option" where
  "strrchr m s c = do {
     (e, lst) \<leftarrow> strrchr_from m (of_int c) s 0;
     Some (if c = 0 then e else lst) }"

text \<open>The comparison loop shared by \<^verbatim>\<open>strcmp\<close> and \<^verbatim>\<open>strstr\<close>.\<close>

partial_function (option) match_from :: "bytes \<Rightarrow> u64 \<Rightarrow> u64 \<Rightarrow> (u64 \<times> u64) option" where
  "match_from m p1 p2 =
     (if m p1 \<noteq> 0 \<and> m p2 \<noteq> 0 \<and> m p1 = m p2 then match_from m (p1 + 1) (p2 + 1) else Some (p1, p2))"

definition strcmp :: "bytes \<Rightarrow> u64 \<Rightarrow> u64 \<Rightarrow> int option" where
  "strcmp m s1 s2 = do {
     (p1, p2) \<leftarrow> match_from m s1 s2;
     Some (uint (m p1) - uint (m p2)) }"

partial_function (option) strstr_from :: "bytes \<Rightarrow> u64 \<Rightarrow> u64 \<Rightarrow> u64 option" where
  "strstr_from m s1 s2 =
     (if m s1 \<noteq> 0 then
        Option.bind (match_from m s1 s2) (\<lambda>(p1, p2).
          if m p2 = 0 then Some s1 else strstr_from m (s1 + 1) s2)
      else Some 0)"

definition strstr :: "bytes \<Rightarrow> u64 \<Rightarrow> u64 \<Rightarrow> u64 option" where
  "strstr m s1 s2 = (if m s2 = 0 then Some s1 else strstr_from m s1 s2)"

section \<open>C strings\<close>

fun cstr :: "bytes \<Rightarrow> u64 \<Rightarrow> u8 list \<Rightarrow> bool" where
  "cstr m p [] \<longleftrightarrow> m p = 0"
| "cstr m p (b # bs) \<longleftrightarrow> b \<noteq> 0 \<and> m p = b \<and> cstr m (p + 1) bs"

lemma cstr_nth: "cstr m p bs \<Longrightarrow> i < length bs \<Longrightarrow> m (p + of_nat i) = bs ! i \<and> bs ! i \<noteq> 0"
proof (induction bs arbitrary: p i)
  case (Cons b bs)
  then show ?case by (cases i) (auto simp: add.assoc [symmetric])
qed simp

lemma cstr_end: "cstr m p bs \<Longrightarrow> m (p + of_nat (length bs)) = 0"
  by (induction bs arbitrary: p) (auto simp: add.assoc [symmetric])

lemma cstr_drop: "cstr m p bs \<Longrightarrow> i \<le> length bs \<Longrightarrow> cstr m (p + of_nat i) (drop i bs)"
proof (induction bs arbitrary: p i)
  case (Cons b bs)
  then show ?case by (cases i) (auto simp: add.assoc [symmetric])
qed simp

lemma cstr_unique: "cstr m p xs \<Longrightarrow> cstr m p ys \<Longrightarrow> xs = ys"
proof (induction xs arbitrary: p ys)
  case Nil
  then show ?case by (cases ys) auto
next
  case (Cons x xs)
  then show ?case by (cases ys) auto
qed

lemma strlen_from_cstr: "cstr m (s + len) bs \<Longrightarrow> strlen_from m s len = Some (len + of_nat (length bs))"
proof (induction bs arbitrary: len)
  case Nil
  then show ?case by (subst strlen_from.simps) simp
next
  case (Cons b bs)
  then have "strlen_from m s (len + 1) = Some (len + 1 + of_nat (length bs))" by (simp add: add.assoc)
  then show ?case using Cons.prems by (subst strlen_from.simps) (simp add: add.assoc)
qed

lemma strlen_cstr: "cstr m s bs \<Longrightarrow> strlen m s = Some (of_nat (length bs))"
  using strlen_from_cstr [of m s 0 bs] by (simp add: strlen_def)

lemma match_from_cstr:
  assumes "cstr m p xs" and "cstr m q ys"
  shows "match_from m p q = Some (p + of_nat (length (longest_common_prefix xs ys)),
                                  q + of_nat (length (longest_common_prefix xs ys)))"
  using assms
proof (induction xs arbitrary: p q ys)
  case Nil
  then show ?case by (subst match_from.simps) simp
next
  case (Cons x xs)
  then show ?case by (subst match_from.simps) (cases ys; auto simp: add.assoc)
qed

lemma lcp_complete: "length (longest_common_prefix xs ys) = length ys \<longleftrightarrow> prefix ys xs"
proof (induction xs arbitrary: ys)
  case Nil
  then show ?case by simp
next
  case (Cons x xs)
  then show ?case by (cases ys) auto
qed

lemma lcp_le: "length (longest_common_prefix xs ys) \<le> length xs" "length (longest_common_prefix xs ys) \<le> length ys"
  using longest_common_prefix_prefix1 longest_common_prefix_prefix2 prefix_length_le by blast+

lemma lcp_zero_iff:
  assumes "cstr m q ys"
  shows "m (q + of_nat (length (longest_common_prefix xs ys))) = 0 \<longleftrightarrow> prefix ys xs"
  unfolding lcp_complete [symmetric]
  using cstr_nth [OF assms, of "length (longest_common_prefix xs ys)"] cstr_end [OF assms] lcp_le(2) [of xs ys]
  by (cases "length (longest_common_prefix xs ys) = length ys") simp_all

lemma strstr_from_cstr:
  assumes "cstr m p xs" and "cstr m q ys" and "ys \<noteq> []"
  shows "strstr_from m p q =
    Some (case find (\<lambda>i. prefix ys (drop i xs)) [0..<length xs] of None \<Rightarrow> 0 | Some i \<Rightarrow> p + of_nat i)"
  using assms(1)
proof (induction xs arbitrary: p)
  case Nil
  then show ?case by (subst strstr_from.simps) simp
next
  case (Cons x xs)
  let ?P = "\<lambda>i. prefix ys (drop i xs)"
  have ih: "strstr_from m (p + 1) q =
      Some (case find ?P [0..<length xs] of None \<Rightarrow> 0 | Some i \<Rightarrow> p + 1 + of_nat i)"
    using Cons by simp
  have shift: "find (\<lambda>i. prefix ys (drop i (x # xs))) (map Suc js) = map_option Suc (find ?P js)" for js
    by (induction js) simp_all
  have upt: "[0..<length (x # xs)] = 0 # map Suc [0..<length xs]" by (simp add: upt_conv_Cons map_Suc_upt del: upt_Suc)
  have f: "find (\<lambda>i. prefix ys (drop i (x # xs))) [0..<length (x # xs)] =
      (if prefix ys (x # xs) then Some 0 else map_option Suc (find ?P [0..<length xs]))"
    unfolding upt using shift [of "[0..<length xs]"] by simp
  note lcp_zero_iff [OF assms(2), of "x # xs"]
  then show ?case
    using Cons.prems ih match_from_cstr [OF Cons.prems assms(2)] unfolding f
    by (subst strstr_from.simps) (auto simp: add.assoc split: option.splits simp del: longest_common_prefix.simps)
qed

section \<open>Blocks of memory\<close>

definition moved :: "u64 \<Rightarrow> u64 \<Rightarrow> nat set \<Rightarrow> bytes \<Rightarrow> bytes" where
  "moved dst src S m = (\<lambda>a. if unat (a - dst) \<in> S then m (src + (a - dst)) else m a)"

lemma copy_step:
  fixes dst src :: u64
  assumes "unat (src + of_nat k - dst) \<notin> S" and "unat (of_nat k :: u64) = k"
  shows "copy_byte dst src k (moved dst src S m) = moved dst src (insert k S) m"
proof
  fix a
  have "unat (a - dst) = k \<longleftrightarrow> a = dst + of_nat k"
    using assms(2) by (metis add_diff_cancel_left' diff_add_cancel add.commute of_nat_unat ucast_id)
  then show "copy_byte dst src k (moved dst src S m) a = moved dst src (insert k S) m a"
    using assms by (auto simp: copy_byte_def moved_def)
qed

lemma copy_up:
  fixes dst src :: u64
  assumes "dst < src" and "unat src + n \<le> 2 ^ 64" and "k \<le> n"
  shows "fold (copy_byte dst src) [0..<k] m = moved dst src {..<k} m"
  using assms(3)
proof (induction k)
  case 0
  then show ?case by (simp add: moved_def)
next
  case (Suc k)
  have k: "unat (of_nat k :: u64) = k" using Suc assms(1,2) by (intro unat_of_nat_noov) (simp add: word_less_nat_alt)
  have "unat (src + of_nat k) = unat src + k" using assms(2) Suc k by (subst unat_add_noov) simp_all
  then have "\<not> unat (src + of_nat k - dst) < k"
    using assms(1,2) Suc by (subst unat_offset) (simp_all add: word_less_nat_alt)
  then have "copy_byte dst src k (moved dst src {..<k} m) = moved dst src (insert k {..<k}) m"
    by (intro copy_step k) simp
  then show ?case using Suc by (simp add: lessThan_Suc)
qed

lemma copy_down:
  fixes dst src :: u64
  assumes "src \<le> dst" and "unat dst + n \<le> 2 ^ 64" and "k \<le> n"
  shows "fold (copy_byte dst src) (rev [k..<n]) m = moved dst src {k..<n} m"
  using assms(3)
proof (induction rule: inc_induct)
  case base
  then show ?case by (simp add: moved_def)
next
  case (step k)
  show ?case
  proof (cases "unat src + k < 2 ^ 64")
    case True
    have k: "unat (of_nat k :: u64) = k" using step True by (intro unat_of_nat_noov) simp
    have s: "unat (src + of_nat k) = unat src + k" using True k by (subst unat_add_noov) simp_all
    have "\<not> (Suc k \<le> unat (src + of_nat k - dst) \<and> unat (src + of_nat k - dst) < n)"
      using unat_offset [OF assms(2), of "src + of_nat k"] assms(1) s True step
      by (auto simp: word_le_nat_alt unat_sub_if')
    then have "copy_byte dst src k (moved dst src {Suc k..<n} m) = moved dst src (insert k {Suc k..<n}) m"
      by (intro copy_step k) auto
    moreover have "insert k {Suc k..<n} = {k..<n}" using step by auto
    ultimately show ?thesis using step by (simp add: upt_conv_Cons)
  next
    case False
    then show ?thesis using assms step by (simp add: word_le_nat_alt)
  qed
qed

section \<open>Properties\<close>

text \<open>C14: \<^verbatim>\<open>memmove\<close> moves the block intact whatever the overlap of source and target: every byte of the
  target gets the byte the source had at that offset before the call, and no other byte changes.\<close>

theorem memmove_correct:
  assumes "unat dst + unat n \<le> 2 ^ 64" and "unat src + unat n \<le> 2 ^ 64"
  shows "memmove dst src n m =
    (dst, \<lambda>a. if unat dst \<le> unat a \<and> unat a < unat dst + unat n then m (src + (a - dst)) else m a)"
proof -
  have "snd (memmove dst src n m) = moved dst src {..<unat n} m"
    using copy_up [of dst src "unat n" "unat n"] copy_down [of src dst "unat n" 0] assms
    by (auto simp: memmove_def lessThan_atLeast0)
  moreover have "moved dst src {..<unat n} m =
      (\<lambda>a. if unat dst \<le> unat a \<and> unat a < unat dst + unat n then m (src + (a - dst)) else m a)"
    unfolding moved_def using unat_offset [OF assms(1)] by simp
  ultimately show ?thesis by (simp add: memmove_def)
qed

theorem memmove_correct_witness:
  "snd (memmove 0x1002 0x1000 4 (\<lambda>a. ucast a)) 0x1004 = 2 \<and> snd (memmove 0x1000 0x1002 4 (\<lambda>a. ucast a)) 0x1001 = 3"
  using memmove_correct [of "0x1002" 4 "0x1000" "\<lambda>a. ucast a"] memmove_correct [of "0x1000" 4 "0x1002" "\<lambda>a. ucast a"]
  by simp

lemma uint_diff_zero [simp]: "uint (a :: u8) - uint b = 0 \<longleftrightarrow> a = b"
  by (simp add: word_uint_eq_iff)

lemma lcp_eq_iff:
  assumes "cstr m p xs" and "cstr m q ys"
  shows "m (p + of_nat (length (longest_common_prefix xs ys))) = m (q + of_nat (length (longest_common_prefix xs ys)))
    \<longleftrightarrow> xs = ys"
  using assms
proof (induction xs arbitrary: p q ys)
  case Nil
  then show ?case by (cases ys) auto
next
  case (Cons x xs)
  then show ?case by (cases ys) (auto simp: add.assoc [symmetric])
qed

lemma strcmp_lexord:
  assumes "cstr m p xs" and "cstr m q ys"
  shows "uint (m (p + of_nat (length (longest_common_prefix xs ys)))) <
         uint (m (q + of_nat (length (longest_common_prefix xs ys)))) \<longleftrightarrow> (xs, ys) \<in> lexord {(a, b). a < b}"
  using assms
proof (induction xs arbitrary: p q ys)
  case Nil
  then show ?case by (cases ys) (auto simp: less_le uint_0_iff)
next
  case (Cons x xs)
  then show ?case by (cases ys) (auto simp: add.assoc [symmetric] word_less_def)
qed

text \<open>\<^verbatim>\<open>strcmp\<close> on two C strings returns, and its result orders them: zero exactly when they are
  equal, negative exactly when the first is before the second in the byte-wise lexicographic
  order.\<close>

theorem strcmp_correct:
  assumes "cstr m p xs" and "cstr m q ys"
  shows "\<exists>r. strcmp m p q = Some r \<and> (r = 0 \<longleftrightarrow> xs = ys) \<and> (r < 0 \<longleftrightarrow> (xs, ys) \<in> lexord {(a, b). a < b})"
  using match_from_cstr [OF assms] lcp_eq_iff [OF assms] strcmp_lexord [OF assms]
  by (simp add: strcmp_def word_uint_eq_iff [symmetric])

theorem strcmp_correct_witness:
  "\<exists>r. strcmp (\<lambda>a. if a = 8 then 65 else 0) 8 16 = Some r \<and> r \<noteq> 0"
  using strcmp_correct [of "\<lambda>a. if a = 8 then 65 else 0" 8 "[65]" 16 "[]"] by auto

text \<open>\<^verbatim>\<open>strstr\<close> on two C strings returns the address of the first occurrence of the second in the
  first, or NULL when there is none.\<close>

theorem strstr_correct:
  assumes "cstr m p xs" and "cstr m q ys" and "p \<noteq> 0" and "unat p + length xs < 2 ^ 64" and "strstr m p q = r"
  shows "(\<nexists>as bs. xs = as @ ys @ bs) \<and> r = Some 0 \<or>
    (\<exists>i. i \<le> length xs \<and> r = Some (p + of_nat i) \<and> p + of_nat i \<noteq> 0 \<and> prefix ys (drop i xs) \<and>
       (\<forall>j < i. \<not> prefix ys (drop j xs)))"
proof -
  have nz: "p + of_nat i \<noteq> 0" if "i \<le> length xs" for i
  proof -
    have "unat (of_nat i :: u64) = i" using that assms(4) by (intro unat_of_nat_noov) simp
    then have "unat (p + of_nat i) = unat p + i" using that assms(4) by (subst unat_add_noov) simp_all
    then show ?thesis using assms(3) by (metis add_is_0 unat_0 unat_eq_zero)
  qed
  show ?thesis
  proof (cases "ys = []")
    case True
    then show ?thesis using assms nz [of 0] by (auto simp: strstr_def intro: exI [of _ 0])
  next
    case False
    then have r: "r = Some (case find (\<lambda>i. prefix ys (drop i xs)) [0..<length xs] of None \<Rightarrow> 0 | Some i \<Rightarrow> p + of_nat i)"
      using strstr_from_cstr [OF assms(1,2) False] assms(2,5) by (cases ys) (auto simp: strstr_def)
    show ?thesis
    proof (cases "find (\<lambda>i. prefix ys (drop i xs)) [0..<length xs]")
      case None
      have "\<nexists>as bs. xs = as @ ys @ bs"
      proof
        assume "\<exists>as bs. xs = as @ ys @ bs"
        then obtain as bs where xs: "xs = as @ ys @ bs" by blast
        then have "prefix ys (drop (length as) xs)" "length as < length xs" using False by simp_all
        then show False using None by (auto simp: find_None_iff)
      qed
      then show ?thesis using r None by simp
    next
      case (Some i)
      then have "i < length xs" "prefix ys (drop i xs)" "\<forall>j < i. \<not> prefix ys (drop j xs)"
        unfolding find_Some_iff by auto
      then show ?thesis using r Some nz [of i] by (intro disjI2 exI [of _ i]) simp
    qed
  qed
qed

theorem strstr_correct_witness:
  "strstr (\<lambda>a. if a = 8 then 65 else if a = 9 then 66 else if a = 16 then 66 else 0) 8 16 = Some 9"
proof -
  let ?m = "\<lambda>a :: u64. if a = 8 then 65 else if a = 9 then 66 else if a = 16 then 66 else (0 :: u8)"
  have l: "prefix [66 :: u8] (drop i [65, 66]) \<longleftrightarrow> i = 1" for i
    by (cases "i = 0"; cases "i = 1") (auto simp: drop_Cons' prefix_def)
  obtain r where r: "strstr ?m 8 16 = r" by simp
  from strstr_correct [of ?m 8 "[65, 66]" 16 "[66]", OF _ _ _ _ r] have "r = Some 9"
    unfolding l by (auto dest: spec [of _ "[65]"])
  with r show ?thesis by simp
qed

end
