(* ===== verification/Printk.thy ===== *)
theory Printk
  imports Libc
begin

text \<open>
  The formatted console output of \<^verbatim>\<open>kernel/printk.c\<close>. The format string and the \<^verbatim>\<open>%s\<close> arguments are
  read from the byte memory; the variable arguments are the sequence of 64-bit slots \<^verbatim>\<open>va_arg\<close>
  steps through, of which a 32-bit argument is the low half. The result is the sequence of bytes
  handed to \<^verbatim>\<open>uart_putc\<close>; the call holds \<^verbatim>\<open>printk_lock\<close> throughout, so it is one step. The
  loops that run to a NUL byte or divide by the base are partial functions, \<open>None\<close> is a loop that
  does not end. The properties: a printed number reads back as the number, in the field asked for
  and without overrunning the 64-byte buffer, and a format made of literal bytes and directives
  prints what the directives say.
\<close>

definition asc :: "string \<Rightarrow> u8 list" where
  "asc s = map of_char s"

definition PF_SIGNED :: u32 where "PF_SIGNED = push_bit 0 1"
definition PF_HEX_UPPER :: u32 where "PF_HEX_UPPER = push_bit 1 1"
definition PF_ALT_FORM :: u32 where "PF_ALT_FORM = push_bit 2 1"
definition PF_ZERO_PAD :: u32 where "PF_ZERO_PAD = push_bit 3 1"
definition PF_LEFT_JUST :: u32 where "PF_LEFT_JUST = push_bit 4 1"

definition pf :: "u32 \<Rightarrow> u32 \<Rightarrow> bool" where
  "pf fl f \<longleftrightarrow> fl AND f \<noteq> 0"

section \<open>Numbers\<close>

partial_function (option) count_digits :: "u64 \<Rightarrow> u64 \<Rightarrow> int \<Rightarrow> int option" where
  "count_digits num base digits =
     (if 0 < num then count_digits (num div base) base (digits + 1) else Some digits)"

definition num_digits :: "u64 \<Rightarrow> u64 \<Rightarrow> int option" where
  "num_digits num base = (if num = 0 then Some 1 else count_digits num base 0)"

text \<open>The digits as they are stored in \<^verbatim>\<open>buf\<close>, least significant first.\<close>

partial_function (option) put_digits :: "u8 list \<Rightarrow> u64 \<Rightarrow> u64 \<Rightarrow> u8 list \<Rightarrow> u8 list option" where
  "put_digits digits num base buf =
     (if 0 < num then put_digits digits (num div base) base (buf @ [digits ! unat (num mod base)]) else Some buf)"

definition alt_prefix :: "u64 \<Rightarrow> u32 \<Rightarrow> u8 list" where
  "alt_prefix base fl =
     (if \<not> pf fl PF_ALT_FORM then []
      else if base = 16 then (if pf fl PF_HEX_UPPER then asc ''0X'' else asc ''0x'')
      else if base = 8 then asc ''0''
      else if base = 2 then asc ''0b''
      else [])"

definition digit_table :: "u32 \<Rightarrow> u8 list" where
  "digit_table fl = (if pf fl PF_HEX_UPPER then asc ''0123456789ABCDEF'' else asc ''0123456789abcdef'')"

text \<open>
  Each padding loop \<^verbatim>\<open>while (pad_len--)\<close> leaves \<^verbatim>\<open>pad_len\<close> at -1, so at most one of the three runs.
  The width is the mathematical integer: a width beyond the range of \<^verbatim>\<open>int\<close> is undefined in C.
\<close>

definition print_num :: "u64 \<Rightarrow> u64 \<Rightarrow> int \<Rightarrow> u32 \<Rightarrow> u8 list option" where
  "print_num num0 base width fl = do {
     let is_neg = (pf fl PF_SIGNED \<and> sint num0 < 0);
     let num = (if is_neg then - num0 else num0);
     ndigits \<leftarrow> num_digits num base;
     let pad0 = width - ndigits - (if is_neg then 1 else 0);
     let pad1 = pad0 - int (length (alt_prefix base fl));
     let (lead, pad2) =
       (if \<not> pf fl PF_LEFT_JUST \<and> \<not> pf fl PF_ZERO_PAD \<and> 0 < pad1
        then (replicate (nat pad1) (of_char CHR '' ''), -1) else ([], pad1));
     let (zeros, pad3) =
       (if pf fl PF_ZERO_PAD \<and> 0 < pad2 then (replicate (nat pad2) (of_char CHR ''0''), -1) else ([], pad2));
     body \<leftarrow> (if num = 0 then Some (asc ''0'') else map_option rev (put_digits (digit_table fl) num base []));
     let trail = (if pf fl PF_LEFT_JUST \<and> 0 < pad3 then replicate (nat pad3) (of_char CHR '' '') else []);
     Some (alt_prefix base fl @ lead @ (if is_neg then asc ''-'' else []) @ zeros @ body @ trail) }"

section \<open>The format interpreter\<close>

partial_function (option) print_str :: "bytes \<Rightarrow> u64 \<Rightarrow> u8 list \<Rightarrow> u8 list option" where
  "print_str m s out = (if m s \<noteq> 0 then print_str m (s + 1) (out @ [m s]) else Some out)"

definition flag_of :: "u8 \<Rightarrow> u32 option" where
  "flag_of c =
     (if c = of_char CHR ''-'' then Some PF_LEFT_JUST
      else if c = of_char CHR ''+'' then Some PF_SIGNED
      else if c = of_char CHR ''0'' then Some PF_ZERO_PAD
      else if c = of_char CHR ''#'' then Some PF_ALT_FORM
      else None)"

partial_function (option) scan_flags :: "bytes \<Rightarrow> u64 \<Rightarrow> u32 \<Rightarrow> (u64 \<times> u32) option" where
  "scan_flags m p fl = (case flag_of (m p) of Some f \<Rightarrow> scan_flags m (p + 1) (fl OR f) | None \<Rightarrow> Some (p, fl))"

definition is_digit :: "u8 \<Rightarrow> bool" where
  "is_digit c \<longleftrightarrow> of_char CHR ''0'' \<le> c \<and> c \<le> of_char CHR ''9''"

partial_function (option) scan_width :: "bytes \<Rightarrow> u64 \<Rightarrow> int \<Rightarrow> (u64 \<times> int) option" where
  "scan_width m p w =
     (if is_digit (m p) then scan_width m (p + 1) (w * 10 + (uint (m p) - 48)) else Some (p, w))"

definition scan_long :: "bytes \<Rightarrow> u64 \<Rightarrow> u64 \<times> nat" where
  "scan_long m p =
     (if m p = of_char CHR ''l'' then (if m (p + 1) = of_char CHR ''l'' then (p + 2, 2) else (p + 1, 1))
      else (p, 0))"

definition arg_signed :: "nat \<Rightarrow> u64 \<Rightarrow> u64" where
  "arg_signed is_long a = (if is_long = 0 then scast (ucast a :: u32) else a)"

definition arg_unsigned :: "nat \<Rightarrow> u64 \<Rightarrow> u64" where
  "arg_unsigned is_long a = (if is_long = 0 then ucast (ucast a :: u32) else a)"

text \<open>
  The \<^verbatim>\<open>switch\<close> on the conversion character at \<open>p\<close>: the bytes printed, the position the final
  \<^verbatim>\<open>fmt++\<close> starts from, and the number of argument slots consumed.
\<close>

definition convert :: "bytes \<Rightarrow> (nat \<Rightarrow> u64) \<Rightarrow> u64 \<Rightarrow> u32 \<Rightarrow> int \<Rightarrow> nat \<Rightarrow> nat \<Rightarrow> (u8 list \<times> u64 \<times> nat) option" where
  "convert m args p fl width is_long k =
     (let c = m p; put = (\<lambda>num base fl'. map_option (\<lambda>bs. (bs, p, Suc k)) (print_num num base width fl')) in
      if c = of_char CHR ''s'' then
        (if args k \<noteq> 0 then map_option (\<lambda>bs. (bs, p, Suc k)) (print_str m (args k) [])
         else Some (asc ''(null)'', p, Suc k))
      else if c = of_char CHR ''c'' then Some ([ucast (args k)], p, Suc k)
      else if c = of_char CHR ''d'' \<or> c = of_char CHR ''i'' then
        put (arg_signed is_long (args k)) 10 (fl OR PF_SIGNED)
      else if c = of_char CHR ''u'' then put (arg_unsigned is_long (args k)) 10 fl
      else if c = of_char CHR ''x'' then put (arg_unsigned is_long (args k)) 16 fl
      else if c = of_char CHR ''X'' then put (arg_unsigned is_long (args k)) 16 (fl OR PF_HEX_UPPER)
      else if c = of_char CHR ''o'' then put (arg_unsigned is_long (args k)) 8 fl
      else if c = of_char CHR ''b'' then put (arg_unsigned is_long (args k)) 2 fl
      else if c = of_char CHR ''p'' then
        map_option (\<lambda>bs. (bs, p, Suc k))
          (print_num (args k) 16 (if width \<noteq> 0 then width else 16) (fl OR PF_ALT_FORM))
      else if c = of_char CHR ''z'' then
        (if m (p + 1) = of_char CHR ''u'' then
           map_option (\<lambda>bs. (bs, p + 1, Suc k)) (print_num (args k) 10 width fl)
         else if m (p + 1) = of_char CHR ''x'' then
           map_option (\<lambda>bs. (bs, p + 1, Suc k)) (print_num (args k) 16 width fl)
         else Some ([], p + 1, k))
      else if c = of_char CHR ''%'' then Some (asc ''%'', p, k)
      else Some (asc ''%'' @ (if c \<noteq> 0 then [c] else []), p, k))"

partial_function (option) vprintk_from :: "bytes \<Rightarrow> (nat \<Rightarrow> u64) \<Rightarrow> u64 \<Rightarrow> nat \<Rightarrow> u8 list \<Rightarrow> u8 list option" where
  "vprintk_from m args p k out =
     (if m p = 0 then Some out
      else if m p = of_char CHR ''%'' then
        Option.bind (scan_flags m (p + 1) 0) (\<lambda>(p1, fl).
          Option.bind (scan_width m p1 0) (\<lambda>(p2, width).
            Option.bind (convert m args (fst (scan_long m p2)) fl width (snd (scan_long m p2)) k)
              (\<lambda>(o1, p3, k1). vprintk_from m args (p3 + 1) k1 (out @ o1))))
      else vprintk_from m args (p + 1) k (out @ [m p]))"

definition vprintk :: "bytes \<Rightarrow> u64 \<Rightarrow> (nat \<Rightarrow> u64) \<Rightarrow> u8 list option" where
  "vprintk m fmt args = vprintk_from m args fmt 0 []"

definition printk :: "bytes \<Rightarrow> u64 \<Rightarrow> (nat \<Rightarrow> u64) \<Rightarrow> u8 list option" where
  "printk m fmt args = vprintk m fmt args"

text \<open>What \<^verbatim>\<open>panic\<close> prints before it spins for ever.\<close>

definition panic :: "bytes \<Rightarrow> u64 \<Rightarrow> (nat \<Rightarrow> u64) \<Rightarrow> u8 list option" where
  "panic m fmt args = do {
     out \<leftarrow> vprintk m fmt args;
     Some (asc (CHR 0x0A # ''[PANIC] '') @ out @ asc (CHR 0x0A # ''Kernel halted.'' @ [CHR 0x0A])) }"

text \<open>The print function of the Rust side calls \<^verbatim>\<open>printk("%s", s)\<close>, with the format at \<open>fmt\<close>.\<close>

definition c_print_str :: "bytes \<Rightarrow> u64 \<Rightarrow> u64 \<Rightarrow> u8 list option" where
  "c_print_str m fmt s = printk m fmt (\<lambda>_. s)"

section \<open>Numbers read back\<close>

function digs :: "nat \<Rightarrow> nat \<Rightarrow> nat list" where
  "digs b n = (if n < b \<or> b < 2 then [n] else digs b (n div b) @ [n mod b])"
  by pat_completeness auto
termination
  by (relation "measure snd") auto

declare digs.simps [simp del]

lemma digs_less: "2 \<le> b \<Longrightarrow> d \<in> set (digs b n) \<Longrightarrow> d < b"
proof (induction b n rule: digs.induct)
  case (1 b n)
  then show ?case using 1 by (cases "n < b") (auto simp: digs.simps [of b n])
qed

lemma digs_value: "2 \<le> b \<Longrightarrow> fold (\<lambda>d v. v * b + d) (digs b n) 0 = n"
proof (induction b n rule: digs.induct)
  case (1 b n)
  then show ?case by (cases "n < b") (simp_all add: digs.simps [of b n])
qed

lemma digs_ne [simp]: "digs b n \<noteq> []"
  by (simp add: digs.simps [of b n])

lemma digs_hd: "2 \<le> b \<Longrightarrow> 0 < n \<Longrightarrow> hd (digs b n) \<noteq> 0"
proof (induction b n rule: digs.induct)
  case (1 b n)
  then show ?case by (cases "n < b") (simp_all add: digs.simps [of b n] div_greater_zero_iff hd_append)
qed

lemma digs_length: "2 \<le> b \<Longrightarrow> n < 2 ^ k \<Longrightarrow> 0 < k \<Longrightarrow> length (digs b n) \<le> k"
proof (induction b n arbitrary: k rule: digs.induct)
  case (1 b n)
  show ?case
  proof (cases "n < b")
    case True
    then show ?thesis using 1 by (simp add: digs.simps [of b n])
  next
    case False
    obtain j where k: "k = Suc j" using 1 by (cases k) auto
    have "n div b \<le> n div 2" using 1 by (simp add: div_le_mono2)
    then have lt: "n div b < 2 ^ j" using 1 k by simp
    have "0 < n div b" using False 1 by (simp add: div_greater_zero_iff)
    then have "0 < j" using lt by (cases j) simp_all
    then show ?thesis using 1 False lt k by (simp add: digs.simps [of b n])
  qed
qed

lemma put_digits_digs:
  assumes "2 \<le> unat base"
  shows "0 < num \<Longrightarrow> put_digits D num base buf = Some (buf @ map (\<lambda>d. D ! d) (rev (digs (unat base) (unat num))))"
proof (induction "unat num" arbitrary: num buf rule: less_induct)
  case less
  have ud: "unat (num div base) = unat num div unat base" by (simp add: unat_div_distrib)
  have um: "unat (num mod base) = unat num mod unat base" by (simp add: unat_mod_distrib)
  show ?case
  proof (cases "unat num < unat base")
    case True
    then have z: "num div base = 0" using ud by (metis div_less unat_eq_zero)
    show ?thesis using less.prems True um z
      by (subst put_digits.simps, subst put_digits.simps) (simp add: digs.simps [of _ "unat num"])
  next
    case False
    then have p: "0 < num div base" using ud assms
      by (metis div_greater_zero_iff linorder_not_less unat_gt_0 word_gt_0 not_numeral_le_zero gr0I)
    have "unat (num div base) < unat num" using ud assms less.prems False by simp
    from less.hyps [OF this p] show ?thesis using less.prems False assms um ud
      by (subst put_digits.simps) (simp add: digs.simps [of _ "unat num"])
  qed
qed

lemma count_digits_digs:
  assumes "2 \<le> unat base"
  shows "0 < num \<Longrightarrow> count_digits num base c = Some (c + int (length (digs (unat base) (unat num))))"
proof (induction "unat num" arbitrary: num c rule: less_induct)
  case less
  have ud: "unat (num div base) = unat num div unat base" by (simp add: unat_div_distrib)
  show ?case
  proof (cases "unat num < unat base")
    case True
    then have z: "num div base = 0" using ud by (metis div_less unat_eq_zero)
    show ?thesis using less.prems True z
      by (subst count_digits.simps, subst count_digits.simps) (simp add: digs.simps [of _ "unat num"])
  next
    case False
    then have p: "0 < num div base" using ud assms
      by (metis div_greater_zero_iff linorder_not_less unat_gt_0 word_gt_0 not_numeral_le_zero gr0I)
    have "unat (num div base) < unat num" using ud assms less.prems False by simp
    from less.hyps [OF this p] show ?thesis using less.prems False assms ud
      by (subst count_digits.simps) (simp add: digs.simps [of _ "unat num"])
  qed
qed

definition num_body :: "u32 \<Rightarrow> u64 \<Rightarrow> nat \<Rightarrow> u8 list" where
  "num_body fl base n = map (\<lambda>d. digit_table fl ! d) (digs (unat base) n)"

definition num_sign :: "u32 \<Rightarrow> u64 \<Rightarrow> u8 list" where
  "num_sign fl num = (if pf fl PF_SIGNED \<and> sint num < 0 then asc ''-'' else [])"

definition num_value :: "u32 \<Rightarrow> u64 \<Rightarrow> int" where
  "num_value fl num = (if pf fl PF_SIGNED then sint num else uint num)"

text \<open>The field a number occupies: prefix, padding, sign and digits.\<close>

definition num_field :: "u64 \<Rightarrow> u64 \<Rightarrow> int \<Rightarrow> u32 \<Rightarrow> u8 list" where
  "num_field num base width fl =
     (let pre = alt_prefix base fl; sign = num_sign fl num; body = num_body fl base (nat \<bar>num_value fl num\<bar>);
          pad = nat (width - int (length pre + length sign + length body))
      in if pf fl PF_ZERO_PAD then pre @ sign @ replicate pad (of_char CHR ''0'') @ body
         else if pf fl PF_LEFT_JUST then pre @ sign @ body @ replicate pad (of_char CHR '' '')
         else pre @ replicate pad (of_char CHR '' '') @ sign @ body)"

lemma unat_magnitude:
  "unat (if pf fl PF_SIGNED \<and> sint num < 0 then - num else num) = nat \<bar>num_value fl num\<bar>"
proof (cases "pf fl PF_SIGNED \<and> sint num < 0")
  case True
  have b: "- (2 ^ 63) \<le> sint num" using sint_ge [of num] by simp
  have "num = word_of_int (sint num)" by simp
  then have "- num = word_of_int (- sint num)" by (metis wi_hom_neg)
  then have "uint (- num) = (- sint num) mod 2 ^ 64" by (simp only: uint_word_of_int) simp
  also have "\<dots> = - sint num" using True b by (intro mod_pos_pos_trivial) simp_all
  finally have "uint (- num) = - sint num" .
  then have "unat (- num) = nat (- sint num)" unfolding unat_eq_nat_uint by (rule arg_cong)
  then show ?thesis using True by (simp add: num_value_def)
next
  case False
  have "uint num = sint num" if "0 \<le> sint num"
    by (subst uint_sint, rule take_bit_int_eq_self) (use that sint_lt [of num] in simp_all)
  then have "unat num = nat \<bar>sint num\<bar>" if "0 \<le> sint num" using that unfolding unat_eq_nat_uint by simp
  then show ?thesis using False by (auto simp: num_value_def)
qed

lemma digit_table_0: "digit_table fl ! 0 = of_char CHR ''0''"
  by (simp add: digit_table_def asc_def)

lemma print_num_field:
  assumes "2 \<le> unat base"
  shows "print_num num base width fl = Some (num_field num base width fl)"
proof -
  let ?neg = "pf fl PF_SIGNED \<and> sint num < 0"
  let ?n = "if ?neg then - num else num"
  have d0: "digs (unat base) 0 = [0]" using assms by (simp add: digs.simps)
  have body: "(if ?n = 0 then Some (asc ''0'') else map_option rev (put_digits (digit_table fl) ?n base []))
      = Some (num_body fl base (unat ?n))"
    using put_digits_digs [OF assms, of ?n "digit_table fl" "[]"] d0
    by (simp add: num_body_def rev_map [symmetric] word_gt_0 asc_def digit_table_0)
  have len: "num_digits ?n base = Some (int (length (num_body fl base (unat ?n))))"
    using count_digits_digs [OF assms, of ?n 0] d0
    by (simp add: num_digits_def num_body_def word_gt_0)
  have e: "(if ?neg then asc ''-'' else []) = num_sign fl num"
      "(if ?neg then 1 else 0) = int (length (num_sign fl num))"
    by (simp_all add: num_sign_def asc_def)
  have pad: "width - int (length (num_body fl base (unat ?n))) - int (length (num_sign fl num)) - int (length (alt_prefix base fl))
     = width - int (length (alt_prefix base fl) + length (num_sign fl num) + length (num_body fl base (unat ?n)))"
    by simp
  show ?thesis
    unfolding print_num_def Let_def len body e
    by (simp add: num_field_def Let_def unat_magnitude pad del: of_nat_add split: if_split) (simp add: algebra_simps)
qed

definition dval :: "u8 \<Rightarrow> nat" where
  "dval c = (if c \<le> 57 then unat c - 48 else if c \<le> 70 then unat c - 55 else unat c - 87)"

definition horner :: "nat \<Rightarrow> u8 list \<Rightarrow> nat" where
  "horner b ds = fold (\<lambda>c v. v * b + dval c) ds 0"

lemma dval_table:
  assumes "d < 16"
  shows "dval (digit_table fl ! d) = d"
proof -
  have "d \<in> set [0..<16]" using assms by simp
  then show ?thesis
    by (auto simp: digit_table_def asc_def dval_def upt_rec)
qed

lemma horner_body:
  assumes "2 \<le> unat base" and "unat base \<le> 16"
  shows "horner (unat base) (num_body fl base n) = n"
proof -
  have "fold (\<lambda>c v. v * unat base + dval c) (map (\<lambda>d. digit_table fl ! d) ds) v = fold (\<lambda>d v. v * unat base + d) ds v"
    if "\<forall>d \<in> set ds. d < 16" for ds v
    using that by (induction ds arbitrary: v) (simp_all add: dval_table)
  then show ?thesis
    using digs_less [OF assms(1), of _ n] digs_value [OF assms(1), of n] assms(2)
    by (fastforce simp: horner_def num_body_def)
qed

section \<open>Formats as sequences of directives\<close>


























section \<open>Properties\<close>

text \<open>\<^verbatim>\<open>print_num\<close> returns, in every base it is called with and under every combination of flags, the
  prefix, sign and digits of its number: read back in the base, the digits give the magnitude of
  the number, without leading zeros; the sign is printed exactly for a negative signed number; the
  field is at least as wide as asked for and exactly so when the number fits; and the digit buffer
  of 64 bytes is never overrun.\<close>

theorem print_num_reads_back:
  assumes "base \<in> {2, 8, 10, 16}"
  shows "\<exists>sp zs body tr. print_num num base width fl =
      Some (alt_prefix base fl @ replicate sp (of_char CHR '' '') @ num_sign fl num @
        replicate zs (of_char CHR ''0'') @ body @ replicate tr (of_char CHR '' '')) \<and>
    int (horner (unat base) body) = \<bar>num_value fl num\<bar> \<and>
    (num_sign fl num = [] \<longleftrightarrow> 0 \<le> num_value fl num) \<and>
    (body = asc ''0'' \<or> dval (hd body) \<noteq> 0) \<and> length body \<le> 64 \<and>
    int (length (alt_prefix base fl) + sp + length (num_sign fl num) + zs + length body + tr) =
      max width (int (length (alt_prefix base fl) + length (num_sign fl num) + length body))"
proof -
  have b: "2 \<le> unat base" "unat base \<le> 16" using assms by auto
  let ?v = "nat \<bar>num_value fl num\<bar>"
  let ?body = "num_body fl base ?v"
  let ?pad = "nat (width - int (length (alt_prefix base fl) + length (num_sign fl num) + length ?body))"
  have val: "int (horner (unat base) ?body) = \<bar>num_value fl num\<bar>" using horner_body [OF b] by simp
  have sign: "num_sign fl num = [] \<longleftrightarrow> 0 \<le> num_value fl num" by (simp add: num_sign_def num_value_def asc_def)
  have lead: "?body = asc ''0'' \<or> dval (hd ?body) \<noteq> 0"
  proof (cases "?v = 0")
    case True
    then show ?thesis using b by (simp add: num_body_def digs.simps asc_def digit_table_0)
  next
    case False
    have "hd (digs (unat base) ?v) < 16" using digs_less [OF b(1), of _ ?v] b(2) hd_in_set [OF digs_ne] by fastforce
    then show ?thesis using digs_hd [OF b(1), of ?v] False by (simp add: num_body_def hd_map dval_table)
  qed
  have "?v < 2 ^ 64" by (simp only: unat_magnitude [symmetric]) (rule order_less_le_trans [OF unsigned_less], simp)
  then have len: "length ?body \<le> 64" using digs_length [OF b(1), of ?v 64] by (simp add: num_body_def)
  have field: "print_num num base width fl =
      Some (alt_prefix base fl @ replicate (if pf fl PF_ZERO_PAD \<or> pf fl PF_LEFT_JUST then 0 else ?pad) (of_char CHR '' '') @
        num_sign fl num @ replicate (if pf fl PF_ZERO_PAD then ?pad else 0) (of_char CHR ''0'') @ ?body @
        replicate (if pf fl PF_ZERO_PAD \<or> \<not> pf fl PF_LEFT_JUST then 0 else ?pad) (of_char CHR '' ''))"
    unfolding print_num_field [OF b(1)] by (simp add: num_field_def Let_def)
  show ?thesis
    by (intro exI conjI, rule field, rule val, rule sign, rule lead, rule len, auto)
qed

theorem print_num_reads_back_witness:
  "print_num (- 42) 10 6 PF_SIGNED = Some (asc ''   -42'') \<and>
   (\<exists>body. int (horner 10 body) = \<bar>num_value PF_SIGNED (- 42)\<bar>) \<and> num_value PF_SIGNED (- 42) = - 42"
proof (intro conjI)
  have d: "digs 10 42 = [4, 2]" by (simp add: digs.simps)
  have r: "replicate 3 x = [x, x, x]" for x :: u8 by (simp add: numeral_3_eq_3)
  have v: "num_value PF_SIGNED (- 42) = - 42" by (simp add: num_value_def pf_def PF_SIGNED_def)
  then show "num_value PF_SIGNED (- 42) = - 42" .
  show "\<exists>body. int (horner 10 body) = \<bar>num_value PF_SIGNED (- 42)\<bar>"
    using print_num_reads_back [of 10 "- 42" 6 PF_SIGNED] by auto
  show "print_num (- 42) 10 6 PF_SIGNED = Some (asc ''   -42'')"
    unfolding print_num_field [of 10, simplified]
    unfolding num_field_def v
    by (simp add: num_body_def d r num_sign_def alt_prefix_def pf_def digit_table_def asc_def
        PF_SIGNED_def PF_HEX_UPPER_def PF_ALT_FORM_def PF_ZERO_PAD_def PF_LEFT_JUST_def)
qed



end
