(* ===== verification/Slab_Invariant.thy ===== *)
theory Slab_Invariant
  imports Slab
begin

text \<open>
  The invariant of the slab allocator and its live blocks. The page allocator below is seen through
  a contract, a locale interpreted on the buddy allocator: blocks handed out are disjoint and stay
  until they are released. The invariant says that every slab page in use owns such a block, that
  the free list of a page is a chain through distinct objects of the page, that the use count is
  the number of objects off the list, that the list of a cache holds exactly its pages, and that
  large blocks own blocks of their own. The live blocks are the objects off the free lists and the
  large blocks.
\<close>

section \<open>What the page allocator promises\<close>

locale page_provider =
  fixes ok :: "'s \<Rightarrow> bool"
    and blocks :: "'s \<Rightarrow> (nat \<times> nat) set"
    and alloc :: "nat \<Rightarrow> gfp_t \<Rightarrow> 's \<Rightarrow> phys_addr_t \<times> 's"
    and release :: "phys_addr_t \<Rightarrow> nat \<Rightarrow> 's \<Rightarrow> 's"
  assumes alloc_cases: "ok s \<Longrightarrow> alloc k g s = (pa, t) \<Longrightarrow>
      ok t \<and> (pa = 0 \<and> blocks t = blocks s \<or>
        (\<exists>f. pa = pfn_to_pa f \<and> (f, k) \<notin> blocks s \<and> blocks t = insert (f, k) (blocks s)))"
    and release_block: "ok s \<Longrightarrow> (f, k) \<in> blocks s \<Longrightarrow>
      ok (release (pfn_to_pa f) k s) \<and> blocks (release (pfn_to_pa f) k s) = blocks s - {(f, k)}"
    and blocks_apart: "ok s \<Longrightarrow> b \<in> blocks s \<Longrightarrow> c \<in> blocks s \<Longrightarrow> b \<noteq> c \<Longrightarrow> blk b \<inter> blk c = {}"
    and block_bound: "ok s \<Longrightarrow> (f, k) \<in> blocks s \<Longrightarrow> f + 2 ^ k \<le> TOTAL_PAGES"
begin

lemma block_base: "ok s \<Longrightarrow> (f, k) \<in> blocks s \<Longrightarrow> f < TOTAL_PAGES"
  using block_bound [of s f k] by (meson less_le_trans less_add_same_cancel1 zero_less_numeral zero_less_power)

lemma alloc_nonzero:
  assumes "ok s" and "alloc k g s = (pa, t)" and "pa \<noteq> 0"
  obtains f where "pa = pfn_to_pa f" "(f, k) \<notin> blocks s" "blocks t = insert (f, k) (blocks s)" "ok t"
    "pa_to_pfn pa = f" "f < TOTAL_PAGES"
proof -
  from alloc_cases [OF assms(1,2)] assms(3) obtain f where f: "ok t" "pa = pfn_to_pa f" "(f, k) \<notin> blocks s"
    "blocks t = insert (f, k) (blocks s)" by blast
  then have "f < TOTAL_PAGES" using block_base [of t f k] by simp
  then show ?thesis using f that by simp
qed

lemma alloc_zero: "ok s \<Longrightarrow> alloc k g s = (0, t) \<Longrightarrow> ok t \<and> blocks t = blocks s"
  using alloc_cases [of s k g 0 t] block_base [of t] pfn_to_pa_nonzero by fastforce

end

interpretation pages: page_provider buddy_inv used_set alloc_phys_pages free_phys_pages
proof
  show "buddy_inv t \<and> (pa = 0 \<and> used_set t = used_set s \<or>
      (\<exists>f. pa = pfn_to_pa f \<and> (f, k) \<notin> used_set s \<and> used_set t = insert (f, k) (used_set s)))"
    if "buddy_inv s" "alloc_phys_pages k g s = (pa, t)" for s k g pa t
  proof (cases "k \<le> MAX_ORDER")
    case True
    with that(1) show ?thesis
    proof (cases rule: alloc_phys_pages_cases [where g = g])
      case none
      then show ?thesis using that by auto
    next
      case (some p j t')
      then have a: "allocated s p j k t" "pa = pfn_to_pa p" using that(2) by simp_all
      note tl = inv_hole_tiling [OF buddy_invD(1) [OF that(1)]]
      have "(p, k) \<notin> used_set s"
      proof
        assume u: "(p, k) \<in> used_set s"
        have fr: "(p, j) \<in> free_set s" using a by (simp add: allocated_def)
        then have "blk (p, j) \<inter> blk (p, k) = {}" using tiling_disj [OF tl, of "(p, j)" "(p, k)"] tiling_FU [OF tl] u by blast
        then show False using blk_self by blast
      qed
      then show ?thesis using a by (auto simp: allocated_def)
    qed
  next
    case False
    then show ?thesis using that by (auto simp: alloc_phys_pages_def valid_order_def)
  qed
  show "buddy_inv (free_phys_pages (pfn_to_pa f) k s) \<and>
      used_set (free_phys_pages (pfn_to_pa f) k s) = used_set s - {(f, k)}" if "buddy_inv s" "(f, k) \<in> used_set s" for s f k
    using free_phys_pages_ok [OF that] by (simp add: freed_def)
  show "blk b \<inter> blk c = {}" if "buddy_inv s" "b \<in> used_set s" "c \<in> used_set s" "b \<noteq> c" for s b c
    using tiling_disj [OF inv_hole_tiling [OF buddy_invD(1) [OF that(1)]], of b c] that by simp
  show "f + 2 ^ k \<le> TOTAL_PAGES" if "buddy_inv s" "(f, k) \<in> used_set s" for s f k
    using buddy_inv_block(5) [OF that(1), of f k] that(2) by simp
qed

section \<open>Addresses of blocks\<close>

definition base_ok :: "'a kmem_scheme \<Rightarrow> bool" where
  "base_ok s \<longleftrightarrow> unat (slab_linear_map_base s) + 0x50000000 < 2 ^ 64"

definition vspan :: "'a kmem_scheme \<Rightarrow> nat \<times> nat \<Rightarrow> nat set" where
  "vspan s b = {unat (slab_linear_map_base s) + 0x40000000 + 4096 * fst b ..<
                unat (slab_linear_map_base s) + 0x40000000 + 4096 * (fst b + 2 ^ snd b)}"

lemma vspan_disjoint: "blk b \<inter> blk c = {} \<Longrightarrow> vspan s b \<inter> vspan s c = {}"
proof (rule ccontr)
  assume d: "blk b \<inter> blk c = {}" and "vspan s b \<inter> vspan s c \<noteq> {}"
  then obtain x where x: "x \<in> vspan s b" "x \<in> vspan s c" by blast
  let ?B = "unat (slab_linear_map_base s) + 0x40000000"
  obtain y where y: "x = ?B + y" using x(1) by (auto simp: vspan_def dest: le_Suc_ex)
  have "y div 4096 \<in> blk a" if "x \<in> vspan s a" for a
    using that unfolding y vspan_def blk_def by (auto simp: less_eq_div_iff_mult_less_eq div_less_iff_less_mult)
  then show False using d x by blast
qed

lemma unat_block_va:
  assumes "base_ok s" and "f < TOTAL_PAGES"
  shows "unat (phys_to_virt s (pfn_to_pa f)) = unat (slab_linear_map_base s) + 0x40000000 + 4096 * f"
proof -
  have "unat (slab_linear_map_base s) + unat (pfn_to_pa f) < 2 ^ 64"
    using assms unat_pfn_to_pa [OF assms(2)] by (simp add: base_ok_def layout_simps)
  then show ?thesis using unat_pfn_to_pa [OF assms(2)] by (simp add: phys_to_virt_def unat_add_noov)
qed

section \<open>Free lists and page lists\<close>

fun freechain :: "(u64 \<Rightarrow> u64) \<Rightarrow> u64 \<Rightarrow> u64 list \<Rightarrow> bool" where
  "freechain m a [] \<longleftrightarrow> a = 0"
| "freechain m a (x # xs) \<longleftrightarrow> a = x \<and> x \<noteq> 0 \<and> freechain m (m x) xs"

lemma freechain_unique: "freechain m a xs \<Longrightarrow> freechain m a ys \<Longrightarrow> xs = ys"
proof (induction xs arbitrary: a ys)
  case Nil
  then show ?case by (cases ys) auto
next
  case (Cons x xs)
  then show ?case by (cases ys) auto
qed

lemma freechain_cong: "(\<And>x. x \<in> set xs \<Longrightarrow> m' x = m x) \<Longrightarrow> freechain m' a xs = freechain m a xs"
  by (induction xs arbitrary: a) auto

fun pchain :: "'a kslab_scheme \<Rightarrow> nat option \<Rightarrow> nat list \<Rightarrow> bool" where
  "pchain s a [] \<longleftrightarrow> a = None"
| "pchain s a (i # is) \<longleftrightarrow> a = Some i \<and> pchain s (sp_next (slab_pages s i)) is"

lemma pchain_cong: "(\<And>i. i \<in> set is \<Longrightarrow> sp_next (slab_pages t i) = sp_next (slab_pages s i)) \<Longrightarrow> pchain t a is = pchain s a is"
  by (induction "is" arbitrary: a) auto

lemma pchain_unique: "pchain s a xs \<Longrightarrow> pchain s a ys \<Longrightarrow> xs = ys"
proof (induction xs arbitrary: a ys)
  case Nil
  then show ?case by (cases ys) auto
next
  case (Cons x xs)
  then show ?case by (cases ys) auto
qed

section \<open>The invariant\<close>

definition slab_used :: "'a kslab_scheme \<Rightarrow> nat set" where
  "slab_used s = {i. i < MAX_SLAB_PAGES \<and> sp_used (slab_pages s i)}"

definition large_used :: "'a kslab_scheme \<Rightarrow> nat set" where
  "large_used s = {i. i < MAX_LARGE_ALLOCS \<and> la_used (large_allocs s i)}"

definition sp_block :: "slab_page \<Rightarrow> nat \<times> nat" where
  "sp_block p = (pa_to_pfn (sp_pa p), sp_order p)"

definition la_block :: "large_alloc \<Rightarrow> nat \<times> nat" where
  "la_block l = (pa_to_pfn (la_pa l), la_order l)"

definition objs :: "slab_page \<Rightarrow> u64 set" where
  "objs p = (\<lambda>k. sp_va p + of_nat k * sp_obj_size p) ` {..<unat (sp_capacity p)}"

definition page_wf :: "pmm \<Rightarrow> u64 \<Rightarrow> slab_page \<Rightarrow> bool" where
  "page_wf m base p \<longleftrightarrow>
     sp_magic p = SLAB_MAGIC \<and>
     (\<exists>c < SLAB_CACHE_COUNT. sp_cache p = Some c \<and> sp_obj_size p = slab_sizes ! c) \<and>
     sp_order p = slab_order_for_size (sp_obj_size p) \<and>
     sp_capacity p = ucast (push_bit (sp_order p) PAGE_SIZE div sp_obj_size p) \<and>
     sp_va p = base + sp_pa p \<and> sp_pa p = pfn_to_pa (pa_to_pfn (sp_pa p)) \<and> sp_block p \<in> used_set m"

definition page_free :: "(u64 \<Rightarrow> u64) \<Rightarrow> slab_page \<Rightarrow> u64 list \<Rightarrow> bool" where
  "page_free m p fl \<longleftrightarrow> freechain m (sp_freelist p) fl \<and> distinct fl \<and> set fl \<subseteq> objs p \<and>
     unat (sp_inuse p) + length fl = unat (sp_capacity p)"

definition large_wf :: "pmm \<Rightarrow> u64 \<Rightarrow> large_alloc \<Rightarrow> bool" where
  "large_wf m base l \<longleftrightarrow> la_magic l = LARGE_MAGIC \<and> la_va l = base + la_pa l \<and>
     la_pa l = pfn_to_pa (pa_to_pfn (la_pa l)) \<and> la_block l \<in> used_set m"

definition cache_ok :: "'a kslab_scheme \<Rightarrow> nat \<Rightarrow> bool" where
  "cache_ok s c \<longleftrightarrow> sc_size (slab_caches s c) = slab_sizes ! c \<and>
     (\<exists>ps. pchain s (sc_partial (slab_caches s c)) ps \<and> distinct ps \<and>
       set ps = {i \<in> slab_used s. sp_cache (slab_pages s i) = Some c})"

text \<open>\<open>E\<close> are the pages that may be unused for a moment, inside an operation.\<close>

definition slab_invx :: "nat set \<Rightarrow> 'a kslab_scheme \<Rightarrow> bool" where
  "slab_invx E s \<longleftrightarrow>
     buddy_inv (km_pmm s) \<and> base_ok s \<and>
     (\<forall>i \<in> slab_used s. page_wf (km_pmm s) (slab_linear_map_base s) (slab_pages s i) \<and>
        (\<exists>fl. page_free (mem64 s) (slab_pages s i) fl) \<and> (i \<in> E \<or> sp_inuse (slab_pages s i) \<noteq> 0)) \<and>
     (\<forall>c < SLAB_CACHE_COUNT. cache_ok s c) \<and>
     inj_on (\<lambda>i. sp_block (slab_pages s i)) (slab_used s) \<and>
     (\<forall>i \<in> large_used s. large_wf (km_pmm s) (slab_linear_map_base s) (large_allocs s i)) \<and>
     inj_on (\<lambda>i. la_block (large_allocs s i)) (large_used s) \<and>
     (\<forall>i \<in> slab_used s. \<forall>j \<in> large_used s. sp_block (slab_pages s i) \<noteq> la_block (large_allocs s j))"

abbreviation slab_inv :: "'a kslab_scheme \<Rightarrow> bool" where
  "slab_inv \<equiv> slab_invx {}"

text \<open>The live blocks: address and size.\<close>

definition page_live :: "(u64 \<Rightarrow> u64) \<Rightarrow> slab_page \<Rightarrow> (u64 \<times> nat) set" where
  "page_live m p = {(x, n). x \<in> objs p \<and> n = unat (sp_obj_size p) \<and> (\<exists>fl. page_free m p fl \<and> x \<notin> set fl)}"

definition live_objs :: "'a kslab_scheme \<Rightarrow> (u64 \<times> nat) set" where
  "live_objs s = (\<Union>i \<in> slab_used s. page_live (mem64 s) (slab_pages s i))"

definition live_large :: "'a kslab_scheme \<Rightarrow> (u64 \<times> nat) set" where
  "live_large s = (\<lambda>i. (la_va (large_allocs s i), 4096 * 2 ^ la_order (large_allocs s i))) ` large_used s"

definition live :: "'a kslab_scheme \<Rightarrow> (u64 \<times> nat) set" where
  "live s = live_objs s \<union> live_large s"

definition brange :: "u64 \<times> nat \<Rightarrow> nat set" where
  "brange b = {unat (fst b) ..< unat (fst b) + snd b}"

section \<open>Geometry of a slab page\<close>

lemma cache_index: "c < 11 \<Longrightarrow> c \<in> {0, 1, 2, 3, 4, 5, 6, 7, 8, 9, 10 :: nat}"
  by (auto simp: eval_nat_numeral less_Suc_eq)

lemma order_loop_small: "order_loop 1 0 = 0" "order_loop 2 0 = 1"
  by (subst order_loop.simps, simp) (subst order_loop.simps, simp, subst order_loop.simps, simp)

lemma slab_orders: "map slab_order_for_size slab_sizes = [0, 0, 0, 0, 0, 0, 0, 0, 0, 0, 1]"
  by (simp add: slab_sizes_def slab_order_for_size_def PAGE_SIZE_def order_loop_small [simplified])

lemma slab_order_nth: "c < 11 \<Longrightarrow> slab_order_for_size (slab_sizes ! c) = (if c = 10 then 1 else 0)"
proof -
  assume c: "c < 11"
  have "slab_order_for_size (slab_sizes ! c) = [0, 0, 0, 0, 0, 0, 0, 0, 0, 0, 1] ! c"
    unfolding slab_orders [symmetric] using c by (subst nth_map) (simp_all add: slab_sizes_def)
  moreover have "c \<in> {0, 1, 2, 3, 4, 5, 6, 7, 8, 9, 10}" using c by (rule cache_index)
  ultimately show ?thesis by auto
qed

lemma slab_size_nth: "c < 11 \<Longrightarrow> slab_sizes ! c = push_bit (c + 3) 1"
proof -
  assume "c < 11"
  then have "c \<in> {0, 1, 2, 3, 4, 5, 6, 7, 8, 9, 10}" by (rule cache_index)
  then show ?thesis by (auto simp: slab_sizes_def)
qed

lemma slab_capacity_nth:
  "c < 11 \<Longrightarrow> unat (ucast (push_bit (if c = 10 then 1 else 0) PAGE_SIZE div slab_sizes ! c) :: u32) * unat (slab_sizes ! c)
     = 4096 * 2 ^ (if c = 10 then 1 else 0)"
proof -
  assume "c < 11"
  then have "c \<in> {0, 1, 2, 3, 4, 5, 6, 7, 8, 9, 10}" by (rule cache_index)
  then show ?thesis by (auto simp: slab_sizes_def PAGE_SIZE_def)
qed

lemma slab_sizes_bounds: "c < 11 \<Longrightarrow> 8 \<le> unat (slab_sizes ! c) \<and> unat (slab_sizes ! c) \<le> 8192"
proof -
  assume "c < 11"
  then have "c \<in> {0, 1, 2, 3, 4, 5, 6, 7, 8, 9, 10}" by (rule cache_index)
  then show ?thesis by (auto simp: slab_sizes_def)
qed

lemma slab_size_facts:
  assumes "c < SLAB_CACHE_COUNT"
  shows "8 \<le> unat (slab_sizes ! c)" and "unat (slab_sizes ! c) \<le> 8192" and "slab_order_for_size (slab_sizes ! c) \<le> 1"
    and "unat (ucast (push_bit (slab_order_for_size (slab_sizes ! c)) PAGE_SIZE div slab_sizes ! c) :: u32) * unat (slab_sizes ! c)
      = 4096 * 2 ^ slab_order_for_size (slab_sizes ! c)"
proof -
  have c: "c < 11" using assms by (simp add: SLAB_CACHE_COUNT_def)
  show "8 \<le> unat (slab_sizes ! c)" "unat (slab_sizes ! c) \<le> 8192" using slab_sizes_bounds [OF c] by simp_all
  show "slab_order_for_size (slab_sizes ! c) \<le> 1" by (simp add: slab_order_nth [OF c])
  show "unat (ucast (push_bit (slab_order_for_size (slab_sizes ! c)) PAGE_SIZE div slab_sizes ! c) :: u32) * unat (slab_sizes ! c)
      = 4096 * 2 ^ slab_order_for_size (slab_sizes ! c)" unfolding slab_order_nth [OF c] by (rule slab_capacity_nth [OF c])
qed

lemma page_geometry:
  assumes "page_wf (km_pmm s) (slab_linear_map_base s) p" and "base_ok s" and "buddy_inv (km_pmm s)"
  shows "unat (sp_capacity p) * unat (sp_obj_size p) = 4096 * 2 ^ sp_order p" and "8 \<le> unat (sp_obj_size p)"
    and "0 < unat (sp_capacity p)"
    and "unat (sp_va p) = unat (slab_linear_map_base s) + 0x40000000 + 4096 * fst (sp_block p)"
    and "unat (sp_va p) + 4096 * 2 ^ sp_order p < 2 ^ 64"
proof -
  from assms(1) obtain c where c: "c < SLAB_CACHE_COUNT" "sp_obj_size p = slab_sizes ! c"
    and o: "sp_order p = slab_order_for_size (sp_obj_size p)"
      "sp_capacity p = ucast (push_bit (sp_order p) PAGE_SIZE div sp_obj_size p)"
    and b: "sp_va p = slab_linear_map_base s + sp_pa p" "sp_pa p = pfn_to_pa (pa_to_pfn (sp_pa p))" "sp_block p \<in> used_set (km_pmm s)"
    by (auto simp: page_wf_def)
  show cap: "unat (sp_capacity p) * unat (sp_obj_size p) = 4096 * 2 ^ sp_order p"
    unfolding o(2) unfolding o(1) c(2) by (rule slab_size_facts(4) [OF c(1)])
  show "8 \<le> unat (sp_obj_size p)" unfolding c(2) by (rule slab_size_facts(1) [OF c(1)])
  show "0 < unat (sp_capacity p)" using cap by (cases "unat (sp_capacity p)") simp_all
  have blk: "(fst (sp_block p), sp_order p) \<in> used_set (km_pmm s)" using b(3) by (simp add: sp_block_def)
  have f: "fst (sp_block p) < TOTAL_PAGES" by (rule pages.block_base [OF assms(3) blk])
  have "sp_va p = phys_to_virt s (pfn_to_pa (fst (sp_block p)))" using b(1,2) by (simp add: phys_to_virt_def sp_block_def)
  then show va: "unat (sp_va p) = unat (slab_linear_map_base s) + 0x40000000 + 4096 * fst (sp_block p)"
    using unat_block_va [OF assms(2) f] by simp
  have "fst (sp_block p) + 2 ^ sp_order p \<le> 65536" using pages.block_bound [OF assms(3) blk] by (simp add: layout_simps)
  then show "unat (sp_va p) + 4096 * 2 ^ sp_order p < 2 ^ 64" using assms(2) unfolding va base_ok_def by simp
qed

lemma obj_address:
  assumes "page_wf (km_pmm s) (slab_linear_map_base s) p" and "base_ok s" and "buddy_inv (km_pmm s)" and "k < unat (sp_capacity p)"
  shows "unat (sp_va p + of_nat k * sp_obj_size p) = unat (sp_va p) + k * unat (sp_obj_size p)"
    and "unat (sp_va p) + k * unat (sp_obj_size p) + unat (sp_obj_size p) \<le> unat (sp_va p) + 4096 * 2 ^ sp_order p"
proof -
  note g = page_geometry [OF assms(1-3)]
  have "(k + 1) * unat (sp_obj_size p) \<le> unat (sp_capacity p) * unat (sp_obj_size p)" using assms(4) by (intro mult_le_mono1) simp
  then show le: "unat (sp_va p) + k * unat (sp_obj_size p) + unat (sp_obj_size p) \<le> unat (sp_va p) + 4096 * 2 ^ sp_order p"
    unfolding g(1) by simp
  have lt: "unat (sp_va p) + k * unat (sp_obj_size p) < 2 ^ 64" using le g(2,5) by linarith
  have "of_nat k * sp_obj_size p = (of_nat (k * unat (sp_obj_size p)) :: u64)" by simp
  moreover have "unat (of_nat (k * unat (sp_obj_size p)) :: u64) = k * unat (sp_obj_size p)"
    using lt by (intro unat_of_nat_noov) simp
  ultimately show "unat (sp_va p + of_nat k * sp_obj_size p) = unat (sp_va p) + k * unat (sp_obj_size p)"
    using lt by (simp add: unat_add_noov)
qed

lemma objs_range:
  assumes "page_wf (km_pmm s) (slab_linear_map_base s) p" and "base_ok s" and "buddy_inv (km_pmm s)" and "x \<in> objs p"
  shows "brange (x, unat (sp_obj_size p)) \<subseteq> vspan s (sp_block p)" and "x \<noteq> 0" and "unat x \<in> vspan s (sp_block p)"
    and "unat (sp_va p) \<le> unat x" and "unat x < unat (sp_va p) + 4096 * 2 ^ sp_order p"
proof -
  obtain k where k: "k < unat (sp_capacity p)" "x = sp_va p + of_nat k * sp_obj_size p" using assms(4) by (auto simp: objs_def)
  note a = obj_address [OF assms(1-3) k(1)] and g = page_geometry [OF assms(1-3)]
  have vs: "vspan s (sp_block p) = {unat (sp_va p) ..< unat (sp_va p) + 4096 * 2 ^ sp_order p}"
    unfolding vspan_def g(4) by (auto simp: sp_block_def)
  show sub: "brange (x, unat (sp_obj_size p)) \<subseteq> vspan s (sp_block p)"
    using a by (auto simp: brange_def vs k(2))
  have "unat x \<in> brange (x, unat (sp_obj_size p))" using g(2) by (simp add: brange_def)
  then show m: "unat x \<in> vspan s (sp_block p)" using sub by blast
  then show "unat (sp_va p) \<le> unat x" "unat x < unat (sp_va p) + 4096 * 2 ^ sp_order p" by (simp_all add: vs)
  have "0 < unat x" using m g(4) by (auto simp: vs)
  then show "x \<noteq> 0" by (auto simp: unat_gt_0)
qed

lemma objs_apart:
  assumes "page_wf (km_pmm s) (slab_linear_map_base s) p" and "base_ok s" and "buddy_inv (km_pmm s)"
    and "x \<in> objs p" and "y \<in> objs p" and "x \<noteq> y"
  shows "brange (x, unat (sp_obj_size p)) \<inter> brange (y, unat (sp_obj_size p)) = {}"
proof -
  obtain j k where x: "j < unat (sp_capacity p)" "x = sp_va p + of_nat j * sp_obj_size p"
    and y: "k < unat (sp_capacity p)" "y = sp_va p + of_nat k * sp_obj_size p" using assms(4,5) by (auto simp: objs_def)
  have *: "brange (sp_va p + of_nat j * sp_obj_size p, unat (sp_obj_size p)) \<inter>
      brange (sp_va p + of_nat k * sp_obj_size p, unat (sp_obj_size p)) = {}"
    if "j < k" "k < unat (sp_capacity p)" for j k
  proof -
    have "(j + 1) * unat (sp_obj_size p) \<le> k * unat (sp_obj_size p)" using that by (intro mult_le_mono1) simp
    then show ?thesis
      using obj_address(1) [OF assms(1-3), of j] obj_address(1) [OF assms(1-3), of k] that by (auto simp: brange_def)
  qed
  have "j \<noteq> k" using x y assms(6) by auto
  then consider "j < k" | "k < j" by linarith
  then show ?thesis unfolding x(2) y(2) using * [OF _ y(1)] * [OF _ x(1)] by cases (blast, blast)
qed

lemma card_objs:
  assumes "page_wf (km_pmm s) (slab_linear_map_base s) p" and "base_ok s" and "buddy_inv (km_pmm s)"
  shows "inj_on (\<lambda>k. sp_va p + of_nat k * sp_obj_size p) {..<unat (sp_capacity p)}"
proof (rule inj_onI)
  fix j k
  assume "j \<in> {..<unat (sp_capacity p)}" "k \<in> {..<unat (sp_capacity p)}"
    and e: "sp_va p + of_nat j * sp_obj_size p = sp_va p + of_nat k * sp_obj_size p"
  then have j: "j < unat (sp_capacity p)" and k: "k < unat (sp_capacity p)" by simp_all
  have "unat (sp_va p) + j * unat (sp_obj_size p) = unat (sp_va p) + k * unat (sp_obj_size p)"
    using arg_cong [OF e, of unat] obj_address(1) [OF assms j] obj_address(1) [OF assms k] by (simp only:)
  then have "j * unat (sp_obj_size p) = k * unat (sp_obj_size p)" by (rule add_left_imp_eq)
  moreover have "unat (sp_obj_size p) \<noteq> 0" using page_geometry(2) [OF assms] by linarith
  ultimately show "j = k" by (simp only: mult_cancel2) blast
qed

lemma finite_objs [simp]: "finite (objs p)"
  by (simp add: objs_def)

lemma page_free_unique: "page_free m p fl \<Longrightarrow> page_free m p fl' \<Longrightarrow> fl = fl'"
  by (auto simp: page_free_def dest: freechain_unique)

lemma page_live_eq: "page_free m p fl \<Longrightarrow> page_live m p = (\<lambda>x. (x, unat (sp_obj_size p))) ` (objs p - set fl)"
proof -
  assume "page_free m p fl"
  then have "(\<exists>fl'. page_free m p fl' \<and> x \<notin> set fl') = (x \<notin> set fl)" for x using page_free_unique by blast
  then show ?thesis by (auto simp: page_live_def)
qed

lemma page_free_cong: "(\<And>x. x \<in> objs p \<Longrightarrow> m' x = m x) \<Longrightarrow> page_free m' p fl = page_free m p fl"
proof -
  assume m: "\<And>x. x \<in> objs p \<Longrightarrow> m' x = m x"
  show ?thesis
  proof (cases "set fl \<subseteq> objs p")
    case True
    then have "freechain m' (sp_freelist p) fl = freechain m (sp_freelist p) fl" by (intro freechain_cong m) blast
    then show ?thesis by (simp add: page_free_def)
  qed (simp add: page_free_def)
qed

lemma page_live_cong: "(\<And>x. x \<in> objs p \<Longrightarrow> m' x = m x) \<Longrightarrow> page_live m' p = page_live m p"
proof -
  assume m: "\<And>x. x \<in> objs p \<Longrightarrow> m' x = m x"
  have "page_free m' p = page_free m p" by (rule ext, rule page_free_cong, rule m)
  then show ?thesis by (simp only: page_live_def)
qed

text \<open>The link to the next page is not part of what a page says of its objects.\<close>

lemma sp_next_irrelevant [simp]:
  "page_wf m b (p\<lparr>sp_next := x\<rparr>) = page_wf m b p" "page_free mm (p\<lparr>sp_next := x\<rparr>) fl = page_free mm p fl"
  "page_live mm (p\<lparr>sp_next := x\<rparr>) = page_live mm p" "sp_block (p\<lparr>sp_next := x\<rparr>) = sp_block p"
  "objs (p\<lparr>sp_next := x\<rparr>) = objs p"
  by (simp_all add: page_wf_def page_free_def page_live_def sp_block_def objs_def)

section \<open>Blocks of different owners are apart\<close>

lemma slab_invxD:
  assumes "slab_invx E s"
  shows "buddy_inv (km_pmm s)" and "base_ok s"
    and "i \<in> slab_used s \<Longrightarrow> page_wf (km_pmm s) (slab_linear_map_base s) (slab_pages s i)"
    and "i \<in> slab_used s \<Longrightarrow> \<exists>fl. page_free (mem64 s) (slab_pages s i) fl"
    and "i \<in> slab_used s \<Longrightarrow> i \<notin> E \<Longrightarrow> sp_inuse (slab_pages s i) \<noteq> 0"
    and "c < SLAB_CACHE_COUNT \<Longrightarrow> cache_ok s c"
    and "inj_on (\<lambda>i. sp_block (slab_pages s i)) (slab_used s)"
    and "j \<in> large_used s \<Longrightarrow> large_wf (km_pmm s) (slab_linear_map_base s) (large_allocs s j)"
    and "inj_on (\<lambda>i. la_block (large_allocs s i)) (large_used s)"
    and "i \<in> slab_used s \<Longrightarrow> j \<in> large_used s \<Longrightarrow> sp_block (slab_pages s i) \<noteq> la_block (large_allocs s j)"
  using assms unfolding slab_invx_def by blast+

lemma slab_block_used: "slab_invx E s \<Longrightarrow> i \<in> slab_used s \<Longrightarrow> sp_block (slab_pages s i) \<in> used_set (km_pmm s)"
  using slab_invxD(3) [of E s i] by (simp add: page_wf_def)

lemma large_block_used: "slab_invx E s \<Longrightarrow> i \<in> large_used s \<Longrightarrow> la_block (large_allocs s i) \<in> used_set (km_pmm s)"
  using slab_invxD(8) [of E s i] by (simp add: large_wf_def)

lemma used_vspan_apart:
  "slab_invx E s \<Longrightarrow> b \<in> used_set (km_pmm s) \<Longrightarrow> c \<in> used_set (km_pmm s) \<Longrightarrow> b \<noteq> c \<Longrightarrow> vspan t b \<inter> vspan t c = {}"
  by (intro vspan_disjoint pages.blocks_apart) (auto dest: slab_invxD(1))

lemma slab_pages_apart:
  assumes "slab_invx E s" and "i \<in> slab_used s" and "j \<in> slab_used s" and "i \<noteq> j"
  shows "vspan t (sp_block (slab_pages s i)) \<inter> vspan t (sp_block (slab_pages s j)) = {}"
  using assms slab_invxD(7) [OF assms(1)]
  by (intro used_vspan_apart [OF assms(1)] slab_block_used) (auto simp: inj_on_def)

lemma slab_large_apart:
  assumes "slab_invx E s" and "i \<in> slab_used s" and "j \<in> large_used s"
  shows "vspan t (sp_block (slab_pages s i)) \<inter> vspan t (la_block (large_allocs s j)) = {}"
  using assms by (intro used_vspan_apart [OF assms(1)] slab_block_used large_block_used slab_invxD(10))

lemma large_apart:
  assumes "slab_invx E s" and "i \<in> large_used s" and "j \<in> large_used s" and "i \<noteq> j"
  shows "vspan t (la_block (large_allocs s i)) \<inter> vspan t (la_block (large_allocs s j)) = {}"
  using assms slab_invxD(9) [OF assms(1)]
  by (intro used_vspan_apart [OF assms(1)] large_block_used) (auto simp: inj_on_def)

lemma inv_objs_range:
  assumes "slab_invx E s" and "i \<in> slab_used s" and "x \<in> objs (slab_pages s i)"
  shows "brange (x, unat (sp_obj_size (slab_pages s i))) \<subseteq> vspan s (sp_block (slab_pages s i))" and "x \<noteq> 0"
    and "unat x \<in> vspan s (sp_block (slab_pages s i))"
  using objs_range [OF slab_invxD(3) [OF assms(1,2)] slab_invxD(2,1) [OF assms(1)] assms(3)] by simp_all

lemma large_range:
  assumes "large_wf (km_pmm s) (slab_linear_map_base s) l" and "base_ok s" and "buddy_inv (km_pmm s)"
  shows "brange (la_va l, 4096 * 2 ^ la_order l) = vspan s (la_block l)" and "0x40000000 \<le> unat (la_va l)"
    and "slab_linear_map_base s \<le> la_va l"
proof -
  have blk: "(fst (la_block l), la_order l) \<in> used_set (km_pmm s)" using assms(1) by (simp add: large_wf_def la_block_def)
  have f: "fst (la_block l) < TOTAL_PAGES" by (rule pages.block_base [OF assms(3) blk])
  have "la_va l = phys_to_virt s (pfn_to_pa (fst (la_block l)))" using assms(1) by (simp add: large_wf_def phys_to_virt_def la_block_def)
  then have va: "unat (la_va l) = unat (slab_linear_map_base s) + 0x40000000 + 4096 * fst (la_block l)"
    using unat_block_va [OF assms(2) f] by simp
  then show "0x40000000 \<le> unat (la_va l)" and "slab_linear_map_base s \<le> la_va l" by (simp_all add: word_le_nat_alt)
  show "brange (la_va l, 4096 * 2 ^ la_order l) = vspan s (la_block l)"
    by (simp add: brange_def vspan_def va la_block_def add.assoc)
qed

lemma objs_disjoint:
  assumes "slab_invx E s" and "i \<in> slab_used s" and "j \<in> slab_used s" and "i \<noteq> j"
  shows "objs (slab_pages s i) \<inter> objs (slab_pages s j) = {}"
  using slab_pages_apart [OF assms, of s] inv_objs_range(3) [OF assms(1,2)] inv_objs_range(3) [OF assms(1,3)] by blast

lemma cache_list:
  assumes "slab_invx E s" and "c < SLAB_CACHE_COUNT"
  obtains ps where "pchain s (sc_partial (slab_caches s c)) ps" "distinct ps"
    "set ps = {i \<in> slab_used s. sp_cache (slab_pages s i) = Some c}" "length ps \<le> MAX_SLAB_PAGES"
proof -
  obtain ps where p: "pchain s (sc_partial (slab_caches s c)) ps" "distinct ps"
    "set ps = {i \<in> slab_used s. sp_cache (slab_pages s i) = Some c}"
    using slab_invxD(6) [OF assms] by (auto simp: cache_ok_def)
  have "length ps = card (set ps)" using p(2) by (simp add: distinct_card)
  also have "\<dots> \<le> card {..<MAX_SLAB_PAGES}" using p(3) by (intro card_mono) (auto simp: slab_used_def)
  finally show ?thesis using that p by simp
qed

end
