(* ===== verification/Slab_Correct.thy ===== *)
theory Slab_Correct
  imports Slab_Invariant
begin

text \<open>
  Every operation of the slab allocator keeps the invariant, and what it does to the live blocks.
  The first section proves the effect of the four elementary changes (a page rewritten, added,
  removed; a large block added or removed) on the invariant; the operations are then composed
  from them.
\<close>

section \<open>The invariant by parts\<close>

definition slabs_ok :: "nat set \<Rightarrow> 'a kslab_scheme \<Rightarrow> bool" where
  "slabs_ok E s \<longleftrightarrow>
     (\<forall>i \<in> slab_used s. page_wf (km_pmm s) (slab_linear_map_base s) (slab_pages s i) \<and>
        (\<exists>fl. page_free (mem64 s) (slab_pages s i) fl) \<and> (i \<in> E \<or> sp_inuse (slab_pages s i) \<noteq> 0)) \<and>
     (\<forall>c < SLAB_CACHE_COUNT. cache_ok s c) \<and>
     inj_on (\<lambda>i. sp_block (slab_pages s i)) (slab_used s)"

definition larges_ok :: "'a kslab_scheme \<Rightarrow> bool" where
  "larges_ok s \<longleftrightarrow>
     (\<forall>i \<in> large_used s. large_wf (km_pmm s) (slab_linear_map_base s) (large_allocs s i)) \<and>
     inj_on (\<lambda>i. la_block (large_allocs s i)) (large_used s)"

definition apart_ok :: "'a kslab_scheme \<Rightarrow> bool" where
  "apart_ok s \<longleftrightarrow> (\<forall>i \<in> slab_used s. \<forall>j \<in> large_used s. sp_block (slab_pages s i) \<noteq> la_block (large_allocs s j))"

lemma slab_invx_parts:
  "slab_invx E s \<longleftrightarrow> buddy_inv (km_pmm s) \<and> base_ok s \<and> slabs_ok E s \<and> larges_ok s \<and> apart_ok s"
  unfolding slab_invx_def slabs_ok_def larges_ok_def apart_ok_def by blast

lemma page_wf_mono: "page_wf m b p \<Longrightarrow> sp_block p \<in> used_set m' \<Longrightarrow> page_wf m' b p"
  by (simp add: page_wf_def)

lemma large_wf_mono: "large_wf m b l \<Longrightarrow> la_block l \<in> used_set m' \<Longrightarrow> large_wf m' b l"
  by (simp add: large_wf_def)

lemma pchain_frame: "pchain s a ps \<Longrightarrow> (\<And>i. i \<in> set ps \<Longrightarrow> sp_next (slab_pages t i) = sp_next (slab_pages s i)) \<Longrightarrow> pchain t a ps"
  using pchain_cong [of ps t s a] by blast

lemma slabs_ok_frame:
  assumes "slabs_ok E s" and u: "slab_used t = slab_used s" and p: "\<And>i. i \<in> slab_used s \<Longrightarrow> slab_pages t i = slab_pages s i"
    and f: "mem64 t = mem64 s" "slab_caches t = slab_caches s" "slab_linear_map_base t = slab_linear_map_base s"
    and b: "\<And>i. i \<in> slab_used s \<Longrightarrow> sp_block (slab_pages s i) \<in> used_set (km_pmm t)"
  shows "slabs_ok E t" and "live_objs t = live_objs s"
proof -
  have c: "cache_ok t c" if "cache_ok s c" for c
  proof -
    from that obtain ps where ps: "pchain s (sc_partial (slab_caches s c)) ps" "distinct ps"
      "set ps = {i \<in> slab_used s. sp_cache (slab_pages s i) = Some c}" "sc_size (slab_caches s c) = slab_sizes ! c"
      by (auto simp: cache_ok_def)
    have "pchain t (sc_partial (slab_caches s c)) ps" using ps(1) by (rule pchain_frame) (simp add: p ps(3))
    moreover have "set ps = {i \<in> slab_used s. sp_cache (slab_pages t i) = Some c}" using ps(3) p by auto
    ultimately show ?thesis using ps unfolding cache_ok_def f u by blast
  qed
  have "page_wf (km_pmm t) (slab_linear_map_base s) (slab_pages s i)" if "i \<in> slab_used s" for i
    using assms(1) that b [OF that] by (auto simp: slabs_ok_def intro: page_wf_mono)
  moreover have "inj_on (\<lambda>i. sp_block (slab_pages t i)) (slab_used s) = inj_on (\<lambda>i. sp_block (slab_pages s i)) (slab_used s)"
    by (rule inj_on_cong) (simp add: p)
  ultimately show "slabs_ok E t" using assms(1) c p unfolding slabs_ok_def f u by simp
  show "live_objs t = live_objs s" by (simp add: live_objs_def u f p)
qed

lemma larges_ok_frame:
  assumes "larges_ok s" and u: "large_used t = large_used s" and l: "\<And>i. i \<in> large_used s \<Longrightarrow> large_allocs t i = large_allocs s i"
    and f: "slab_linear_map_base t = slab_linear_map_base s"
    and b: "\<And>i. i \<in> large_used s \<Longrightarrow> la_block (large_allocs s i) \<in> used_set (km_pmm t)"
  shows "larges_ok t" and "live_large t = live_large s"
proof -
  have "large_wf (km_pmm t) (slab_linear_map_base s) (large_allocs s i)" if "i \<in> large_used s" for i
    using assms(1) that b [OF that] by (auto simp: larges_ok_def intro: large_wf_mono)
  moreover have "inj_on (\<lambda>i. la_block (large_allocs t i)) (large_used s) = inj_on (\<lambda>i. la_block (large_allocs s i)) (large_used s)"
    by (rule inj_on_cong) (simp add: l)
  ultimately show "larges_ok t" using assms(1) l unfolding larges_ok_def f u by simp
  show "live_large t = live_large s" by (simp add: live_large_def u l)
qed

lemma base_ok_cong: "slab_linear_map_base t = slab_linear_map_base s \<Longrightarrow> base_ok t = base_ok s"
  by (simp add: base_ok_def)

text \<open>Changes of unused entries and of the page allocator that keep its blocks.\<close>

lemma inv_frame:
  assumes inv: "slab_invx E s" and bud: "buddy_inv (km_pmm t)" "used_set (km_pmm s) \<subseteq> used_set (km_pmm t)"
    and su: "slab_used t = slab_used s" and sp: "\<And>i. i \<in> slab_used s \<Longrightarrow> slab_pages t i = slab_pages s i"
    and lu: "large_used t = large_used s" and la: "\<And>i. i \<in> large_used s \<Longrightarrow> large_allocs t i = large_allocs s i"
    and f: "mem64 t = mem64 s" "slab_caches t = slab_caches s" "slab_linear_map_base t = slab_linear_map_base s"
  shows "slab_invx E t" and "live t = live s"
proof -
  note i = inv [unfolded slab_invx_parts]
  have s: "slabs_ok E t" "live_objs t = live_objs s"
    using slabs_ok_frame [of E s t] i su sp f bud(2) slab_block_used [OF inv] by blast+
  have l: "larges_ok t" "live_large t = live_large s"
    using larges_ok_frame [of s t] i lu la f bud(2) large_block_used [OF inv] by blast+
  have "apart_ok t" using i sp la by (simp add: apart_ok_def su lu)
  then show "slab_invx E t" using s l bud i base_ok_cong [OF f(3)] by (simp add: slab_invx_parts)
  show "live t = live s" using s l by (simp add: live_def)
qed

section \<open>Elementary changes\<close>

text \<open>The live blocks outside one slab page.\<close>

definition live_rest :: "nat \<Rightarrow> 'a kslab_scheme \<Rightarrow> (u64 \<times> nat) set" where
  "live_rest i s = (\<Union>j \<in> slab_used s - {i}. page_live (mem64 s) (slab_pages s j)) \<union> live_large s"

lemma live_split: "i \<in> slab_used s \<Longrightarrow> live s = page_live (mem64 s) (slab_pages s i) \<union> live_rest i s"
  by (auto simp: live_def live_objs_def live_rest_def)

lemma page_live_range:
  assumes "slab_invx E s" and "i \<in> slab_used s" and "b \<in> page_live m (slab_pages s i)"
  shows "brange b \<subseteq> vspan s (sp_block (slab_pages s i))" and "0 < snd b"
proof -
  obtain x where x: "b = (x, unat (sp_obj_size (slab_pages s i)))" "x \<in> objs (slab_pages s i)"
    using assms(3) by (auto simp: page_live_def)
  then show "brange b \<subseteq> vspan s (sp_block (slab_pages s i))" using inv_objs_range(1) [OF assms(1,2)] by simp
  show "0 < snd b" using page_geometry(2) [OF slab_invxD(3) [OF assms(1,2)] slab_invxD(2,1) [OF assms(1)]] x by simp
qed

lemma live_large_range:
  assumes "slab_invx E s" and "b \<in> live_large s"
  obtains j where "j \<in> large_used s" "brange b = vspan s (la_block (large_allocs s j))" "0 < snd b"
    "b = (la_va (large_allocs s j), 4096 * 2 ^ la_order (large_allocs s j))"
proof -
  obtain j where j: "j \<in> large_used s" "b = (la_va (large_allocs s j), 4096 * 2 ^ la_order (large_allocs s j))"
    using assms(2) by (auto simp: live_large_def)
  show ?thesis using that [OF j(1)] large_range(1) [OF slab_invxD(8) [OF assms(1) j(1)] slab_invxD(2,1) [OF assms(1)]] j by simp
qed

lemma live_rest_apart:
  assumes inv: "slab_invx E s" and i: "i \<in> slab_used s" and b: "b \<in> live_rest i s"
  shows "brange b \<inter> vspan s (sp_block (slab_pages s i)) = {}"
proof -
  consider j where "j \<in> slab_used s" "j \<noteq> i" "b \<in> page_live (mem64 s) (slab_pages s j)" | "b \<in> live_large s"
    using b by (auto simp: live_rest_def)
  then show ?thesis
  proof cases
    case (1 j)
    then show ?thesis using page_live_range(1) [OF inv 1(1,3)] slab_pages_apart [OF inv 1(1) i 1(2), of s] by blast
  next
    case 2
    then obtain j where "j \<in> large_used s" "brange b = vspan s (la_block (large_allocs s j))" by (rule live_large_range [OF inv])
    then show ?thesis using slab_large_apart [OF inv i, of j s] by blast
  qed
qed

text \<open>A page in use is rewritten: its free list and its use count change.\<close>

lemma inv_page_update:
  assumes inv: "slab_invx E s" and i: "i \<in> slab_used s"
    and f: "km_pmm t = km_pmm s" "slab_linear_map_base t = slab_linear_map_base s" "slab_caches t = slab_caches s"
      "large_allocs t = large_allocs s" "slab_pages t = (slab_pages s)(i := p)"
    and mem: "\<And>a. a \<notin> objs (slab_pages s i) \<Longrightarrow> mem64 t a = mem64 s a"
    and p: "page_wf (km_pmm s) (slab_linear_map_base s) p" "page_free (mem64 t) p fl" "sp_used p"
      "sp_next p = sp_next (slab_pages s i)" "sp_cache p = sp_cache (slab_pages s i)" "sp_block p = sp_block (slab_pages s i)"
    and E: "i \<in> E' \<or> sp_inuse p \<noteq> 0" "E \<subseteq> insert i E'"
  shows "slab_invx E' t" and "live t = page_live (mem64 t) p \<union> live_rest i s"
proof -
  have u: "slab_used t = slab_used s" using i p(3) by (auto simp: slab_used_def f)
  have lu: "large_used t = large_used s" by (simp add: large_used_def f)
  have eqm: "mem64 t x = mem64 s x" if "j \<in> slab_used s" "j \<noteq> i" "x \<in> objs (slab_pages s j)" for j x
    using objs_disjoint [OF inv that(1) i that(2)] that(3) by (intro mem) blast
  have pf: "page_free (mem64 t) (slab_pages s j) = page_free (mem64 s) (slab_pages s j)"
    and pl: "page_live (mem64 t) (slab_pages s j) = page_live (mem64 s) (slab_pages s j)" if "j \<in> slab_used s" "j \<noteq> i" for j
    by (rule ext, rule page_free_cong, erule eqm [OF that]) (rule page_live_cong, erule eqm [OF that])
  have c: "cache_ok t c" if "cache_ok s c" for c
  proof -
    from that obtain ps where ps: "pchain s (sc_partial (slab_caches s c)) ps" "distinct ps"
      "set ps = {i \<in> slab_used s. sp_cache (slab_pages s i) = Some c}" "sc_size (slab_caches s c) = slab_sizes ! c"
      by (auto simp: cache_ok_def)
    have "pchain t (sc_partial (slab_caches s c)) ps" using ps(1) by (rule pchain_frame) (simp add: f p(4))
    moreover have "set ps = {i \<in> slab_used s. sp_cache (slab_pages t i) = Some c}" using ps(3) p(5) by (auto simp: f)
    ultimately show ?thesis using ps unfolding cache_ok_def f(3) u by blast
  qed
  have blk: "sp_block (slab_pages t j) = sp_block (slab_pages s j)" for j using p(6) by (simp add: f)
  have "\<forall>j \<in> slab_used s. page_wf (km_pmm s) (slab_linear_map_base s) (slab_pages t j) \<and>
      (\<exists>fl. page_free (mem64 t) (slab_pages t j) fl) \<and> (j \<in> E' \<or> sp_inuse (slab_pages t j) \<noteq> 0)"
  proof
    fix j
    assume j: "j \<in> slab_used s"
    show "page_wf (km_pmm s) (slab_linear_map_base s) (slab_pages t j) \<and>
      (\<exists>fl. page_free (mem64 t) (slab_pages t j) fl) \<and> (j \<in> E' \<or> sp_inuse (slab_pages t j) \<noteq> 0)"
    proof (cases "j = i")
      case True
      then show ?thesis using p(1,2) E(1) by (auto simp: f)
    next
      case False
      then show ?thesis using slab_invxD(3,4,5) [OF inv j] pf [OF j False] E(2) by (auto simp: f)
    qed
  qed
  then have "slabs_ok E' t"
    using inv c unfolding slabs_ok_def u f(1,2) blk slab_invx_def by simp
  moreover have "larges_ok t" using inv unfolding slab_invx_parts larges_ok_def lu f(1,2,4) by simp
  moreover have "apart_ok t" using inv unfolding slab_invx_parts apart_ok_def lu u blk f(4) by simp
  ultimately show "slab_invx E' t" using inv base_ok_cong [OF f(2)] by (simp add: slab_invx_parts f(1))
  have "live_rest i t = live_rest i s" by (simp add: live_rest_def u live_large_def lu f pl)
  then show "live t = page_live (mem64 t) p \<union> live_rest i s" using live_split [of i t] i by (simp add: u f(5))
qed

lemma cache_add:
  assumes inv: "slab_invx E s" and i: "i \<notin> slab_used s" and d: "d < SLAB_CACHE_COUNT" and u: "slab_used t = insert i (slab_used s)"
    and f: "slab_caches t = (slab_caches s)(c := (slab_caches s c)\<lparr>sc_partial := Some i\<rparr>)" "slab_pages t = (slab_pages s)(i := p)"
    and p: "sp_next p = sc_partial (slab_caches s c)" "sp_cache p = Some c"
  shows "cache_ok t d"
proof -
  obtain ps where ps: "pchain s (sc_partial (slab_caches s d)) ps" "distinct ps"
    "set ps = {i \<in> slab_used s. sp_cache (slab_pages s i) = Some d}" by (rule cache_list [OF inv d])
  have sz: "sc_size (slab_caches s d) = slab_sizes ! d" using slab_invxD(6) [OF inv d] by (simp add: cache_ok_def)
  have ni: "i \<notin> set ps" using ps(3) i by auto
  then have "j \<in> set ps \<Longrightarrow> j \<noteq> i" for j by blast
  then have pt: "pchain t (sc_partial (slab_caches s d)) ps" using ps(1) by (auto intro: pchain_frame simp: f)
  show ?thesis
  proof (cases "d = c")
    case True
    then have "pchain t (sc_partial (slab_caches t d)) (i # ps)" using pt p(1) by (simp add: f)
    moreover have "set (i # ps) = {i \<in> slab_used t. sp_cache (slab_pages t i) = Some d}"
      using ps(3) i p(2) True by (auto simp: u f)
    moreover have "sc_size (slab_caches t d) = slab_sizes ! d" using sz by (simp add: f True)
    ultimately show ?thesis using ps(2) ni unfolding cache_ok_def by (metis distinct.simps(2))
  next
    case False
    then have "pchain t (sc_partial (slab_caches t d)) ps" using pt by (simp add: f)
    moreover have "set ps = {i \<in> slab_used t. sp_cache (slab_pages t i) = Some d}"
      using ps(3) i p(2) False by (auto simp: u f)
    moreover have "sc_size (slab_caches t d) = slab_sizes ! d" using sz False by (simp add: f)
    ultimately show ?thesis using ps(2) unfolding cache_ok_def by blast
  qed
qed

text \<open>A new page over a new block of the page allocator joins the list of its cache.\<close>

lemma inv_page_add:
  assumes inv: "slab_invx E s" and i: "i < MAX_SLAB_PAGES" "i \<notin> slab_used s" and c: "c < SLAB_CACHE_COUNT"
    and bud: "buddy_inv (km_pmm t)" "used_set (km_pmm t) = insert (sp_block p) (used_set (km_pmm s))"
      "sp_block p \<notin> used_set (km_pmm s)"
    and f: "slab_linear_map_base t = slab_linear_map_base s" "large_allocs t = large_allocs s"
      "slab_caches t = (slab_caches s)(c := (slab_caches s c)\<lparr>sc_partial := Some i\<rparr>)" "slab_pages t = (slab_pages s)(i := p)"
    and mem: "\<And>a. a \<notin> objs p \<Longrightarrow> mem64 t a = mem64 s a"
    and p: "page_wf (km_pmm t) (slab_linear_map_base s) p" "page_free (mem64 t) p fl" "sp_used p"
      "sp_next p = sc_partial (slab_caches s c)" "sp_cache p = Some c"
  shows "slab_invx (insert i E) t" and "live_rest i t = live s" and "i \<in> slab_used t"
proof -
  have u: "slab_used t = insert i (slab_used s)" using i p(3) by (auto simp: slab_used_def f)
  then show "i \<in> slab_used t" by simp
  have lu: "large_used t = large_used s" by (simp add: large_used_def f)
  have bt: "base_ok t" using inv base_ok_cong [OF f(1)] by (simp add: slab_invx_parts)
  have new: "x \<in> objs p \<Longrightarrow> unat x \<in> vspan s (sp_block p)" for x
    using objs_range(3) [of t p x] p(1) bt bud(1) f(1) by (simp add: vspan_def)
  have apart: "vspan s b \<inter> vspan s (sp_block p) = {}" if "b \<in> used_set (km_pmm s)" for b
    using that bud by (intro vspan_disjoint pages.blocks_apart [OF bud(1)]) auto
  have eqm: "mem64 t x = mem64 s x" if "j \<in> slab_used s" "x \<in> objs (slab_pages s j)" for j x
    using inv_objs_range(3) [OF inv that] apart [OF slab_block_used [OF inv that(1)]] new by (intro mem) blast
  have pf: "page_free (mem64 t) (slab_pages s j) = page_free (mem64 s) (slab_pages s j)"
    and pl: "page_live (mem64 t) (slab_pages s j) = page_live (mem64 s) (slab_pages s j)" if "j \<in> slab_used s" for j
    by (rule ext, rule page_free_cong, erule eqm [OF that]) (rule page_live_cong, erule eqm [OF that])
  have ch: "cache_ok t d" if d: "d < SLAB_CACHE_COUNT" for d
    by (rule cache_add [OF inv i(2) d u f(3,4) p(4,5)])
  have old: "slab_pages t j = slab_pages s j" if "j \<in> slab_used s" for j using that i(2) by (auto simp: f)
  have pg: "page_wf (km_pmm t) (slab_linear_map_base s) (slab_pages s j) \<and>
      (\<exists>fl. page_free (mem64 t) (slab_pages s j) fl) \<and> (j \<in> insert i E \<or> sp_inuse (slab_pages s j) \<noteq> 0)" if j: "j \<in> slab_used s" for j
    using slab_invxD(3,4,5) [OF inv j] slab_block_used [OF inv j] pf [OF j] bud(2) by (auto intro: page_wf_mono)
  have nb: "sp_block (slab_pages s j) \<noteq> sp_block p" if "j \<in> slab_used s" for j using slab_block_used [OF inv that] bud(3) by auto
  have lb: "sp_block p \<noteq> la_block (large_allocs s j)" if "j \<in> large_used s" for j using large_block_used [OF inv that] bud(3) by auto
  have inj: "inj_on (\<lambda>i. sp_block (slab_pages t i)) (slab_used t)"
  proof -
    have "inj_on (\<lambda>i. sp_block (slab_pages t i)) (slab_used s)"
      using slab_invxD(7) [OF inv] inj_on_cong [of "slab_used s" "\<lambda>i. sp_block (slab_pages t i)" "\<lambda>i. sp_block (slab_pages s i)"] old by simp
    moreover have "sp_block (slab_pages t i) \<notin> (\<lambda>i. sp_block (slab_pages t i)) ` slab_used s"
    proof
      assume "sp_block (slab_pages t i) \<in> (\<lambda>i. sp_block (slab_pages t i)) ` slab_used s"
      then obtain j where j: "j \<in> slab_used s" "sp_block (slab_pages t i) = sp_block (slab_pages t j)" by blast
      then show False using nb [OF j(1)] old [OF j(1)] by (simp add: f(4))
    qed
    ultimately show ?thesis using i(2) unfolding u by simp
  qed
  have "slabs_ok (insert i E) t"
    unfolding slabs_ok_def u f(1) using pg p(1,2) old ch inj i(2) by (auto simp: u f(4))
  moreover have "larges_ok t" using inv lu f bud(2) large_block_used [OF inv]
    by (intro larges_ok_frame(1) [of s t]) (auto simp: slab_invx_parts)
  moreover have "apart_ok t" unfolding apart_ok_def u lu f(2)
  proof (intro ballI)
    fix j l
    assume "j \<in> insert i (slab_used s)" and l: "l \<in> large_used s"
    then consider "j = i" | "j \<in> slab_used s" by blast
    then show "sp_block (slab_pages t j) \<noteq> la_block (large_allocs s l)"
      using slab_invxD(10) [OF inv _ l] old lb [OF l] by cases (simp_all add: f(4))
  qed
  ultimately show "slab_invx (insert i E) t" using bud(1) bt by (simp add: slab_invx_parts)
  have "slab_used t - {i} = slab_used s" using u i(2) by blast
  then show "live_rest i t = live s" by (auto simp: live_rest_def live_def live_objs_def live_large_def lu f(2) pl old)
qed

text \<open>A page without live objects leaves, and its block goes back to the page allocator.\<close>

definition same_but_next :: "slab_page \<Rightarrow> slab_page \<Rightarrow> bool" where
  "same_but_next p q \<longleftrightarrow> (\<exists>x. p = q\<lparr>sp_next := x\<rparr>)"

lemma same_but_nextD:
  assumes "same_but_next p q"
  shows "page_wf m b p = page_wf m b q" "page_free mm p = page_free mm q" "page_live mm p = page_live mm q"
    "sp_block p = sp_block q" "sp_used p = sp_used q" "sp_inuse p = sp_inuse q" "sp_cache p = sp_cache q"
    "sp_pa p = sp_pa q" "sp_order p = sp_order q"
  using assms by (auto simp: same_but_next_def)

lemma inv_page_remove:
  assumes inv: "slab_invx E s" and i: "i \<in> slab_used s"
    and bud: "buddy_inv (km_pmm t)" "used_set (km_pmm t) = used_set (km_pmm s) - {sp_block (slab_pages s i)}"
    and f: "slab_linear_map_base t = slab_linear_map_base s" "large_allocs t = large_allocs s" "mem64 t = mem64 s"
    and p: "\<And>j. j \<noteq> i \<Longrightarrow> same_but_next (slab_pages t j) (slab_pages s j)" "\<not> sp_used (slab_pages t i)"
    and c: "\<And>d. d < SLAB_CACHE_COUNT \<Longrightarrow> cache_ok t d"
  shows "slab_invx (E - {i}) t" and "live t = live_rest i s"
proof -
  note nx = same_but_nextD [OF p(1)]
  have u: "slab_used t = slab_used s - {i}"
  proof (rule set_eqI)
    show "j \<in> slab_used t \<longleftrightarrow> j \<in> slab_used s - {i}" for j using p(2) nx(5) [of j] by (cases "j = i") (auto simp: slab_used_def)
  qed
  have lu: "large_used t = large_used s" by (simp add: large_used_def f)
  have b: "sp_block (slab_pages s j) \<in> used_set (km_pmm t)" if "j \<in> slab_used s" "j \<noteq> i" for j
    using slab_block_used [OF inv that(1)] slab_invxD(7) [OF inv] that i unfolding bud(2) inj_on_def by blast
  have lb: "la_block (large_allocs s j) \<in> used_set (km_pmm t)" if "j \<in> large_used s" for j
    using large_block_used [OF inv that] slab_invxD(10) [OF inv i that] unfolding bud(2) by simp
  have pg: "page_wf (km_pmm t) (slab_linear_map_base s) (slab_pages t j) \<and>
      (\<exists>fl. page_free (mem64 s) (slab_pages t j) fl) \<and> (j \<in> E - {i} \<or> sp_inuse (slab_pages t j) \<noteq> 0)"
    if j: "j \<in> slab_used s" "j \<noteq> i" for j
    using slab_invxD(3,4,5) [OF inv j(1)] b [OF j] j(2) by (auto simp: nx [OF j(2)] intro: page_wf_mono)
  have "inj_on (\<lambda>j. sp_block (slab_pages t j)) (slab_used s - {i}) = inj_on (\<lambda>j. sp_block (slab_pages s j)) (slab_used s - {i})"
    by (rule inj_on_cong) (simp add: nx)
  then have "inj_on (\<lambda>j. sp_block (slab_pages t j)) (slab_used s - {i})" using slab_invxD(7) [OF inv] by (auto intro: inj_on_diff)
  then have "slabs_ok (E - {i}) t" unfolding slabs_ok_def u f(1,3) using pg c by simp
  moreover have "larges_ok t" using inv lu f lb by (intro larges_ok_frame(1) [of s t]) (auto simp: slab_invx_parts)
  moreover have "apart_ok t" using slab_invxD(10) [OF inv] unfolding apart_ok_def u lu f(2) by (simp add: nx)
  ultimately show "slab_invx (E - {i}) t" using bud(1) inv base_ok_cong [OF f(1)] by (simp add: slab_invx_parts)
  show "live t = live_rest i s" by (simp add: live_rest_def live_def live_objs_def live_large_def u lu f nx)
qed

section \<open>Unlinking a page\<close>

text \<open>What the walk of \<^verbatim>\<open>slab_cache_del_page\<close> does when it stands before \<open>xs @ i # ys\<close>.\<close>

definition page_unlinked :: "nat \<Rightarrow> nat \<Rightarrow> nat option \<Rightarrow> nat list \<Rightarrow> nat list \<Rightarrow> 'a kslab_scheme \<Rightarrow> 'a kslab_scheme \<Rightarrow> bool" where
  "page_unlinked c i pp xs ys s t \<longleftrightarrow>
     km_pmm t = km_pmm s \<and> mem64 t = mem64 s \<and> slab_linear_map_base t = slab_linear_map_base s \<and>
     large_allocs t = large_allocs s \<and>
     (\<forall>j. same_but_next (slab_pages t j) (slab_pages s j)) \<and>
     (\<forall>j. j \<notin> insert i (set xs) \<and> pp \<noteq> Some j \<longrightarrow> slab_pages t j = slab_pages s j) \<and>
     (\<forall>d. sc_size (slab_caches t d) = sc_size (slab_caches s d)) \<and>
     (\<forall>d. d \<noteq> c \<or> pp \<noteq> None \<longrightarrow> sc_partial (slab_caches t d) = sc_partial (slab_caches s d)) \<and>
     pchain t (link_get c pp t) (xs @ ys)"

lemma del_page_from_spec:
  "pchain s (link_get c pp s) (xs @ i # ys) \<Longrightarrow> distinct (xs @ i # ys) \<Longrightarrow> (\<And>q. pp = Some q \<Longrightarrow> q \<notin> set (xs @ i # ys)) \<Longrightarrow>
   length xs < fuel \<Longrightarrow> \<exists>t. del_page_from fuel c i pp s = Some t \<and> page_unlinked c i pp xs ys s t"
proof (induction xs arbitrary: pp fuel)
  case Nil
  then obtain f where f: "fuel = Suc f" by (cases fuel) simp_all
  let ?t = "upd_sp i (\<lambda>p. p\<lparr>sp_next := None\<rparr>) (link_set c pp (sp_next (slab_pages s i)) s)"
  have "link_get c pp s = Some i" and ch: "pchain s (sp_next (slab_pages s i)) ys" using Nil.prems(1) by simp_all
  then have d: "del_page_from fuel c i pp s = Some ?t" by (simp add: f)
  have pp: "pp \<noteq> Some i" using Nil.prems(3) by auto
  have "pchain ?t (sp_next (slab_pages s i)) ys" using ch
    by (rule pchain_frame) (use Nil.prems(2,3) in \<open>auto simp: upd_sp_def upd_sc_def link_set_def split: option.splits\<close>)
  moreover have "link_get c pp ?t = sp_next (slab_pages s i)"
    using pp by (auto simp: link_get_def link_set_def upd_sp_def upd_sc_def split: option.splits)
  moreover have "same_but_next (slab_pages ?t j) (slab_pages s j)" for j
    by (auto simp: same_but_next_def link_set_def upd_sp_def upd_sc_def split: option.splits)
      (metis slab_page.surjective slab_page.update_convs(3))+
  ultimately have "page_unlinked c i pp [] ys s ?t"
    unfolding page_unlinked_def by (auto simp: link_set_def upd_sp_def upd_sc_def split: option.splits)
  with d show ?case by blast
next
  case (Cons x xs)
  then obtain f where f: "fuel = Suc f" by (cases fuel) simp_all
  have lg: "link_get c pp s = Some x" and ch: "pchain s (link_get c (Some x) s) (xs @ i # ys)" and xi: "x \<noteq> i"
    using Cons.prems(1,2) by (auto simp: link_get_def)
  have "\<exists>t. del_page_from f c i (Some x) s = Some t \<and> page_unlinked c i (Some x) xs ys s t"
    by (rule Cons.IH [OF ch]) (use Cons.prems(2,4) f in auto)
  then obtain t where t: "del_page_from f c i (Some x) s = Some t" and un: "page_unlinked c i (Some x) xs ys s t" by blast
  have d: "del_page_from fuel c i pp s = Some t" using t lg xi by (simp add: f)
  have "link_get c pp t = Some x"
  proof (cases pp)
    case None
    then show ?thesis using un lg by (simp add: page_unlinked_def link_get_def)
  next
    case (Some q)
    then have "q \<notin> insert i (set xs)" "q \<noteq> x" using Cons.prems(3) by auto
    then have "slab_pages t q = slab_pages s q" using un by (auto simp: page_unlinked_def)
    then show ?thesis using lg Some by (simp add: link_get_def)
  qed
  then have "page_unlinked c i pp (x # xs) ys s t" using un unfolding page_unlinked_def by (auto simp: link_get_def)
  with d show ?case by blast
qed

lemma cache_remove:
  assumes inv: "slab_invx E s" and i: "i \<in> slab_used s" "sp_cache (slab_pages s i) = Some c"
    and ps: "distinct (xs @ i # ys)" "set (xs @ i # ys) = {j \<in> slab_used s. sp_cache (slab_pages s j) = Some c}"
    and un: "page_unlinked c i None xs ys s t"
    and u: "slab_caches u = slab_caches t" "\<And>j. j \<noteq> i \<Longrightarrow> slab_pages u j = slab_pages t j" "\<not> sp_used (slab_pages u i)"
    and d: "d < SLAB_CACHE_COUNT"
  shows "cache_ok u d"
proof -
  have nx: "\<And>j. same_but_next (slab_pages t j) (slab_pages s j)" using un by (simp add: page_unlinked_def)
  have sz: "sc_size (slab_caches u d) = slab_sizes ! d" using un slab_invxD(6) [OF inv d] by (simp add: page_unlinked_def u(1) cache_ok_def)
  have used: "j \<in> slab_used u \<longleftrightarrow> j \<in> slab_used s - {i}" for j
    using u(2) [of j] u(3) same_but_nextD(5) [OF nx, of j] by (cases "j = i") (auto simp: slab_used_def)
  have mem: "{j \<in> slab_used u. sp_cache (slab_pages u j) = Some d} = {j \<in> slab_used s. sp_cache (slab_pages s j) = Some d} - {i}"
    using used u(2) same_but_nextD(7) [OF nx] by auto
  show ?thesis
  proof (cases "d = c")
    case True
    have "pchain t (sc_partial (slab_caches u c)) (xs @ ys)" using un by (simp add: page_unlinked_def u(1) link_get_def)
    then have "pchain u (sc_partial (slab_caches u c)) (xs @ ys)" 
    proof (rule pchain_frame)
      fix j
      assume "j \<in> set (xs @ ys)"
      then have "j \<noteq> i" using ps(1) by auto
      then show "sp_next (slab_pages u j) = sp_next (slab_pages t j)" by (simp add: u(2))
    qed
    moreover have "set (xs @ ys) = {j \<in> slab_used u. sp_cache (slab_pages u j) = Some c}"
      unfolding mem [unfolded True] ps(2) [symmetric] using ps(1) by auto
    ultimately show ?thesis using sz ps(1) unfolding cache_ok_def True by (intro conjI exI [of _ "xs @ ys"]) auto
  next
    case False
    obtain qs where qs: "pchain s (sc_partial (slab_caches s d)) qs" "distinct qs"
      "set qs = {j \<in> slab_used s. sp_cache (slab_pages s j) = Some d}" by (rule cache_list [OF inv d])
    have nq: "j \<noteq> i \<and> j \<notin> set xs" if "j \<in> set qs" for j
    proof -
      have "j \<notin> set (xs @ i # ys)" unfolding ps(2) using that qs(3) False by simp
      then show ?thesis by simp
    qed
    have "pchain u (sc_partial (slab_caches s d)) qs" using qs(1)
      by (rule pchain_frame) (use nq un u(2) in \<open>auto simp: page_unlinked_def\<close>)
    moreover have "sc_partial (slab_caches u d) = sc_partial (slab_caches s d)" using un False by (simp add: page_unlinked_def u(1))
    moreover have "set qs = {j \<in> slab_used u. sp_cache (slab_pages u j) = Some d}" unfolding mem using qs(3) i(2) False by auto
    ultimately show ?thesis using sz qs(2) unfolding cache_ok_def by auto
  qed
qed

lemma slab_destroy_page_ok:
  assumes inv: "slab_invx {i} s" and i: "i \<in> slab_used s"
  shows "\<exists>t. slab_destroy_page i s = Some t \<and> slab_inv t \<and> live t = live_rest i s \<and> mem64 t = mem64 s"
proof -
  let ?p = "slab_pages s i"
  have wf: "page_wf (km_pmm s) (slab_linear_map_base s) ?p" by (rule slab_invxD(3) [OF inv i])
  then obtain c where c: "c < SLAB_CACHE_COUNT" "sp_cache ?p = Some c" by (auto simp: page_wf_def)
  obtain ps where ps: "pchain s (sc_partial (slab_caches s c)) ps" "distinct ps"
    "set ps = {j \<in> slab_used s. sp_cache (slab_pages s j) = Some c}" "length ps \<le> MAX_SLAB_PAGES" by (rule cache_list [OF inv c(1)])
  then obtain xs ys where xy: "ps = xs @ i # ys" using i c(2) by (metis (mono_tags, lifting) mem_Collect_eq split_list)
  have "\<exists>t. del_page_from (MAX_SLAB_PAGES + 1) c i None s = Some t \<and> page_unlinked c i None xs ys s t"
    by (rule del_page_from_spec) (use ps xy in \<open>auto simp: link_get_def\<close>)
  then obtain t where t: "slab_cache_del_page c i s = Some t" and un: "page_unlinked c i None xs ys s t"
    by (auto simp: slab_cache_del_page_def)
  have nx: "\<And>j. same_but_next (slab_pages t j) (slab_pages s j)" using un by (simp add: page_unlinked_def)
  let ?u = "free_slab_page_meta i (km_free_phys_pages (sp_pa ?p) (sp_order ?p) t)"
  have d: "slab_destroy_page i s = Some ?u"
    using c(2) t same_but_nextD(8,9) [OF nx, of i] by (simp add: slab_destroy_page_def)
  have b: "(fst (sp_block ?p), sp_order ?p) \<in> used_set (km_pmm s)" and pa: "sp_pa ?p = pfn_to_pa (fst (sp_block ?p))"
    using wf unfolding page_wf_def sp_block_def fst_conv by blast+
  have pm: "km_pmm ?u = free_phys_pages (pfn_to_pa (fst (sp_block ?p))) (sp_order ?p) (km_pmm s)"
    using un pa by (simp add: free_slab_page_meta_def km_free_phys_pages_def upd_sp_def page_unlinked_def)
  have bud: "buddy_inv (km_pmm ?u)" "used_set (km_pmm ?u) = used_set (km_pmm s) - {sp_block ?p}"
    unfolding pm using pages.release_block [OF slab_invxD(1) [OF inv] b] by (simp_all add: sp_block_def)
  have f: "slab_linear_map_base ?u = slab_linear_map_base s" "large_allocs ?u = large_allocs s" "mem64 ?u = mem64 s"
    using un by (simp_all add: free_slab_page_meta_def km_free_phys_pages_def upd_sp_def page_unlinked_def)
  have u: "slab_caches ?u = slab_caches t" "\<And>j. j \<noteq> i \<Longrightarrow> slab_pages ?u j = slab_pages t j" "\<not> sp_used (slab_pages ?u i)"
    by (simp_all add: free_slab_page_meta_def km_free_phys_pages_def upd_sp_def zero_slab_page_def)
  have ck: "cache_ok ?u e" if "e < SLAB_CACHE_COUNT" for e
    by (rule cache_remove [OF inv i c(2) _ _ un u that]) (use ps xy in auto)
  have "slab_invx ({i} - {i}) ?u" "live ?u = live_rest i s"
    by (rule inv_page_remove [OF inv i bud f _ u(3) ck]; simp add: u(2) nx)+
  with d f(3) show ?thesis by auto
qed

section \<open>Allocation from a slab page\<close>

lemma find_partial_spec:
  "pchain s a ps \<Longrightarrow> length ps < fuel \<Longrightarrow>
   \<exists>r. find_partial fuel s a = Some r \<and> (\<forall>i. r = Some i \<longrightarrow> i \<in> set ps \<and> sp_freelist (slab_pages s i) \<noteq> 0)"
proof (induction ps arbitrary: a fuel)
  case Nil
  then show ?case by (cases fuel) auto
next
  case (Cons i ps)
  then obtain f where f: "fuel = Suc f" by (cases fuel) simp_all
  show ?case
  proof (cases "sp_freelist (slab_pages s i) = 0")
    case True
    then show ?thesis using Cons.IH [of "sp_next (slab_pages s i)" f] Cons.prems f by auto
  next
    case False
    then show ?thesis using Cons.prems f by auto
  qed
qed

lemma inuse_bound:
  assumes "page_free m p fl"
  shows "fl \<noteq> [] \<Longrightarrow> unat (sp_inuse p + 1) = unat (sp_inuse p) + 1"
    and "set fl \<subset> objs p \<Longrightarrow> card (objs p) = unat (sp_capacity p) \<Longrightarrow> sp_inuse p \<noteq> 0"
proof -
  have cap: "unat (sp_inuse p) + length fl = unat (sp_capacity p)" using assms by (simp add: page_free_def)
  show "unat (sp_inuse p + 1) = unat (sp_inuse p) + 1" if "fl \<noteq> []"
  proof -
    have "unat (sp_inuse p) + 1 \<le> unat (sp_capacity p)" using cap that by (cases fl) simp_all
    also have "\<dots> < 2 ^ 32" using unsigned_less [of "sp_capacity p"] by simp
    finally show ?thesis by (subst unat_add_noov) simp_all
  qed
  show "sp_inuse p \<noteq> 0" if "set fl \<subset> objs p" "card (objs p) = unat (sp_capacity p)"
  proof
    assume "sp_inuse p = 0"
    moreover have "length fl < card (objs p)"
      using that(1) psubset_card_mono [of "objs p" "set fl"] assms by (simp add: page_free_def distinct_card)
    ultimately show False using cap that(2) by simp
  qed
qed

lemma free_list_irrelevant [simp]:
  "page_wf m b (p\<lparr>sp_freelist := x\<rparr>) = page_wf m b p" "page_wf m b (p\<lparr>sp_inuse := n\<rparr>) = page_wf m b p"
  "sp_block (p\<lparr>sp_freelist := x\<rparr>) = sp_block p" "sp_block (p\<lparr>sp_inuse := n\<rparr>) = sp_block p"
  "objs (p\<lparr>sp_freelist := x\<rparr>) = objs p" "objs (p\<lparr>sp_inuse := n\<rparr>) = objs p"
  by (simp_all add: page_wf_def sp_block_def objs_def)

lemma take_object_ok:
  assumes inv: "slab_invx E s" and E: "E \<subseteq> {i}" and i: "i \<in> slab_used s" and fr: "sp_freelist (slab_pages s i) \<noteq> 0"
    and t: "take_object i s = (x, t)"
  defines "b \<equiv> (x, unat (sp_obj_size (slab_pages s i)))"
  shows "slab_inv t" and "x \<noteq> 0" and "b \<notin> page_live (mem64 s) (slab_pages s i)" and "live t = insert b (live s)"
    and "mem64 t = mem64 s" and "x \<in> objs (slab_pages s i)"
proof -
  let ?p = "slab_pages s i"
  obtain fl where fl: "page_free (mem64 s) ?p fl" using slab_invxD(4) [OF inv i] by blast
  then obtain xs where xs: "fl = sp_freelist ?p # xs" using fr by (cases fl) (auto simp: page_free_def)
  have x: "x = sp_freelist ?p" using t by (simp add: take_object_def Let_def)
  then show "x \<noteq> 0" using fr by simp
  let ?q = "?p\<lparr>sp_freelist := mem64 s x, sp_inuse := sp_inuse ?p + 1\<rparr>"
  have tt: "t = s\<lparr>slab_pages := (slab_pages s)(i := ?q)\<rparr>"
    using t x by (simp add: take_object_def Let_def upd_sp_def load64_def)
  have iu: "unat (sp_inuse ?p + 1) = unat (sp_inuse ?p) + 1" using inuse_bound(1) [OF fl] xs by simp
  have q: "page_free (mem64 s) ?q xs" using fl xs x iu by (auto simp: page_free_def)
  have wf: "page_wf (km_pmm s) (slab_linear_map_base s) ?q" using slab_invxD(3) [OF inv i] by simp
  have nz: "sp_inuse ?p + 1 \<noteq> 0" using iu by (metis Suc_eq_plus1 nat.distinct(1) unsigned_0)
  have up: "slab_inv t" "live t = page_live (mem64 t) ?q \<union> live_rest i s"
    by (rule inv_page_update [OF inv i _ _ _ _ _ _ wf]; use q E i nz in \<open>simp add: tt sp_block_def slab_used_def; fail\<close>)+
  then show "slab_inv t" by simp
  show "mem64 t = mem64 s" by (simp add: tt)
  show xo: "x \<in> objs ?p" using fl xs x by (auto simp: page_free_def)
  have o: "objs ?q = objs ?p" by simp
  have xn: "x \<notin> set xs" using fl xs x by (simp add: page_free_def)
  have "page_live (mem64 s) ?q = insert b (page_live (mem64 s) ?p)"
    unfolding page_live_eq [OF q] page_live_eq [OF fl] xs o b_def using xo xn x by auto
  then show "live t = insert b (live s)" using up(2) live_split [OF i] by (simp add: tt)
  show "b \<notin> page_live (mem64 s) ?p" unfolding page_live_eq [OF fl] xs b_def using x by auto
qed

section \<open>A new slab page\<close>

abbreviation obj_at :: "u64 \<Rightarrow> u64 \<Rightarrow> nat \<Rightarrow> u64" where
  "obj_at va sz k \<equiv> va + of_nat k * sz"

lemma chain_objects_spec:
  assumes "inj_on (obj_at va sz) {..<n + k}" and "\<And>j. j < n + k \<Longrightarrow> obj_at va sz j \<noteq> 0"
    and "freechain (mem64 s) (sp_freelist (slab_pages s i)) (map (obj_at va sz) (rev [0..<n]))"
  shows "\<exists>m h. chain_objects k n va sz i s = s\<lparr>mem64 := m, slab_pages := (slab_pages s)(i := (slab_pages s i)\<lparr>sp_freelist := h\<rparr>)\<rparr> \<and>
     freechain m h (map (obj_at va sz) (rev [0..<n + k])) \<and> (\<forall>a. a \<notin> obj_at va sz ` {..<n + k} \<longrightarrow> m a = mem64 s a)"
  using assms
proof (induction k arbitrary: n s)
  case 0
  then show ?case by (intro exI [of _ "mem64 s"] exI [of _ "sp_freelist (slab_pages s i)"]) simp
next
  case (Suc k)
  let ?x = "obj_at va sz n" and ?f = "sp_freelist (slab_pages s i)"
  let ?s2 = "s\<lparr>mem64 := (mem64 s)(?x := ?f), slab_pages := (slab_pages s)(i := (slab_pages s i)\<lparr>sp_freelist := ?x\<rparr>)\<rparr>"
  have step: "chain_objects (Suc k) n va sz i s = chain_objects k (Suc n) va sz i ?s2"
    by (simp add: Let_def store64_def upd_sp_def)
  have ne: "obj_at va sz j \<noteq> ?x" if "j < n" for j
  proof
    assume e: "obj_at va sz j = ?x"
    have "j = n" by (rule inj_onD [OF Suc.prems(1) e]) (use that in simp_all)
    with that show False by simp
  qed
  have "freechain ((mem64 s)(?x := ?f)) ?f (map (obj_at va sz) (rev [0..<n])) = freechain (mem64 s) ?f (map (obj_at va sz) (rev [0..<n]))"
    by (rule freechain_cong) (use ne in \<open>force\<close>)
  then have "freechain ((mem64 s)(?x := ?f)) ?f (map (obj_at va sz) (rev [0..<n]))" using Suc.prems(3) by (simp only:)
  then have fc: "freechain (mem64 ?s2) (sp_freelist (slab_pages ?s2 i)) (map (obj_at va sz) (rev [0..<Suc n]))"
    using Suc.prems(2) [of n] by simp
  have "\<exists>m h. chain_objects k (Suc n) va sz i ?s2 =
      ?s2\<lparr>mem64 := m, slab_pages := (slab_pages ?s2)(i := (slab_pages ?s2 i)\<lparr>sp_freelist := h\<rparr>)\<rparr> \<and>
     freechain m h (map (obj_at va sz) (rev [0..<Suc n + k])) \<and> (\<forall>a. a \<notin> obj_at va sz ` {..<Suc n + k} \<longrightarrow> m a = mem64 ?s2 a)"
    by (rule Suc.IH [OF _ _ fc]) (use Suc.prems(1,2) in simp_all)
  then obtain m h where mh: "chain_objects k (Suc n) va sz i ?s2 =
      ?s2\<lparr>mem64 := m, slab_pages := (slab_pages ?s2)(i := (slab_pages ?s2 i)\<lparr>sp_freelist := h\<rparr>)\<rparr>"
    "freechain m h (map (obj_at va sz) (rev [0..<n + Suc k]))" "\<forall>a. a \<notin> obj_at va sz ` {..<n + Suc k} \<longrightarrow> m a = mem64 ?s2 a"
    unfolding add_Suc_shift by blast
  have "mem64 ?s2 a = mem64 s a" if "a \<notin> obj_at va sz ` {..<n + Suc k}" for a
  proof -
    have "?x \<in> obj_at va sz ` {..<n + Suc k}" by (rule imageI) simp
    then have "a \<noteq> ?x" using that by blast
    then show ?thesis by simp
  qed
  then have "\<forall>a. a \<notin> obj_at va sz ` {..<n + Suc k} \<longrightarrow> m a = mem64 s a" using mh(3) by simp
  moreover have "chain_objects (Suc k) n va sz i s =
      s\<lparr>mem64 := m, slab_pages := (slab_pages s)(i := (slab_pages s i)\<lparr>sp_freelist := h\<rparr>)\<rparr>" unfolding step mh(1) by simp
  ultimately show ?case using mh(2) by blast
qed

text \<open>The page \<^verbatim>\<open>slab_grow\<close> sets up, before its objects are chained.\<close>

definition new_page :: "nat \<Rightarrow> u64 \<Rightarrow> phys_addr_t \<Rightarrow> slab_page" where
  "new_page c base pa = zero_slab_page\<lparr>sp_used := True, sp_magic := SLAB_MAGIC, sp_cache := Some c, sp_pa := pa, sp_va := base + pa,
     sp_order := slab_order_for_size (slab_sizes ! c), sp_obj_size := slab_sizes ! c,
     sp_capacity := ucast (push_bit (slab_order_for_size (slab_sizes ! c)) PAGE_SIZE div slab_sizes ! c)\<rparr>"

lemma new_page_wf:
  assumes "c < SLAB_CACHE_COUNT" and "(f, slab_order_for_size (slab_sizes ! c)) \<in> used_set m" and "f < TOTAL_PAGES"
  shows "page_wf m b (new_page c b (pfn_to_pa f))" and "sp_block (new_page c b (pfn_to_pa f)) = (f, slab_order_for_size (slab_sizes ! c))"
  using assms by (auto simp: page_wf_def new_page_def sp_block_def zero_slab_page_def)

lemma new_page_free:
  assumes wf: "page_wf (km_pmm s) (slab_linear_map_base s) p" and ok: "base_ok s" "buddy_inv (km_pmm s)"
    and "sp_inuse p = 0"
  defines "l \<equiv> map (obj_at (sp_va p) (sp_obj_size p)) (rev [0..<unat (sp_capacity p)])"
  shows "freechain m (sp_freelist p) l \<Longrightarrow> page_free m p l" and "set l = objs p" and "l \<noteq> []"
proof -
  show st: "set l = objs p" by (auto simp: l_def objs_def)
  have "distinct l" using card_objs [OF wf ok] by (simp add: l_def distinct_map atLeast0LessThan)
  then show "freechain m (sp_freelist p) l \<Longrightarrow> page_free m p l" using st assms(4) by (simp add: page_free_def) (simp add: l_def)
  show "l \<noteq> []" using page_geometry(3) [OF wf ok] by (simp add: l_def)
qed

lemma live_block:
  assumes inv: "slab_invx E s" and "b \<in> live s"
  obtains u where "u \<in> used_set (km_pmm s)" "brange b \<subseteq> vspan s u"
proof -
  consider i where "i \<in> slab_used s" "b \<in> page_live (mem64 s) (slab_pages s i)" | "b \<in> live_large s"
    using assms(2) by (auto simp: live_def live_objs_def)
  then show ?thesis
  proof cases
    case (1 i)
    then show ?thesis using that slab_block_used [OF inv 1(1)] page_live_range(1) [OF inv 1] by blast
  next
    case 2
    then obtain j where "j \<in> large_used s" "brange b = vspan s (la_block (large_allocs s j))" by (rule live_large_range [OF inv])
    then show ?thesis using that large_block_used [OF inv, of j] by blast
  qed
qed

definition kept :: "(u64 \<times> nat) set \<Rightarrow> 'a kslab_scheme \<Rightarrow> 'a kslab_scheme \<Rightarrow> bool" where
  "kept L s t \<longleftrightarrow> (\<forall>b \<in> L. \<forall>a. unat a \<in> brange b \<longrightarrow> mem64 t a = mem64 s a)"

lemma kept_same: "mem64 t = mem64 s \<Longrightarrow> kept L s t"
  by (simp add: kept_def)

lemma find_unused:
  assumes "find P [0..<n] = Some i"
  shows "i < n" and "P i"
  using assms by (auto simp: find_Some_iff)

lemma grow_state:
  assumes inv: "slab_inv s" and c: "c < SLAB_CACHE_COUNT" and i: "i < MAX_SLAB_PAGES" "i \<notin> slab_used s"
    and al: "alloc_phys_pages (slab_order_for_size (slab_sizes ! c)) g (km_pmm s) = (pa, pm)" and pa: "pa \<noteq> 0"
  defines "p \<equiv> new_page c (slab_linear_map_base s) pa"
  defines "s3 \<equiv> s\<lparr>km_pmm := pm, slab_pages := (slab_pages s)(i := p)\<rparr>"
  defines "t \<equiv> slab_cache_add_page c i (chain_objects (unat (sp_capacity p)) 0 (sp_va p) (sp_obj_size p) i s3)"
  shows "slab_invx {i} t" and "live t = live s" and "i \<in> slab_used t" and "sp_freelist (slab_pages t i) \<noteq> 0"
    and "sp_obj_size (slab_pages t i) = slab_sizes ! c" and "kept (live s) s t"
proof -
  obtain f where f: "pa = pfn_to_pa f" "(f, slab_order_for_size (slab_sizes ! c)) \<notin> used_set (km_pmm s)"
    "used_set pm = insert (f, slab_order_for_size (slab_sizes ! c)) (used_set (km_pmm s))" "buddy_inv pm" "f < TOTAL_PAGES"
    by (rule pages.alloc_nonzero [OF slab_invxD(1) [OF inv] al pa])
  have wf: "page_wf pm (slab_linear_map_base s) p" and blk: "sp_block p = (f, slab_order_for_size (slab_sizes ! c))"
    unfolding p_def f(1) using new_page_wf [OF c, of f pm] f by simp_all
  have b3: "base_ok s3" using slab_invxD(2) [OF inv] by (simp add: s3_def base_ok_def)
  have wf3: "page_wf (km_pmm s3) (slab_linear_map_base s3) p" and bud3: "buddy_inv (km_pmm s3)" using wf f(4) by (simp_all add: s3_def)
  let ?l = "map (obj_at (sp_va p) (sp_obj_size p)) (rev [0..<unat (sp_capacity p)])"
  have nz: "j < unat (sp_capacity p) \<Longrightarrow> obj_at (sp_va p) (sp_obj_size p) j \<noteq> 0" for j
    by (rule objs_range(2) [OF wf3 b3 bud3]) (simp add: objs_def)
  have "\<exists>m h. chain_objects (unat (sp_capacity p)) 0 (sp_va p) (sp_obj_size p) i s3 =
      s3\<lparr>mem64 := m, slab_pages := (slab_pages s3)(i := (slab_pages s3 i)\<lparr>sp_freelist := h\<rparr>)\<rparr> \<and> freechain m h ?l \<and>
      (\<forall>a. a \<notin> obj_at (sp_va p) (sp_obj_size p) ` {..<unat (sp_capacity p)} \<longrightarrow> m a = mem64 s3 a)"
    using chain_objects_spec [of "sp_va p" "sp_obj_size p" 0 "unat (sp_capacity p)" s3 i] card_objs [OF wf3 b3 bud3] nz
    by (simp add: s3_def p_def new_page_def zero_slab_page_def)
  then obtain m h where mh: "chain_objects (unat (sp_capacity p)) 0 (sp_va p) (sp_obj_size p) i s3 =
      s3\<lparr>mem64 := m, slab_pages := (slab_pages s3)(i := (slab_pages s3 i)\<lparr>sp_freelist := h\<rparr>)\<rparr>" "freechain m h ?l"
      "\<And>a. a \<notin> objs p \<Longrightarrow> m a = mem64 s a" by (auto simp: objs_def s3_def)
  let ?q = "p\<lparr>sp_freelist := h, sp_next := sc_partial (slab_caches s c)\<rparr>"
  have t: "t = s\<lparr>km_pmm := pm, mem64 := m, slab_pages := (slab_pages s)(i := ?q),
      slab_caches := (slab_caches s)(c := (slab_caches s c)\<lparr>sc_partial := Some i\<rparr>)\<rparr>"
    unfolding t_def mh(1) by (simp add: slab_cache_add_page_def Let_def upd_sp_def upd_sc_def s3_def)
  have wq: "page_wf (km_pmm s3) (slab_linear_map_base s3) (p\<lparr>sp_freelist := h\<rparr>)" using wf3 by simp
  have p0: "sp_inuse p = 0" by (simp add: p_def new_page_def zero_slab_page_def)
  have free: "page_free m ?q ?l" and lo: "set ?l = objs ?q" and ln: "?l \<noteq> []"
    using new_page_free(1) [OF wq b3 bud3, of m] new_page_free(2,3) [OF wq b3 bud3] mh(2) p0 by (simp_all del: map_is_Nil_conv set_map)
  have "slab_invx (insert i {}) t \<and> live_rest i t = live s \<and> i \<in> slab_used t"
    by (intro conjI; rule inv_page_add [OF inv i c, where p = ?q and fl = ?l];
      use f blk mh(3) wf free in \<open>simp add: t p_def new_page_def; fail\<close>)
  then have lr: "live_rest i t = live s" and st: "slab_invx {i} t" "i \<in> slab_used t" by simp_all
  then show "slab_invx {i} t" "i \<in> slab_used t" by simp_all
  have "page_live (mem64 t) (slab_pages t i) = {}" using page_live_eq [OF free] lo by (simp add: t)
  then show "live t = live s" using live_split [OF st(2)] lr by simp
  show "sp_obj_size (slab_pages t i) = slab_sizes ! c" by (simp add: t p_def new_page_def)
  show "sp_freelist (slab_pages t i) \<noteq> 0"
  proof
    assume "sp_freelist (slab_pages t i) = 0"
    then have "h = 0" by (simp add: t)
    then show False using mh(2) ln by (cases ?l) auto
  qed
  show "kept (live s) s t"
    unfolding kept_def
  proof (intro ballI allI impI)
    fix b and a :: u64
    assume b: "b \<in> live s" and a: "unat a \<in> brange b"
    obtain u where u: "u \<in> used_set (km_pmm s)" "brange b \<subseteq> vspan s u" by (rule live_block [OF inv b])
    have "vspan s u \<inter> vspan s (sp_block p) = {}"
      using u(1) f(2,3) blk by (intro vspan_disjoint pages.blocks_apart [OF f(4)]) auto
    moreover have "unat a \<in> vspan s (sp_block p)" if "a \<in> objs p"
      using objs_range(3) [OF wf3 b3 bud3 that] by (simp add: vspan_def s3_def)
    ultimately have "a \<notin> objs p" using a u(2) by blast
    then show "mem64 t a = mem64 s a" by (simp add: t mh(3))
  qed
qed

lemma inv_meta_frame:
  assumes inv: "slab_inv s" and bud: "buddy_inv m" "used_set m = used_set (km_pmm s)"
    and t: "t = s\<lparr>km_pmm := m, slab_pages := (slab_pages s)(i := p)\<rparr>" "i \<notin> slab_used s" "\<not> sp_used p"
  shows "slab_inv t" and "live t = live s"
proof -
  have su: "slab_used t = slab_used s" using t by (auto simp: slab_used_def)
  have sp: "j \<in> slab_used s \<Longrightarrow> slab_pages t j = slab_pages s j" for j using t by auto
  have b: "buddy_inv (km_pmm t)" "used_set (km_pmm s) \<subseteq> used_set (km_pmm t)" using bud t(1) by simp_all
  note fr = inv_frame [OF inv b su sp]
  show "slab_inv t" by (rule fr(1)) (simp_all add: t(1) large_used_def)
  show "live t = live s" by (rule fr(2)) (simp_all add: t(1) large_used_def)
qed

lemma slab_capacity_nonzero:
  "c < SLAB_CACHE_COUNT \<Longrightarrow> (ucast (push_bit (slab_order_for_size (slab_sizes ! c)) PAGE_SIZE div slab_sizes ! c) :: u32) \<noteq> 0"
  using slab_size_facts(4) [of c] by (metis mult_eq_0_iff power_not_zero unsigned_0 zero_neq_numeral)

lemma slab_grow_ok:
  assumes inv: "slab_inv s" and c: "c < SLAB_CACHE_COUNT" and g: "slab_grow c g s = (r, t)"
  shows "r = None \<Longrightarrow> slab_inv t \<and> live t = live s \<and> mem64 t = mem64 s"
    and "r = Some i \<Longrightarrow> slab_invx {i} t \<and> live t = live s \<and> i \<in> slab_used t \<and> sp_freelist (slab_pages t i) \<noteq> 0 \<and>
      sp_obj_size (slab_pages t i) = slab_sizes ! c \<and> kept (live s) s t"
proof -
  have sz: "sc_size (slab_caches s c) = slab_sizes ! c" using slab_invxD(6) [OF inv c] by (simp add: cache_ok_def)
  note cap = slab_capacity_nonzero [OF c]
  let ?f = "find (\<lambda>i. \<not> sp_used (slab_pages s i)) [0..<MAX_SLAB_PAGES]"
  obtain pa pm where al: "alloc_phys_pages (slab_order_for_size (slab_sizes ! c)) g (km_pmm s) = (pa, pm)" by fastforce
  consider "?f = None" "r = None" "t = s"
    | j where "?f = Some j" "pa = 0" "r = None" "t = s\<lparr>km_pmm := pm, slab_pages := (slab_pages s)(j := zero_slab_page)\<rparr>"
    | j where "?f = Some j" "pa \<noteq> 0" "r = Some j"
      "t = (let p = new_page c (slab_linear_map_base s) pa in slab_cache_add_page c j
        (chain_objects (unat (sp_capacity p)) 0 (sp_va p) (sp_obj_size p) j (s\<lparr>km_pmm := pm, slab_pages := (slab_pages s)(j := p)\<rparr>)))"
    using g cap al
    by (cases ?f; cases "pa = 0")
      (auto simp: slab_grow_def sz Let_def alloc_slab_page_meta_def km_alloc_phys_pages_def free_slab_page_meta_def upd_sp_def
        phys_to_virt_def new_page_def zero_slab_page_def)
  note cs = this
  have un: "j < MAX_SLAB_PAGES \<and> j \<notin> slab_used s" if "?f = Some j" for j using find_unused [OF that] by (simp add: slab_used_def)
  show "slab_inv t \<and> live t = live s \<and> mem64 t = mem64 s" if "r = None"
    using cs
  proof cases
    case (2 j)
    then have b: "buddy_inv pm" "used_set pm = used_set (km_pmm s)"
      using pages.alloc_zero [OF slab_invxD(1) [OF inv], of _ g pm] al by auto
    show ?thesis using inv_meta_frame [OF inv b 2(4)] un [OF 2(1)] 2(4) by (simp add: zero_slab_page_def)
  qed (use inv that in simp_all)
  show "slab_invx {i} t \<and> live t = live s \<and> i \<in> slab_used t \<and> sp_freelist (slab_pages t i) \<noteq> 0 \<and>
      sp_obj_size (slab_pages t i) = slab_sizes ! c \<and> kept (live s) s t" if "r = Some i"
    using cs
  proof cases
    case (3 j)
    then have "j = i" using that by simp
    then show ?thesis using grow_state [OF inv c _ _ al 3(2), of i] un 3(1,4) by (simp add: Let_def)
  qed (use that in simp_all)
qed

text \<open>An allocation from a cache: nothing, or one new block of the size of the cache.\<close>

definition handed_out :: "nat \<Rightarrow> u64 \<Rightarrow> 'a kslab_scheme \<Rightarrow> 'a kslab_scheme \<Rightarrow> bool" where
  "handed_out n x s t \<longleftrightarrow> slab_inv t \<and> kept (live s) s t \<and>
     (if x = 0 then live t = live s else (\<exists>k. n \<le> k \<and> (x, k) \<notin> live s \<and> live t = insert (x, k) (live s)))"

lemma take_handed_out:
  assumes inv: "slab_invx E s" and E: "E \<subseteq> {i}" and i: "i \<in> slab_used s" and fr: "sp_freelist (slab_pages s i) \<noteq> 0"
    and s0: "live s = live s0" "kept (live s0) s0 s" and n: "n \<le> unat (sp_obj_size (slab_pages s i))"
  shows "\<exists>x t. take_object i s = (x, t) \<and> handed_out n x s0 t"
proof -
  obtain x t where t: "take_object i s = (x, t)" by fastforce
  note tk = take_object_ok [OF inv E i fr t]
  let ?b = "(x, unat (sp_obj_size (slab_pages s i)))"
  have "unat x \<in> brange ?b" using page_geometry(2) [OF slab_invxD(3) [OF inv i] slab_invxD(2,1) [OF inv]] by (simp add: brange_def)
  then have "?b \<notin> live_rest i s" using live_rest_apart [OF inv i, of ?b] inv_objs_range(1) [OF inv i tk(6)] by blast
  then have "?b \<notin> live s0" using tk(3) live_split [OF i] s0(1) by simp
  moreover have "kept (live s0) s0 t" using s0(2) tk(5) by (simp add: kept_def)
  ultimately have "handed_out n x s0 t" using tk(1,2,4) s0(1) n by (auto simp: handed_out_def)
  with t show ?thesis by blast
qed

lemma slab_alloc_ok:
  assumes inv: "slab_inv s" and c: "c < SLAB_CACHE_COUNT"
  shows "\<exists>x t. slab_alloc c g s = Some (x, t) \<and> handed_out (unat (slab_sizes ! c)) x s t"
proof -
  obtain ps where ps: "pchain s (sc_partial (slab_caches s c)) ps" "distinct ps"
    "set ps = {j \<in> slab_used s. sp_cache (slab_pages s j) = Some c}" "length ps \<le> MAX_SLAB_PAGES" by (rule cache_list [OF inv c])
  obtain r where r: "find_partial (MAX_SLAB_PAGES + 1) s (sc_partial (slab_caches s c)) = Some r"
    "\<And>i. r = Some i \<Longrightarrow> i \<in> set ps \<and> sp_freelist (slab_pages s i) \<noteq> 0"
    using find_partial_spec [OF ps(1), of "MAX_SLAB_PAGES + 1"] ps(4) by auto
  show ?thesis
  proof (cases r)
    case (Some i)
    then have i: "i \<in> slab_used s" "sp_freelist (slab_pages s i) \<noteq> 0" "sp_cache (slab_pages s i) = Some c" using r(2) ps(3) by auto
    then have "sp_obj_size (slab_pages s i) = slab_sizes ! c" using slab_invxD(3) [OF inv i(1)] by (auto simp: page_wf_def)
    then have "\<exists>x t. take_object i s = (x, t) \<and> handed_out (unat (slab_sizes ! c)) x s t"
      by (intro take_handed_out [OF inv _ i(1,2)]) (simp_all add: kept_same)
    then show ?thesis using r(1) Some by (auto simp: slab_alloc_def)
  next
    case None
    obtain q t1 where g: "slab_grow c g s = (q, t1)" by fastforce
    show ?thesis
    proof (cases q)
      case None
      then show ?thesis using slab_grow_ok(1) [OF inv c g] r(1) \<open>r = None\<close> g
        by (auto simp: slab_alloc_def handed_out_def kept_same)
    next
      case (Some i)
      then have t1: "slab_invx {i} t1" "live t1 = live s" "i \<in> slab_used t1" "sp_freelist (slab_pages t1 i) \<noteq> 0"
        "sp_obj_size (slab_pages t1 i) = slab_sizes ! c" "kept (live s) s t1" using slab_grow_ok(2) [OF inv c g, of i] by simp_all
      then have "\<exists>x t. take_object i t1 = (x, t) \<and> handed_out (unat (slab_sizes ! c)) x s t"
        by (intro take_handed_out [OF t1(1) _ t1(3,4,2,6)]) simp_all
      then show ?thesis using r(1) \<open>r = None\<close> g Some by (auto simp: slab_alloc_def)
    qed
  qed
qed

section \<open>Live blocks are apart\<close>

lemma page_live_apart:
  assumes inv: "slab_invx E s" and i: "i \<in> slab_used s" and b: "b \<in> page_live m (slab_pages s i)" "c \<in> page_live m (slab_pages s i)" "b \<noteq> c"
  shows "brange b \<inter> brange c = {}"
proof -
  obtain x y where "b = (x, unat (sp_obj_size (slab_pages s i)))" "c = (y, unat (sp_obj_size (slab_pages s i)))"
    "x \<in> objs (slab_pages s i)" "y \<in> objs (slab_pages s i)" using b by (auto simp: page_live_def)
  then show ?thesis using objs_apart [OF slab_invxD(3) [OF inv i] slab_invxD(2,1) [OF inv]] b(3) by auto
qed

lemma live_apart:
  assumes inv: "slab_invx E s" and b: "b \<in> live s" "c \<in> live s" "b \<noteq> c"
  shows "brange b \<inter> brange c = {}"
proof -
  have page: "brange b \<inter> brange c = {}" if "i \<in> slab_used s" "b \<in> page_live (mem64 s) (slab_pages s i)" "c \<in> live s" "b \<noteq> c" for b c i
  proof (cases "c \<in> live_rest i s")
    case True
    then show ?thesis using live_rest_apart [OF inv that(1) True] page_live_range(1) [OF inv that(1,2)] by blast
  next
    case False
    then have "c \<in> page_live (mem64 s) (slab_pages s i)" using that(3) live_split [OF that(1)] by simp
    then show ?thesis using page_live_apart [OF inv that(1,2)] that(4) by blast
  qed
  consider i where "i \<in> slab_used s" "b \<in> page_live (mem64 s) (slab_pages s i)"
    | i where "i \<in> slab_used s" "c \<in> page_live (mem64 s) (slab_pages s i)"
    | "b \<in> live_large s" "c \<in> live_large s" using b by (auto simp: live_def live_objs_def)
  then show ?thesis
  proof cases
    case 1
    then show ?thesis using page b by blast
  next
    case 2
    then show ?thesis using page [OF 2 b(1)] b(3) by blast
  next
    case 3
    obtain j where j: "j \<in> large_used s" "brange b = vspan s (la_block (large_allocs s j))"
      "b = (la_va (large_allocs s j), 4096 * 2 ^ la_order (large_allocs s j))" using 3(1) by (rule live_large_range [OF inv])
    obtain k where k: "k \<in> large_used s" "brange c = vspan s (la_block (large_allocs s k))"
      "c = (la_va (large_allocs s k), 4096 * 2 ^ la_order (large_allocs s k))" using 3(2) by (rule live_large_range [OF inv])
    have "j \<noteq> k" using j(3) k(3) b(3) by auto
    then show ?thesis using large_apart [OF inv j(1) k(1), of s] j(2) k(2) by simp
  qed
qed

lemma live_nonempty:
  assumes inv: "slab_invx E s" and b: "b \<in> live s"
  shows "unat (fst b) \<in> brange b"
proof -
  have "0 < snd b" using b
  proof (cases "b \<in> live_large s")
    case True
    then show ?thesis by (auto simp: live_large_def)
  next
    case False
    then obtain i where "i \<in> slab_used s" "b \<in> page_live (mem64 s) (slab_pages s i)" using b by (auto simp: live_def live_objs_def)
    then show ?thesis by (rule page_live_range(2) [OF inv])
  qed
  then show ?thesis by (simp add: brange_def)
qed

lemma kept_outside:
  assumes inv: "slab_invx E s" and b: "b \<in> live s" and m: "\<And>a. a \<noteq> fst b \<Longrightarrow> mem64 t a = mem64 s a"
  shows "kept (live s - {b}) s t"
  unfolding kept_def
proof (intro ballI allI impI)
  fix c and a :: u64
  assume c: "c \<in> live s - {b}" and a: "unat a \<in> brange c"
  have "unat (fst b) \<notin> brange c" using live_apart [OF inv b, of c] live_nonempty [OF inv b] c by blast
  then have "a \<noteq> fst b" using a by auto
  then show "mem64 t a = mem64 s a" by (rule m)
qed

section \<open>Freeing an object\<close>

lemma slab_page_covers_vspan:
  assumes inv: "slab_invx E s" and j: "j < MAX_SLAB_PAGES"
  shows "slab_page_covers s x j \<longleftrightarrow> j \<in> slab_used s \<and> unat x \<in> vspan s (sp_block (slab_pages s j))"
proof (cases "j \<in> slab_used s")
  case True
  let ?p = "slab_pages s j"
  note wf = slab_invxD(3) [OF inv True]
  note g = page_geometry [OF wf slab_invxD(2,1) [OF inv]]
  have lt: "4096 * 2 ^ sp_order ?p < (2 :: nat) ^ 64" using g(5) by simp
  then have "unat (push_bit (sp_order ?p) PAGE_SIZE) = 4096 * 2 ^ sp_order ?p"
    by (subst unat_push_bit_noov) (simp_all add: PAGE_SIZE_def)
  then have "unat (sp_va ?p + push_bit (sp_order ?p) PAGE_SIZE) = unat (sp_va ?p) + 4096 * 2 ^ sp_order ?p"
    using g(5) by (simp add: unat_add_noov)
  then have "slab_page_covers s x j \<longleftrightarrow> unat (sp_va ?p) \<le> unat x \<and> unat x < unat (sp_va ?p) + 4096 * 2 ^ sp_order ?p"
    using True wf by (simp add: slab_page_covers_def slab_used_def page_wf_def word_le_nat_alt word_less_nat_alt)
  then show ?thesis using True by (auto simp: vspan_def g(4) sp_block_def)
next
  case False
  then show ?thesis using j by (simp add: slab_page_covers_def slab_used_def)
qed

lemma slab_find_page_ok:
  assumes inv: "slab_invx E s" and i: "i \<in> slab_used s" and x: "unat x \<in> vspan s (sp_block (slab_pages s i))"
  shows "slab_find_page_by_va x s = Some i"
proof -
  have lt: "i < MAX_SLAB_PAGES" using i by (simp add: slab_used_def)
  have "slab_page_covers s x i" using slab_page_covers_vspan [OF inv lt] i x by simp
  then obtain j where j: "slab_find_page_by_va x s = Some j"
    using lt unfolding slab_find_page_by_va_def by (cases "find (slab_page_covers s x) [0..<MAX_SLAB_PAGES]") (auto simp: find_None_iff)
  then have "j < MAX_SLAB_PAGES" "slab_page_covers s x j" using find_unused unfolding slab_find_page_by_va_def by auto
  then have "j \<in> slab_used s" "unat x \<in> vspan s (sp_block (slab_pages s j))" using slab_page_covers_vspan [OF inv] by simp_all
  then have "j = i" using slab_pages_apart [OF inv _ i, of j s] x by blast
  then show ?thesis using j by simp
qed

lemma page_free_put:
  assumes "page_free m p fl" and "x \<in> objs p" "x \<notin> set fl" "x \<noteq> 0" and "sp_inuse p \<noteq> 0"
  shows "page_free (m(x := sp_freelist p)) (p\<lparr>sp_freelist := x, sp_inuse := sp_inuse p - 1\<rparr>) (x # fl)"
proof -
  have "freechain (m(x := sp_freelist p)) (sp_freelist p) fl = freechain m (sp_freelist p) fl"
    using assms(3) by (intro freechain_cong) auto
  moreover have "unat (sp_inuse p - 1) + 1 = unat (sp_inuse p)" using assms(5) by (simp add: unat_minus_one unat_gt_0)
  ultimately show ?thesis using assms by (auto simp: page_free_def)
qed

lemma slab_free_obj_ok:
  assumes inv: "slab_inv s" and i: "i \<in> slab_used s" and b: "(x, n) \<in> page_live (mem64 s) (slab_pages s i)"
  shows "\<exists>t. slab_free_obj x s = Some t \<and> slab_inv t \<and> live t = live s - {(x, n)} \<and> kept (live s - {(x, n)}) s t"
proof -
  let ?p = "slab_pages s i"
  obtain fl where fl: "page_free (mem64 s) ?p fl" "x \<in> objs ?p" "x \<notin> set fl" "n = unat (sp_obj_size ?p)"
    using b by (auto simp: page_live_def)
  note wf = slab_invxD(3) [OF inv i]
  have card: "card (objs ?p) = unat (sp_capacity ?p)"
    using card_image [OF card_objs [OF wf slab_invxD(2,1) [OF inv]]] by (simp add: objs_def)
  have x: "x \<noteq> 0" "unat x \<in> vspan s (sp_block ?p)" using inv_objs_range(2,3) [OF inv i fl(2)] by simp_all
  have iu: "sp_inuse ?p \<noteq> 0" using slab_invxD(5) [OF inv i] by simp
  let ?q = "?p\<lparr>sp_freelist := x, sp_inuse := sp_inuse ?p - 1\<rparr>"
  let ?u = "s\<lparr>mem64 := (mem64 s)(x := sp_freelist ?p), slab_pages := (slab_pages s)(i := ?q)\<rparr>"
  have step: "slab_free_obj x s = (if sp_inuse ?p - 1 = 0 then slab_destroy_page i ?u else Some ?u)"
    using iu by (simp add: slab_free_obj_def slab_find_page_ok [OF inv i x(2)] Let_def store64_def upd_sp_def)
  have q: "page_free (mem64 ?u) ?q (x # fl)" using page_free_put [OF fl(1-3) x(1) iu] by simp
  have wq: "page_wf (km_pmm s) (slab_linear_map_base s) ?q" using wf by simp
  let ?E = "if sp_inuse ?p - 1 = 0 then {i} else {}"
  have m: "a \<notin> objs ?p \<Longrightarrow> mem64 ?u a = mem64 s a" for a using fl(2) by auto
  have up: "slab_invx ?E ?u" "live ?u = page_live (mem64 ?u) ?q \<union> live_rest i s"
    by (rule inv_page_update [OF inv i, where p = ?q and fl = "x # fl" and E' = ?E]; use m q wq i in \<open>simp add: slab_used_def; fail\<close>)+
  have pl: "page_live (mem64 ?u) ?q = page_live (mem64 s) ?p - {(x, n)}"
    unfolding page_live_eq [OF q] page_live_eq [OF fl(1)] fl(4) by auto
  have "(x, n) \<notin> live_rest i s"
    using live_rest_apart [OF inv i, of "(x, n)"] x(2) live_nonempty [OF inv, of "(x, n)"] b live_split [OF i] by auto
  then have lu: "live ?u = live s - {(x, n)}" unfolding up(2) pl live_split [OF i] by blast
  have kp: "kept (live s - {(x, n)}) s ?u" using b live_split [OF i] by (intro kept_outside [OF inv]) auto
  show ?thesis
  proof (cases "sp_inuse ?p - 1 = 0")
    case False
    then show ?thesis using up(1) step lu kp by auto
  next
    case True
    have ui: "i \<in> slab_used ?u" using i by (simp add: slab_used_def)
    have inv': "slab_invx {i} ?u" using up(1) True by simp
    then obtain t where t: "slab_destroy_page i ?u = Some t" "slab_inv t" "live t = live_rest i ?u" "mem64 t = mem64 ?u"
      using slab_destroy_page_ok [OF inv' ui] by blast
    have "set (x # fl) = objs ?q"
      using q True card by (intro card_subset_eq) (auto simp: page_free_def distinct_card)
    then have "page_live (mem64 ?u) (slab_pages ?u i) = {}" using page_live_eq [OF q] by simp
    then have "live t = live ?u" using live_split [OF ui] t(3) by simp
    then show ?thesis using t step True lu kp by (simp add: kept_def)
  qed
qed

section \<open>Large blocks\<close>

abbreviation la_extent :: "'a kslab_scheme \<Rightarrow> nat \<Rightarrow> u64 \<times> nat" where
  "la_extent s j \<equiv> (la_va (large_allocs s j), 4096 * 2 ^ la_order (large_allocs s j))"

text \<open>
  A change of the page allocator and of one entry of the table of large blocks. The slab pages stay
  when their blocks are still there.
\<close>

lemma inv_large_change:
  assumes inv: "slab_inv s" and bud: "buddy_inv m" and t: "t = s\<lparr>km_pmm := m, large_allocs := (large_allocs s)(i := l)\<rparr>"
    and b: "\<And>j. j \<in> slab_used s \<Longrightarrow> sp_block (slab_pages s j) \<in> used_set m"
      "\<And>j. j \<in> large_used s \<Longrightarrow> j \<noteq> i \<Longrightarrow> la_block (large_allocs s j) \<in> used_set m"
    and l: "la_used l \<Longrightarrow> i < MAX_LARGE_ALLOCS \<and> large_wf m (slab_linear_map_base s) l \<and>
      (\<forall>j \<in> slab_used s. sp_block (slab_pages s j) \<noteq> la_block l) \<and> (\<forall>j \<in> large_used s. j \<noteq> i \<longrightarrow> la_block (large_allocs s j) \<noteq> la_block l)"
  shows "slab_inv t" and "live t = live_objs s \<union> la_extent t ` large_used t"
    and "large_used t = large_used s - {i} \<union> (if la_used l then {i} else {})"
proof -
  have su: "slab_used t = slab_used s" by (simp add: slab_used_def t)
  show lu: "large_used t = large_used s - {i} \<union> (if la_used l then {i} else {})" using l by (auto simp: large_used_def t)
  have sl: "slabs_ok {} t" "live_objs t = live_objs s"
    by (rule slabs_ok_frame [of "{}" s]; use inv su b in \<open>simp add: slab_invx_parts t; fail\<close>)+
  have mem: "j \<in> large_used t \<Longrightarrow> j = i \<and> la_used l \<or> j \<noteq> i \<and> j \<in> large_used s" for j unfolding lu by (auto split: if_splits)
  have "larges_ok t" unfolding larges_ok_def
  proof
    show "\<forall>j \<in> large_used t. large_wf (km_pmm t) (slab_linear_map_base t) (large_allocs t j)"
    proof
      fix j assume "j \<in> large_used t"
      then show "large_wf (km_pmm t) (slab_linear_map_base t) (large_allocs t j)"
        using mem [of j] l slab_invxD(8) [OF inv, of j] b(2) [of j] by (auto simp: t intro: large_wf_mono)
    qed
    show "inj_on (\<lambda>j. la_block (large_allocs t j)) (large_used t)"
    proof (rule inj_onI)
      fix j k assume "j \<in> large_used t" "k \<in> large_used t" "la_block (large_allocs t j) = la_block (large_allocs t k)"
      then show "j = k" using mem [of j] mem [of k] l inj_onD [OF slab_invxD(9) [OF inv], of j k]
        by (auto simp: t split: if_splits)
    qed
  qed
  moreover have "apart_ok t" unfolding apart_ok_def su
  proof (intro ballI)
    fix j k assume "j \<in> slab_used s" "k \<in> large_used t"
    then show "sp_block (slab_pages t j) \<noteq> la_block (large_allocs t k)"
      using mem [of k] l slab_invxD(10) [OF inv, of j k] by (auto simp: t)
  qed
  moreover have "base_ok t" using slab_invxD(2) [OF inv] by (simp add: base_ok_def t)
  ultimately show "slab_inv t" using sl(1) bud by (simp add: slab_invx_parts t)
  show "live t = live_objs s \<union> la_extent t ` large_used t"
    by (simp add: live_def sl(2) live_large_def)
qed

lemma live_large_update:
  assumes "live t = live_objs s \<union> la_extent t ` large_used t"
    and "large_used t = large_used s - {i} \<union> U" and "U \<subseteq> {i}" and "\<And>j. j \<noteq> i \<Longrightarrow> large_allocs t j = large_allocs s j" and "i \<notin> large_used s"
  shows "live t = live s \<union> la_extent t ` U"
proof -
  have "j \<in> large_used s \<Longrightarrow> large_allocs t j = large_allocs s j" for j using assms(4) [of j] assms(5) by (cases "j = i") auto
  then have "la_extent t ` (large_used s - {i}) = la_extent s ` large_used s" using assms(5) by (intro image_cong) auto
  then show ?thesis unfolding assms(1) unfolding assms(2) live_def live_large_def image_Un by (simp only: Un_assoc)
qed

lemma large_alloc_block_ok:
  assumes inv: "slab_inv s" and sz: "0 < sz" "sz \<le> SZ_4M" and r: "large_alloc_block sz g s = (x, t)"
  shows "handed_out (unat sz) x s t"
proof -
  let ?f = "find (\<lambda>i. \<not> la_used (large_allocs s i)) [0..<MAX_LARGE_ALLOCS]" and ?o = "get_order_ul sz"
  obtain pa pm where al: "alloc_phys_pages ?o g (km_pmm s) = (pa, pm)" by fastforce
  let ?l = "\<lparr>la_magic = LARGE_MAGIC, la_va = slab_linear_map_base s + pa, la_pa = pa, la_size = sz, la_order = ?o, la_used = True\<rparr>"
  consider "?f = None" "x = 0" "t = s"
    | j where "?f = Some j" "pa = 0" "x = 0" "t = s\<lparr>km_pmm := pm, large_allocs := (large_allocs s)(j := zero_large_alloc)\<rparr>"
    | j where "?f = Some j" "pa \<noteq> 0" "x = slab_linear_map_base s + pa" "t = s\<lparr>km_pmm := pm, large_allocs := (large_allocs s)(j := ?l)\<rparr>"
    using r al by (cases ?f; cases "pa = 0")
      (auto simp: large_alloc_block_def Let_def alloc_large_meta_def km_alloc_phys_pages_def free_large_meta_def upd_la_def
        phys_to_virt_def zero_large_alloc_def)
  then show ?thesis
  proof cases
    case 1
    then show ?thesis using inv by (simp add: handed_out_def kept_same)
  next
    case (2 j)
    have j: "j \<notin> large_used s" using find_unused [OF 2(1)] by (simp add: large_used_def)
    have b: "buddy_inv pm" "used_set pm = used_set (km_pmm s)"
      using pages.alloc_zero [OF slab_invxD(1) [OF inv], of _ g pm] al 2(2) by auto
    note ch = inv_large_change [OF inv b(1) 2(4)]
    have st: "slab_inv t" "live t = live_objs s \<union> la_extent t ` large_used t"
      "large_used t = large_used s - {j} \<union> {}"
      using ch b(2) slab_block_used [OF inv] large_block_used [OF inv] by (simp_all add: zero_large_alloc_def)
    have "live t = live s" using live_large_update [OF st(2,3)] j 2(4) by simp
    then show ?thesis using st(1) 2 by (simp add: handed_out_def kept_same)
  next
    case (3 j)
    have j: "j < MAX_LARGE_ALLOCS" "j \<notin> large_used s" using find_unused [OF 3(1)] by (simp_all add: large_used_def)
    obtain f where f: "pa = pfn_to_pa f" "(f, ?o) \<notin> used_set (km_pmm s)" "used_set pm = insert (f, ?o) (used_set (km_pmm s))"
      "buddy_inv pm" "pa_to_pfn pa = f" "f < TOTAL_PAGES" by (rule pages.alloc_nonzero [OF slab_invxD(1) [OF inv] al 3(2)])
    have lb: "la_block ?l = (f, ?o)" by (simp add: la_block_def f(5))
    have wf: "large_wf pm (slab_linear_map_base s) ?l" using f(1,3,5) lb by (simp add: large_wf_def)
    note ch = inv_large_change [OF inv f(4) 3(4)]
    have nb: "sp_block (slab_pages s k) \<noteq> (f, ?o)" if "k \<in> slab_used s" for k using slab_block_used [OF inv that] f(2) by auto
    have nl: "la_block (large_allocs s k) \<noteq> (f, ?o)" if "k \<in> large_used s" for k using large_block_used [OF inv that] f(2) by auto
    have st: "slab_inv t" "live t = live_objs s \<union> la_extent t ` large_used t"
      "large_used t = large_used s - {j} \<union> {j}"
      using ch f(3) slab_block_used [OF inv] large_block_used [OF inv] j wf nb nl lb by simp_all
    have lv: "live t = insert (x, 4096 * 2 ^ ?o) (live s)" using live_large_update [OF st(2,3)] j 3(3,4) by simp
    have "unat sz \<le> 4194304" using sz(2) by (simp add: word_le_nat_alt SZ_4M_def)
    then have n: "unat sz \<le> 4096 * 2 ^ ?o" using sz(1) by (intro get_order_ul_spec(1)) simp_all
    note lr = large_range [of t ?l]
    have wt: "large_wf (km_pmm t) (slab_linear_map_base t) ?l" "base_ok t" "buddy_inv (km_pmm t)"
      using wf f(4) slab_invxD(2) [OF inv] by (simp_all add: 3(4) base_ok_def)
    have nz: "x \<noteq> 0" using lr(2) [OF wt] 3(3) by auto
    have fresh: "(x, 4096 * 2 ^ ?o) \<notin> live s"
    proof
      assume a: "(x, 4096 * 2 ^ ?o) \<in> live s"
      obtain u where u: "u \<in> used_set (km_pmm s)" "brange (x, 4096 * 2 ^ ?o) \<subseteq> vspan s u" by (rule live_block [OF inv a])
      have "vspan s u \<inter> vspan s (f, ?o) = {}" using u(1) f(2,3) by (intro vspan_disjoint pages.blocks_apart [OF f(4)]) auto
      moreover have "brange (x, 4096 * 2 ^ ?o) = vspan s (f, ?o)" using lr(1) [OF wt] lb 3(3) by (simp add: vspan_def 3(4))
      ultimately show False using u(2) live_nonempty [OF inv a] by blast
    qed
    show ?thesis using st(1) lv n nz fresh by (auto simp: handed_out_def 3(4) kept_same)
  qed
qed

lemma large_find_ok:
  assumes inv: "slab_inv s" and i: "i \<in> large_used s"
  shows "large_find_by_va (la_va (large_allocs s i)) s = Some i"
proof -
  let ?P = "\<lambda>j. la_used (large_allocs s j) \<and> la_magic (large_allocs s j) = LARGE_MAGIC \<and> la_va (large_allocs s j) = la_va (large_allocs s i)"
  have "i < MAX_LARGE_ALLOCS" "?P i" using i slab_invxD(8) [OF inv i] by (simp_all add: large_used_def large_wf_def)
  then obtain j where j: "find ?P [0..<MAX_LARGE_ALLOCS] = Some j" by (cases "find ?P [0..<MAX_LARGE_ALLOCS]") (auto simp: find_None_iff)
  have j': "j \<in> large_used s" "la_va (large_allocs s j) = la_va (large_allocs s i)" using find_unused [OF j] by (simp_all add: large_used_def)
  have "unat (la_va (large_allocs s k)) \<in> vspan s (la_block (large_allocs s k))" if "k \<in> large_used s" for k
    unfolding large_range(1) [OF slab_invxD(8) [OF inv that] slab_invxD(2,1) [OF inv], symmetric] by (simp add: brange_def)
  then have "j = i" using large_apart [OF inv j'(1) i, of s] j' i by (metis disjoint_iff)
  then show ?thesis using j by (simp add: large_find_by_va_def)
qed

lemma large_free_ok:
  assumes inv: "slab_inv s" and i: "i \<in> large_used s"
  shows "slab_inv (large_free i s)" and "live (large_free i s) = live s - {la_extent s i}" and "mem64 (large_free i s) = mem64 s"
proof -
  let ?l = "large_allocs s i"
  have wf: "large_wf (km_pmm s) (slab_linear_map_base s) ?l" by (rule slab_invxD(8) [OF inv i])
  then have b: "(fst (la_block ?l), la_order ?l) \<in> used_set (km_pmm s)" and pa: "la_pa ?l = pfn_to_pa (fst (la_block ?l))"
    by (simp_all add: large_wf_def la_block_def)
  let ?m = "free_phys_pages (la_pa ?l) (la_order ?l) (km_pmm s)"
  have t: "large_free i s = s\<lparr>km_pmm := ?m, large_allocs := (large_allocs s)(i := zero_large_alloc)\<rparr>"
    by (simp add: large_free_def free_large_meta_def upd_la_def km_free_phys_pages_def)
  have bud: "buddy_inv ?m" "used_set ?m = used_set (km_pmm s) - {la_block ?l}"
    using pages.release_block [OF slab_invxD(1) [OF inv] b] unfolding pa by (simp_all add: la_block_def)
  have nb: "la_block (large_allocs s j) \<noteq> la_block ?l" if "j \<in> large_used s" "j \<noteq> i" for j
    using inj_onD [OF slab_invxD(9) [OF inv] _ that(1) i] that(2) by blast
  note ch = inv_large_change [OF inv bud(1) t]
  have st: "slab_inv (large_free i s)" "live (large_free i s) = live_objs s \<union> la_extent (large_free i s) ` large_used (large_free i s)"
    "large_used (large_free i s) = large_used s - {i}"
    using ch bud(2) slab_block_used [OF inv] large_block_used [OF inv] slab_invxD(10) [OF inv _ i] nb by (simp_all add: zero_large_alloc_def)
  then show "slab_inv (large_free i s)" by simp
  show "mem64 (large_free i s) = mem64 s" by (simp add: t)
  have e: "la_extent (large_free i s) ` (large_used s - {i}) = la_extent s ` (large_used s - {i})" by (intro image_cong) (auto simp: t)
  have ne: "la_va (large_allocs s j) \<noteq> la_va ?l" if "j \<in> large_used s" "j \<noteq> i" for j
    using large_find_ok [OF inv that(1)] large_find_ok [OF inv i] that(2) by auto
  have "la_extent s ` (large_used s - {i}) = live_large s - {la_extent s i}" unfolding live_large_def using ne i by auto
  moreover have "la_extent s i \<notin> live_objs s"
  proof
    assume "la_extent s i \<in> live_objs s"
    then obtain j where j: "j \<in> slab_used s" "la_extent s i \<in> page_live (mem64 s) (slab_pages s j)" by (auto simp: live_objs_def)
    have "brange (la_extent s i) = vspan s (la_block ?l)" by (rule large_range(1) [OF wf slab_invxD(2,1) [OF inv]])
    moreover have "unat (fst (la_extent s i)) \<in> brange (la_extent s i)" by (simp add: brange_def)
    ultimately show False using page_live_range(1) [OF inv j] slab_large_apart [OF inv j(1) i, of s] by blast
  qed
  ultimately show "live (large_free i s) = live s - {la_extent s i}" unfolding st(2) unfolding st(3) e live_def by blast
qed

end
