(* ===== verification/Slab_Properties.thy ===== *)
theory Slab_Properties
  imports Slab_Correct
begin

text \<open>
  The contract of \<^verbatim>\<open>kmalloc\<close> and \<^verbatim>\<open>kfree\<close>: both always return; an allocation hands out a block that
  is large enough and overlaps no live block; a release takes back exactly its block; neither
  changes a word of another live block. Together: in every state reached from \<^verbatim>\<open>slab_init\<close> the live
  blocks are pairwise disjoint.
\<close>

section \<open>Set-up\<close>

lemma fold_cache_sizes:
  "fold (\<lambda>i. upd_sc i (\<lambda>x. x\<lparr>sc_size := slab_sizes ! i\<rparr>)) [0..<n] s =
     s\<lparr>slab_caches := (\<lambda>i. if i < n then (slab_caches s i)\<lparr>sc_size := slab_sizes ! i\<rparr> else slab_caches s i)\<rparr>"
proof (induction n)
  case (Suc n)
  have e: "(\<lambda>i. if i < n then (slab_caches s i)\<lparr>sc_size := slab_sizes ! i\<rparr> else slab_caches s i)
      (n := (slab_caches s n)\<lparr>sc_size := slab_sizes ! n\<rparr>) =
    (\<lambda>i. if i < Suc n then (slab_caches s i)\<lparr>sc_size := slab_sizes ! i\<rparr> else slab_caches s i)"
    by (rule ext) (simp add: less_Suc_eq)
  have "fold (\<lambda>i. upd_sc i (\<lambda>x. x\<lparr>sc_size := slab_sizes ! i\<rparr>)) [0..<Suc n] s =
      upd_sc n (\<lambda>x. x\<lparr>sc_size := slab_sizes ! n\<rparr>) (fold (\<lambda>i. upd_sc i (\<lambda>x. x\<lparr>sc_size := slab_sizes ! i\<rparr>)) [0..<n] s)" by simp
  also have "\<dots> = s\<lparr>slab_caches := (\<lambda>i. if i < Suc n then (slab_caches s i)\<lparr>sc_size := slab_sizes ! i\<rparr> else slab_caches s i)\<rparr>"
    unfolding Suc.IH by (simp add: upd_sc_def e)
  finally show ?case .
qed simp

lemma slab_init_state:
  "slab_pages (slab_init s) = (\<lambda>_. zero_slab_page)" "large_allocs (slab_init s) = (\<lambda>_. zero_large_alloc)"
  "slab_caches (slab_init s) = (\<lambda>i. if i < SLAB_CACHE_COUNT then \<lparr>sc_size = slab_sizes ! i, sc_partial = None\<rparr> else \<lparr>sc_size = 0, sc_partial = None\<rparr>)"
  "km_pmm (slab_init s) = km_pmm s" "slab_linear_map_base (slab_init s) = slab_linear_map_base s" "mem64 (slab_init s) = mem64 s"
  by (simp_all add: slab_init_def Let_def fold_cache_sizes fun_eq_iff)

lemma slab_init_ok:
  assumes "buddy_inv (km_pmm s)" and "base_ok s"
  shows "slab_inv (slab_init s)" and "live (slab_init s) = {}"
proof -
  have u: "slab_used (slab_init s) = {}" "large_used (slab_init s) = {}"
    by (simp_all add: slab_used_def large_used_def slab_init_state zero_slab_page_def zero_large_alloc_def)
  have "cache_ok (slab_init s) c" if "c < SLAB_CACHE_COUNT" for c
    using that by (simp add: cache_ok_def u slab_init_state exI [of _ "[]"])
  then show "slab_inv (slab_init s)" using assms by (simp add: slab_invx_def u slab_init_state base_ok_def)
  show "live (slab_init s) = {}" by (simp add: live_def live_objs_def live_large_def u)
qed

section \<open>The interface\<close>

lemma find_slab_cache_ok:
  assumes inv: "slab_inv s" and sz: "sz \<le> SZ_8K"
  obtains c where "find_slab_cache sz s = Some c" "c < SLAB_CACHE_COUNT" "sz \<le> slab_sizes ! c"
proof -
  have size: "sc_size (slab_caches s c) = slab_sizes ! c" if "c < SLAB_CACHE_COUNT" for c
    using slab_invxD(6) [OF inv that] by (simp add: cache_ok_def)
  have "sz \<le> sc_size (slab_caches s 10)" using sz size [of 10] by (simp add: SLAB_CACHE_COUNT_def slab_sizes_def SZ_8K_def)
  then have "find_slab_cache sz s \<noteq> None" by (auto simp: find_slab_cache_def find_None_iff SLAB_CACHE_COUNT_def intro!: exI [of _ 10])
  then obtain c where c: "find_slab_cache sz s = Some c" by blast
  then have "c < SLAB_CACHE_COUNT" "sz \<le> sc_size (slab_caches s c)" using find_unused unfolding find_slab_cache_def by auto
  then show ?thesis using that c size by simp
qed

lemma handed_out_mono: "handed_out n x s t \<Longrightarrow> m \<le> n \<Longrightarrow> handed_out m x s t"
  by (auto simp: handed_out_def) (metis le_trans)

lemma kmalloc_ok:
  assumes inv: "slab_inv s"
  shows "\<exists>x t. kmalloc sz g s = Some (x, t) \<and> handed_out (unat sz) x s t"
proof -
  have none: "handed_out n 0 s s" for n using inv by (simp add: handed_out_def kept_same)
  consider "sz = 0 \<or> SZ_4M < sz" | "sz \<noteq> 0" "sz \<le> SZ_4M" "sz \<le> SZ_8K" | "sz \<noteq> 0" "sz \<le> SZ_4M" "\<not> sz \<le> SZ_8K" by force
  then show ?thesis
  proof cases
    case 1
    then show ?thesis using none by (auto simp: kmalloc_def)
  next
    case 2
    obtain c where c: "find_slab_cache sz s = Some c" "c < SLAB_CACHE_COUNT" "sz \<le> slab_sizes ! c"
      by (rule find_slab_cache_ok [OF inv 2(3)])
    obtain x t where "slab_alloc c g s = Some (x, t)" "handed_out (unat (slab_sizes ! c)) x s t" using slab_alloc_ok [OF inv c(2), of g] by blast
    moreover have "unat sz \<le> unat (slab_sizes ! c)" using c(3) by (simp add: word_le_nat_alt)
    ultimately show ?thesis using 2 c(1) by (auto simp: kmalloc_def leD intro: handed_out_mono)
  next
    case 3
    obtain x t where r: "large_alloc_block sz g s = (x, t)" by fastforce
    have "handed_out (unat sz) x s t" using 3 by (intro large_alloc_block_ok [OF inv _ _ r]) (simp_all add: word_gt_0)
    then show ?thesis using 3 r by (auto simp: kmalloc_def leD)
  qed
qed

lemma kfree_ok:
  assumes inv: "slab_inv s" and b: "(x, n) \<in> live s"
  shows "\<exists>t. kfree x s = Some t \<and> slab_inv t \<and> live t = live s - {(x, n)} \<and> kept (live s - {(x, n)}) s t"
proof -
  consider i where "i \<in> slab_used s" "(x, n) \<in> page_live (mem64 s) (slab_pages s i)" | i where "i \<in> large_used s" "(x, n) = la_extent s i"
    using b by (auto simp: live_def live_objs_def live_large_def)
  then show ?thesis
  proof cases
    case (1 i)
    have xo: "x \<in> objs (slab_pages s i)" using 1(2) by (simp add: page_live_def)
    note rg = inv_objs_range [OF inv 1(1) xo]
    have "unat (slab_linear_map_base s) \<le> unat x" using rg(3) by (auto simp: vspan_def)
    then have lm: "va_in_linear_map s x" by (simp add: va_in_linear_map_def word_le_nat_alt)
    have nl: "large_find_by_va x s = None"
    proof (rule ccontr)
      assume "large_find_by_va x s \<noteq> None"
      then obtain j where f: "large_find_by_va x s = Some j" by blast
      have j: "j \<in> large_used s" "la_va (large_allocs s j) = x"
        using find_unused [OF f [unfolded large_find_by_va_def]] by (simp_all add: large_used_def)
      have "unat x \<in> brange (la_extent s j)" using j(2) by (simp add: brange_def)
      then have "unat x \<in> vspan s (la_block (large_allocs s j))"
        unfolding large_range(1) [OF slab_invxD(8) [OF inv j(1)] slab_invxD(2,1) [OF inv]] .
      then show False using rg(3) slab_large_apart [OF inv 1(1) j(1), of s] by blast
    qed
    have "kfree x s = slab_free_obj x s" using rg(2) lm nl by (simp add: kfree_def)
    then show ?thesis using slab_free_obj_ok [OF inv 1] by simp
  next
    case (2 i)
    note rg = large_range [OF slab_invxD(8) [OF inv 2(1)] slab_invxD(2,1) [OF inv]]
    have "x \<noteq> 0" using rg(2) 2(2) by auto
    moreover have "va_in_linear_map s x" using rg(3) 2(2) by (simp add: va_in_linear_map_def)
    moreover have "large_find_by_va x s = Some i" using large_find_ok [OF inv 2(1)] 2(2) by simp
    ultimately have "kfree x s = Some (large_free i s)" by (simp add: kfree_def)
    then show ?thesis using large_free_ok [OF inv 2(1)] 2(2) by (simp add: kept_same)
  qed
qed

section \<open>A state to run on\<close>

definition demo_slab :: kslab where
  "demo_slab = slab_init \<lparr>km_pmm = demo_pmm, mem64 = (\<lambda>_. 0), slab_linear_map_base = 0xFFFF800000000000, slab_l0_table_pa = 0,
     linear_map_base = 0, l0_table_pa = 0, ttbr0_el1 = 0, ttbr1_el1 = 0, mair_el1 = 0, tcr_el1 = 0, sctlr_el1 = 0, tlb_flushes = 0,
     slab_caches = (\<lambda>_. \<lparr>sc_size = 0, sc_partial = None\<rparr>), slab_pages = (\<lambda>_. zero_slab_page), large_allocs = (\<lambda>_. zero_large_alloc)\<rparr>"

lemma demo_slab_inv: "slab_inv demo_slab" "live demo_slab = {}"
  unfolding demo_slab_def by (rule slab_init_ok; simp add: demo_inv base_ok_def)+

text \<open>The first block of the third cache, of any user of a fresh allocator.\<close>

lemma first_kmalloc:
  assumes inv: "slab_inv s"
    and cs: "slab_caches s = (\<lambda>i. if i < SLAB_CACHE_COUNT then \<lparr>sc_size = slab_sizes ! i, sc_partial = None\<rparr> else \<lparr>sc_size = 0, sc_partial = None\<rparr>)"
    and ps: "slab_pages s = (\<lambda>_. zero_slab_page)" and pm: "km_pmm s = demo_pmm" and sz: "sz = 24 \<or> sz = 32"
  shows "\<exists>x t. kmalloc sz GFP_KERNEL s = Some (x, t) \<and> x \<noteq> 0"
proof -
  have c: "(2 :: nat) < SLAB_CACHE_COUNT" by (simp add: SLAB_CACHE_COUNT_def)
  have fc: "find_slab_cache sz s = Some 2"
    using sz by (auto simp: find_slab_cache_def cs SLAB_CACHE_COUNT_def slab_sizes_def upt_rec)
  have fu: "find (\<lambda>i. \<not> sp_used zero_slab_page) [0..<MAX_SLAB_PAGES] = Some 0"
    by (subst upt_conv_Cons) (simp_all add: zero_slab_page_def MAX_SLAB_PAGES_def)
  obtain p t where al: "alloc_phys_pages 0 GFP_KERNEL demo_pmm = (pfn_to_pa p, t)" "pfn_to_pa p \<noteq> 0"
    by (rule demo_allocated [of 0, simplified])
  have o: "slab_order_for_size (slab_sizes ! 2) = 0" by (simp add: slab_order_nth)
  have "fst (slab_grow 2 GFP_KERNEL s) = Some 0"
    using slab_capacity_nonzero [OF c] al
    by (simp add: slab_grow_def cs c o Let_def alloc_slab_page_meta_def ps fu km_alloc_phys_pages_def upd_sp_def pm)
  then obtain u where g: "slab_grow 2 GFP_KERNEL s = (Some 0, u)" by (metis prod.collapse)
  then have "sp_freelist (slab_pages u 0) \<noteq> 0" using slab_grow_ok(2) [OF inv c g] by simp
  moreover have "find_partial (MAX_SLAB_PAGES + 1) s (sc_partial (slab_caches s 2)) = Some None" by (simp add: cs)
  ultimately show ?thesis using g fc sz by (auto simp: kmalloc_def SZ_4M_def SZ_8K_def slab_alloc_def take_object_def Let_def)
qed

lemma demo_kmalloc: "\<exists>x t. kmalloc 24 GFP_KERNEL demo_slab = Some (x, t) \<and> x \<noteq> 0"
  using demo_slab_inv(1) by (rule first_kmalloc) (simp_all add: demo_slab_def slab_init_state)

lemma demo_live:
  obtains x t n where "kmalloc 24 GFP_KERNEL demo_slab = Some (x, t)" "slab_inv t" "live t = {(x, n)}" "x \<noteq> 0" "24 \<le> n"
proof -
  obtain x t where x: "kmalloc 24 GFP_KERNEL demo_slab = Some (x, t)" "x \<noteq> 0" using demo_kmalloc by blast
  then have "handed_out 24 x demo_slab t" using kmalloc_ok [OF demo_slab_inv(1), of 24 GFP_KERNEL] by simp
  then show ?thesis using that x by (auto simp: handed_out_def demo_slab_inv(2))
qed

section \<open>Properties\<close>

text \<open>The states a client reaches: it frees only pointers that are live.\<close>

inductive slab_reach :: "kslab \<Rightarrow> kslab \<Rightarrow> bool" for s0 where
  start: "slab_reach s0 (slab_init s0)"
| malloc: "slab_reach s0 s \<Longrightarrow> kmalloc sz g s = Some (x, t) \<Longrightarrow> slab_reach s0 t"
| free: "slab_reach s0 s \<Longrightarrow> (x, n) \<in> live s \<Longrightarrow> kfree x s = Some t \<Longrightarrow> slab_reach s0 t"

lemma slab_reach_inv:
  assumes "slab_reach s0 s" and "buddy_inv (km_pmm s0)" and "base_ok s0"
  shows "slab_inv s"
  using assms(1)
proof induction
  case start
  then show ?case by (rule slab_init_ok(1) [OF assms(2,3)])
next
  case (malloc s sz g x t)
  then show ?case using kmalloc_ok [OF malloc.IH, of sz g] by (auto simp: handed_out_def)
next
  case (free s x n t)
  then show ?case using kfree_ok [OF free.IH free.hyps(2)] by auto
qed

text \<open>C21: in every state reached from \<^verbatim>\<open>slab_init\<close>, by any sequence of allocations of any sizes and of
  releases of live blocks, two different live blocks share no byte, and every live block lies in a
  block the page allocator has handed out.\<close>

theorem slab_blocks_apart:
  assumes "slab_reach s0 s" and "buddy_inv (km_pmm s0)" and "base_ok s0"
  shows "(\<forall>b \<in> live s. \<forall>c \<in> live s. b \<noteq> c \<longrightarrow> brange b \<inter> brange c = {}) \<and>
    (\<forall>b \<in> live s. \<exists>u \<in> used_set (km_pmm s). brange b \<subseteq> vspan s u)"
proof -
  note inv = slab_reach_inv [OF assms]
  have "\<exists>u \<in> used_set (km_pmm s). brange b \<subseteq> vspan s u" if "b \<in> live s" for b using live_block [OF inv that] by blast
  then show ?thesis using live_apart [OF inv] by blast
qed

theorem slab_blocks_apart_witness:
  "\<exists>x n t. (x, n) \<in> live t \<and> 24 \<le> n \<and> (\<exists>u \<in> used_set (km_pmm t). brange (x, n) \<subseteq> vspan t u) \<and> slab_reach demo_slab t"
proof -
  have b: "buddy_inv (km_pmm demo_slab)" "base_ok demo_slab" using slab_invxD(1,2) [OF demo_slab_inv(1)] by simp_all
  have e: "slab_init demo_slab = demo_slab" by (simp add: demo_slab_def slab_init_def Let_def fold_cache_sizes)
  obtain x t n where t: "kmalloc 24 GFP_KERNEL demo_slab = Some (x, t)" "slab_inv t" "live t = {(x, n)}" "x \<noteq> 0" "24 \<le> n" by (rule demo_live)
  have r: "slab_reach demo_slab t" using slab_reach.malloc [OF slab_reach.start] t(1) e by metis
  then show ?thesis using slab_blocks_apart [OF r b] t(3,5) by blast
qed

text \<open>C22: \<^verbatim>\<open>kmalloc\<close> always returns. It returns NULL and leaves the live blocks as they were, or it returns
  a block that holds the requested number of bytes, overlaps no live block, and is the one new live
  block. No word of a live block changes, and the allocator's invariant is kept.\<close>

theorem kmalloc_correct:
  assumes "slab_inv s"
  shows "\<exists>x t. kmalloc sz g s = Some (x, t) \<and> slab_inv t \<and>
    (x = 0 \<longrightarrow> live t = live s) \<and>
    (x \<noteq> 0 \<longrightarrow> (\<exists>n. unat sz \<le> n \<and> live t = insert (x, n) (live s) \<and> (\<forall>b \<in> live s. brange (x, n) \<inter> brange b = {}))) \<and>
    (\<forall>b \<in> live s. \<forall>a. unat a \<in> brange b \<longrightarrow> mem64 t a = mem64 s a)"
proof -
  obtain x t where t: "kmalloc sz g s = Some (x, t)" "handed_out (unat sz) x s t" using kmalloc_ok [OF assms] by blast
  then have inv: "slab_inv t" and kp: "kept (live s) s t" by (simp_all add: handed_out_def)
  have "\<exists>n. unat sz \<le> n \<and> live t = insert (x, n) (live s) \<and> (\<forall>b \<in> live s. brange (x, n) \<inter> brange b = {})" if "x \<noteq> 0"
  proof -
    obtain n where n: "unat sz \<le> n" "(x, n) \<notin> live s" "live t = insert (x, n) (live s)" using t(2) \<open>x \<noteq> 0\<close> by (auto simp: handed_out_def)
    then have "brange (x, n) \<inter> brange b = {}" if "b \<in> live s" for b using that by (intro live_apart [OF inv]) auto
    then show ?thesis using n by blast
  qed
  then show ?thesis using t inv kp by (auto simp: handed_out_def kept_def)
qed

theorem kmalloc_correct_witness: "\<exists>x t n. kmalloc 24 GFP_KERNEL demo_slab = Some (x, t) \<and> x \<noteq> 0 \<and> 24 \<le> n \<and> live t = {(x, n)}"
proof -
  obtain x t where x: "kmalloc 24 GFP_KERNEL demo_slab = Some (x, t)" "x \<noteq> 0" using demo_kmalloc by blast
  then show ?thesis using kmalloc_correct [OF demo_slab_inv(1), of 24 GFP_KERNEL] by (auto simp: demo_slab_inv(2))
qed



text \<open>\<^verbatim>\<open>kfree\<close> of an address that lies in no slab page in use and is no large block, in particular of
  NULL and of a block whose page has been given back, changes nothing.\<close>

theorem kfree_foreign:
  assumes "slab_inv s" and "\<forall>i \<in> slab_used s. unat x \<notin> vspan s (sp_block (slab_pages s i))"
    and "\<forall>i \<in> large_used s. la_va (large_allocs s i) \<noteq> x"
  shows "kfree x s = Some s"
proof -
  have l: "large_find_by_va x s = None"
    using assms(3) by (auto simp: large_find_by_va_def find_None_iff large_used_def)
  have "slab_find_page_by_va x s = None"
    using assms(2) slab_page_covers_vspan [OF assms(1)] by (auto simp: slab_find_page_by_va_def find_None_iff)
  then show ?thesis using l by (simp add: kfree_def slab_free_obj_def)
qed

theorem kfree_foreign_witness: "kfree 0xFFFF800041000000 demo_slab = Some demo_slab"
  using kfree_foreign [OF demo_slab_inv(1)]
  by (simp add: slab_used_def large_used_def demo_slab_def slab_init_state zero_slab_page_def zero_large_alloc_def)

end
