(* ===== verification/Uart.thy ===== *)
theory Uart
  imports Mm Printk Slab_Properties
begin

text \<open>
  The device state of the kernel and the PL011 driver of \<^verbatim>\<open>driver/uart.c\<close>. A device register is
  read and written through \<^verbatim>\<open>io_read32\<close> and \<^verbatim>\<open>io_write32\<close> of \<^verbatim>\<open>include/io.h\<close>. What the device
  answers is not decided by the kernel: the values of successive reads are an input of the state, and
  every access is recorded in order. A polling loop runs as long as the answers tell it to, so the
  functions that poll return \<open>None\<close> when they are still waiting at the end of the input. The device
  tree is read through libfdt, whose functions are a parameter, and lies in a byte memory together
  with the string literals of the code, whose addresses are a parameter, too.
\<close>

section \<open>Device state\<close>

datatype io_event = IoRead u64 u32 | IoWrite u64 u32

record kdev = kproc +
  io_in :: "u32 list"
  io_log :: "io_event list"
  uart_base :: u64
  dtb_base :: u64
  uart_irq_cnt :: u32
  gicd_base :: u64
  gicc_base :: u64
  irq_table :: "nat \<Rightarrow> u64"
  system_tick :: u64
  timer_load_val :: u64
  timer_list :: u64
  cntfrq_el0 :: u64
  cntpct_el0 :: u64
  cntp_tval_el0 :: u64
  cntp_ctl_el0 :: u64

definition io_read32 :: "u64 \<Rightarrow> 'a kdev_scheme \<Rightarrow> (u32 \<times> 'a kdev_scheme) option" where
  "io_read32 addr s =
     (case io_in s of
        [] \<Rightarrow> None
      | v # vs \<Rightarrow> Some (v, s\<lparr>io_in := vs, io_log := io_log s @ [IoRead addr v]\<rparr>))"

definition io_write32 :: "u64 \<Rightarrow> u32 \<Rightarrow> 'a kdev_scheme \<Rightarrow> 'a kdev_scheme" where
  "io_write32 addr val s = s\<lparr>io_log := io_log s @ [IoWrite addr val]\<rparr>"

section \<open>Registers of the UART\<close>

definition UART0_PHYS_BASE :: u64 where "UART0_PHYS_BASE = 0x9000000"
definition UART_CLOCK :: u32 where "UART_CLOCK = 24000000"
definition DEFAULT_BAUDRATE :: u32 where "DEFAULT_BAUDRATE = 115200"
definition UART_DR :: u64 where "UART_DR = 0x000"
definition UART_RSR_ECR :: u64 where "UART_RSR_ECR = 0x004"
definition UART_FR :: u64 where "UART_FR = 0x018"
definition UART_IBRD :: u64 where "UART_IBRD = 0x024"
definition UART_FBRD :: u64 where "UART_FBRD = 0x028"
definition UART_LCR_H :: u64 where "UART_LCR_H = 0x02C"
definition UART_CR :: u64 where "UART_CR = 0x030"
definition UART_IFLS :: u64 where "UART_IFLS = 0x034"
definition UART_IMSC :: u64 where "UART_IMSC = 0x038"
definition UART_ICR :: u64 where "UART_ICR = 0x044"
definition UART_FR_TXFE :: u32 where "UART_FR_TXFE = push_bit 7 1"
definition UART_FR_TXFF :: u32 where "UART_FR_TXFF = push_bit 5 1"
definition UART_FR_RXFE :: u32 where "UART_FR_RXFE = push_bit 4 1"
definition UART_CR_UARTEN :: u32 where "UART_CR_UARTEN = push_bit 0 1"
definition UART_CR_TXE :: u32 where "UART_CR_TXE = push_bit 8 1"
definition UART_CR_RXE :: u32 where "UART_CR_RXE = push_bit 9 1"
definition UART_CR_LBE :: u32 where "UART_CR_LBE = push_bit 18 1"
definition UART_LCR_H_WLEN8 :: u32 where "UART_LCR_H_WLEN8 = push_bit 5 3"
definition UART_IFLS_RXIFLSEL_1_8 :: u32 where "UART_IFLS_RXIFLSEL_1_8 = push_bit 3 0"
definition UART_IFLS_TXIFLSEL_1_2 :: u32 where "UART_IFLS_TXIFLSEL_1_2 = push_bit 0 2"
definition UART_IMSC_RXIM :: u32 where "UART_IMSC_RXIM = push_bit 4 1"
definition UART_ICR_RXIC :: u32 where "UART_ICR_RXIC = UART_IMSC_RXIM"
definition UART_ERR_NONE :: u32 where "UART_ERR_NONE = 0"

definition UART_REG :: "u64 \<Rightarrow> 'a kdev_scheme \<Rightarrow> u64" where
  "UART_REG reg s = uart_base s + reg"

section \<open>Characters\<close>

partial_function (option) wait_tx_empty :: "'a kdev_scheme \<Rightarrow> 'a kdev_scheme option" where
  "wait_tx_empty s = do {
     (v, s1) \<leftarrow> io_read32 (UART_REG UART_FR s) s;
     (if v AND UART_FR_TXFE = 0 then wait_tx_empty s1 else Some s1) }"

definition uart_putc :: "u8 \<Rightarrow> 'a kdev_scheme \<Rightarrow> 'a kdev_scheme option" where
  "uart_putc c s = do {
     s1 \<leftarrow> (if c = 0x0A then do {
              s1 \<leftarrow> wait_tx_empty s;
              Some (io_write32 (UART_REG UART_DR s1) 0x0D s1) }
            else Some s);
     s2 \<leftarrow> wait_tx_empty s1;
     Some (io_write32 (UART_REG UART_DR s2) (ucast c) s2) }"

fun uart_puts :: "u8 list \<Rightarrow> 'a kdev_scheme \<Rightarrow> 'a kdev_scheme option" where
  "uart_puts [] s = Some s"
| "uart_puts (c # cs) s = do { s1 \<leftarrow> uart_putc c s; uart_puts cs s1 }"

definition uart_clear_error :: "'a kdev_scheme \<Rightarrow> 'a kdev_scheme" where
  "uart_clear_error s = io_write32 (UART_REG UART_RSR_ECR s) 0x0F s"

text \<open>\<open>err\<close> is the cell of the error code, \<open>None\<close> for a NULL pointer.\<close>

definition read_error :: "u32 option \<Rightarrow> 'a kdev_scheme \<Rightarrow> (u32 option \<times> 'a kdev_scheme) option" where
  "read_error err s =
     (case err of
        None \<Rightarrow> Some (None, s)
      | Some _ \<Rightarrow> do {
          (rsr_val, s1) \<leftarrow> io_read32 (UART_REG UART_RSR_ECR s) s;
          Some (Some (rsr_val AND 0x0F), uart_clear_error s1) })"

partial_function (option) wait_rx :: "'a kdev_scheme \<Rightarrow> 'a kdev_scheme option" where
  "wait_rx s = do {
     (v, s1) \<leftarrow> io_read32 (UART_REG UART_FR s) s;
     (if v AND UART_FR_RXFE \<noteq> 0 then wait_rx s1 else Some s1) }"

definition uart_getc :: "u32 option \<Rightarrow> 'a kdev_scheme \<Rightarrow> ((u8 \<times> u32 option) \<times> 'a kdev_scheme) option" where
  "uart_getc err s = do {
     s1 \<leftarrow> wait_rx s;
     (err1, s2) \<leftarrow> read_error err s1;
     (dr_val, s3) \<leftarrow> io_read32 (UART_REG UART_DR s2) s2;
     Some ((ucast (dr_val AND 0xFF), err1), s3) }"

definition uart_putc_nonblock :: "u8 \<Rightarrow> 'a kdev_scheme \<Rightarrow> (bool \<times> 'a kdev_scheme) option" where
  "uart_putc_nonblock c s = do {
     (v, s1) \<leftarrow> io_read32 (UART_REG UART_FR s) s;
     Some (if v AND UART_FR_TXFF \<noteq> 0 then (False, s1)
           else (True, io_write32 (UART_REG UART_DR s1) (ucast c) s1)) }"

text \<open>The character and error cells keep what they held when nothing is read; \<open>None\<close> is NULL.\<close>

definition uart_getc_nonblock ::
    "u8 option \<Rightarrow> u32 option \<Rightarrow> 'a kdev_scheme \<Rightarrow> ((bool \<times> u8 option \<times> u32 option) \<times> 'a kdev_scheme) option" where
  "uart_getc_nonblock c err s =
     (if c = None then Some ((False, c, err), s)
      else do {
        (v, s1) \<leftarrow> io_read32 (UART_REG UART_FR s) s;
        (if v AND UART_FR_RXFE \<noteq> 0 then Some ((False, c, err), s1)
         else do {
           (err1, s2) \<leftarrow> read_error err s1;
           (dr_val, s3) \<leftarrow> io_read32 (UART_REG UART_DR s2) s2;
           Some ((True, Some (ucast (dr_val AND 0xFF)), err1), s3) }) })"

definition uart_tx_ready :: "'a kdev_scheme \<Rightarrow> (bool \<times> 'a kdev_scheme) option" where
  "uart_tx_ready s = do {
     (v, s1) \<leftarrow> io_read32 (UART_REG UART_FR s) s;
     Some (v AND UART_FR_TXFF = 0, s1) }"

definition uart_rx_ready :: "'a kdev_scheme \<Rightarrow> (bool \<times> 'a kdev_scheme) option" where
  "uart_rx_ready s = do {
     (v, s1) \<leftarrow> io_read32 (UART_REG UART_FR s) s;
     Some (v AND UART_FR_RXFE = 0, s1) }"

section \<open>Set-up\<close>

definition uart_set_baudrate :: "u32 \<Rightarrow> 'a kdev_scheme \<Rightarrow> 'a kdev_scheme" where
  "uart_set_baudrate baudrate s =
     (let bauddiv = UART_CLOCK div (16 * baudrate);
          s1 = io_write32 (UART_REG UART_IBRD s) (bauddiv div 64) s
      in io_write32 (UART_REG UART_FBRD s1) (bauddiv mod 64) s1)"

definition uart_set_loopback :: "bool \<Rightarrow> 'a kdev_scheme \<Rightarrow> 'a kdev_scheme option" where
  "uart_set_loopback enable s = do {
     (cr_val, s1) \<leftarrow> io_read32 (UART_REG UART_CR s) s;
     Some (io_write32 (UART_REG UART_CR s1)
       (if enable then cr_val OR UART_CR_LBE else cr_val AND NOT UART_CR_LBE) s1) }"

definition uart_irq_init :: "'a kdev_scheme \<Rightarrow> 'a kdev_scheme" where
  "uart_irq_init s =
     (let s1 = io_write32 (UART_REG UART_IFLS s) (UART_IFLS_RXIFLSEL_1_8 OR UART_IFLS_TXIFLSEL_1_2) s;
          s2 = io_write32 (UART_REG UART_IMSC s1) UART_IMSC_RXIM s1
      in io_write32 (UART_REG UART_ICR s2) UART_ICR_RXIC s2)"

text \<open>
  The functions of libfdt the kernel calls. A property is its address, 0 when there is none, and
  its length; offsets of nodes are ints, negative values are errors.
\<close>

record fdt_lib =
  fdt_check_header :: "u64 \<Rightarrow> int"
  fdt_path_offset :: "u64 \<Rightarrow> u64 \<Rightarrow> int"
  fdt_getprop :: "u64 \<Rightarrow> int \<Rightarrow> u64 \<Rightarrow> u64 \<times> int"
  fdt_first_subnode :: "u64 \<Rightarrow> int \<Rightarrow> int"
  fdt_next_subnode :: "u64 \<Rightarrow> int \<Rightarrow> int"
  fdt_node_offset_by_compatible :: "u64 \<Rightarrow> int \<Rightarrow> u64 \<Rightarrow> int"

definition fdt32_at :: "bytes \<Rightarrow> u64 \<Rightarrow> u32" where
  "fdt32_at m p =
     push_bit 24 (ucast (m p)) OR push_bit 16 (ucast (m (p + 1))) OR push_bit 8 (ucast (m (p + 2))) OR ucast (m (p + 3))"

definition reg_base :: "bytes \<Rightarrow> u64 \<Rightarrow> u64" where
  "reg_base m prop = push_bit 32 (ucast (fdt32_at m prop)) OR ucast (fdt32_at m (prop + 4))"

definition uart_from_chosen :: "fdt_lib \<Rightarrow> bytes \<Rightarrow> (string \<Rightarrow> u64) \<Rightarrow> u64 \<Rightarrow> u64 option" where
  "uart_from_chosen L m lit dtb =
     (let chosen = fdt_path_offset L dtb (lit ''/chosen'') in
      if chosen < 0 then None
      else (let stdout_path = fst (fdt_getprop L dtb chosen (lit ''stdout-path'')) in
        if stdout_path = 0 then None
        else (let uart_node = fdt_path_offset L dtb stdout_path in
          if uart_node < 0 then None
          else (let (prop, len) = fdt_getprop L dtb uart_node (lit ''reg'') in
            if prop \<noteq> 0 \<and> 8 \<le> len then Some (reg_base m prop) else None))))"

text \<open>One node of the scan: the register base of a usable PL011, if it is one.\<close>

definition uart_node_base :: "fdt_lib \<Rightarrow> bytes \<Rightarrow> (string \<Rightarrow> u64) \<Rightarrow> u64 \<Rightarrow> int \<Rightarrow> u64 option option" where
  "uart_node_base L m lit dtb node = do {
     let compatible = fst (fdt_getprop L dtb node (lit ''compatible''));
     hit \<leftarrow> (if compatible = 0 then Some 0 else strstr m compatible (lit ''arm,pl011''));
     (if hit = 0 then Some None
      else do {
        let status = fst (fdt_getprop L dtb node (lit ''status''));
        cmp \<leftarrow> (if status = 0 then Some 0 else strcmp m status (lit ''okay''));
        (if cmp \<noteq> 0 then Some None
         else if fst (fdt_getprop L dtb node (lit ''secure-status'')) \<noteq> 0 then Some None
         else (let (prop, len) = fdt_getprop L dtb node (lit ''reg'') in
           Some (if prop \<noteq> 0 \<and> 8 \<le> len then Some (reg_base m prop) else None))) }) }"

partial_function (option) uart_scan :: "fdt_lib \<Rightarrow> bytes \<Rightarrow> (string \<Rightarrow> u64) \<Rightarrow> u64 \<Rightarrow> int \<Rightarrow> u64 option option" where
  "uart_scan L m lit dtb node =
     (if node < 0 then Some None
      else do {
        r \<leftarrow> uart_node_base L m lit dtb node;
        (case r of
           Some base \<Rightarrow> Some (Some base)
         | None \<Rightarrow> uart_scan L m lit dtb (fdt_next_subnode L dtb node)) })"

definition uart_find :: "fdt_lib \<Rightarrow> bytes \<Rightarrow> (string \<Rightarrow> u64) \<Rightarrow> u64 \<Rightarrow> u64 option" where
  "uart_find L m lit dtb =
     (case uart_from_chosen L m lit dtb of
        Some base \<Rightarrow> Some base
      | None \<Rightarrow> (let root = fdt_path_offset L dtb (lit ''/'') in
          if root < 0 then Some UART0_PHYS_BASE
          else do {
            r \<leftarrow> uart_scan L m lit dtb (fdt_first_subnode L dtb root);
            Some (case r of Some base \<Rightarrow> base | None \<Rightarrow> UART0_PHYS_BASE) }))"

definition uart_configure :: "'a kdev_scheme \<Rightarrow> 'a kdev_scheme option" where
  "uart_configure s = do {
     (cr_val, s1) \<leftarrow> io_read32 (UART_REG UART_CR s) s;
     let s2 = io_write32 (UART_REG UART_CR s1) (cr_val AND NOT UART_CR_UARTEN) s1;
     let s3 = uart_set_baudrate DEFAULT_BAUDRATE s2;
     let s4 = io_write32 (UART_REG UART_LCR_H s3) UART_LCR_H_WLEN8 s3;
     let s5 = uart_irq_init (uart_clear_error s4);
     Some (io_write32 (UART_REG UART_CR s5) (UART_CR_UARTEN OR UART_CR_TXE OR UART_CR_RXE) s5) }"

definition uart_init :: "fdt_lib \<Rightarrow> bytes \<Rightarrow> (string \<Rightarrow> u64) \<Rightarrow> 'a kdev_scheme \<Rightarrow> 'a kdev_scheme option" where
  "uart_init L m lit s =
     (if uart_base s \<noteq> 0 then uart_configure s
      else do {
        let s1 = (if dtb_base s = 0 then s\<lparr>dtb_base := 0x40000000\<rparr> else s);
        phys \<leftarrow> uart_find L m lit (dtb_base s1);
        (va, s2) \<leftarrow> ioremap phys 4096 s1;
        let s3 = s2\<lparr>uart_base := va\<rparr>;
        (if va = 0 then Some s3 else uart_configure s3) })"

section \<open>What reaches the line\<close>

definition tx_ready :: "u32 \<Rightarrow> bool" where
  "tx_ready v \<longleftrightarrow> v AND UART_FR_TXFE \<noteq> 0"

definition sent :: "u64 \<Rightarrow> io_event list \<Rightarrow> u32 list" where
  "sent base evs = List.map_filter (\<lambda>e. case e of IoWrite a v \<Rightarrow> if a = base + UART_DR then Some v else None | _ \<Rightarrow> None) evs"

text \<open>Every character goes out right after the transmitter was seen empty.\<close>

fun tx_guarded :: "u64 \<Rightarrow> bool \<Rightarrow> io_event list \<Rightarrow> bool" where
  "tx_guarded base ready [] \<longleftrightarrow> True"
| "tx_guarded base ready (IoRead a v # evs) \<longleftrightarrow> tx_guarded base (a = base + UART_FR \<and> tx_ready v) evs"
| "tx_guarded base ready (IoWrite a v # evs) \<longleftrightarrow> (a = base + UART_DR \<longrightarrow> ready) \<and> tx_guarded base False evs"

definition crlf :: "u8 list \<Rightarrow> u8 list" where
  "crlf cs = concat (map (\<lambda>c. if c = 0x0A then [0x0D, 0x0A] else [c]) cs)"

lemma sent_append [simp]: "sent base (xs @ ys) = sent base xs @ sent base ys"
  by (simp add: sent_def map_filter_def)

lemma tx_guarded_append: "tx_guarded base r xs \<Longrightarrow> (\<And>q. tx_guarded base q ys) \<Longrightarrow> tx_guarded base r (xs @ ys)"
  by (induction base r xs rule: tx_guarded.induct) auto

text \<open>The polls that wait for the transmitter.\<close>

definition polls :: "u64 \<Rightarrow> u32 list \<Rightarrow> io_event list" where
  "polls base vs = map (IoRead (base + UART_FR)) vs"

lemma wait_tx_empty_eq:
  "wait_tx_empty s = (case dropWhile (\<lambda>v. \<not> tx_ready v) (io_in s) of [] \<Rightarrow> None
     | v # vs \<Rightarrow> Some (s\<lparr>io_in := vs, io_log := io_log s @ polls (uart_base s) (takeWhile (\<lambda>v. \<not> tx_ready v) (io_in s) @ [v])\<rparr>))"
proof (induction "io_in s" arbitrary: s)
  case Nil
  then show ?case by (subst wait_tx_empty.simps) (simp add: io_read32_def flip: Nil)
next
  case (Cons v vs)
  let ?s1 = "s\<lparr>io_in := vs, io_log := io_log s @ [IoRead (uart_base s + UART_FR) v]\<rparr>"
  have w: "wait_tx_empty s = (if v AND UART_FR_TXFE = 0 then wait_tx_empty ?s1 else Some ?s1)"
    by (subst wait_tx_empty.simps) (simp add: io_read32_def UART_REG_def flip: Cons.hyps(2))
  show ?case
  proof (cases "tx_ready v")
    case True
    then show ?thesis unfolding w by (simp add: tx_ready_def polls_def flip: Cons.hyps(2))
  next
    case False
    then have "v AND UART_FR_TXFE = 0" by (simp add: tx_ready_def)
    moreover have "wait_tx_empty ?s1 = (case dropWhile (\<lambda>v. \<not> tx_ready v) vs of [] \<Rightarrow> None
       | u # us \<Rightarrow> Some (?s1\<lparr>io_in := us, io_log := io_log ?s1 @ polls (uart_base s) (takeWhile (\<lambda>v. \<not> tx_ready v) vs @ [u])\<rparr>))"
      using Cons.hyps(1) [of ?s1] by (cases "dropWhile (\<lambda>v. \<not> tx_ready v) vs") (simp_all del: dropWhile_eq_Nil_conv)
    ultimately show ?thesis using False unfolding w
      by (cases "dropWhile (\<lambda>v. \<not> tx_ready v) vs") (simp_all add: polls_def flip: Cons.hyps(2) del: dropWhile_eq_Nil_conv)
  qed
qed

lemma polls_effect: "sent base (polls base vs) = []" "tx_guarded base q (polls base vs @ [IoRead (base + UART_FR) v]) "
  "tx_ready v \<Longrightarrow> tx_guarded base q (polls base vs @ [IoRead (base + UART_FR) v, IoWrite (base + UART_DR) w])"
  by (induction vs arbitrary: q) (simp_all add: polls_def sent_def map_filter_def)

text \<open>Characters on the line, as many as the answers let the transmitter become empty.\<close>

definition chars_out :: "u64 \<Rightarrow> u32 list \<Rightarrow> 'a kdev_scheme \<Rightarrow> 'a kdev_scheme \<Rightarrow> bool" where
  "chars_out base cs s t \<longleftrightarrow> (\<exists>evs vs. t = s\<lparr>io_in := vs, io_log := io_log s @ evs\<rparr> \<and> sent base evs = cs \<and> (\<forall>q. tx_guarded base q evs) \<and>
     length (filter tx_ready vs) + length cs = length (filter tx_ready (io_in s)))"

lemma chars_out_base: "chars_out b cs s t \<Longrightarrow> uart_base t = uart_base s"
  by (auto simp: chars_out_def)

lemma chars_out_Nil: "chars_out base [] s s"
  unfolding chars_out_def by (rule exI [of _ "[]"], rule exI [of _ "io_in s"]) (simp add: sent_def map_filter_def)

lemma chars_out_trans:
  assumes "chars_out base cs s t" and "chars_out base ds t u"
  shows "chars_out base (cs @ ds) s u"
proof -
  obtain evs vs where t: "t = s\<lparr>io_in := vs, io_log := io_log s @ evs\<rparr>" "sent base evs = cs" "\<And>q. tx_guarded base q evs"
    "length (filter tx_ready vs) + length cs = length (filter tx_ready (io_in s))" using assms(1) by (auto simp: chars_out_def)
  obtain fvs ws where u: "u = t\<lparr>io_in := ws, io_log := io_log t @ fvs\<rparr>" "sent base fvs = ds" "\<And>q. tx_guarded base q fvs"
    "length (filter tx_ready ws) + length ds = length (filter tx_ready (io_in t))" using assms(2) by (auto simp: chars_out_def)
  have "u = s\<lparr>io_in := ws, io_log := io_log s @ (evs @ fvs)\<rparr>" using u(1) t(1) by simp
  moreover have "tx_guarded base q (evs @ fvs)" for q using t(3) u(3) by (rule tx_guarded_append)
  moreover have "length (filter tx_ready ws) + length (cs @ ds) = length (filter tx_ready (io_in s))" using t(1,4) u(4) by simp
  ultimately show ?thesis unfolding chars_out_def using t(2) u(2) sent_append by metis
qed

lemma chars_out_enough: "chars_out base cs s t \<Longrightarrow> length (filter tx_ready (io_in t)) + length cs = length (filter tx_ready (io_in s))"
  by (auto simp: chars_out_def)

lemma dropWhile_ready:
  "filter P xs \<noteq> [] \<Longrightarrow> \<exists>v vs. dropWhile (\<lambda>v. \<not> P v) xs = v # vs \<and> P v \<and> length (filter P xs) = length (filter P vs) + 1"
  by (induction xs) auto

lemma send_char:
  assumes "length (filter tx_ready (io_in s)) \<noteq> 0"
  shows "\<exists>s1. wait_tx_empty s = Some s1 \<and> chars_out (uart_base s) [c] s (io_write32 (UART_REG UART_DR s1) c s1)"
proof -
  obtain v vs where v: "dropWhile (\<lambda>v. \<not> tx_ready v) (io_in s) = v # vs" "tx_ready v"
    "length (filter tx_ready (io_in s)) = length (filter tx_ready vs) + 1" using dropWhile_ready [of tx_ready "io_in s"] assms by auto
  let ?ps = "polls (uart_base s) (takeWhile (\<lambda>v. \<not> tx_ready v) (io_in s))"
  let ?evs = "?ps @ [IoRead (uart_base s + UART_FR) v, IoWrite (uart_base s + UART_DR) c]"
  let ?s1 = "s\<lparr>io_in := vs, io_log := io_log s @ ?ps @ [IoRead (uart_base s + UART_FR) v]\<rparr>"
  have w: "wait_tx_empty s = Some ?s1" unfolding wait_tx_empty_eq v(1) by (simp add: polls_def)
  have "io_write32 (UART_REG UART_DR ?s1) c ?s1 = s\<lparr>io_in := vs, io_log := io_log s @ ?evs\<rparr>" by (simp add: io_write32_def UART_REG_def)
  moreover have "sent (uart_base s) ?evs = [c]" by (simp only: sent_append polls_effect(1)) (simp add: sent_def map_filter_def)
  moreover have "tx_guarded (uart_base s) q ?evs" for q by (rule polls_effect(3) [OF v(2)])
  moreover have "length (filter tx_ready vs) + length [c] = length (filter tx_ready (io_in s))" using v(3) by simp
  ultimately have "chars_out (uart_base s) [c] s (io_write32 (UART_REG UART_DR ?s1) c ?s1)" unfolding chars_out_def by metis
  with w show ?thesis by blast
qed

lemma uart_putc_out:
  assumes "length (crlf [c]) \<le> length (filter tx_ready (io_in s))"
  shows "\<exists>t. uart_putc c s = Some t \<and> chars_out (uart_base s) (map ucast (crlf [c])) s t"
proof (cases "c = 0x0A")
  case True
  have "length (filter tx_ready (io_in s)) \<noteq> 0" using assms True by (auto simp: crlf_def)
  then obtain s1 where s1: "wait_tx_empty s = Some s1" "chars_out (uart_base s) [0x0D] s (io_write32 (UART_REG UART_DR s1) 0x0D s1)"
    using send_char by blast
  let ?t = "io_write32 (UART_REG UART_DR s1) 0x0D s1"
  have b: "uart_base ?t = uart_base s" by (rule chars_out_base [OF s1(2)])
  have "length (filter tx_ready (io_in ?t)) \<noteq> 0" using chars_out_enough [OF s1(2)] assms True by (simp add: crlf_def del: length_0_conv)
  then obtain s2 where s2: "wait_tx_empty ?t = Some s2" "chars_out (uart_base s) [0x0A] ?t (io_write32 (UART_REG UART_DR s2) 0x0A s2)"
    using send_char [of ?t "0x0A"] b by (auto simp del: length_0_conv)
  have "uart_putc c s = Some (io_write32 (UART_REG UART_DR s2) 0x0A s2)" using True s1(1) s2(1) by (simp add: uart_putc_def)
  moreover have "map ucast (crlf [c]) = [0x0D :: u32] @ [0x0A]" using True by (simp add: crlf_def)
  ultimately show ?thesis using chars_out_trans [OF s1(2) s2(2)] by simp
next
  case False
  have "length (filter tx_ready (io_in s)) \<noteq> 0" using assms False by (auto simp: crlf_def)
  then obtain s1 where "wait_tx_empty s = Some s1" "chars_out (uart_base s) [ucast c] s (io_write32 (UART_REG UART_DR s1) (ucast c) s1)"
    using send_char by blast
  then show ?thesis using False by (simp add: uart_putc_def crlf_def)
qed

lemma crlf_Cons: "crlf (c # cs) = crlf [c] @ crlf cs"
  by (simp add: crlf_def)

lemma uart_puts_out:
  "length (crlf cs) \<le> length (filter tx_ready (io_in s)) \<Longrightarrow> \<exists>t. uart_puts cs s = Some t \<and> chars_out (uart_base s) (map ucast (crlf cs)) s t"
proof (induction cs arbitrary: s)
  case Nil
  then show ?case by (simp add: crlf_def chars_out_Nil)
next
  case (Cons c cs)
  have n: "length (crlf [c]) + length (crlf cs) \<le> length (filter tx_ready (io_in s))" using Cons.prems by (subst (asm) crlf_Cons) simp
  then have "length (crlf [c]) \<le> length (filter tx_ready (io_in s))" by simp
  then obtain s1 where s1: "uart_putc c s = Some s1" "chars_out (uart_base s) (map ucast (crlf [c])) s s1" using uart_putc_out by blast
  have "length (crlf cs) \<le> length (filter tx_ready (io_in s1))" using chars_out_enough [OF s1(2)] n by simp
  then obtain t where t: "uart_puts cs s1 = Some t" "chars_out (uart_base s1) (map ucast (crlf cs)) s1 t" using Cons.IH by blast
  have "chars_out (uart_base s) (map ucast (crlf [c]) @ map ucast (crlf cs)) s t"
    using chars_out_trans [OF s1(2)] t(2) chars_out_base [OF s1(2)] by simp
  then show ?case using s1(1) t(1) by (subst crlf_Cons) simp
qed

text \<open>C27: \<^verbatim>\<open>uart_puts\<close> returns as soon as the device has reported an empty transmitter once for every byte to
  send. It sends exactly the bytes of the string, in order and with a carriage return before every
  newline, each only right after the transmitter was seen empty, and changes nothing else.\<close>

theorem uart_puts_correct:
  assumes "length (crlf cs) \<le> length (filter tx_ready (io_in s))"
  shows "\<exists>vs evs. uart_puts cs s = Some (s\<lparr>io_in := vs, io_log := io_log s @ evs\<rparr>) \<and>
    sent (uart_base s) evs = map ucast (crlf cs) \<and> tx_guarded (uart_base s) False evs"
  using uart_puts_out [OF assms] unfolding chars_out_def by blast

definition demo_dev :: kdev where
  "demo_dev = slab_init \<lparr>km_pmm = demo_pmm, mem64 = (\<lambda>_. 0), slab_linear_map_base = 0xFFFF800000000000, slab_l0_table_pa = 0,
     linear_map_base = 0, l0_table_pa = 0, ttbr0_el1 = 0, ttbr1_el1 = 0, mair_el1 = 0, tcr_el1 = 0, sctlr_el1 = 0, tlb_flushes = 0,
     slab_caches = (\<lambda>_. \<lparr>sc_size = 0, sc_partial = None\<rparr>), slab_pages = (\<lambda>_. zero_slab_page), large_allocs = (\<lambda>_. zero_large_alloc),
     knodes = \<lparr>next_of = id, prev_of = id\<rparr>,
     free_tree = \<lparr>rb_parent = id, rb_left = id, rb_right = id, rb_col = (\<lambda>_. RB_BLACK), rb_root = 0, rb_nil = 0\<rparr>,
     va_mgr_start = 0, va_mgr_end = 0, total_free = 0, nr_busy = 0,
     vm_structs = (\<lambda>_. \<lparr>vm_addr = 0, vm_size = 0, vm_nr_pages = 0, vm_pages = 0, vm_flags = 0\<rparr>), page_arrays = (\<lambda>_ _. 0),
     io_mappings = (\<lambda>_. \<lparr>io_addr = 0, io_nr_pages = 0\<rparr>), dma_mappings = (\<lambda>_. \<lparr>dma_va = 0, dma_pa = 0, dma_nr_pages = 0, dma_order = 0\<rparr>),
     vm_errors = 0, mm_structs = (\<lambda>_. \<lparr>mm_mmap = 0, mm_start_brk = 0, mm_brk = 0, mm_start_stack = 0, mm_pgd = 0\<rparr>),
     vmas = (\<lambda>_. \<lparr>vm_start = 0, vm_end = 0, vma_flags = 0, vm_next = 0\<rparr>), current_mm = 0, pf_events = [],
     io_in = [0, 0x80, 0x90, 0x80], io_log = [], uart_base = 0x9000000, dtb_base = 0, uart_irq_cnt = 0, gicd_base = 0x8000000,
     gicc_base = 0x8010000, irq_table = (\<lambda>_. 0), system_tick = 0, timer_load_val = 0, timer_list = 0,
     cntfrq_el0 = 62500000, cntpct_el0 = 1, cntp_tval_el0 = 0, cntp_ctl_el0 = 0\<rparr>"

lemma demo_dev_inv: "slab_inv demo_dev" "live demo_dev = {}"
  unfolding demo_dev_def by (rule slab_init_ok; simp add: demo_inv base_ok_def)+

lemma demo_dev_fields: "io_in demo_dev = [0, 0x80, 0x90, 0x80]" "io_log demo_dev = []" "uart_base demo_dev = 0x9000000"
  "timer_list demo_dev = 0" "system_tick demo_dev = 0" "gicc_base demo_dev = 0x8010000" "gicd_base demo_dev = 0x8000000"
  "irq_table demo_dev = (\<lambda>_. 0)"
  by (simp_all add: demo_dev_def slab_init_def Let_def fold_cache_sizes)

theorem uart_puts_correct_witness:
  "\<exists>t evs. uart_puts (asc ''H'' @ [0x0A]) demo_dev = Some t \<and> io_log t = evs \<and> sent 0x9000000 evs = [72, 13, 10]"
  using uart_puts_correct [of "asc ''H'' @ [0x0A]" demo_dev]
  by (auto simp: demo_dev_fields crlf_def asc_def tx_ready_def UART_FR_TXFE_def of_char_def)

section \<open>The search for the device ends\<close>












end
