(* ===== verification/Fault_Properties.thy ===== *)
theory Fault_Properties
  imports Data_Pages Uart
begin

text \<open>
  What the page fault handler of \<^verbatim>\<open>kernel/page_fault.c\<close> does for a process, from the page allocator
  through the page tables: a first touch of a page gets a page of zeros, a write to a shared page
  gets a private copy, and an access the area does not allow changes no memory and raises the
  signal. The address is outside the kernel's vmalloc window and below it.
\<close>

lemma not_vmalloc: "addr < VMALLOC_START \<Longrightarrow> vmalloc_handle_page_fault addr s = Some (-1, s)"
  by (simp add: vmalloc_handle_page_fault_def)

definition is_write :: "u64 \<Rightarrow> bool" where
  "is_write esr \<longleftrightarrow> drop_bit 6 esr AND 1 \<noteq> 0"

lemma page_fault_user:
  assumes "addr < VMALLOC_START" and "current_mm s \<noteq> 0" and "find_vma (current_mm s) addr \<noteq> 0"
  shows "page_fault_handler find_vma addr esr s = Some (user_fault addr esr (find_vma (current_mm s) addr) s)"
  using assms by (simp add: page_fault_handler_def not_vmalloc Let_def)

section \<open>A process to fault in\<close>

text \<open>A process with an empty top-level user table; every address below 2 GiB is in a writable area.\<close>

definition demo_proc :: kdev where
  "demo_proc = (let (pa, t) = alloc_phys_pages 0 GFP_KERNEL demo_pmm in demo_dev\<lparr>km_pmm := t, ttbr0_el1 := pa, current_mm := 0x1000\<rparr>)"

definition demo_vma_find :: "u64 \<Rightarrow> u64 \<Rightarrow> u64" where
  "demo_vma_find mm addr = (if addr < 0x1000 then 0 else if addr < 0x2000 then VM_READ else VM_READ OR VM_WRITE)"

lemma demo_dev_more: "mem64 demo_dev = (\<lambda>_. 0)" "ttbr1_el1 demo_dev = 0" "pf_events demo_dev = []"
  by (simp_all add: demo_dev_def slab_init_def Let_def fold_cache_sizes)

lemma demo_proc_inv:
  shows "pt_inv {ttbr0_el1 demo_proc} demo_proc" and "ttbr0_el1 demo_proc \<noteq> 0" and "free_pages (km_pmm demo_proc) = 65022"
    and "current_mm demo_proc = 0x1000" and "mem64 demo_proc = (\<lambda>_. 0)" and "pf_events demo_proc = []"
proof -
  obtain p t where t: "alloc_phys_pages 0 GFP_KERNEL demo_pmm = (pfn_to_pa p, t)" "pfn_to_pa p \<noteq> 0" "buddy_inv t"
    "used_set t = {(p, 0)}" "p < TOTAL_PAGES" by (rule demo_allocated [of 0, simplified])
  have m: "mem64 demo_proc = (\<lambda>_. 0)" "ttbr0_el1 demo_proc = pfn_to_pa p" "ttbr1_el1 demo_proc = 0" "km_pmm demo_proc = t"
    "current_mm demo_proc = 0x1000" "pf_events demo_proc = []"
    using t(1) by (simp_all add: demo_proc_def demo_dev_more)
  then show "ttbr0_el1 demo_proc \<noteq> 0" "current_mm demo_proc = 0x1000" "mem64 demo_proc = (\<lambda>_. 0)" "pf_events demo_proc = []" using t(2) by simp_all
  have "table_page demo_proc (pfn_to_pa p)" using t(4,5) m(4) by (auto simp: table_page_def)
  then have "pt_wf {pfn_to_pa p} demo_proc" by (simp add: pt_wf_def walk_zero [OF m(1)])
  then show "pt_inv {ttbr0_el1 demo_proc} demo_proc" using t(2,3) m by (simp add: pt_inv_def)
  have "km_pmm demo_kmem = t" using t(1) by (simp add: demo_kmem_def)
  then show "free_pages (km_pmm demo_proc) = 65022" using demo_kmem_free m(4) by simp
qed

lemma demo_proc_l0: "is_user_addr va \<Longrightarrow> l0_table demo_proc va = ttbr0_el1 demo_proc"
  by (simp add: l0_table_def read_ttbr0_def)

lemma demo_proc_unmapped: "get_phys_from_va va demo_proc = 0"
  using walk_zero [OF demo_proc_inv(5), of _ "va_path va"] by (simp add: get_phys_from_va_def get_phys_walk va_path_def)

section \<open>Demand paging\<close>

text \<open>C24: The first access to an unmapped page of an area that allows it succeeds whenever four physical pages
  are free: the handler returns, the page is mapped to a page that was not allocated before and
  that holds only zeros, every other page of every address space translates as before, the tables
  stay well formed and no signal is raised.\<close>

theorem page_fault_demand:
  assumes "pt_inv R s" and "l0_table s addr \<noteq> 0" and "4 \<le> unat (buddy_nr_free_pages_total (km_pmm s))"
    and "addr < VMALLOC_START" and "current_mm s \<noteq> 0" and "find_vma (current_mm s) addr \<noteq> 0"
    and "is_write esr \<Longrightarrow> find_vma (current_mm s) addr AND VM_WRITE \<noteq> 0" and "get_phys_from_va addr s = 0"
  shows "\<exists>t f. page_fault_handler find_vma addr esr s = Some t \<and> pt_inv R t \<and> pf_events t = pf_events s \<and>
    get_phys_from_va addr t = pfn_to_pa f \<and> (f, 0) \<in> used_set (km_pmm t) \<and> (f, 0) \<notin> used_set (km_pmm s) \<and>
    (\<forall>i < 512. mem64 t (phys_to_virt t (pfn_to_pa f) + 8 * i) = 0) \<and>
    (\<forall>va. va_key s va \<noteq> va_key s addr \<longrightarrow> get_phys_from_va va t = get_phys_from_va va s)"
proof -
  let ?fl = "find_vma (current_mm s) addr" and ?p = "addr AND PAGE_MASK"
  let ?prot = "if ?fl AND VM_EXEC \<noteq> 0 then PAGE_USER_RX else PAGE_USER_RW"
  have prot: "pte_present ?prot" "?prot AND ARM64_PTE_ADDR_MASK = 0" using prot_ok by simp_all
  have key: "va_key s ?p = va_key s addr" by (rule va_key_mask)
  then have l0: "l0_table s ?p \<noteq> 0" using assms(2) by (simp add: va_key_def)
  have "buddy_inv (km_pmm s)" using assms(1) by (simp add: pt_inv_def)
  then have free: "4 \<le> free_pages (km_pmm s)" using assms(3) free_pages_total by simp
  have h: "page_fault_handler find_vma addr esr s = Some (demand_fault ?p ?prot s)"
    unfolding page_fault_user [where find_vma = find_vma, OF assms(4-6)] using assms(7,8) by (auto simp: user_fault_def Let_def is_write_def)
  note d = demand_fault_ok [OF assms(1) l0 free prot]
  obtain f where f: "data_page R (demand_fault ?p ?prot s) f" "(f, 0) \<notin> used_set (km_pmm s)"
    "get_phys_from_va ?p (demand_fault ?p ?prot s) = pfn_to_pa f" "\<forall>i < 512. page_word (demand_fault ?p ?prot s) f i = 0"
    using d(1) by (auto simp: backed_def)
  have "get_phys_from_va addr (demand_fault ?p ?prot s) = pfn_to_pa f"
    using f(3) get_phys_key [OF va_key_mask [of "demand_fault ?p ?prot s" addr]] by simp
  moreover have "(f, 0) \<in> used_set (km_pmm (demand_fault ?p ?prot s))" using f(1) by (simp add: data_page_def)
  moreover have "\<forall>i < 512. mem64 (demand_fault ?p ?prot s) (phys_to_virt (demand_fault ?p ?prot s) (pfn_to_pa f) + 8 * i) = 0"
    using f(4) by (simp add: page_word_def pte_get_def load64_def entry_addr_def)
  ultimately show ?thesis using h d(1,2) f(2) unfolding backed_def key by blast
qed

theorem page_fault_demand_witness:
  "\<exists>t f. page_fault_handler demo_vma_find 0x2345 0x40 demo_proc = Some t \<and> get_phys_from_va 0x2345 t = pfn_to_pa f \<and> pf_events t = []"
proof -
  have "buddy_inv (km_pmm demo_proc)" using demo_proc_inv(1) by (simp add: pt_inv_def)
  then have "4 \<le> unat (buddy_nr_free_pages_total (km_pmm demo_proc))" using demo_proc_inv(3) free_pages_total by simp
  moreover have "l0_table demo_proc 0x2345 \<noteq> 0" using demo_proc_l0 [of "0x2345"] demo_proc_inv(2) by (simp add: is_user_addr_def)
  ultimately show ?thesis
    using page_fault_demand [OF demo_proc_inv(1), of "0x2345" demo_vma_find "0x40"] demo_proc_unmapped demo_proc_inv(4,6)
    by (auto simp: VMALLOC_START_def demo_vma_find_def VM_READ_def VM_WRITE_def)
qed

section \<open>Copy on write\<close>

text \<open>C25: A write to a page that is mapped, in an area that allows writing, gives the process a private copy
  whenever four physical pages are free: the address then translates to a page that was not
  allocated before and holds, word for word, what the shared page held; every other page of every
  address space translates as before and no signal is raised.\<close>

theorem page_fault_cow:
  assumes "pt_inv R s" and "l0_table s addr \<noteq> 0" and "4 \<le> unat (buddy_nr_free_pages_total (km_pmm s))"
    and "addr < VMALLOC_START" and "current_mm s \<noteq> 0" and "find_vma (current_mm s) addr AND VM_WRITE \<noteq> 0"
    and "is_write esr" and "get_phys_from_va addr s = pfn_to_pa p" and "data_page R s p"
  shows "\<exists>t f. page_fault_handler find_vma addr esr s = Some t \<and> pt_inv R t \<and> pf_events t = pf_events s \<and>
    get_phys_from_va addr t = pfn_to_pa f \<and> (f, 0) \<in> used_set (km_pmm t) \<and> (f, 0) \<notin> used_set (km_pmm s) \<and>
    (\<forall>i < 512. mem64 t (phys_to_virt t (pfn_to_pa f) + 8 * i) = mem64 s (phys_to_virt s (pfn_to_pa p) + 8 * i)) \<and>
    (\<forall>va. va_key s va \<noteq> va_key s addr \<longrightarrow> get_phys_from_va va t = get_phys_from_va va s)"
proof -
  let ?p = "addr AND PAGE_MASK" let ?t = "cow_fault ?p (pfn_to_pa p) s"
  have key: "va_key s ?p = va_key s addr" by (rule va_key_mask)
  then have l0: "l0_table s ?p \<noteq> 0" using assms(2) by (simp add: va_key_def)
  have "buddy_inv (km_pmm s)" using assms(1) by (simp add: pt_inv_def)
  then have free: "4 \<le> free_pages (km_pmm s)" using assms(3) free_pages_total by simp
  have "find_vma (current_mm s) addr \<noteq> 0" using assms(6) by auto
  note u = page_fault_user [where find_vma = find_vma, OF assms(4,5) this]
  have "pfn_to_pa p \<noteq> 0" using assms(9) by (intro pfn_to_pa_nonzero) (simp add: data_page_def)
  then have h: "page_fault_handler find_vma addr esr s = Some ?t"
    unfolding u using assms(6-8) by (simp add: user_fault_def Let_def is_write_def)
  note d = cow_fault_ok [OF assms(1) l0 free assms(9)]
  obtain f where f: "data_page R ?t f" "(f, 0) \<notin> used_set (km_pmm s)"
    "get_phys_from_va ?p ?t = pfn_to_pa f" "\<forall>i < 512. page_word ?t f i = page_word s p i"
    using d(1) by (auto simp: backed_def)
  have "get_phys_from_va addr ?t = pfn_to_pa f" using f(3) get_phys_key [OF va_key_mask [of ?t addr]] by simp
  moreover have "(f, 0) \<in> used_set (km_pmm ?t)" using f(1) by (simp add: data_page_def)
  moreover have "\<forall>i < 512. mem64 ?t (phys_to_virt ?t (pfn_to_pa f) + 8 * i) = mem64 s (phys_to_virt s (pfn_to_pa p) + 8 * i)"
    using f(4) by (simp add: page_word_def pte_get_def load64_def entry_addr_def)
  ultimately show ?thesis using h d(1,2) f(2) unfolding backed_def key by blast
qed

text \<open>A process with one page mapped, by a first touch.\<close>

definition demo_shared :: kdev where
  "demo_shared = demand_fault 0x2000 PAGE_USER_RW demo_proc"

lemma more_current_mm:
  fixes s t :: "'a kproc_scheme"
  shows "kmem.more t = kmem.more s \<Longrightarrow> current_mm t = current_mm s"
  by (cases s, cases t) simp

lemma demo_shared_facts:
  obtains p where "pt_inv {ttbr0_el1 demo_proc} demo_shared" "data_page {ttbr0_el1 demo_proc} demo_shared p"
    "get_phys_from_va 0x2345 demo_shared = pfn_to_pa p" "4 \<le> unat (buddy_nr_free_pages_total (km_pmm demo_shared))"
    "current_mm demo_shared = 0x1000" "l0_table demo_shared 0x2345 \<noteq> 0" "pf_events demo_shared = []"
proof -
  have l0: "l0_table demo_proc 0x2000 \<noteq> 0" "l0_table demo_proc 0x2345 \<noteq> 0" using demo_proc_l0 demo_proc_inv(2) by (simp_all add: is_user_addr_def)
  have free: "4 \<le> free_pages (km_pmm demo_proc)" using demo_proc_inv(3) by simp
  note d = demand_fault_ok [OF demo_proc_inv(1) l0(1) free prot_ok(3,4), folded demo_shared_def]
  obtain p where p: "data_page {ttbr0_el1 demo_proc} demo_shared p" "get_phys_from_va 0x2000 demo_shared = pfn_to_pa p"
    and inv: "pt_inv {ttbr0_el1 demo_proc} demo_shared" using d(1) by (auto simp: backed_def)
  have "get_phys_from_va 0x2345 demo_shared = pfn_to_pa p"
    using p(2) get_phys_key [OF va_key_mask [of demo_shared "0x2345"]] by (simp add: PAGE_MASK_def PAGE_SIZE_def)
  moreover have "buddy_inv (km_pmm demo_shared)" using inv by (simp add: pt_inv_def)
  then have "4 \<le> unat (buddy_nr_free_pages_total (km_pmm demo_shared))" using d(3) demo_proc_inv(3) free_pages_total by simp
  moreover have "current_mm demo_shared = 0x1000" using more_current_mm [OF d(4)] demo_proc_inv(4) by simp
  moreover have "l0_table demo_shared 0x2345 \<noteq> 0" using d(5) l0(2) by simp
  moreover have "pf_events demo_shared = []" using d(2) demo_proc_inv(6) by simp
  ultimately show ?thesis using that inv p(1) by blast
qed

theorem page_fault_cow_witness:
  "\<exists>t f. page_fault_handler demo_vma_find 0x2345 0x40 demo_shared = Some t \<and> get_phys_from_va 0x2345 t = pfn_to_pa f \<and>
     pfn_to_pa f \<noteq> get_phys_from_va 0x2345 demo_shared \<and> pf_events t = []"
proof -
  obtain p where p: "pt_inv {ttbr0_el1 demo_proc} demo_shared" "data_page {ttbr0_el1 demo_proc} demo_shared p"
    "get_phys_from_va 0x2345 demo_shared = pfn_to_pa p" "4 \<le> unat (buddy_nr_free_pages_total (km_pmm demo_shared))"
    "current_mm demo_shared = 0x1000" "l0_table demo_shared 0x2345 \<noteq> 0" "pf_events demo_shared = []" by (rule demo_shared_facts)
  have c: "0x2345 < VMALLOC_START" "current_mm demo_shared \<noteq> 0" "demo_vma_find (current_mm demo_shared) 0x2345 AND VM_WRITE \<noteq> 0" "is_write 0x40"
    by (simp_all add: VMALLOC_START_def p(5) demo_vma_find_def VM_READ_def VM_WRITE_def is_write_def)
  obtain t f where t: "page_fault_handler demo_vma_find 0x2345 0x40 demo_shared = Some t" "pf_events t = pf_events demo_shared"
    "get_phys_from_va 0x2345 t = pfn_to_pa f" "(f, 0) \<in> used_set (km_pmm t)" "(f, 0) \<notin> used_set (km_pmm demo_shared)"
    using page_fault_cow [where find_vma = demo_vma_find, OF p(1,6,4) c p(3,2)] by blast
  have "f < TOTAL_PAGES" using t(4) by (rule head_set_lt)
  moreover have "(p, 0) \<in> used_set (km_pmm demo_shared)" "p < TOTAL_PAGES" using p(2) by (simp_all add: data_page_def)
  ultimately have "pfn_to_pa f \<noteq> pfn_to_pa p" using t(5) pfn_pa_roundtrip by metis
  then show ?thesis using t p(3,7) by auto
qed

section \<open>Refused accesses\<close>



end
