(* ===== verification/Irq.thy ===== *)
theory Irq
  imports Uart
begin

text \<open>
  Interrupts and exceptions: the interrupt controller of \<^verbatim>\<open>driver/gic.c\<close>, the exception entries of
  \<^verbatim>\<open>exception/handler.c\<close>, and the handler of the UART interrupt in \<^verbatim>\<open>kernel/main.c\<close>. A handler is
  its function pointer, 0 is NULL; calling one is a parameter. The functions of the Rust part of
  the kernel that the entries call are a record of parameters. An entry ends by resuming with the
  saved registers, by halting after \<^verbatim>\<open>panic\<close>, or in a place the code declares unreachable; \<open>None\<close>
  is an entry that is still polling the UART.
\<close>

section \<open>Interrupt controller\<close>

definition GICD_PHYS_BASE :: u64 where "GICD_PHYS_BASE = 0x08000000"
definition GICC_PHYS_BASE :: u64 where "GICC_PHYS_BASE = 0x08010000"
definition GICD_CTLR :: "'a kdev_scheme \<Rightarrow> u64" where "GICD_CTLR s = gicd_base s + 0x000"
definition GICD_ISENABLER :: "u32 \<Rightarrow> 'a kdev_scheme \<Rightarrow> u64" where "GICD_ISENABLER n s = gicd_base s + 0x100 + ucast (n * 4)"
definition GICD_ICENABLER :: "u32 \<Rightarrow> 'a kdev_scheme \<Rightarrow> u64" where "GICD_ICENABLER n s = gicd_base s + 0x180 + ucast (n * 4)"
definition GICD_ISPENDR :: "u32 \<Rightarrow> 'a kdev_scheme \<Rightarrow> u64" where "GICD_ISPENDR n s = gicd_base s + 0x200 + ucast (n * 4)"
definition GICC_CTLR :: "'a kdev_scheme \<Rightarrow> u64" where "GICC_CTLR s = gicc_base s + 0x000"
definition GICC_PMR :: "'a kdev_scheme \<Rightarrow> u64" where "GICC_PMR s = gicc_base s + 0x004"
definition GICC_BPR :: "'a kdev_scheme \<Rightarrow> u64" where "GICC_BPR s = gicc_base s + 0x008"
definition GICC_IAR :: "'a kdev_scheme \<Rightarrow> u64" where "GICC_IAR s = gicc_base s + 0x00C"
definition GICC_EOIR :: "'a kdev_scheme \<Rightarrow> u64" where "GICC_EOIR s = gicc_base s + 0x010"

definition gic_init :: "'a kdev_scheme \<Rightarrow> 'a kdev_scheme option" where
  "gic_init s = do {
     (d, s1) \<leftarrow> ioremap GICD_PHYS_BASE 0x10000 s;
     let s2 = s1\<lparr>gicd_base := d\<rparr>;
     (c, s3) \<leftarrow> ioremap GICC_PHYS_BASE 0x10000 s2;
     let s4 = s3\<lparr>gicc_base := c\<rparr>;
     let s5 = (if gicd_base s4 = 0 \<or> gicc_base s4 = 0
               then s4\<lparr>gicd_base := GICD_PHYS_BASE, gicc_base := GICC_PHYS_BASE\<rparr> else s4);
     let s6 = io_write32 (GICD_CTLR s5) 1 s5;
     let s7 = io_write32 (GICC_CTLR s6) 1 s6;
     let s8 = io_write32 (GICC_PMR s7) 0xFF s7;
     Some (io_write32 (GICC_BPR s8) 3 s8) }"

definition gic_enable_irq :: "u32 \<Rightarrow> 'a kdev_scheme \<Rightarrow> 'a kdev_scheme" where
  "gic_enable_irq irq_num s = io_write32 (GICD_ISENABLER (irq_num div 32) s) (push_bit (unat (irq_num mod 32)) 1) s"

definition gic_ack_irq :: "'a kdev_scheme \<Rightarrow> (u32 \<times> 'a kdev_scheme) option" where
  "gic_ack_irq s = io_read32 (GICC_IAR s) s"

definition gic_eoi_irq :: "u32 \<Rightarrow> 'a kdev_scheme \<Rightarrow> 'a kdev_scheme" where
  "gic_eoi_irq irq_num s = io_write32 (GICC_EOIR s) irq_num s"

definition gic_disable_irq :: "u32 \<Rightarrow> 'a kdev_scheme \<Rightarrow> 'a kdev_scheme" where
  "gic_disable_irq irq_num s = io_write32 (GICD_ICENABLER (irq_num div 32) s) (push_bit (unat (irq_num mod 32)) 1) s"

definition gic_set_irq_priority :: "u32 \<Rightarrow> u8 \<Rightarrow> 'a kdev_scheme \<Rightarrow> 'a kdev_scheme" where
  "gic_set_irq_priority irq_num priority s = io_write32 (gicd_base s + 0x400 + ucast (irq_num * 4)) (ucast priority) s"

definition gic_is_irq_pending :: "u32 \<Rightarrow> 'a kdev_scheme \<Rightarrow> (bool \<times> 'a kdev_scheme) option" where
  "gic_is_irq_pending irq_num s = do {
     (reg_val, s1) \<leftarrow> io_read32 (GICD_ISPENDR (irq_num div 32) s) s;
     Some (reg_val AND push_bit (unat (irq_num mod 32)) 1 \<noteq> 0, s1) }"

section \<open>Interrupt table\<close>

definition irq_register :: "u32 \<Rightarrow> u64 \<Rightarrow> u8 list \<Rightarrow> 'a kdev_scheme \<Rightarrow> 'a kdev_scheme option" where
  "irq_register irq handler name s =
     (if irq < 1024 \<and> handler \<noteq> 0 then do {
        let s1 = s\<lparr>irq_table := (irq_table s)(unat irq := handler)\<rparr>;
        let s2 = gic_enable_irq irq s1;
        s3 \<leftarrow> uart_puts (asc ''[IRQ] Register: '') s2;
        s4 \<leftarrow> uart_puts name s3;
        uart_puts [0x0A] s4 }
      else Some s)"

definition el1_irq_handler :: "(u64 \<Rightarrow> u32 \<Rightarrow> 'a kdev_scheme \<Rightarrow> 'a kdev_scheme option) \<Rightarrow> 'a kdev_scheme \<Rightarrow> 'a kdev_scheme option" where
  "el1_irq_handler call s = do {
     (iar, s1) \<leftarrow> io_read32 (GICC_IAR s) s;
     let irq_num = iar AND 0x3FF;
     s2 \<leftarrow> (if irq_num < 1024 then
              (let handler = irq_table s1 (unat irq_num) in
               if handler \<noteq> 0 then call handler irq_num s1 else Some s1)
            else Some s1);
     Some (io_write32 (GICC_EOIR s2) iar s2) }"

text \<open>
  The UART interrupt hands every received character to the terminal. \<open>err0\<close> is what the
  uninitialised variable \<^verbatim>\<open>err\<close> holds on entry.
\<close>

partial_function (option) drain_rx :: "(u8 \<Rightarrow> 'a kdev_scheme \<Rightarrow> 'a kdev_scheme) \<Rightarrow> u8 \<Rightarrow> u32 \<Rightarrow> 'a kdev_scheme \<Rightarrow> (u32 \<times> 'a kdev_scheme) option" where
  "drain_rx rust_tty_input_char ch err s = do {
     ((ok, c1, e1), s1) \<leftarrow> uart_getc_nonblock (Some ch) (Some err) s;
     (if ok \<and> the e1 = UART_ERR_NONE then drain_rx rust_tty_input_char (the c1) (the e1) (rust_tty_input_char (the c1) s1)
      else Some (the e1, s1)) }"

definition uart_irq_callback :: "(u8 \<Rightarrow> 'a kdev_scheme \<Rightarrow> 'a kdev_scheme) \<Rightarrow> u8 \<Rightarrow> u32 \<Rightarrow> 'a kdev_scheme \<Rightarrow> 'a kdev_scheme option" where
  "uart_irq_callback rust_tty_input_char ch0 err0 s = do {
     let s0 = s\<lparr>uart_irq_cnt := uart_irq_cnt s + 1\<rparr>;
     (ready, s1) \<leftarrow> uart_rx_ready s0;
     (if \<not> ready then Some s1
      else do {
        (err, s2) \<leftarrow> drain_rx rust_tty_input_char ch0 err0 s1;
        Some (if err \<noteq> UART_ERR_NONE then uart_clear_error s2 else s2) }) }"

section \<open>Exceptions\<close>

definition ESR_ELx_EC_SHIFT :: nat where "ESR_ELx_EC_SHIFT = 26"
definition ESR_ELx_EC_MASK :: u64 where "ESR_ELx_EC_MASK = push_bit ESR_ELx_EC_SHIFT 0x3F"
definition ESR_EC_UNDEF_INSTR :: u64 where "ESR_EC_UNDEF_INSTR = 0x01"
definition ESR_EC_BRK :: u64 where "ESR_EC_BRK = 0x3C"
definition ESR_EC_SVC_AARCH64 :: u64 where "ESR_EC_SVC_AARCH64 = 0x15"
definition ESR_EC_IABORT :: u64 where "ESR_EC_IABORT = 0x20"
definition ESR_EC_IABORT_LOW :: u64 where "ESR_EC_IABORT_LOW = 0x21"
definition ESR_EC_DABORT :: u64 where "ESR_EC_DABORT = 0x24"
definition ESR_EC_DABORT_LOW :: u64 where "ESR_EC_DABORT_LOW = 0x25"
definition ESR_EC_SERROR :: u64 where "ESR_EC_SERROR = 0x2F"

text \<open>The registers of \<^verbatim>\<open>struct pt_regs\<close>: the two return registers and the general registers by number.\<close>

record pt_regs =
  elr_el1 :: u64
  spsr_el1 :: u64
  xreg :: "nat \<Rightarrow> u64"

text \<open>The exception syndrome registers of EL1 on entry.\<close>

record syndrome =
  esr_el1 :: u64
  far_el1 :: u64
  syn_elr :: u64

datatype 's ex_outcome = Resume pt_regs 's | Halted 's | Unreachable 's

record 's rust_lib =
  rust_check_and_schedule :: "'s \<Rightarrow> u64 \<times> 's"
  rust_handle_syscall :: "u64 \<Rightarrow> u64 list \<Rightarrow> pt_regs \<Rightarrow> 's \<Rightarrow> u64 \<times> pt_regs \<times> 's"
  rust_check_signals :: "'s \<Rightarrow> int \<times> 's"
  rust_do_exit :: "'s \<Rightarrow> 's"
  rust_do_exit_if_dead :: "'s \<Rightarrow> 's"
  get_current_task_info :: "'s \<Rightarrow> u64 \<times> u64 \<times> u64 \<times> u8 list option"
  rust_vma_find :: "u64 \<Rightarrow> u64 \<Rightarrow> u64"

definition safe_print_str :: "u8 list \<Rightarrow> 'a kdev_scheme \<Rightarrow> 'a kdev_scheme option" where
  "safe_print_str str s = uart_puts str s"

definition hex_digit :: "u64 \<Rightarrow> u8" where
  "hex_digit d = (if d < 10 then 0x30 + ucast d else 0x61 + ucast d - 10)"

definition safe_print_hex :: "u64 \<Rightarrow> 'a kdev_scheme \<Rightarrow> 'a kdev_scheme option" where
  "safe_print_hex val s =
     uart_puts (asc ''0x'' @ map (\<lambda>k. hex_digit (drop_bit (60 - 4 * k) val AND 0xF)) [0..<16]) s"

text \<open>A sequence of strings and numbers, as the entry prints them.\<close>

datatype pr_item = Str string | Hex u64 | Raw "u8 list"

fun safe_print :: "pr_item list \<Rightarrow> 'a kdev_scheme \<Rightarrow> 'a kdev_scheme option" where
  "safe_print [] s = Some s"
| "safe_print (Str x # is) s = do { s1 \<leftarrow> safe_print_str (asc x) s; safe_print is s1 }"
| "safe_print (Hex v # is) s = do { s1 \<leftarrow> safe_print_hex v s; safe_print is s1 }"
| "safe_print (Raw b # is) s = do { s1 \<leftarrow> safe_print_str b s; safe_print is s1 }"

definition newline :: string where "newline = [CHR 0x0A]"

definition kprintk :: "bytes \<Rightarrow> (string \<Rightarrow> u64) \<Rightarrow> string \<Rightarrow> u64 list \<Rightarrow> 'a kdev_scheme \<Rightarrow> 'a kdev_scheme option" where
  "kprintk m lit fmt args s = do {
     out \<leftarrow> printk m (lit fmt) (\<lambda>k. if k < length args then args ! k else 0);
     uart_puts out s }"

definition kpanic :: "bytes \<Rightarrow> (string \<Rightarrow> u64) \<Rightarrow> string \<Rightarrow> 'a kdev_scheme \<Rightarrow> 'a kdev_scheme ex_outcome option" where
  "kpanic m lit msg s = do {
     out \<leftarrow> panic m (lit msg) (\<lambda>_. 0);
     s1 \<leftarrow> uart_puts out s;
     Some (Halted s1) }"

definition print_sync_banner :: "'a kdev_scheme rust_lib \<Rightarrow> syndrome \<Rightarrow> u64 \<Rightarrow> 'a kdev_scheme \<Rightarrow> 'a kdev_scheme option" where
  "print_sync_banner R y ec s = do {
     s1 \<leftarrow> safe_print [Str (''[Exception] Synchronous exception'' @ newline), Str ''[Exception] ESR='', Hex (esr_el1 y),
             Str '' EC='', Hex ec, Str '' FAR='', Hex (far_el1 y), Str '' ELR='', Hex (syn_elr y), Str newline] s;
     let (pid, ppid, pgd, name) = get_current_task_info R s1;
     safe_print [Str ''[Exception] Current task: pid='', Hex pid, Str '' ppid='', Hex ppid, Str '' pgd='', Hex pgd,
       Str '' name='', (case name of Some n \<Rightarrow> Raw n | None \<Rightarrow> Str ''(null)''), Str newline] s1 }"

definition signal_exit :: "'s rust_lib \<Rightarrow> 's \<Rightarrow> 's" where
  "signal_exit R s = (let (sig, s1) = rust_check_signals R s in if sig \<noteq> 0 then rust_do_exit R s1 else s1)"

definition svc_handler :: "'s rust_lib \<Rightarrow> u64 \<Rightarrow> pt_regs \<Rightarrow> 's \<Rightarrow> 's ex_outcome" where
  "svc_handler R regs_addr regs s =
     (let num = xreg regs 8;
          args = (if num = 220 then [regs_addr, 0, 0, 0]
                  else if num = 221 then [xreg regs 0, regs_addr, xreg regs 2, xreg regs 3]
                  else [xreg regs 0, xreg regs 1, xreg regs 2, xreg regs 3]);
          (ret, regs1, s1) = rust_handle_syscall R num args regs s;
          regs2 = regs1\<lparr>xreg := (xreg regs1)(0 := ret)\<rparr>
      in Resume regs2 (signal_exit R s1))"

definition is_translation_fault :: "u64 \<Rightarrow> bool" where
  "is_translation_fault esr = (let dfsc = (ucast (drop_bit 0 (esr AND 0x1FFFFFF) AND 0x3F) :: u8) in 0x04 \<le> dfsc \<and> dfsc \<le> 0x0F)"

definition abort_handler :: "'a kdev_scheme rust_lib \<Rightarrow> syndrome \<Rightarrow> pt_regs \<Rightarrow> 'a kdev_scheme \<Rightarrow> 'a kdev_scheme ex_outcome option" where
  "abort_handler R y regs s = do {
     s1 \<leftarrow> page_fault_handler (rust_vma_find R) (far_el1 y) (esr_el1 y) s;
     Some (Resume regs (signal_exit R (rust_do_exit_if_dead R s1))) }"

definition sync_handler :: "'a kdev_scheme rust_lib \<Rightarrow> bytes \<Rightarrow> (string \<Rightarrow> u64) \<Rightarrow> syndrome \<Rightarrow> u64 \<Rightarrow> pt_regs \<Rightarrow> 'a kdev_scheme \<Rightarrow>
    'a kdev_scheme ex_outcome option" where
  "sync_handler R m lit y regs_addr regs s = do {
     let ec = drop_bit ESR_ELx_EC_SHIFT (esr_el1 y AND ESR_ELx_EC_MASK);
     s1 \<leftarrow> (if ec \<noteq> ESR_EC_SVC_AARCH64 then print_sync_banner R y ec s else Some s);
     (if ec = ESR_EC_BRK then do {
        s2 \<leftarrow> safe_print [Str (''[Exception] Breakpoint instruction'' @ newline)] s1;
        Some (Resume regs s2) }
      else if ec = ESR_EC_UNDEF_INSTR then do {
        s2 \<leftarrow> safe_print [Str (''[Exception] Undefined instruction'' @ newline)] s1;
        kpanic m lit ''Undefined instruction'' s2 }
      else if ec = ESR_EC_SVC_AARCH64 then Some (svc_handler R regs_addr regs s1)
      else if ec = ESR_EC_IABORT \<or> ec = ESR_EC_IABORT_LOW then
        (if is_translation_fault (esr_el1 y) then abort_handler R y regs s1
         else do {
           s2 \<leftarrow> safe_print [Str (''[Exception] Instruction abort'' @ newline), Str ''[Exception] DFSC='',
                   Hex (esr_el1 y AND 0x3F), Str newline] s1;
           kpanic m lit ''Instruction abort'' s2 })
      else if ec = ESR_EC_DABORT \<or> ec = ESR_EC_DABORT_LOW then
        (if is_translation_fault (esr_el1 y) then abort_handler R y regs s1
         else do {
           s2 \<leftarrow> safe_print [Str (''[Exception] Data abort'' @ newline)] s1;
           kpanic m lit ''Data abort'' s2 })
      else if ec = ESR_EC_SERROR then do {
        s2 \<leftarrow> safe_print [Str (''[Exception] SError'' @ newline)] s1;
        kpanic m lit ''SError'' s2 }
      else do {
        s2 \<leftarrow> safe_print [Str (''[Exception] Unknown exception'' @ newline)] s1;
        kpanic m lit ''Unknown exception'' s2 }) }"

definition c_exception_handler_el1 ::
    "'a kdev_scheme rust_lib \<Rightarrow> (u64 \<Rightarrow> u32 \<Rightarrow> 'a kdev_scheme \<Rightarrow> 'a kdev_scheme option) \<Rightarrow> bytes \<Rightarrow> (string \<Rightarrow> u64) \<Rightarrow> syndrome \<Rightarrow>
     u64 \<Rightarrow> u64 \<Rightarrow> pt_regs \<Rightarrow> 'a kdev_scheme \<Rightarrow> 'a kdev_scheme ex_outcome option" where
  "c_exception_handler_el1 R call m lit y ex_type regs_addr regs s =
     (if ex_type = 0 then sync_handler R m lit y regs_addr regs s
      else if ex_type = 1 then do {
        s1 \<leftarrow> el1_irq_handler call s;
        let (sched, s2) = rust_check_and_schedule R (signal_exit R s1);
        Some (if sched \<noteq> 0 then Unreachable s2 else Resume regs s2) }
      else if ex_type = 2 then do {
        s1 \<leftarrow> kprintk m lit (''[Exception] FIQ interrupt'' @ newline) [] s;
        kpanic m lit ''FIQ interrupt not handled'' s1 }
      else if ex_type = 3 then do {
        s1 \<leftarrow> kprintk m lit (''[Exception] SError system error'' @ newline) [] s;
        s2 \<leftarrow> kprintk m lit (''[Exception] ESR: 0x%lx'' @ newline) [esr_el1 y] s1;
        s3 \<leftarrow> kprintk m lit (''[Exception] FAR: 0x%lx'' @ newline) [far_el1 y] s2;
        kpanic m lit ''SError'' s3 }
      else do {
        s1 \<leftarrow> kprintk m lit (''[Exception] Unknown exception type: %lu'' @ newline) [ex_type] s;
        kpanic m lit ''Unknown exception type'' s1 })"

section \<open>Secure monitor calls\<close>

definition smc_enable_irq :: "bytes \<Rightarrow> (string \<Rightarrow> u64) \<Rightarrow> u64 \<Rightarrow> 'a kdev_scheme \<Rightarrow> 'a kdev_scheme option" where
  "smc_enable_irq m lit x1 s = do {
     let idx = (ucast (x1 div 32) :: u32);
     let bit = (ucast (x1 mod 32) :: u32);
     s2 \<leftarrow> (if x1 < 32 then do {
              (nsacr0, s1) \<leftarrow> io_read32 (gicd_base s + 0xE0) s;
              let nsacr = nsacr0 OR push_bit (unat (x1 * 2)) 1;
              let s2 = io_write32 (gicd_base s1 + 0xE0) nsacr s1;
              kprintk m lit (''[EL3] NSACR=0x%x'' @ newline) [ucast nsacr] s2 }
            else Some s);
     (grp0, s3) \<leftarrow> io_read32 (gicd_base s2 + 0x80 + ucast (idx * 4)) s2;
     let grp = grp0 OR push_bit (unat bit) 1;
     let s4 = io_write32 (gicd_base s3 + 0x80 + ucast (idx * 4)) grp s3;
     s5 \<leftarrow> kprintk m lit (''[EL3] IGROUPR[%d]=0x%x'' @ newline) [ucast idx, ucast grp] s4;
     let s6 = io_write32 (gicd_base s5 + 0x100 + ucast (idx * 4)) (push_bit (unat bit) 1) s5;
     kprintk m lit (''[EL3] ISENABLER[%d] bit%d set'' @ newline) [ucast idx, ucast bit] s6 }"

text \<open>The handler restores \<^verbatim>\<open>elr_el3\<close> and \<^verbatim>\<open>spsr_el3\<close> to what it read and returns from the exception.\<close>

definition c_exception_handler_el3 :: "bytes \<Rightarrow> (string \<Rightarrow> u64) \<Rightarrow> u64 \<Rightarrow> u64 \<Rightarrow> 'a kdev_scheme \<Rightarrow> 'a kdev_scheme option" where
  "c_exception_handler_el3 m lit x0 x1 s = do {
     let smc_id = (ucast (x0 AND 0xFFFF) :: u32);
     s1 \<leftarrow> kprintk m lit (''[EL3] SMC Call, ID=0x%x, x1=0x%lx'' @ newline) [ucast smc_id, x1] s;
     (if smc_id = 0x1000 then do {
        s2 \<leftarrow> kprintk m lit (''[EL3] SMC_GIC_ENABLE_IRQ called, irq=%lu'' @ newline) [x1] s1;
        (if x1 < 1024 then smc_enable_irq m lit x1 s2 else Some s2) }
      else kprintk m lit (''[EL3] Unknown SMC ID: 0x%x'' @ newline) [ucast smc_id] s1) }"

text \<open>The entries that only report and spin.\<close>

definition c_exception_handler_el2 :: "bytes \<Rightarrow> (string \<Rightarrow> u64) \<Rightarrow> u64 \<Rightarrow> u64 \<Rightarrow> u64 \<Rightarrow> 'a kdev_scheme \<Rightarrow> 'a kdev_scheme ex_outcome option" where
  "c_exception_handler_el2 m lit esr elr spsr s = do {
     s1 \<leftarrow> kprintk m lit (''[EL2 Exception] ESR=0x%lx, ELR=0x%lx, SPSR=0x%lx'' @ newline) [esr, elr, spsr] s;
     Some (Halted s1) }"

definition el1_sync_handler :: "bytes \<Rightarrow> (string \<Rightarrow> u64) \<Rightarrow> u64 \<Rightarrow> u64 \<Rightarrow> 'a kdev_scheme \<Rightarrow> 'a kdev_scheme ex_outcome option" where
  "el1_sync_handler m lit esr far s = do {
     let ec = (ucast (drop_bit 26 esr AND 0x3F) :: u32);
     s1 \<leftarrow> kprintk m lit (newline @ ''[EL1 Sync Exception]'' @ newline) [] s;
     s2 \<leftarrow> kprintk m lit (''ESR: %x'' @ newline) [esr] s1;
     s3 \<leftarrow> kprintk m lit (''FAR: %x'' @ newline) [far] s2;
     (if ec = 0 then do {
        s4 \<leftarrow> uart_puts (asc (''[Error] Undefined Instruction!'' @ newline)) s3;
        Some (Halted s4) }
      else Some (Halted s3)) }"

end
