(* ===== verification/Slab_Client.thy ===== *)
theory Slab_Client
  imports Slab_Properties
begin

text \<open>
  What the users of \<^verbatim>\<open>kmalloc\<close> rely on beside the contents of their blocks: the allocator touches no
  state but its own, and writing into a live block never disturbs the allocator, although the free
  list is threaded through the same memory.
\<close>

section \<open>The allocator leaves the rest of the state alone\<close>

lemma upd_more [simp]:
  "kslab.more (upd_sp i f s) = kslab.more s" "kslab.more (upd_sc i h s) = kslab.more s" "kslab.more (upd_la i k s) = kslab.more s"
  by (simp_all add: upd_sp_def upd_sc_def upd_la_def)

lemma mem_more [simp]:
  fixes s :: "'a kslab_scheme"
  shows "kslab.more (store64 a v s) = kslab.more s" and "kslab.more (km_free_phys_pages pa n s) = kslab.more s"
  by (simp_all add: store64_def km_free_phys_pages_def)

lemma km_alloc_more:
  fixes s :: "'a kslab_scheme"
  shows "km_alloc_phys_pages n g s = (pa, t) \<Longrightarrow> kslab.more t = kslab.more s"
  by (auto simp: km_alloc_phys_pages_def split: prod.splits)

lemma meta_more [simp]:
  "kslab.more (free_slab_page_meta i s) = kslab.more s" "kslab.more (free_large_meta i s) = kslab.more s"
  by (simp_all add: free_slab_page_meta_def free_large_meta_def)

lemma alloc_meta_more:
  "alloc_slab_page_meta s = (r, t) \<Longrightarrow> kslab.more t = kslab.more s" "alloc_large_meta s = (r, t) \<Longrightarrow> kslab.more t = kslab.more s"
  by (auto simp: alloc_slab_page_meta_def alloc_large_meta_def split: option.splits)

lemma chain_objects_more [simp]: "kslab.more (chain_objects k n va sz i s) = kslab.more s"
  by (induction k arbitrary: n s) (simp_all add: Let_def)

lemma del_page_from_more: "del_page_from k c i pp s = Some t \<Longrightarrow> kslab.more t = kslab.more s"
  by (induction k arbitrary: pp) (auto simp: link_set_def Let_def split: option.splits if_splits)

lemma slab_grow_more: "slab_grow c g s = (r, t) \<Longrightarrow> kslab.more t = kslab.more s"
  by (auto simp: slab_grow_def Let_def slab_cache_add_page_def dest!: alloc_meta_more km_alloc_more split: if_splits prod.splits option.splits)

lemma slab_alloc_more: "slab_alloc c g s = Some (x, t) \<Longrightarrow> kslab.more t = kslab.more s"
  by (auto simp: slab_alloc_def take_object_def Let_def dest: slab_grow_more split: option.splits prod.splits)

lemma large_alloc_block_more: "large_alloc_block sz g s = (x, t) \<Longrightarrow> kslab.more t = kslab.more s"
  by (auto simp: large_alloc_block_def Let_def dest!: alloc_meta_more km_alloc_more split: if_splits prod.splits option.splits)

lemma kmalloc_more: "kmalloc sz g s = Some (x, t) \<Longrightarrow> kslab.more t = kslab.more s"
  by (auto simp: kmalloc_def dest: slab_alloc_more large_alloc_block_more split: if_splits option.splits)

lemma slab_destroy_page_more: "slab_destroy_page i s = Some t \<Longrightarrow> kslab.more t = kslab.more s"
  by (auto simp: slab_destroy_page_def slab_cache_del_page_def dest!: del_page_from_more simp del: del_page_from.simps split: option.splits)

lemma slab_free_obj_more: "slab_free_obj va s = Some t \<Longrightarrow> kslab.more t = kslab.more s"
  by (auto simp: slab_free_obj_def Let_def dest!: slab_destroy_page_more split: option.splits if_splits)

lemma kfree_more: "kfree va s = Some t \<Longrightarrow> kslab.more t = kslab.more s"
  by (auto simp: kfree_def large_free_def dest: slab_free_obj_more split: option.splits if_splits)

lemma slab_same:
  assumes "slab_pages t = slab_pages s" "slab_caches t = slab_caches s" "large_allocs t = large_allocs s"
    "mem64 t = mem64 s" "km_pmm t = km_pmm s" "slab_linear_map_base t = slab_linear_map_base s"
  shows "slab_inv t = slab_inv s" and "live t = live s"
proof -
  have u: "slab_used t = slab_used s" "large_used t = large_used s" using assms by (simp_all add: slab_used_def large_used_def)
  have "pchain t a is = pchain s a is" for a "is" using assms by (intro pchain_cong) simp
  then have "cache_ok t c = cache_ok s c" for c using assms by (simp add: cache_ok_def u)
  then show "slab_inv t = slab_inv s" using assms by (simp add: slab_invx_def u base_ok_def)
  show "live t = live s" using assms by (simp add: live_def live_objs_def live_large_def u)
qed

section \<open>Writing into live blocks\<close>

definition live_words :: "'a kslab_scheme \<Rightarrow> u64 set" where
  "live_words s = {a. \<exists>b \<in> live s. unat a \<in> brange b}"

lemma free_word_not_live:
  assumes inv: "slab_inv s" and i: "i \<in> slab_used s" and fl: "page_free (mem64 s) (slab_pages s i) fl" and a: "a \<in> set fl"
  shows "a \<notin> live_words s"
proof
  let ?p = "slab_pages s i"
  assume "a \<in> live_words s"
  then obtain b where b: "b \<in> live s" "unat a \<in> brange b" by (auto simp: live_words_def)
  have o: "a \<in> objs ?p" using fl a by (auto simp: page_free_def)
  note wf = slab_invxD(3) [OF inv i] slab_invxD(2,1) [OF inv]
  have "unat a \<in> vspan s (sp_block ?p)" by (rule objs_range(3) [OF wf o])
  then have "b \<notin> live_rest i s" using live_rest_apart [OF inv i, of b] b(2) by blast
  then have "b \<in> page_live (mem64 s) ?p" using b(1) live_split [OF i] by simp
  then obtain x where x: "b = (x, unat (sp_obj_size ?p))" "x \<in> objs ?p" "x \<notin> set fl" by (auto simp: page_live_eq [OF fl])
  then have "brange (x, unat (sp_obj_size ?p)) \<inter> brange (a, unat (sp_obj_size ?p)) = {}" using a by (intro objs_apart [OF wf _ o]) auto
  moreover have "unat a \<in> brange (a, unat (sp_obj_size ?p))" using page_geometry(2) [OF wf] by (simp add: brange_def)
  ultimately show False using b(2) x(1) by blast
qed

lemma live_write:
  assumes inv: "slab_inv s" and m: "\<And>a. a \<notin> live_words s \<Longrightarrow> m a = mem64 s a"
  shows "slab_inv (s\<lparr>mem64 := m\<rparr>)" and "live (s\<lparr>mem64 := m\<rparr>) = live s"
proof -
  let ?t = "s\<lparr>mem64 := m\<rparr>"
  have u: "slab_used ?t = slab_used s" "large_used ?t = large_used s" by (simp_all add: slab_used_def large_used_def)
  have same: "page_free m (slab_pages s i) fl" if i: "i \<in> slab_used s" and fl: "page_free (mem64 s) (slab_pages s i) fl" for i fl
    using fl freechain_cong [of fl m "mem64 s"] m free_word_not_live [OF inv i fl] by (simp add: page_free_def)
  have c: "cache_ok ?t c = cache_ok s c" for c
    using pchain_cong [of _ ?t s] by (simp add: cache_ok_def u)
  have b: "base_ok ?t = base_ok s" by (simp add: base_ok_def)
  show "slab_inv ?t" unfolding slab_invx_def u b c
    using slab_invxD(1-10) [OF inv] same by simp blast
  have "page_live m (slab_pages s i) = page_live (mem64 s) (slab_pages s i)" if i: "i \<in> slab_used s" for i
  proof -
    obtain fl where fl: "page_free (mem64 s) (slab_pages s i) fl" using slab_invxD(4) [OF inv i] by blast
    show ?thesis unfolding page_live_eq [OF fl] page_live_eq [OF same [OF i fl]] ..
  qed
  then show "live ?t = live s" by (simp add: live_def live_objs_def live_large_def u)
qed

lemma store_live:
  assumes "slab_inv s" and "b \<in> live s" and "unat a \<in> brange b"
  shows "slab_inv (store64 a v s)" and "live (store64 a v s) = live s"
proof -
  have "((mem64 s)(a := v)) x = mem64 s x" if "x \<notin> live_words s" for x using that assms(2,3) by (auto simp: live_words_def)
  note w = live_write [where m = "(mem64 s)(a := v)", OF assms(1) this]
  show "slab_inv (store64 a v s)" and "live (store64 a v s) = live s" unfolding store64_def using w by blast+
qed

section \<open>Chains of blocks\<close>

lemma chain_suffix: "freechain m a (ps @ qs) \<Longrightarrow> \<exists>c. freechain m c qs"
  by (induction ps arbitrary: a) auto

text \<open>Changing the link into the rest of the list: the head when \<open>pre\<close> is empty, the last node of \<open>pre\<close> otherwise.\<close>

lemma relink:
  assumes "freechain m a (pre @ qs)" and "distinct pre" and "freechain m c rs" and "set rs \<inter> set pre = {}"
    and "\<And>q. q \<in> set pre \<union> set rs \<Longrightarrow> m' q = (if pre \<noteq> [] \<and> q = last pre then c else m q)"
  shows "freechain m' (if pre = [] then c else a) (pre @ rs)"
  using assms
proof (induction pre arbitrary: a)
  case Nil
  then show ?case using freechain_cong [of rs m' m] by simp
next
  case (Cons p pre)
  have rs: "freechain m' c rs" if "p \<notin> set rs" "pre = []"
  proof -
    have "m' x = m x" if "x \<in> set rs" for x using Cons.prems(5) [of x] \<open>p \<notin> set rs\<close> \<open>pre = []\<close> that by auto
    then show ?thesis using freechain_cong Cons.prems(3) by metis
  qed
  show ?case
  proof (cases "pre = []")
    case True
    then show ?thesis using Cons.prems rs by auto
  next
    case False
    have p: "p \<noteq> last pre" using Cons.prems(2) False by auto
    have "freechain m' (m p) (pre @ rs)" using Cons.IH [of "m p"] Cons.prems False by auto
    moreover have "m' p = m p" using Cons.prems(5) [of p] False p by simp
    ultimately show ?thesis using Cons.prems(1) by simp
  qed
qed

lemma chain_at: "freechain m a (pre @ p # qs) \<Longrightarrow> p \<noteq> 0 \<and> freechain m (m p) qs \<and> (if pre = [] then a = p else m (last pre) = p)"
proof (induction pre arbitrary: a)
  case (Cons x pre)
  have c: "freechain m (m x) (pre @ p # qs)" using Cons.prems by simp
  show ?case using Cons.IH [OF c] by (cases "pre = []") simp_all
qed simp

lemma chain_rest: "freechain m a (pre @ qs) \<Longrightarrow> pre \<noteq> [] \<Longrightarrow> freechain m (m (last pre)) qs"
  by (induction pre arbitrary: a) (auto split: if_splits)

lemma same_address:
  assumes inv: "slab_inv s" and "(x, n) \<in> live s" "(x, m) \<in> live s"
  shows "n = m"
  using live_apart [OF inv assms(2,3)] live_nonempty [OF inv assms(2)] live_nonempty [OF inv assms(3)] by auto

section \<open>Fields of blocks\<close>

lemma block_end:
  assumes inv: "slab_inv s" and b: "(p, n) \<in> live s"
  shows "unat p + n < 2 ^ 64"
proof -
  obtain u where u: "u \<in> used_set (km_pmm s)" "brange (p, n) \<subseteq> vspan s u" using live_block [OF inv b] by blast
  have "fst u + 2 ^ snd u \<le> 65536" using pages.block_bound [OF slab_invxD(1) [OF inv], of "fst u" "snd u"] u(1) by (simp add: layout_simps)
  then have "x < 2 ^ 64 - 1" if "x \<in> vspan s u" for x using that slab_invxD(2) [OF inv] unfolding vspan_def base_ok_def by auto
  moreover have "n = 0 \<or> unat p + n - 1 \<in> vspan s u" using subsetD [OF u(2), of "unat p + n - 1"] by (cases n) (simp_all add: brange_def)
  ultimately show ?thesis using unsigned_less [of p] by (cases n) (fastforce, fastforce)
qed

lemma field_address:
  assumes inv: "slab_inv s" and b: "(p, n) \<in> live s" and k: "unat k < n"
  shows "unat (p + k) = unat p + unat k" and "unat (p + k) \<in> brange (p, n)"
proof -
  show "unat (p + k) = unat p + unat k" using block_end [OF inv b] k by (intro unat_add_noov) simp
  then show "unat (p + k) \<in> brange (p, n)" using k by (simp add: brange_def)
qed

text \<open>A live block of at least 32 bytes, which holds a small structure.\<close>

definition is_obj :: "'a kslab_scheme \<Rightarrow> u64 \<Rightarrow> bool" where
  "is_obj s p \<longleftrightarrow> (\<exists>n \<ge> 32. (p, n) \<in> live s)"

lemma obj_field: "slab_inv s \<Longrightarrow> is_obj s p \<Longrightarrow> unat k < 32 \<Longrightarrow> \<exists>b \<in> live s. fst b = p \<and> unat (p + k) \<in> brange b"
  unfolding is_obj_def by (metis field_address(2) fst_conv order_less_le_trans)

lemma is_obj_nonzero:
  assumes "slab_inv s" and "is_obj s a"
  shows "a \<noteq> 0"
proof -
  obtain n where n: "(a, n) \<in> live s" using assms(2) by (auto simp: is_obj_def)
  obtain u where "brange (a, n) \<subseteq> vspan s u" using live_block [OF assms(1) n] by blast
  then have "unat a \<in> vspan s u" using live_nonempty [OF assms(1) n] by auto
  then show ?thesis by (auto simp: vspan_def)
qed

text \<open>Structures at these addresses share no word.\<close>

definition fields_apart :: "u64 set \<Rightarrow> bool" where
  "fields_apart B \<longleftrightarrow> (\<forall>p \<in> B. \<forall>q \<in> B. \<forall>j k. unat j < 32 \<longrightarrow> unat k < 32 \<longrightarrow> p + j = q + k \<longrightarrow> p = q)"

lemma live_objs_apart:
  assumes inv: "slab_inv s" and B: "\<And>p. p \<in> B \<Longrightarrow> is_obj s p"
  shows "fields_apart B"
  unfolding fields_apart_def
proof (intro ballI allI impI)
  fix p q and j k :: u64
  assume p: "p \<in> B" "q \<in> B" "unat j < 32" "unat k < 32" "p + j = q + k"
  obtain b c where b: "b \<in> live s" "fst b = p" "unat (p + j) \<in> brange b" and c: "c \<in> live s" "fst c = q" "unat (q + k) \<in> brange c"
    using obj_field [OF inv B [OF p(1)] p(3)] obj_field [OF inv B [OF p(2)] p(4)] by blast
  then have "b = c" using live_apart [OF inv b(1) c(1)] p(5) by auto
  then show "p = q" using b(2) c(2) by simp
qed

lemma apartD: "fields_apart B \<Longrightarrow> p \<in> B \<Longrightarrow> q \<in> B \<Longrightarrow> p \<noteq> q \<Longrightarrow> unat j < 32 \<Longrightarrow> unat k < 32 \<Longrightarrow> p + j \<noteq> q + k"
  unfolding fields_apart_def by blast

section \<open>When an allocation succeeds\<close>

lemma alloc_page_ok:
  assumes inv: "buddy_inv s" and x: "start_pfn s \<le> x" "x < TOTAL_PAGES" "x \<notin> \<Union> (blk ` used_set s)"
  shows "fst (alloc_phys_pages 0 GFP_KERNEL s) \<noteq> 0"
proof -
  note t = inv_hole_tiling [OF buddy_invD(1) [OF inv]]
  have "x \<in> \<Union> (blk ` free_set s)" using tiling_free_pages [OF t] x by auto
  then obtain p k where pk: "(p, k) \<in> free_set s" by auto
  then have k: "k \<le> MAX_ORDER" using buddy_inv_block(1) [OF inv, of p k] by simp
  have f: "fit s False k" using free_list_first(1) [OF buddy_invD(1) [OF inv] k] pk by (simp add: fit_def) (rule exI)
  have "(0 :: nat) \<le> MAX_ORDER" by simp
  with inv show ?thesis
  proof (cases rule: alloc_phys_pages_cases [where g = GFP_KERNEL])
    case none
    then show ?thesis using none(2) [OF _ k] f by (simp add: GFP_KERNEL_def GFP_DMA_def)
  next
    case (some p k t)
    then have "(p, 0) \<in> used_set t" "buddy_inv t" by (simp_all add: allocated_def)
    then show ?thesis using some(1) pfn_to_pa_nonzero pages.block_base by fastforce
  qed
qed

lemma find_partial_free: "find_partial k s a = Some (Some i) \<Longrightarrow> sp_freelist (slab_pages s i) \<noteq> 0"
  by (induction k s a rule: find_partial.induct) (auto split: if_splits)

lemma small_cache: "find_slab_cache sz s = Some c \<Longrightarrow> slab_inv s \<Longrightarrow> sz \<le> 4096 \<Longrightarrow> c < 10"
proof (rule ccontr)
  assume c: "find_slab_cache sz s = Some c" "slab_inv s" "sz \<le> 4096" "\<not> c < 10"
  have "sc_size (slab_caches s 9) = 4096"
    using slab_invxD(6) [OF c(2), of 9] by (simp add: cache_ok_def SLAB_CACHE_COUNT_def slab_sizes_def)
  then have "9 < c \<Longrightarrow> False" using c(1,3) by (auto simp: find_slab_cache_def find_Some_iff SLAB_CACHE_COUNT_def)
  then show False using c(4) by simp
qed

lemma kmalloc_succeeds:
  assumes inv: "slab_inv s" and sz: "sz \<noteq> 0" "sz \<le> 4096" and i: "i < MAX_SLAB_PAGES" "i \<notin> slab_used s"
    and pg: "fst (alloc_phys_pages 0 g (km_pmm s)) \<noteq> 0"
  shows "\<exists>x t. kmalloc sz g s = Some (x, t) \<and> x \<noteq> 0"
proof -
  have s8: "sz \<le> SZ_8K" using sz(2) by (rule order_trans) (simp add: SZ_8K_def)
  then have s4: "\<not> SZ_4M < sz" by (simp add: SZ_4M_def SZ_8K_def word_less_nat_alt word_le_nat_alt)
  obtain c where c: "find_slab_cache sz s = Some c" "c < SLAB_CACHE_COUNT" by (rule find_slab_cache_ok [OF inv s8])
  have o: "slab_order_for_size (slab_sizes ! c) = 0" using small_cache [OF c(1) inv sz(2)] by (simp add: slab_order_nth)
  obtain x t where a: "slab_alloc c g s = Some (x, t)" using slab_alloc_ok [OF inv c(2), of g] by blast
  have "x \<noteq> 0"
  proof (cases "find_partial (MAX_SLAB_PAGES + 1) s (sc_partial (slab_caches s c))")
    case (Some r)
    show ?thesis
    proof (cases r)
      case (Some j)
      then show ?thesis using \<open>_ = Some r\<close> a find_partial_free by (auto simp: slab_alloc_def take_object_def Let_def)
    next
      case None
      obtain r' u where g: "slab_grow c g s = (r', u)" by fastforce
      have size: "sc_size (slab_caches s c) = slab_sizes ! c" using slab_invxD(6) [OF inv c(2)] by (simp add: cache_ok_def)
      have "find (\<lambda>i. \<not> sp_used (slab_pages s i)) [0..<MAX_SLAB_PAGES] \<noteq> None" using i by (auto simp: find_None_iff slab_used_def)
      then obtain j where fj: "find (\<lambda>i. \<not> sp_used (slab_pages s i)) [0..<MAX_SLAB_PAGES] = Some j" by blast
      obtain pa pm where al: "alloc_phys_pages 0 g (km_pmm s) = (pa, pm)" "pa \<noteq> 0" using pg by (cases "alloc_phys_pages 0 g (km_pmm s)") auto
      have j: "r' = Some j"
        using g slab_capacity_nonzero [OF c(2)] fj al by (auto simp: slab_grow_def size o Let_def alloc_slab_page_meta_def km_alloc_phys_pages_def upd_sp_def)
      then have "sp_freelist (slab_pages u j) \<noteq> 0" using slab_grow_ok(2) [OF inv c(2) g] by blast
      then show ?thesis using \<open>_ = Some r\<close> None a g j by (auto simp: slab_alloc_def take_object_def Let_def)
    qed
  qed (use a in \<open>simp add: slab_alloc_def\<close>)
  then show ?thesis using a c(1) sz s8 s4 by (simp add: kmalloc_def)
qed

text \<open>What an allocation takes from the pools below it.\<close>

lemma chain_objects_used [simp]:
  "sp_used (slab_pages (chain_objects k n va sz i s) x) = sp_used (slab_pages s x)" "km_pmm (chain_objects k n va sz i s) = km_pmm s"
  by (induction k arbitrary: n s) (auto simp: Let_def upd_sp_def store64_def)

lemma slab_grow_uses:
  assumes "slab_grow c g s = (r, t)"
  shows "(\<exists>j. slab_used t \<subseteq> insert j (slab_used s)) \<and>
    (km_pmm t = km_pmm s \<or> km_pmm t = snd (alloc_phys_pages (slab_order_for_size (sc_size (slab_caches s c))) g (km_pmm s)))"
proof -
  let ?f = "find (\<lambda>i. \<not> sp_used (slab_pages s i)) [0..<MAX_SLAB_PAGES]"
  obtain pa pm where al: "alloc_phys_pages (slab_order_for_size (sc_size (slab_caches s c))) g (km_pmm s) = (pa, pm)" by fastforce
  show ?thesis
  proof (cases ?f)
    case None
    then have "t = s" using assms by (auto simp: slab_grow_def Let_def alloc_slab_page_meta_def split: if_splits)
    then show ?thesis by auto
  next
    case (Some j)
    then have "slab_used t \<subseteq> insert j (slab_used s) \<and> (km_pmm t = km_pmm s \<or> km_pmm t = pm)"
      using assms al by (cases "pa = 0")
        (auto simp: slab_grow_def Let_def alloc_slab_page_meta_def km_alloc_phys_pages_def free_slab_page_meta_def slab_cache_add_page_def upd_sc_def
          slab_used_def upd_sp_def split: if_splits)
    then show ?thesis using al by auto
  qed
qed

lemma kmalloc_uses:
  assumes inv: "slab_inv s" and k: "kmalloc sz g s = Some (x, t)" and sz: "sz \<le> 4096"
  shows "\<exists>j p. slab_used t \<subseteq> insert j (slab_used s) \<and> used_set (km_pmm t) \<subseteq> insert (p, 0) (used_set (km_pmm s)) \<and>
    start_pfn (km_pmm t) = start_pfn (km_pmm s)"
proof -
  have s8: "sz \<le> SZ_8K" using sz by (rule order_trans) (simp add: SZ_8K_def)
  then have s4: "\<not> SZ_4M < sz" by (simp add: SZ_4M_def SZ_8K_def word_less_nat_alt word_le_nat_alt)
  obtain c where c: "find_slab_cache sz s = Some c" "c < SLAB_CACHE_COUNT" by (rule find_slab_cache_ok [OF inv s8])
  have size: "sc_size (slab_caches s c) = slab_sizes ! c" using slab_invxD(6) [OF inv c(2)] by (simp add: cache_ok_def)
  have o: "slab_order_for_size (slab_sizes ! c) = 0" using small_cache [OF c(1) inv sz] by (simp add: slab_order_nth)
  consider "t = s" | i where "t = snd (take_object i s)" | r u where "slab_grow c g s = (r, u)" "t = u \<or> (\<exists>i. t = snd (take_object i u))"
    using k c(1) s8 s4 by (auto simp: kmalloc_def slab_alloc_def split: if_splits option.splits prod.splits) (metis snd_conv)+
  then show ?thesis
  proof cases
    case (3 r u)
    have t: "slab_used t = slab_used u" "km_pmm t = km_pmm u"
      using 3(2) by (auto simp: take_object_def Let_def slab_used_def upd_sp_def split: if_splits)
    note g = slab_grow_uses [OF 3(1), unfolded size o]
    have b: "buddy_inv (km_pmm s)" using slab_invxD(1) [OF inv] .
    have "(0 :: nat) \<le> MAX_ORDER" by simp
    from b this have "\<exists>p. used_set (snd (alloc_phys_pages 0 g (km_pmm s))) \<subseteq> insert (p, 0) (used_set (km_pmm s)) \<and>
        start_pfn (snd (alloc_phys_pages 0 g (km_pmm s))) = start_pfn (km_pmm s)"
    proof (cases rule: alloc_phys_pages_cases [where g = g])
      case none
      then show ?thesis by (auto simp: buddy_set_error_def start_pfn_def)
    next
      case (some p k u)
      then show ?thesis by (auto simp: allocated_def start_pfn_def)
    qed
    then show ?thesis using g t by (metis subset_insertI)
  qed (auto simp: take_object_def Let_def slab_used_def upd_sp_def)
qed

text \<open>At most \<open>k\<close> slab pages and \<open>k\<close> single pages are in use, of a machine whose first managed page is 513.\<close>

definition room :: "nat \<Rightarrow> 'a kslab_scheme \<Rightarrow> bool" where
  "room k s \<longleftrightarrow> slab_inv s \<and> start_pfn (km_pmm s) = 513 \<and>
     (\<exists>J P. finite J \<and> card J \<le> k \<and> slab_used s \<subseteq> J \<and> finite P \<and> card P \<le> k \<and> used_set (km_pmm s) \<subseteq> P \<times> {0})"

lemma room_inv: "room k s \<Longrightarrow> slab_inv s"
  by (simp add: room_def)

lemma room_cong:
  assumes "slab_inv t = slab_inv s" "slab_pages t = slab_pages s" "km_pmm t = km_pmm s"
  shows "room k t = room k s"
  using assms by (simp add: room_def slab_used_def)

lemma room_fresh:
  assumes "slab_inv s" "slab_used s = {}" "km_pmm s = demo_pmm"
  shows "room 0 s"
  unfolding room_def using assms by (intro conjI exI [of _ "{}"]) (simp_all add: demo_inv(2) demo_start_pfn)

lemma pick_outside: "finite J \<Longrightarrow> card J < n \<Longrightarrow> \<exists>i. m \<le> i \<and> i < m + n \<and> i \<notin> (J :: nat set)"
proof -
  assume J: "finite J" "card J < n"
  have "\<not> {m..<m + n} \<subseteq> J"
  proof
    assume "{m..<m + n} \<subseteq> J"
    then have "card {m..<m + n} \<le> card J" by (rule card_mono [OF J(1)])
    then show False using J(2) by simp
  qed
  then show ?thesis by (auto simp: subset_iff)
qed

lemma room_kmalloc:
  assumes r: "room k s" and k: "k < 64" and sz: "sz \<noteq> 0" "sz \<le> 4096"
  shows "\<exists>x t. kmalloc sz GFP_KERNEL s = Some (x, t) \<and> x \<noteq> 0 \<and> room (Suc k) t"
proof -
  note inv = room_inv [OF r]
  obtain J P where J: "finite J" "card J \<le> k" "slab_used s \<subseteq> J" and P: "finite P" "card P \<le> k" "used_set (km_pmm s) \<subseteq> P \<times> {0}"
    and s0: "start_pfn (km_pmm s) = 513" using r by (auto simp: room_def)
  obtain i where i: "i < 64" "i \<notin> J" using pick_outside [OF J(1), of 64 0] J(2) k by auto
  obtain p where p: "513 \<le> p" "p < 513 + 64" "p \<notin> P" using pick_outside [OF P(1), of 64 513] P(2) k by auto
  have "p \<notin> blk b" if "b \<in> used_set (km_pmm s)" for b using subsetD [OF P(3) that] p(3) by (auto simp: blk_def less_Suc_eq)
  then have "p \<notin> \<Union> (blk ` used_set (km_pmm s))" by blast
  moreover have "p < TOTAL_PAGES" using p(2) by (simp add: layout_simps)
  ultimately have pg: "fst (alloc_phys_pages 0 GFP_KERNEL (km_pmm s)) \<noteq> 0"
    using alloc_page_ok [OF slab_invxD(1) [OF inv], of p] s0 p(1) by simp
  have "i < MAX_SLAB_PAGES" "i \<notin> slab_used s" using i J(3) by (auto simp: MAX_SLAB_PAGES_def)
  from kmalloc_succeeds [OF inv sz this pg] obtain x t where x: "kmalloc sz GFP_KERNEL s = Some (x, t)" "x \<noteq> 0" by blast
  have t: "slab_inv t" using kmalloc_ok [OF inv, of sz GFP_KERNEL] x(1) by (auto simp: handed_out_def)
  obtain j q where u: "slab_used t \<subseteq> insert j (slab_used s)" "used_set (km_pmm t) \<subseteq> insert (q, 0) (used_set (km_pmm s))"
    "start_pfn (km_pmm t) = start_pfn (km_pmm s)" using kmalloc_uses [OF inv x(1) sz(2)] by blast
  have c: "card (insert j J) \<le> Suc k" "card (insert q P) \<le> Suc k"
    using J(2) P(2) by (simp_all add: card_insert_if J(1) P(1))
  have "slab_used t \<subseteq> insert j J" by (rule order_trans [OF u(1) insert_mono [OF J(3)]])
  moreover have "insert (q, 0) (used_set (km_pmm s)) \<subseteq> insert q P \<times> {0}" using P(3) by blast
  then have "used_set (km_pmm t) \<subseteq> insert q P \<times> {0}" by (rule order_trans [OF u(2)])
  ultimately have "room (Suc k) t" unfolding room_def using t s0 u(3) J(1) P(1) c
    by (intro conjI exI [of _ "insert j J"] exI [of _ "insert q P"]) simp_all
  then show ?thesis using x by blast
qed

end
