(* ===== verification/Timer.thy ===== *)
theory Timer
  imports Irq Slab_Client
begin

text \<open>
  The tick and the software timers of \<^verbatim>\<open>driver/timer.c\<close>, and the tick handler of \<^verbatim>\<open>kernel/main.c\<close>
  that the linker puts in place of the weak one of \<^verbatim>\<open>timer.c\<close>. A \<^verbatim>\<open>struct timer\<close> is a block of the
  slab allocator: its four words lie in the memory at its address. \<^verbatim>\<open>struct timer **prev\<close> is \<open>None\<close>
  for \<^verbatim>\<open>&timer_list\<close> and \<open>Some p\<close> for the link of the timer at \<open>p\<close>. The calls through callback
  pointers and the calls into the Rust kernel are parameters. The operations run under
  \<^verbatim>\<open>timer_lock\<close> with interrupts off.
\<close>

section \<open>The structure in memory\<close>

definition TICK_HZ :: nat where "TICK_HZ = 1000"
definition TIMER_IRQ_NUM :: u32 where "TIMER_IRQ_NUM = 30"
definition sizeof_timer :: u64 where "sizeof_timer = 32"

definition tm_expire :: "'a kmem_scheme \<Rightarrow> u64 \<Rightarrow> u64" where "tm_expire s p = load64 p s"
definition tm_callback :: "'a kmem_scheme \<Rightarrow> u64 \<Rightarrow> u64" where "tm_callback s p = load64 (p + 8) s"
definition tm_next :: "'a kmem_scheme \<Rightarrow> u64 \<Rightarrow> u64" where "tm_next s p = load64 (p + 24) s"

definition tm_fill :: "u64 \<Rightarrow> u64 \<Rightarrow> u64 \<Rightarrow> u64 \<Rightarrow> u64 \<Rightarrow> 'a kmem_scheme \<Rightarrow> 'a kmem_scheme" where
  "tm_fill p e cb nm nx s = store64 (p + 24) nx (store64 (p + 16) nm (store64 (p + 8) cb (store64 p e s)))"

definition set_next :: "u64 \<Rightarrow> u64 \<Rightarrow> 'a kmem_scheme \<Rightarrow> 'a kmem_scheme" where
  "set_next p v s = store64 (p + 24) v s"

definition set_link :: "u64 option \<Rightarrow> u64 \<Rightarrow> 'a kdev_scheme \<Rightarrow> 'a kdev_scheme" where
  "set_link prev v s = (case prev of None \<Rightarrow> s\<lparr>timer_list := v\<rparr> | Some p \<Rightarrow> set_next p v s)"

definition get_link :: "u64 option \<Rightarrow> 'a kdev_scheme \<Rightarrow> u64" where
  "get_link prev s = (case prev of None \<Rightarrow> timer_list s | Some p \<Rightarrow> tm_next s p)"

section \<open>The hardware timer\<close>

definition cntp_enable :: "'a kdev_scheme \<Rightarrow> 'a kdev_scheme" where
  "cntp_enable s = s\<lparr>cntp_ctl_el0 := push_bit 0 1 OR push_bit 1 0\<rparr>"

definition cntp_set_tval :: "u64 \<Rightarrow> 'a kdev_scheme \<Rightarrow> 'a kdev_scheme" where
  "cntp_set_tval tval s = s\<lparr>cntp_tval_el0 := tval\<rparr>"

section \<open>Ticks\<close>

partial_function (option) run_expired ::
    "(u64 \<Rightarrow> 'a kdev_scheme \<Rightarrow> 'a kdev_scheme) \<Rightarrow> u64 option \<Rightarrow> u64 \<Rightarrow> 'a kdev_scheme \<Rightarrow> 'a kdev_scheme option" where
  "run_expired call prev current s =
     (if current = 0 then Some s
      else if tm_expire s current \<le> system_tick s then
        (let s1 = set_link prev (tm_next s current) s;
             current1 = get_link prev s1;
             s2 = (if tm_callback s1 current \<noteq> 0 then call (tm_callback s1 current) s1 else s1)
         in run_expired call prev current1 s2)
      else run_expired call (Some current) (tm_next s current) s)"

definition timer_irq_handler_weak ::
    "(u64 \<Rightarrow> 'a kdev_scheme \<Rightarrow> 'a kdev_scheme) \<Rightarrow> ('a kdev_scheme \<Rightarrow> 'a kdev_scheme) \<Rightarrow> 'a kdev_scheme \<Rightarrow> 'a kdev_scheme option" where
  "timer_irq_handler_weak call rust_timer_tick s =
     (let s1 = cntp_set_tval (timer_load_val s) s;
          s2 = rust_timer_tick s1;
          s3 = s2\<lparr>system_tick := system_tick s2 + 1\<rparr>
      in run_expired call None (timer_list s3) s3)"

definition timer_irq_handler ::
    "('a kdev_scheme \<Rightarrow> 'a kdev_scheme) \<Rightarrow> ('a kdev_scheme \<Rightarrow> 'a kdev_scheme) \<Rightarrow> 'a kdev_scheme \<Rightarrow> 'a kdev_scheme" where
  "timer_irq_handler rust_check_sleepers rust_timer_tick s =
     (let load_val = cntfrq_el0 s div 1000;
          s1 = cntp_set_tval load_val s;
          s2 = s1\<lparr>system_tick := system_tick s1 + 1\<rparr>
      in rust_timer_tick (rust_check_sleepers s2))"

section \<open>Software timers\<close>

partial_function (option) insert_point :: "u64 \<Rightarrow> u64 \<Rightarrow> 'a kdev_scheme \<Rightarrow> u64 option" where
  "insert_point expire current s =
     (if tm_next s current \<noteq> 0 \<and> tm_expire s (tm_next s current) < expire
      then insert_point expire (tm_next s current) s else Some current)"

definition timer_add :: "u32 \<Rightarrow> u64 \<Rightarrow> u64 \<Rightarrow> 'a kdev_scheme \<Rightarrow> (u64 \<times> 'a kdev_scheme) option" where
  "timer_add expire_ms callback name s =
     (if callback = 0 then Some (0, s)
      else do {
        let expire = system_tick s + ucast (expire_ms * of_nat TICK_HZ div 1000);
        (new_timer, s1) \<leftarrow> kmalloc sizeof_timer GFP_KERNEL s;
        (if new_timer = 0 then Some (0, s1)
         else do {
           let s2 = tm_fill new_timer expire callback name 0 s1;
           (if timer_list s2 = 0 \<or> expire < tm_expire s2 (timer_list s2) then
              Some (new_timer, (set_next new_timer (timer_list s2) s2)\<lparr>timer_list := new_timer\<rparr>)
            else do {
              current \<leftarrow> insert_point expire (timer_list s2) s2;
              let s3 = set_next new_timer (tm_next s2 current) s2;
              Some (new_timer, set_next current new_timer s3) }) }) })"

partial_function (option) timer_del_from :: "u64 \<Rightarrow> u64 option \<Rightarrow> u64 \<Rightarrow> 'a kdev_scheme \<Rightarrow> (int \<times> 'a kdev_scheme) option" where
  "timer_del_from timer prev current s =
     (if current = 0 then Some (-1, s)
      else if current = timer then do {
        s1 \<leftarrow> kfree current (set_link prev (tm_next s current) s);
        Some (0, s1) }
      else timer_del_from timer (Some current) (tm_next s current) s)"

definition timer_del :: "u64 \<Rightarrow> 'a kdev_scheme \<Rightarrow> (int \<times> 'a kdev_scheme) option" where
  "timer_del timer s = (if timer = 0 then Some (-1, s) else timer_del_from timer None (timer_list s) s)"

section \<open>Time and set-up\<close>

definition timer_get_tick :: "'a kdev_scheme \<Rightarrow> u64" where
  "timer_get_tick s = system_tick s"

definition timer_get_time_ms :: "'a kdev_scheme \<Rightarrow> u64" where
  "timer_get_time_ms s = system_tick s * 1000 div of_nat TICK_HZ"

definition timer_init :: "bytes \<Rightarrow> (string \<Rightarrow> u64) \<Rightarrow> u64 \<Rightarrow> 'a kdev_scheme \<Rightarrow> 'a kdev_scheme option" where
  "timer_init m lit handler s = do {
     let actual_freq = cntfrq_el0 s;
     s1 \<leftarrow> (if cntpct_el0 s = 0 then kprintk m lit (''[TIMER] Warning: System counter not running'' @ newline) [] s else Some s);
     let load_val = actual_freq div of_nat TICK_HZ;
     let s2 = cntp_set_tval load_val s1;
     let s3 = s2\<lparr>timer_load_val := load_val\<rparr>;
     let s4 = cntp_enable s3;
     s5 \<leftarrow> irq_register TIMER_IRQ_NUM handler (asc ''Timer'') s4;
     kprintk m lit (''[TIMER] Initialized, tick rate: %d Hz, counter freq: %llu Hz, IRQ: %d'' @ newline)
       [of_nat TICK_HZ, actual_freq, ucast TIMER_IRQ_NUM] s5 }"

end
