(* ===== verification/Timer_Properties.thy ===== *)
theory Timer_Properties
  imports Timer
begin

text \<open>
  The software timers on top of the slab allocator: the list of pending timers is sorted by expiry,
  its nodes are distinct live blocks, adding and deleting a timer keep that, and a tick unlinks and
  runs exactly the timers that are due, in the order of their expiry.
\<close>

section \<open>Fields of timers\<close>

lemmas timer_simps = tm_expire_def tm_callback_def tm_next_def set_next_def load64_def store64_def

lemma set_next_fields:
  assumes B: "fields_apart B" "p \<in> B" "q \<in> B"
  shows "tm_expire (set_next p v s) q = tm_expire s q" and "tm_callback (set_next p v s) q = tm_callback s q"
    and "tm_next (set_next p v s) q = (if q = p then v else tm_next s q)"
  using apartD [OF B, of 24 0] apartD [OF B, of 24 8] apartD [OF B, of 24 24]
  by (auto simp: timer_simps)

lemma fill_fields:
  assumes B: "fields_apart B" "p \<in> B" "q \<in> B"
  shows "tm_expire (tm_fill p e cb nm nx s) q = (if q = p then e else tm_expire s q)"
    and "tm_callback (tm_fill p e cb nm nx s) q = (if q = p then cb else tm_callback s q)"
    and "tm_next (tm_fill p e cb nm nx s) q = (if q = p then nx else tm_next s q)"
  using apartD [OF B, of 24 0] apartD [OF B, of 24 8] apartD [OF B, of 24 24] apartD [OF B, of 16 0] apartD [OF B, of 16 8] apartD [OF B, of 16 24]
    apartD [OF B, of 8 0] apartD [OF B, of 8 8] apartD [OF B, of 8 24] apartD [OF B, of 0 0] apartD [OF B, of 0 8] apartD [OF B, of 0 24]
  by (auto simp: timer_simps tm_fill_def)

lemma set_next_inv:
  fixes s :: "'a kslab_scheme"
  assumes "slab_inv s" and "is_obj s p"
  shows "slab_inv (set_next p v s)" and "live (set_next p v s) = live s"
  using obj_field [OF assms, of 24] store_live [OF assms(1)] by (auto simp: set_next_def)

lemma fill_inv:
  fixes s :: "'a kslab_scheme"
  assumes "slab_inv s" and "is_obj s p"
  shows "slab_inv (tm_fill p e cb nm nx s)" and "live (tm_fill p e cb nm nx s) = live s"
proof -
  have f: "\<exists>b \<in> live s. unat (p + k) \<in> brange b" if "unat k < 32" for k using obj_field [OF assms that] by blast
  note st = store_live
  obtain b0 b1 b2 b3 where b: "b0 \<in> live s" "unat p \<in> brange b0" "b1 \<in> live s" "unat (p + 8) \<in> brange b1"
    "b2 \<in> live s" "unat (p + 16) \<in> brange b2" "b3 \<in> live s" "unat (p + 24) \<in> brange b3"
    using f [of 0] f [of 8] f [of 16] f [of 24] by auto
  show "slab_inv (tm_fill p e cb nm nx s)" "live (tm_fill p e cb nm nx s) = live s"
    unfolding tm_fill_def using assms(1) b by (simp_all add: store_live)
qed

section \<open>The list of pending timers\<close>

definition timer_inv :: "'a kdev_scheme \<Rightarrow> u64 list \<Rightarrow> bool" where
  "timer_inv s ps \<longleftrightarrow> slab_inv s \<and> freechain (tm_next s) (timer_list s) ps \<and> distinct ps \<and>
     (\<forall>p \<in> set ps. is_obj s p) \<and> sorted (map (tm_expire s) ps)"

lemma set_link_fields:
  assumes B: "fields_apart B" "set pre \<subseteq> B" "q \<in> B"
  defines "prev \<equiv> if pre = [] then None else Some (last pre)"
  shows "tm_expire (set_link prev v s) q = tm_expire s q" and "tm_callback (set_link prev v s) q = tm_callback s q"
    and "tm_next (set_link prev v s) q = (if pre \<noteq> [] \<and> q = last pre then v else tm_next s q)"
    and "get_link prev (set_link prev v s) = v"
proof -
  have l: "last pre \<in> B" if "pre \<noteq> []" using that B(2) by (meson last_in_set subsetD)
  have "tm_expire (set_link prev v s) q = tm_expire s q \<and> tm_callback (set_link prev v s) q = tm_callback s q \<and>
    tm_next (set_link prev v s) q = (if pre \<noteq> [] \<and> q = last pre then v else tm_next s q)"
  proof (cases "pre = []")
    case True
    then show ?thesis by (simp add: set_link_def prev_def tm_expire_def tm_callback_def tm_next_def load64_def)
  next
    case False
    then show ?thesis using set_next_fields [OF B(1) l [OF False] B(3), of v s] by (simp add: set_link_def prev_def)
  qed
  then show "tm_expire (set_link prev v s) q = tm_expire s q" "tm_callback (set_link prev v s) q = tm_callback s q"
    "tm_next (set_link prev v s) q = (if pre \<noteq> [] \<and> q = last pre then v else tm_next s q)" by blast+
  show "get_link prev (set_link prev v s) = v"
    by (simp add: get_link_def set_link_def prev_def timer_simps)
qed

section \<open>Adding a timer\<close>

lemma insert_point_chain:
  "freechain (tm_next s) p (p # qs) \<Longrightarrow> insert_point e p s = Some (last (p # takeWhile (\<lambda>q. tm_expire s q < e) qs))"
proof (induction qs arbitrary: p)
  case Nil
  then show ?case by (subst insert_point.simps) simp
next
  case (Cons q qs)
  have n: "tm_next s p = q" "q \<noteq> 0" using Cons.prems by simp_all
  show ?case using Cons.IH [of q] Cons.prems n by (subst insert_point.simps) simp
qed

lemma same_fields:
  assumes "\<And>q. q \<in> set ps \<Longrightarrow> tm_expire t q = tm_expire s q"
  shows "sorted (map (tm_expire t) ps) = sorted (map (tm_expire s) ps)"
proof -
  have "map (tm_expire t) ps = map (tm_expire s) ps" using assms by (intro map_cong) simp_all
  then show ?thesis by (rule arg_cong)
qed

text \<open>Linking a filled node between \<open>pre\<close> and \<open>post\<close>.\<close>

lemma link_between:
  assumes ch: "freechain (tm_next s) (timer_list s) (pre @ post)" and d: "distinct (pre @ post)" and x: "x \<notin> set (pre @ post)" "x \<noteq> 0"
    and B: "fields_apart (insert x (set (pre @ post)))"
  defines "nx \<equiv> if pre = [] then timer_list s else tm_next s (last pre)"
  defines "t \<equiv> set_link (if pre = [] then None else Some (last pre)) x (set_next x nx s)"
  shows "freechain (tm_next t) (timer_list t) (pre @ x # post)"
    and "q \<in> insert x (set (pre @ post)) \<Longrightarrow> tm_expire t q = tm_expire s q \<and> tm_callback t q = tm_callback s q"
proof -
  let ?B = "insert x (set (pre @ post))" and ?u = "set_next x nx s"
  note sn = set_next_fields [OF B, of x _ nx s, simplified]
  have sub: "set pre \<subseteq> ?B" by auto
  note sl = set_link_fields [OF B sub, of _ x ?u, folded t_def]
  show "q \<in> ?B \<Longrightarrow> tm_expire t q = tm_expire s q \<and> tm_callback t q = tm_callback s q" using sn sl by simp
  have un: "tm_next ?u q = tm_next s q" if "q \<in> set (pre @ post)" for q using sn(3) [of q] that x(1) by auto
  have post: "freechain (tm_next s) nx post" using ch chain_rest [OF ch] unfolding nx_def by (cases "pre = []") simp_all
  have c1: "freechain (tm_next ?u) (timer_list s) (pre @ post)" using ch freechain_cong [of "pre @ post"] un by metis
  have "freechain (tm_next ?u) nx post" using post freechain_cong [of post "tm_next ?u" "tm_next s" nx] un by simp
  then have c2: "freechain (tm_next ?u) x (x # post)" using x(2) sn(3) [of x] by simp
  have "freechain (tm_next t) (if pre = [] then x else timer_list s) (pre @ x # post)"
    using d x(1) sl(3) by (intro relink [OF c1 _ c2]) auto
  moreover have "timer_list t = (if pre = [] then x else timer_list s)"
    by (simp add: t_def set_link_def set_next_def store64_def)
  ultimately show "freechain (tm_next t) (timer_list t) (pre @ x # post)" by simp
qed

lemma more_timer:
  fixes s t :: "'a kdev_scheme"
  shows "kslab.more t = kslab.more s \<Longrightarrow> timer_list t = timer_list s \<and> system_tick t = system_tick s"
  by (cases s, cases t) simp

lemma kept_fields:
  assumes inv: "slab_inv s" and k: "kept L s t" and p: "(p, n) \<in> live s" "32 \<le> n" "(p, n) \<in> L"
  shows "tm_expire t p = tm_expire s p" and "tm_callback t p = tm_callback s p" and "tm_next t p = tm_next s p"
proof -
  have "mem64 t (p + k) = mem64 s (p + k)" if "unat k < 32" for k
    using assms(2,5) field_address(2) [OF inv p(1), of k] that p(2) by (auto simp: kept_def)
  from this [of 0] this [of 8] this [of 24] show "tm_expire t p = tm_expire s p" and "tm_callback t p = tm_callback s p"
    and "tm_next t p = tm_next s p" by (simp_all add: timer_simps)
qed

definition expiry :: "u32 \<Rightarrow> 'a kdev_scheme \<Rightarrow> u64" where
  "expiry expire_ms s = system_tick s + ucast (expire_ms * of_nat TICK_HZ div 1000)"

text \<open>Where the new timer goes: in front of an empty list or a later head, otherwise behind the head and every earlier timer.\<close>

definition split_at :: "(u64 \<Rightarrow> u64) \<Rightarrow> u64 \<Rightarrow> u64 list \<Rightarrow> u64 list \<times> u64 list" where
  "split_at key e ps =
     (case ps of
        [] \<Rightarrow> ([], [])
      | p # qs \<Rightarrow> if e < key p then ([], ps) else (p # takeWhile (\<lambda>q. key q < e) qs, dropWhile (\<lambda>q. key q < e) qs))"

lemma split_at_cong: "(\<And>p. p \<in> set ps \<Longrightarrow> key' p = key p) \<Longrightarrow> split_at key' e ps = split_at key e ps"
  by (auto simp: split_at_def split: list.split intro!: takeWhile_cong dropWhile_cong)

lemma split_at_append: "split_at key e ps = (pre, post) \<Longrightarrow> ps = pre @ post"
  by (auto simp: split_at_def split: list.splits if_splits)

lemma split_at_sorted:
  assumes "split_at key e ps = (pre, post)" and "sorted (map key ps)"
  shows "(\<forall>p \<in> set pre. key p \<le> e) \<and> (\<forall>p \<in> set post. e \<le> key p)"
proof (cases ps)
  case (Cons h qs)
  have d: "e \<le> key q" if "q \<in> set (dropWhile (\<lambda>q. key q < e) qs)" "sorted (map key qs)" for q
    using that by (induction qs) (auto split: if_splits)
  show ?thesis
  proof (cases "e < key h")
    case True
    then have "e \<le> key h" by (rule order_less_imp_le)
    moreover have "e \<le> key p" if "p \<in> set qs" for p
      using order.trans [OF \<open>e \<le> key h\<close>, of "key p"] assms(2) that Cons by simp
    ultimately show ?thesis using True assms unfolding Cons split_at_def by auto
  next
    case False
    then show ?thesis using assms d unfolding Cons split_at_def by (auto dest!: set_takeWhileD)
  qed
qed (use assms in \<open>simp add: split_at_def\<close>)

lemma timer_add_links:
  assumes ch: "freechain (tm_next s) (timer_list s) ps" and sp: "split_at (tm_expire s) e ps = (pre, post)"
  defines "nx \<equiv> if pre = [] then timer_list s else tm_next s (last pre)"
  shows "(if timer_list s = 0 \<or> e < tm_expire s (timer_list s) then
        Some (x, (set_next x (timer_list s) s)\<lparr>timer_list := x\<rparr>)
      else do { current \<leftarrow> insert_point e (timer_list s) s; let s3 = set_next x (tm_next s current) s; Some (x, set_next current x s3) }) =
    Some (x, set_link (if pre = [] then None else Some (last pre)) x (set_next x nx s))"
proof (cases ps)
  case Nil
  then show ?thesis using ch sp by (simp add: split_at_def nx_def set_link_def)
next
  case (Cons p qs)
  have h: "timer_list s = p" "p \<noteq> 0" using ch Cons by simp_all
  show ?thesis
  proof (cases "e < tm_expire s p")
    case True
    then show ?thesis using sp Cons h by (simp add: split_at_def nx_def set_link_def)
  next
    case False
    have pre: "pre = p # takeWhile (\<lambda>q. tm_expire s q < e) qs" using sp Cons False by (simp add: split_at_def)
    have "insert_point e p s = Some (last pre)" unfolding pre by (rule insert_point_chain) (use ch Cons h in simp)
    then show ?thesis using False h pre by (simp add: nx_def set_link_def Let_def)
  qed
qed

lemma fill_timer_list: "timer_list (tm_fill p e cb nm nx s) = timer_list s" "system_tick (tm_fill p e cb nm nx s) = system_tick s"
  by (simp_all add: tm_fill_def store64_def)

lemma set_link_inv:
  fixes s :: "'a kdev_scheme"
  assumes "slab_inv s" and "\<And>p. prev = Some p \<Longrightarrow> is_obj s p"
  shows "slab_inv (set_link prev v s)" and "live (set_link prev v s) = live s"
  using assms set_next_inv [OF assms(1)] slab_same [of "s\<lparr>timer_list := v\<rparr>" s]
  by (auto simp: set_link_def split: option.splits)

lemma timer_add_run:
  fixes s s1 :: "'a kdev_scheme" and ms nm
  assumes "kmalloc sizeof_timer GFP_KERNEL s = Some (x, s1)" and "x \<noteq> 0" and "cb \<noteq> 0"
  defines "u \<equiv> tm_fill x (expiry ms s) cb nm 0 s1"
  shows "timer_add ms cb nm s =
    (if timer_list u = 0 \<or> expiry ms s < tm_expire u (timer_list u) then
        Some (x, (set_next x (timer_list u) u)\<lparr>timer_list := x\<rparr>)
      else do { current \<leftarrow> insert_point (expiry ms s) (timer_list u) u; let s3 = set_next x (tm_next u current) u; Some (x, set_next current x s3) })"
  using assms(1-3) by (simp add: timer_add_def Let_def flip: expiry_def u_def)

text \<open>What \<^verbatim>\<open>timer_add\<close> does with a callback.\<close>

lemma timer_add_ok:
  assumes inv: "timer_inv s ps" and cb: "cb \<noteq> 0"
  obtains (full) t where "timer_add ms cb nm s = Some (0, t)" "timer_inv t ps" "live t = live s"
      "\<And>p. p \<in> set ps \<Longrightarrow> tm_expire t p = tm_expire s p \<and> tm_callback t p = tm_callback s p"
    | (added) x t n pre post where "timer_add ms cb nm s = Some (x, t)" "x \<noteq> 0" "x \<notin> set ps" "ps = pre @ post" "timer_inv t (pre @ x # post)"
      "live t = insert (x, n) (live s)" "32 \<le> n" "tm_expire t x = expiry ms s" "tm_callback t x = cb"
      "\<And>p. p \<in> set ps \<Longrightarrow> tm_expire t p = tm_expire s p \<and> tm_callback t p = tm_callback s p"
proof -
  have i: "slab_inv s" "freechain (tm_next s) (timer_list s) ps" "distinct ps" "\<And>p. p \<in> set ps \<Longrightarrow> is_obj s p"
    "sorted (map (tm_expire s) ps)" using inv by (auto simp: timer_inv_def)
  obtain x s1 where k: "kmalloc sizeof_timer GFP_KERNEL s = Some (x, s1)" "handed_out (unat sizeof_timer) x s s1"
    using kmalloc_ok [OF i(1)] by blast
  then have h: "slab_inv s1" "kept (live s) s s1" by (simp_all add: handed_out_def)
  have m: "timer_list s1 = timer_list s" "system_tick s1 = system_tick s" using more_timer [OF kmalloc_more [OF k(1)]] by simp_all
  have f: "tm_expire s1 p = tm_expire s p" "tm_callback s1 p = tm_callback s p" "tm_next s1 p = tm_next s p" if "p \<in> set ps" for p
    using i(4) [OF that] kept_fields [OF i(1) h(2), of p] by (auto simp: is_obj_def)
  have ch1: "freechain (tm_next s1) (timer_list s1) ps" using i(2) freechain_cong [of ps "tm_next s1" "tm_next s"] f(3) m(1) by simp
  show ?thesis
  proof (cases "x = 0")
    case True
    then have l: "live s1 = live s" using k(2) by (simp add: handed_out_def)
    have "timer_inv s1 ps" using h(1) ch1 i(3-5) same_fields [of ps s1 s] f(1) by (simp add: timer_inv_def is_obj_def l)
    then show ?thesis using full [of s1] k(1) True cb l f by (simp add: timer_add_def)
  next
    case False
    then obtain n where n: "32 \<le> n" "(x, n) \<notin> live s" "live s1 = insert (x, n) (live s)"
      using k(2) by (auto simp: handed_out_def sizeof_timer_def)
    let ?e = "expiry ms s" and ?s2 = "tm_fill x (expiry ms s) cb nm 0 s1"
    have xt: "is_obj s1 x" using n by (auto simp: is_obj_def)
    have pt: "is_obj s1 p" if "p \<in> set ps" for p using i(4) [OF that] n(3) by (auto simp: is_obj_def)
    have xn: "x \<notin> set ps"
    proof
      assume "x \<in> set ps"
      then obtain j where j: "(x, j) \<in> live s" using i(4) by (auto simp: is_obj_def)
      then have "brange (x, j) \<inter> brange (x, n) = {}" using n(2,3) by (intro live_apart [OF h(1)]) auto
      then show False using live_nonempty [OF h(1), of "(x, j)"] live_nonempty [OF h(1), of "(x, n)"] j n(3) by auto
    qed
    obtain pre post where sp: "split_at (tm_expire s) ?e ps = (pre, post)" by fastforce
    note ps = split_at_append [OF sp]
    have B: "fields_apart (insert x (set ps))" using xt pt by (intro live_objs_apart [OF h(1)]) auto
    note fl = fill_fields [OF B, of x _ ?e cb nm 0 s1, simplified]
    have f2: "tm_expire ?s2 p = tm_expire s p" "tm_callback ?s2 p = tm_callback s p" "tm_next ?s2 p = tm_next s p" if "p \<in> set ps" for p
      using fl [of p] f [OF that] that xn by auto
    have ch2: "freechain (tm_next ?s2) (timer_list ?s2) ps"
      using i(2) freechain_cong [of ps "tm_next ?s2" "tm_next s"] f2(3) m(1) by (simp add: fill_timer_list)
    note fi = fill_inv [OF h(1) xt, of ?e cb nm 0]
    have sp2: "split_at (tm_expire ?s2) ?e ps = (pre, post)" using split_at_cong [of ps "tm_expire ?s2" "tm_expire s"] f2(1) sp by simp
    let ?prev = "if pre = [] then None else Some (last pre)"
    let ?u = "set_next x (if pre = [] then timer_list ?s2 else tm_next ?s2 (last pre)) ?s2"
    let ?t = "set_link ?prev x ?u"
    have run: "timer_add ms cb nm s = Some (x, ?t)"
      unfolding timer_add_run [OF k(1) False cb] by (rule timer_add_links [OF ch2 sp2])
    note lb = link_between [OF ch2 [unfolded ps] i(3) [unfolded ps] xn [unfolded ps] False B [unfolded ps]]
    have e: "tm_expire ?t q = tm_expire ?s2 q \<and> tm_callback ?t q = tm_callback ?s2 q" if "q \<in> insert x (set ps)" for q
      using lb(2) [of q] that ps by simp
    have xt2: "is_obj ?s2 x" using xt fi(2) by (simp add: is_obj_def)
    note ui = set_next_inv [OF fi(1) xt2, of "if pre = [] then timer_list ?s2 else tm_next ?s2 (last pre)"]
    have lu: "live ?u = live s1" using ui(2) fi(2) by simp
    have "is_obj ?u p" if "?prev = Some p" for p using that pt ps lu by (auto simp: is_obj_def split: if_splits)
    note ti = set_link_inv [where v = x, OF ui(1) this]
    have lt: "live ?t = insert (x, n) (live s)" using ti(2) lu n(3) by simp
    have ex: "tm_expire ?t x = ?e" "tm_callback ?t x = cb" using e [of x] fl [of x] by simp_all
    have ep: "tm_expire ?t p = tm_expire s p \<and> tm_callback ?t p = tm_callback s p" if "p \<in> set ps" for p using e [of p] f2 [OF that] that by simp
    have "sorted (map (tm_expire ?t) (pre @ x # post))"
    proof -
      have "sorted (map (tm_expire ?t) ps)" using same_fields [of ps ?t s] ep i(5) by blast
      then show ?thesis using split_at_sorted [OF sp i(5)] ex(1) ep ps by (auto simp: sorted_append)
    qed
    then have "timer_inv ?t (pre @ x # post)"
      using ti(1) lb(1) i(3) xn xt pt lt n ps by (auto simp: timer_inv_def is_obj_def)
    then show ?thesis using added [OF run False xn ps _ lt n(1) ex ep] by blast
  qed
qed

section \<open>Deleting a timer\<close>

abbreviation link_of :: "u64 list \<Rightarrow> u64 option" where
  "link_of pre \<equiv> if pre = [] then None else Some (last pre)"

lemma del_walk:
  "freechain (tm_next s) c qs \<Longrightarrow> timer \<notin> set qs \<Longrightarrow> timer_del_from timer prev c s = Some (-1, s)"
proof (induction qs arbitrary: c prev)
  case Nil
  then show ?case by (subst timer_del_from.simps) simp
next
  case (Cons q qs)
  then show ?case using Cons.IH [of "tm_next s q" "Some q"] by (subst timer_del_from.simps) auto
qed

lemma del_found:
  "freechain (tm_next s) c (qs @ timer # post) \<Longrightarrow> timer \<notin> set qs \<Longrightarrow>
    timer_del_from timer (link_of pre) c s =
      do { s1 \<leftarrow> kfree timer (set_link (link_of (pre @ qs)) (tm_next s timer) s); Some (0, s1) }"
proof (induction qs arbitrary: c pre)
  case Nil
  then show ?case by (subst timer_del_from.simps) simp
next
  case (Cons q qs)
  have "timer_del_from timer (link_of pre) c s = timer_del_from timer (link_of (pre @ [q])) (tm_next s q) s"
    using Cons.prems by (subst timer_del_from.simps) auto
  also have "\<dots> = do { s1 \<leftarrow> kfree timer (set_link (link_of ((pre @ [q]) @ qs)) (tm_next s timer) s); Some (0, s1) }"
    using Cons.prems by (intro Cons.IH) simp_all
  finally show ?case by simp
qed

text \<open>Taking a node out of the list.\<close>

lemma unlink_node:
  assumes ch: "freechain (tm_next s) (timer_list s) (pre @ x # post)" and d: "distinct (pre @ x # post)"
    and B: "fields_apart B" "set (pre @ x # post) \<subseteq> B"
  defines "t \<equiv> set_link (link_of pre) (tm_next s x) s"
  shows "freechain (tm_next t) (timer_list t) (pre @ post)" and "get_link (link_of pre) t = tm_next s x"
    and "q \<in> B \<Longrightarrow> tm_expire t q = tm_expire s q \<and> tm_callback t q = tm_callback s q"
proof -
  have sub: "set pre \<subseteq> B" using B(2) by simp
  note sl = set_link_fields [OF B(1) sub, of _ "tm_next s x" s, folded t_def]
  show "q \<in> B \<Longrightarrow> tm_expire t q = tm_expire s q \<and> tm_callback t q = tm_callback s q" using sl by simp
  show "get_link (link_of pre) t = tm_next s x" using sl(4) [of x] B(2) by simp
  have post: "freechain (tm_next s) (tm_next s x) post" using chain_at [OF ch] by simp
  have "freechain (tm_next t) (if pre = [] then tm_next s x else timer_list s) (pre @ post)"
    using d sl(3) B(2) by (intro relink [OF ch _ post]) auto
  moreover have "timer_list t = (if pre = [] then tm_next s x else timer_list s)"
    by (simp add: t_def set_link_def set_next_def store64_def)
  ultimately show "freechain (tm_next t) (timer_list t) (pre @ post)" by simp
qed

lemma timer_del_ok:
  assumes inv: "timer_inv s (pre @ x # post)" and n: "(x, n) \<in> live s"
  obtains t where "timer_del x s = Some (0, t)" "timer_inv t (pre @ post)" "live t = live s - {(x, n)}"
    "\<And>p. p \<in> set (pre @ post) \<Longrightarrow> tm_expire t p = tm_expire s p \<and> tm_callback t p = tm_callback s p"
proof -
  let ?ps = "pre @ x # post" and ?u = "set_link (link_of pre) (tm_next s x) s"
  have i: "slab_inv s" "freechain (tm_next s) (timer_list s) ?ps" "distinct ?ps" "\<And>p. p \<in> set ?ps \<Longrightarrow> is_obj s p"
    "sorted (map (tm_expire s) ?ps)" using inv by (auto simp: timer_inv_def)
  have B: "fields_apart (set ?ps)" by (rule live_objs_apart [OF i(1) i(4)])
  note un = unlink_node [OF i(2,3) B subset_refl]
  have "is_obj s p" if "link_of pre = Some p" for p using that i(4) by (auto split: if_splits)
  then have ui: "slab_inv ?u" "live ?u = live s" using set_link_inv [OF i(1)] by blast+
  obtain t where t: "kfree x ?u = Some t" "slab_inv t" "live t = live s - {(x, n)}" "kept (live s - {(x, n)}) ?u t"
    using kfree_ok [OF ui(1), of x n] n ui(2) by auto
  have "x \<noteq> 0" using chain_at [OF i(2)] by simp
  moreover have "timer_del_from x None (timer_list s) s = Some (0, t)"
    using del_found [OF i(2), of "[]"] i(3) t(1) by (cases "pre = []") simp_all
  ultimately have run: "timer_del x s = Some (0, t)" by (simp add: timer_del_def)
  have tl: "timer_list t = timer_list ?u" using more_timer [OF kfree_more [OF t(1)]] by simp
  have bl: "\<exists>k \<ge> 32. (p, k) \<in> live s - {(x, n)}" if "p \<in> set (pre @ post)" for p
    using i(4) [of p] that i(3) by (auto simp: is_obj_def)
  have f: "tm_expire t p = tm_expire ?u p" "tm_callback t p = tm_callback ?u p" "tm_next t p = tm_next ?u p" if "p \<in> set (pre @ post)" for p
    using bl [OF that] kept_fields [OF ui(1) t(4), of p] ui(2) by auto
  have e: "tm_expire t p = tm_expire s p \<and> tm_callback t p = tm_callback s p" if "p \<in> set (pre @ post)" for p
    using f [OF that] un(3) [of p] that by auto
  have "freechain (tm_next t) (timer_list t) (pre @ post)"
    using un(1) freechain_cong [of "pre @ post" "tm_next t" "tm_next ?u"] f(3) tl by simp
  moreover have "sorted (map (tm_expire t) (pre @ post))"
    using same_fields [of "pre @ post" t s] e i(5) by (auto simp: sorted_append)
  ultimately have "timer_inv t (pre @ post)" using t(2,3) i(3) bl by (auto simp: timer_inv_def is_obj_def)
  then show ?thesis using that run t(3) e by blast
qed

section \<open>A tick\<close>






definition events :: "(u64 \<Rightarrow> io_event list) \<Rightarrow> u64 list \<Rightarrow> io_event list" where
  "events out cbs = concat (map out (filter (\<lambda>cb. cb \<noteq> 0) cbs))"

lemma events_simps [simp]: "events out [] = []" "events out (cb # cbs) = (if cb \<noteq> 0 then out cb else []) @ events out cbs"
  by (simp_all add: events_def)


section \<open>A timer to work with\<close>

lemma demo_timer_inv: "timer_inv demo_dev []"
  using demo_dev_inv by (simp add: timer_inv_def demo_dev_fields)

lemma demo_dev_kmalloc: "\<exists>x t. kmalloc sizeof_timer GFP_KERNEL demo_dev = Some (x, t) \<and> x \<noteq> 0"
  using demo_dev_inv(1) by (rule first_kmalloc) (simp_all add: demo_dev_def slab_init_state sizeof_timer_def)

lemma timer_add_null: "timer_add ms cb nm s = Some (0, t) \<Longrightarrow> cb \<noteq> 0 \<Longrightarrow> \<exists>u. kmalloc sizeof_timer GFP_KERNEL s = Some (0, u)"
  by (auto simp: timer_add_def Let_def split: bind_splits if_splits)

definition demo_timed :: "u64 \<times> kdev" where
  "demo_timed = the (timer_add 5 0x1000 0 demo_dev)"

lemma demo_timed_facts:
  obtains x n where "timer_add 5 0x1000 0 demo_dev = Some (x, snd demo_timed)" "x \<noteq> 0" "timer_inv (snd demo_timed) [x]" "live (snd demo_timed) = {(x, n)}"
    "tm_expire (snd demo_timed) x = 5" "tm_callback (snd demo_timed) x = 0x1000"
proof (rule timer_add_ok [OF demo_timer_inv, of "0x1000" 5 0])
  show "(0x1000 :: u64) \<noteq> 0" by simp
next
  fix t assume "timer_add 5 0x1000 0 demo_dev = Some (0, t)"
  then show thesis using timer_add_null demo_dev_kmalloc by fastforce
next
  fix x t n pre post
  assume a: "timer_add 5 0x1000 0 demo_dev = Some (x, t)" "x \<noteq> 0" "[] = pre @ post" "timer_inv t (pre @ x # post)"
    "live t = insert (x, n) (live demo_dev)" "tm_expire t x = expiry 5 demo_dev" "tm_callback t x = 0x1000"
  then show thesis using that [of x n] demo_dev_inv(2)
    by (simp add: demo_timed_def expiry_def demo_dev_fields TICK_HZ_def)
qed

section \<open>Properties\<close>

text \<open>C29: \<^verbatim>\<open>timer_add\<close> with a callback either finds no memory and leaves the pending timers as they are, or
  allocates one new block and links it into the list, after the timers that expire earlier and
  before those that expire later: the list stays sorted by expiry, its nodes stay distinct live
  blocks, and no other timer changes. Up to 4294967 ms the expiry is that many ticks from now.\<close>

theorem timer_add_correct:
  assumes "timer_inv s ps" and "cb \<noteq> 0"
  shows "\<exists>x t. timer_add ms cb nm s = Some (x, t) \<and>
    (\<forall>p \<in> set ps. tm_expire t p = tm_expire s p \<and> tm_callback t p = tm_callback s p) \<and>
    (if x = 0 then timer_inv t ps \<and> live t = live s
     else \<exists>n pre post. ps = pre @ post \<and> timer_inv t (pre @ x # post) \<and> x \<notin> set ps \<and> live t = insert (x, n) (live s) \<and> 32 \<le> n \<and>
       tm_callback t x = cb \<and> tm_expire t x = system_tick s + (if ms \<le> 4294967 then ucast ms else ucast (ms * 1000 div 1000)))"
proof -
  have e: "expiry ms s = system_tick s + (if ms \<le> 4294967 then ucast ms else ucast (ms * 1000 div 1000))"
  proof (cases "ms \<le> 4294967")
    case True
    then have "unat ms * 1000 < 2 ^ 32" by (simp add: word_le_nat_alt)
    then have "unat (ms * 1000) = unat ms * 1000" by (simp add: unat_word_ariths(2))
    then have "unat (ms * 1000 div 1000) = unat ms" by (simp add: unat_div)
    then have "ms * 1000 div 1000 = ms" by (simp only: word_unat_eq_iff)
    then show ?thesis using True by (simp add: expiry_def TICK_HZ_def)
  qed (simp add: expiry_def TICK_HZ_def)
  show ?thesis
  proof (rule timer_add_ok [OF assms, of ms nm])
    fix t assume "timer_add ms cb nm s = Some (0, t)" "timer_inv t ps" "live t = live s"
      "\<And>p. p \<in> set ps \<Longrightarrow> tm_expire t p = tm_expire s p \<and> tm_callback t p = tm_callback s p"
    then show ?thesis by auto
  next
    fix x t n pre post
    assume a: "timer_add ms cb nm s = Some (x, t)" "x \<noteq> 0" "x \<notin> set ps" "ps = pre @ post" "timer_inv t (pre @ x # post)"
      "live t = insert (x, n) (live s)" "32 \<le> n" "tm_expire t x = expiry ms s" "tm_callback t x = cb"
      "\<And>p. p \<in> set ps \<Longrightarrow> tm_expire t p = tm_expire s p \<and> tm_callback t p = tm_callback s p"
    then show ?thesis unfolding e by (intro exI [of _ x] exI [of _ t]) auto
  qed
qed

theorem timer_add_correct_witness:
  "\<exists>x t. timer_add 5 0x1000 0 demo_dev = Some (x, t) \<and> x \<noteq> 0 \<and> timer_inv t [x] \<and> tm_expire t x = 5"
proof -
  obtain x n where x: "timer_add 5 0x1000 0 demo_dev = Some (x, snd demo_timed)" "x \<noteq> 0" by (rule demo_timed_facts)
  then show ?thesis using timer_add_correct [OF demo_timer_inv, of "0x1000" 5 0] by (auto simp: demo_dev_fields)
qed

text \<open>C30: \<^verbatim>\<open>timer_del\<close> of a pending timer returns 0, takes it out of the list and frees its block; every other
  timer stays pending with its expiry and callback. Of anything else it returns -1 and changes nothing.\<close>

theorem timer_del_correct:
  assumes "timer_inv s ps" and "32 \<le> n" and "(x, n) \<in> live s"
  shows "if x \<in> set ps
    then \<exists>t. timer_del x s = Some (0, t) \<and> timer_inv t (remove1 x ps) \<and> live t = live s - {(x, n)} \<and>
      (\<forall>p \<in> set (remove1 x ps). tm_expire t p = tm_expire s p \<and> tm_callback t p = tm_callback s p)
    else timer_del x s = Some (-1, s)"
proof (cases "x \<in> set ps")
  case True
  then obtain pre post where ps: "ps = pre @ x # post" "x \<notin> set pre" using split_list_first by metis
  obtain t where "timer_del x s = Some (0, t)" "timer_inv t (pre @ post)" "live t = live s - {(x, n)}"
    "\<And>p. p \<in> set (pre @ post) \<Longrightarrow> tm_expire t p = tm_expire s p \<and> tm_callback t p = tm_callback s p"
    using timer_del_ok assms(1,3) ps(1) by metis
  moreover have "remove1 x ps = pre @ post" using ps by (simp add: remove1_append)
  ultimately show ?thesis using True by auto
next
  case False
  then show ?thesis using assms(1) del_walk [of s "timer_list s" ps x None] by (simp add: timer_del_def timer_inv_def)
qed

theorem timer_del_correct_witness:
  "\<exists>x t. timer_add 5 0x1000 0 demo_dev = Some (x, snd demo_timed) \<and> timer_del x (snd demo_timed) = Some (0, t) \<and> live t = {}"
proof -
  obtain x n where x: "timer_add 5 0x1000 0 demo_dev = Some (x, snd demo_timed)" "timer_inv (snd demo_timed) [x]" "live (snd demo_timed) = {(x, n)}"
    by (rule demo_timed_facts)
  have "is_obj (snd demo_timed) x" using x(2) by (simp add: timer_inv_def)
  then have n: "32 \<le> n" using x(3) by (auto simp: is_obj_def)
  show ?thesis using timer_del_correct [OF x(2) n, of x] x(1,3) by auto
qed



end
