(* ===== verification/RBtree_Correct.thy ===== *)
theory RBtree_Correct
  imports RBtree "HOL-Library.Multiset"
begin

text \<open>
  The pointer structure of \<^verbatim>\<open>rbtree.c\<close> as a tree: a heap represents a binary tree of nodes when every
  link and every parent pointer agrees with it. A position inside the tree is a path, the list of
  the frames between it and the root. Rotations, recolouring and the insertion fix-up are related to
  the tree by this abstraction.
\<close>

section \<open>Trees and paths\<close>

datatype 'a btree = Tip | Br "'a btree" 'a "'a btree"

fun nodes :: "'a btree \<Rightarrow> 'a list" where
  "nodes Tip = []"
| "nodes (Br l x r) = nodes l @ x # nodes r"

text \<open>A frame is the node above a position, and its other subtree.\<close>

datatype 'a frame = InL 'a "'a btree" | InR "'a btree" 'a

fun plug :: "'a frame list \<Rightarrow> 'a btree \<Rightarrow> 'a btree" where
  "plug [] T = T"
| "plug (InL x r # fs) T = plug fs (Br T x r)"
| "plug (InR l x # fs) T = plug fs (Br l x T)"

fun above :: "'a \<Rightarrow> 'a frame list \<Rightarrow> 'a" where
  "above nl [] = nl"
| "above nl (InL x r # fs) = x"
| "above nl (InR l x # fs) = x"

fun before :: "'a frame list \<Rightarrow> 'a list" where
  "before [] = []"
| "before (InL x r # fs) = before fs"
| "before (InR l x # fs) = before fs @ nodes l @ [x]"

fun after :: "'a frame list \<Rightarrow> 'a list" where
  "after [] = []"
| "after (InL x r # fs) = x # nodes r @ after fs"
| "after (InR l x # fs) = after fs"

lemma nodes_plug: "nodes (plug fs T) = before fs @ nodes T @ after fs"
  by (induction fs T rule: plug.induct) simp_all

lemma above_in: "fs \<noteq> [] \<Longrightarrow> above nl fs \<in> set (before fs) \<union> set (after fs)"
  by (cases "(nl, fs)" rule: above.cases) auto

section \<open>Representation\<close>

fun repr :: "'a rb_tree \<Rightarrow> 'a \<Rightarrow> 'a \<Rightarrow> 'a btree \<Rightarrow> bool" where
  "repr t p n Tip \<longleftrightarrow> n = rb_nil t"
| "repr t p n (Br l x r) \<longleftrightarrow> n = x \<and> x \<noteq> rb_nil t \<and> rb_parent t x = p \<and> repr t x (rb_left t x) l \<and> repr t x (rb_right t x) r"

fun rpath :: "'a rb_tree \<Rightarrow> 'a frame list \<Rightarrow> 'a \<Rightarrow> bool" where
  "rpath t [] h \<longleftrightarrow> rb_root t = h"
| "rpath t (InL x r # fs) h \<longleftrightarrow> x \<noteq> rb_nil t \<and> rb_left t x = h \<and> repr t x (rb_right t x) r \<and>
     rb_parent t x = above (rb_nil t) fs \<and> rpath t fs x"
| "rpath t (InR l x # fs) h \<longleftrightarrow> x \<noteq> rb_nil t \<and> rb_right t x = h \<and> repr t x (rb_left t x) l \<and>
     rb_parent t x = above (rb_nil t) fs \<and> rpath t fs x"

definition rtree :: "'a rb_tree \<Rightarrow> 'a btree \<Rightarrow> bool" where
  "rtree t T \<longleftrightarrow> repr t (rb_nil t) (rb_root t) T \<and> distinct (nodes T)"

lemma repr_plug: "repr t (rb_nil t) (rb_root t) (plug fs T) \<longleftrightarrow> (\<exists>h. rpath t fs h \<and> repr t (above (rb_nil t) fs) h T)"
  by (induction fs T rule: plug.induct) auto

lemma rtree_plug: "rtree t (plug fs T) \<longleftrightarrow>
    (\<exists>h. rpath t fs h \<and> repr t (above (rb_nil t) fs) h T) \<and> distinct (before fs @ nodes T @ after fs)"
  by (simp add: rtree_def repr_plug nodes_plug)

definition same_at :: "'a rb_tree \<Rightarrow> 'a rb_tree \<Rightarrow> 'a \<Rightarrow> bool" where
  "same_at t t' x \<longleftrightarrow> rb_parent t' x = rb_parent t x \<and> rb_left t' x = rb_left t x \<and> rb_right t' x = rb_right t x"

lemma repr_cong: "rb_nil t' = rb_nil t \<Longrightarrow> (\<And>x. x \<in> set (nodes T) \<Longrightarrow> same_at t t' x) \<Longrightarrow> repr t p n T \<Longrightarrow> repr t' p n T"
  by (induction T arbitrary: p n) (auto simp: same_at_def)

lemma repr_nil: "repr t p n T \<Longrightarrow> rb_nil t \<notin> set (nodes T)"
  by (induction T arbitrary: p n) auto

lemma rpath_nil: "rpath t fs h \<Longrightarrow> rb_nil t \<notin> set (before fs) \<union> set (after fs)"
  by (induction t fs h rule: rpath.induct) (auto dest: repr_nil)

lemma rpath_cong:
  "rb_nil t' = rb_nil t \<Longrightarrow> rb_root t' = rb_root t \<Longrightarrow> (\<And>x. x \<in> set (before fs) \<union> set (after fs) \<Longrightarrow> same_at t t' x) \<Longrightarrow>
    rpath t fs h \<Longrightarrow> rpath t' fs h"
proof (induction t fs h rule: rpath.induct)
  case (2 t x r fs h)
  have "repr t' x (rb_right t x) r" by (rule repr_cong) (use 2 in auto)
  then show ?case using 2 by (auto simp: same_at_def)
next
  case (3 t l x fs h)
  have "repr t' x (rb_left t x) l" by (rule repr_cong) (use 3 in auto)
  then show ?case using 3 by (auto simp: same_at_def)
qed simp

text \<open>Hanging another tree into the position: the link above it changes.\<close>

definition set_child :: "'a \<Rightarrow> 'a frame list \<Rightarrow> 'a \<Rightarrow> 'a rb_tree \<Rightarrow> 'a rb_tree" where
  "set_child nl fs v t =
     (case fs of [] \<Rightarrow> set_root v t | InL p r # _ \<Rightarrow> set_left p v t | InR l p # _ \<Rightarrow> set_right p v t)"

lemmas set_defs = set_parent_def set_left_def set_right_def set_color_def set_root_def

lemma rpath_child:
  assumes "rpath t fs h" and "distinct (before fs @ after fs)" and "rb_nil t' = rb_nil t"
    and "\<And>x. x \<in> set (before fs) \<union> set (after fs) \<Longrightarrow> same_at (set_child nl fs v t) t' x" and "rb_root t' = rb_root (set_child nl fs v t)"
  shows "rpath t' fs v"
proof (cases "(t, fs, h)" rule: rpath.cases)
  case (1 t h)
  then show ?thesis using assms by (simp add: set_child_def set_defs)
next
  case (2 t0 x r gs h0)
  then have e: "fs = InL x r # gs" by simp
  have d: "x \<notin> set (nodes r)" "x \<notin> set (before gs) \<union> set (after gs)" using assms(2) unfolding e by auto
  have s: "same_at t t' y" if "y \<in> set (nodes r) \<union> set (before gs) \<union> set (after gs)" for y
    using assms(4) [of y] that d unfolding e by (auto simp: set_child_def set_defs same_at_def)
  have x: "rb_left t' x = v" "rb_right t' x = rb_right t x" "rb_parent t' x = rb_parent t x"
    using assms(4) [of x] unfolding e by (simp_all add: set_child_def set_defs same_at_def)
  have "repr t' x (rb_right t x) r" by (rule repr_cong [OF assms(3)]) (use s assms(1) e in auto)
  moreover have "rpath t' gs x" by (rule rpath_cong [OF assms(3)]) (use s assms(1,5) e in \<open>auto simp: set_child_def set_defs\<close>)
  ultimately show ?thesis using assms(1,3) x unfolding e by simp
next
  case (3 t0 l x gs h0)
  then have e: "fs = InR l x # gs" by simp
  have d: "x \<notin> set (nodes l)" "x \<notin> set (before gs) \<union> set (after gs)" using assms(2) unfolding e by auto
  have s: "same_at t t' y" if "y \<in> set (nodes l) \<union> set (before gs) \<union> set (after gs)" for y
    using assms(4) [of y] that d unfolding e by (auto simp: set_child_def set_defs same_at_def)
  have x: "rb_right t' x = v" "rb_left t' x = rb_left t x" "rb_parent t' x = rb_parent t x"
    using assms(4) [of x] unfolding e by (simp_all add: set_child_def set_defs same_at_def)
  have "repr t' x (rb_left t x) l" by (rule repr_cong [OF assms(3)]) (use s assms(1) e in auto)
  moreover have "rpath t' gs x" by (rule rpath_cong [OF assms(3)]) (use s assms(1,5) e in \<open>auto simp: set_child_def set_defs\<close>)
  ultimately show ?thesis using assms(1,3) x unfolding e by simp
qed

section \<open>Rotation to the left\<close>

lemma repr_reparent:
  assumes "repr t p n T" and "rb_nil t' = rb_nil t" and "distinct (nodes T)"
    and "\<And>x. x \<in> set (nodes T) \<Longrightarrow> x \<noteq> n \<Longrightarrow> same_at t t' x"
    and "T \<noteq> Tip \<Longrightarrow> rb_parent t' n = q \<and> rb_left t' n = rb_left t n \<and> rb_right t' n = rb_right t n"
  shows "repr t' q n T"
proof (cases T)
  case (Br l x r)
  have "repr t' x (rb_left t x) l" "repr t' x (rb_right t x) r"
    by (rule repr_cong [OF assms(2)]; use assms(1,3,4) Br in auto)+
  then show ?thesis using assms(1,2,5) Br by auto
qed (use assms in simp)

text \<open>The test of the code for the side a node hangs on.\<close>

lemma child_choice:
  assumes "rpath t fs x" and "x \<noteq> rb_nil t" and "x \<notin> set (before fs) \<union> set (after fs)"
  shows "(if above (rb_nil t) fs = rb_nil t then set_root v u
      else if x = rb_left t (above (rb_nil t) fs) then set_left (above (rb_nil t) fs) v u
      else set_right (above (rb_nil t) fs) v u) = set_child (rb_nil t) fs v u"
proof (cases "(t, fs, x)" rule: rpath.cases)
  case (3 t0 l p gs h0)
  then have "rb_left t p = x \<Longrightarrow> x \<in> set (nodes l) \<or> x = rb_nil t" using assms(1) by (cases l) auto
  then show ?thesis using 3 assms by (auto simp: set_child_def)
qed (use assms in \<open>auto simp: set_child_def\<close>)

lemma set_child_simps [simp]:
  "rb_nil (set_child nl fs v t) = rb_nil t" "rb_col (set_child nl fs v t) = rb_col t" "rb_parent (set_child nl fs v t) = rb_parent t"
  by (simp_all add: set_child_def set_defs split: list.split frame.split)

lemma set_child_other:
  "x \<notin> set (before fs) \<union> set (after fs) \<Longrightarrow> rb_left (set_child nl fs v t) x = rb_left t x \<and> rb_right (set_child nl fs v t) x = rb_right t x"
  by (auto simp: set_child_def set_defs split: list.split frame.split)

lemma set_child_root: "rb_root (set_child nl fs v t) = (if fs = [] then v else rb_root t)"
  by (simp add: set_child_def set_defs split: list.split frame.split)

lemma left_rotate_form:
  assumes "rpath t fs x" and "x \<noteq> rb_nil t" "x \<noteq> y" and "x \<notin> set (before fs) \<union> set (after fs)"
    and "rb_parent t x = above (rb_nil t) fs" and "rb_right t x = y" and "rb_left t y \<noteq> x"
  shows "rb_left_rotate x t =
    set_parent x y (set_left y x (set_child (rb_nil t) fs y (set_parent y (above (rb_nil t) fs)
      (if rb_left t y \<noteq> rb_nil t then set_parent (rb_left t y) x (set_right x (rb_left t y) t) else set_right x (rb_left t y) t))))"
proof -
  let ?t3 = "set_parent y (above (rb_nil t) fs)
      (if rb_left t y \<noteq> rb_nil t then set_parent (rb_left t y) x (set_right x (rb_left t y) t) else set_right x (rb_left t y) t)"
  have p: "rb_parent ?t3 x = above (rb_nil t) fs" "rb_nil ?t3 = rb_nil t" "rb_left ?t3 = rb_left t"
    using assms(3,5,7) by (simp_all add: set_defs)
  have pp: "rb_parent (if rb_left t y \<noteq> rb_nil t then set_parent (rb_left t y) x (set_right x (rb_left t y) t) else set_right x (rb_left t y) t) x =
      above (rb_nil t) fs" using assms(5,7) by (simp add: set_defs)
  have l: "rb_left (set_right x (rb_left t y) t) y = rb_left t y" "rb_nil (set_right x (rb_left t y) t) = rb_nil t" by (simp_all add: set_defs)
  show ?thesis unfolding rb_left_rotate_def Let_def assms(6) l pp p child_choice [OF assms(1,2,4)] ..
qed

lemma left_rotate_ok:
  assumes rp: "rpath t fs x" and rr: "repr t (above (rb_nil t) fs) x (Br a x (Br b y c))"
    and d: "distinct (before fs @ nodes (Br a x (Br b y c)) @ after fs)"
  defines "t' \<equiv> rb_left_rotate x t"
  shows "rpath t' fs y" and "repr t' (above (rb_nil t) fs) y (Br (Br a x b) y c)" and "rb_nil t' = rb_nil t" and "rb_col t' = rb_col t"
proof -
  let ?P = "set (before fs) \<union> set (after fs)" and ?nl = "rb_nil t" and ?b = "rb_left t y" let ?p = "above ?nl fs"
  have r: "x \<noteq> ?nl" "y \<noteq> ?nl" "rb_parent t x = ?p" "rb_right t x = y" "rb_parent t y = x" "repr t x (rb_left t x) a"
    "repr t y ?b b" "repr t y (rb_right t y) c" using rr by auto
  have b: "?b = ?nl \<and> b = Tip \<or> ?b \<in> set (nodes b)" using r(7) by (cases b) auto
  have n: "x \<noteq> y" "x \<notin> ?P" "y \<notin> ?P" "x \<notin> set (nodes a)" "y \<notin> set (nodes a)" "x \<notin> set (nodes b)" "y \<notin> set (nodes b)"
    "x \<notin> set (nodes c)" "y \<notin> set (nodes c)" "set (nodes a) \<inter> ?P = {}" "set (nodes b) \<inter> ?P = {}" "set (nodes c) \<inter> ?P = {}"
    "set (nodes a) \<inter> set (nodes b) = {}" "set (nodes b) \<inter> set (nodes c) = {}" "distinct (nodes b)" "distinct (before fs @ after fs)"
    using d by auto
  have nil: "?nl \<notin> ?P" "?nl \<notin> set (nodes a)" "?nl \<notin> set (nodes b)" "?nl \<notin> set (nodes c)"
    using rpath_nil [OF rp] repr_nil [OF r(6)] repr_nil [OF r(7)] repr_nil [OF r(8)] by simp_all
  have bx: "?b \<noteq> x" "?b \<noteq> y" using b n r by auto
  have form: "t' = set_parent x y (set_left y x (set_child ?nl fs y (set_parent y ?p
      (if ?b \<noteq> ?nl then set_parent ?b x (set_right x ?b t) else set_right x ?b t))))"
    unfolding t'_def by (rule left_rotate_form [OF rp r(1) n(1,2) r(3,4) bx(1)])
  show nl': "rb_nil t' = ?nl" and "rb_col t' = rb_col t" unfolding form by (simp_all add: set_defs)
  have root: "rb_root t' = rb_root (set_child ?nl fs y t)" unfolding form by (simp add: set_child_root set_parent_def set_left_def set_right_def)
  have par: "rb_parent t' z = (if z = x then y else if z = y then ?p else if z = ?b \<and> ?b \<noteq> ?nl then x else rb_parent t z)" for z
    unfolding form using bx by (simp add: set_parent_def set_left_def set_right_def)
  have t2: "rb_left (if ?b \<noteq> ?nl then set_parent ?b x (set_right x ?b t) else set_right x ?b t) = rb_left t"
    "rb_right (if ?b \<noteq> ?nl then set_parent ?b x (set_right x ?b t) else set_right x ?b t) = (rb_right t)(x := ?b)" by (simp_all add: set_defs)
  have off: "rb_left t' z = (if z = y then x else rb_left t z) \<and> rb_right t' z = (if z = x then ?b else rb_right t z)" if "z \<notin> ?P" for z
    unfolding form using set_child_other [OF that] n(1) bx t2
    by (cases "z = x"; cases "z = y") (simp_all add: set_parent_def set_left_def set_right_def split del: if_split)
  have on: "same_at (set_child ?nl fs y t) t' z" if "z \<in> ?P" for z
  proof -
    have z: "z \<noteq> x" "z \<noteq> y" "z \<noteq> ?b \<or> ?b = ?nl" using that n(2,3,11) b nil(1) by auto
    have "rb_left t' z = rb_left (set_child ?nl fs y t) z \<and> rb_right t' z = rb_right (set_child ?nl fs y t) z"
      unfolding form using z(1,2) by (auto simp: set_child_def set_defs split: list.split frame.split)
    then show ?thesis using par [of z] z by (auto simp: same_at_def)
  qed
  show "rpath t' fs y" by (rule rpath_child [OF rp n(16) nl' on root])
  have out: "same_at t t' z" if "z \<notin> ?P" "z \<noteq> x" "z \<noteq> y" "z \<noteq> ?b \<or> ?b = ?nl" for z
    using off [OF that(1)] par [of z] that(2-4) by (auto simp: same_at_def)
  have "z \<notin> ?P \<and> z \<noteq> x \<and> z \<noteq> y \<and> (z \<noteq> ?b \<or> ?b = ?nl)" if "z \<in> set (nodes a)" for z
    using that n(4,5,10,13) b nil(2) by blast
  then have a: "repr t' x (rb_left t x) a" using repr_cong [OF nl' _ r(6)] out by blast
  have "z \<notin> ?P \<and> z \<noteq> x \<and> z \<noteq> y \<and> (z \<noteq> ?b \<or> ?b = ?nl)" if "z \<in> set (nodes c)" for z
    using that n(8,9,12,14) b nil(4) by blast
  then have c: "repr t' y (rb_right t y) c" using repr_cong [OF nl' _ r(8)] out by blast
  have ob: "z \<notin> ?P \<and> z \<noteq> x \<and> z \<noteq> y" if "z \<in> set (nodes b)" for z using that n(6,7,11) by blast
  have bp: "rb_parent t' ?b = x \<and> rb_left t' ?b = rb_left t ?b \<and> rb_right t' ?b = rb_right t ?b" if "b \<noteq> Tip"
    using that b nil(3) off [of ?b] par [of ?b] ob [of ?b] by auto
  have "repr t' x ?b b" by (rule repr_reparent [OF r(7) nl' n(15) _ bp]) (use ob out in blast)
  then show "repr t' ?p y (Br (Br a x b) y c)"
    using a c r(1,2) nl' n(1-3) par [of x] par [of y] off [of x] off [of y] by simp
qed

section \<open>Mirror images\<close>

definition mirror :: "'a rb_tree \<Rightarrow> 'a rb_tree" where
  "mirror t = t\<lparr>rb_left := rb_right t, rb_right := rb_left t\<rparr>"

fun flip :: "'a btree \<Rightarrow> 'a btree" where
  "flip Tip = Tip"
| "flip (Br l x r) = Br (flip r) x (flip l)"

fun flip_frame :: "'a frame \<Rightarrow> 'a frame" where
  "flip_frame (InL x r) = InR (flip r) x"
| "flip_frame (InR l x) = InL x (flip l)"

lemma mirror_simps [simp]:
  "rb_nil (mirror t) = rb_nil t" "rb_col (mirror t) = rb_col t" "rb_parent (mirror t) = rb_parent t" "rb_root (mirror t) = rb_root t"
  "rb_left (mirror t) = rb_right t" "rb_right (mirror t) = rb_left t" "mirror (mirror t) = t"
  by (simp_all add: mirror_def)

lemma flip_flip [simp]: "flip (flip T) = T"
  by (induction T) simp_all

lemma flip_frame_flip [simp]: "flip_frame (flip_frame f) = f"
  by (cases f) simp_all

lemma nodes_flip [simp]: "nodes (flip T) = rev (nodes T)"
  by (induction T) simp_all

lemma above_flip [simp]: "above nl (map flip_frame fs) = above nl fs"
  by (cases "(nl, fs)" rule: above.cases) simp_all

lemma path_flip [simp]: "before (map flip_frame fs) = rev (after fs)" "after (map flip_frame fs) = rev (before fs)"
  by (induction fs rule: before.induct) simp_all

lemma repr_mirror: "repr (mirror t) p n (flip T) = repr t p n T"
  by (induction T arbitrary: p n) auto

lemma rpath_mirror: "rpath (mirror t) (map flip_frame fs) h = rpath t fs h"
  by (induction t fs h rule: rpath.induct) (auto simp: repr_mirror)

lemma plug_flip: "plug (map flip_frame fs) (flip T) = flip (plug fs T)"
  by (induction fs T rule: plug.induct) (simp_all flip: flip.simps)

lemma mirror_sets:
  "mirror (set_parent n v t) = set_parent n v (mirror t)" "mirror (set_left n v t) = set_right n v (mirror t)"
  "mirror (set_right n v t) = set_left n v (mirror t)" "mirror (set_color n c t) = set_color n c (mirror t)"
  "mirror (set_root v t) = set_root v (mirror t)"
  by (simp_all add: mirror_def set_defs)

text \<open>A node is never both children of its parent.\<close>

lemma one_side:
  assumes "rpath t fs x" and "x \<noteq> rb_nil t" and "x \<notin> set (before fs) \<union> set (after fs)" and "fs \<noteq> []"
  shows "x = rb_left t (above (rb_nil t) fs) \<longleftrightarrow> x \<noteq> rb_right t (above (rb_nil t) fs)"
proof (cases "(t, fs, x)" rule: rpath.cases)
  case (2 t0 p r gs h0)
  then have "rb_right t p = x \<Longrightarrow> x \<in> set (nodes r) \<or> x = rb_nil t" using assms(1) by (cases r) auto
  then show ?thesis using 2 assms by auto
next
  case (3 t0 l p gs h0)
  then have "rb_left t p = x \<Longrightarrow> x \<in> set (nodes l) \<or> x = rb_nil t" using assms(1) by (cases l) auto
  then show ?thesis using 3 assms by auto
qed (use assms in simp)

lemma mirror_child: "mirror (set_child nl fs v t) = set_child nl (map flip_frame fs) v (mirror t)"
  by (cases "(nl, fs)" rule: above.cases) (simp_all add: set_child_def mirror_sets)

lemma right_rotate_form:
  assumes "rpath t fs y" and "y \<noteq> rb_nil t" "x \<noteq> y" and "y \<notin> set (before fs) \<union> set (after fs)"
    and "rb_parent t y = above (rb_nil t) fs" and "rb_left t y = x" and "rb_right t x \<noteq> y"
  shows "rb_right_rotate y t =
    set_parent y x (set_right x y (set_child (rb_nil t) fs x (set_parent x (above (rb_nil t) fs)
      (if rb_right t x \<noteq> rb_nil t then set_parent (rb_right t x) y (set_left y (rb_right t x) t) else set_left y (rb_right t x) t))))"
proof -
  let ?p = "above (rb_nil t) fs"
  let ?t2 = "if rb_right t x \<noteq> rb_nil t then set_parent (rb_right t x) y (set_left y (rb_right t x) t) else set_left y (rb_right t x) t"
  let ?t3 = "set_parent x ?p ?t2"
  have "?p \<noteq> y" using above_in [of fs "rb_nil t"] assms(2,4) by (cases "fs = []") auto
  then have p: "rb_parent ?t3 y = ?p" "rb_nil ?t3 = rb_nil t" "rb_left ?t3 ?p = rb_left t ?p" "rb_parent ?t2 y = ?p"
    using assms(3,5,7) by (simp_all add: set_defs)
  have l: "rb_right (set_left y (rb_right t x) t) x = rb_right t x" "rb_nil (set_left y (rb_right t x) t) = rb_nil t" by (simp_all add: set_defs)
  show ?thesis unfolding rb_right_rotate_def Let_def assms(6) l p child_choice [OF assms(1,2,4)] ..
qed

lemma right_rotate_mirror:
  assumes "rpath t fs y" and "y \<noteq> rb_nil t" and "y \<notin> set (before fs) \<union> set (after fs)" and "rb_parent t y = above (rb_nil t) fs"
    and "rb_left t y \<noteq> y" "rb_right t (rb_left t y) \<noteq> y"
  shows "rb_right_rotate y t = mirror (rb_left_rotate y (mirror t))"
proof -
  have r: "rpath (mirror t) (map flip_frame fs) y" using assms(1) by (simp add: rpath_mirror)
  show ?thesis
    using left_rotate_form [OF r, of "rb_left t y"] right_rotate_form [OF assms(1,2) assms(5) assms(3,4) refl assms(6)] assms
    by (simp add: mirror_sets mirror_child comp_def)
qed

lemma right_rotate_ok:
  assumes rp: "rpath t fs y" and rr: "repr t (above (rb_nil t) fs) y (Br (Br a x b) y c)"
    and d: "distinct (before fs @ nodes (Br (Br a x b) y c) @ after fs)"
  defines "t' \<equiv> rb_right_rotate y t"
  shows "rpath t' fs x" and "repr t' (above (rb_nil t) fs) x (Br a x (Br b y c))" and "rb_nil t' = rb_nil t" and "rb_col t' = rb_col t"
proof -
  let ?fs = "map flip_frame fs" and ?m = "mirror t"
  have rp': "rpath ?m ?fs y" using rp by (simp add: rpath_mirror)
  have rr': "repr ?m (above (rb_nil ?m) ?fs) y (Br (flip c) y (Br (flip b) x (flip a)))"
    using rr repr_mirror [of t "above (rb_nil t) fs" y "Br (Br a x b) y c"] by simp
  have d': "distinct (before ?fs @ nodes (Br (flip c) y (Br (flip b) x (flip a))) @ after ?fs)" using d by auto
  note ok = left_rotate_ok [OF rp' rr' d']
  have y: "y \<noteq> rb_nil t" "rb_parent t y = above (rb_nil t) fs" "rb_left t y = x" "repr t x (rb_right t x) b" using rr by auto
  have n: "y \<notin> set (before fs) \<union> set (after fs)" "x \<noteq> y" "y \<notin> set (nodes b)" using d by auto
  have "rb_right t x \<noteq> y" using y(1,4) n(3) by (cases b) auto
  then have e: "t' = mirror (rb_left_rotate y ?m)" unfolding t'_def using y n by (intro right_rotate_mirror [OF rp]) auto
  show "rb_nil t' = rb_nil t" "rb_col t' = rb_col t" using ok(3,4) by (simp_all add: e)
  show "rpath t' fs x" using ok(1) rpath_mirror [of t' fs x] by (simp add: e)
  show "repr t' (above (rb_nil t) fs) x (Br a x (Br b y c))"
    using ok(2) repr_mirror [of t' "above (rb_nil t) fs" x "Br a x (Br b y c)"] by (simp add: e)
qed

end
