(* ===== verification/RBtree_Insert.thy ===== *)
theory RBtree_Insert
  imports RBtree_Correct
begin

text \<open>
  Insertion into the red-black tree of \<^verbatim>\<open>rbtree.c\<close>: the descent finds the place of the new node, the
  fix-up loop ends and restores the colour and the height invariant, and the tree holds the old
  nodes and the new one in the order of the keys.
\<close>

section \<open>Colours\<close>

fun red :: "('a \<Rightarrow> rb_color) \<Rightarrow> 'a btree \<Rightarrow> bool" where
  "red c Tip \<longleftrightarrow> False"
| "red c (Br l x r) \<longleftrightarrow> c x = RB_RED"

fun bh :: "('a \<Rightarrow> rb_color) \<Rightarrow> 'a btree \<Rightarrow> nat" where
  "bh c Tip = 0"
| "bh c (Br l x r) = bh c l + (if c x = RB_BLACK then 1 else 0)"

fun invh :: "('a \<Rightarrow> rb_color) \<Rightarrow> 'a btree \<Rightarrow> bool" where
  "invh c Tip \<longleftrightarrow> True"
| "invh c (Br l x r) \<longleftrightarrow> invh c l \<and> invh c r \<and> bh c l = bh c r"

fun invc :: "('a \<Rightarrow> rb_color) \<Rightarrow> 'a btree \<Rightarrow> bool" where
  "invc c Tip \<longleftrightarrow> True"
| "invc c (Br l x r) \<longleftrightarrow> invc c l \<and> invc c r \<and> (c x = RB_RED \<longrightarrow> \<not> red c l \<and> \<not> red c r)"

text \<open>What a path asks of the tree at its end: its black height, and whether its root may be red.\<close>

fun hpath :: "('a \<Rightarrow> rb_color) \<Rightarrow> 'a frame list \<Rightarrow> nat \<Rightarrow> bool" where
  "hpath c [] k \<longleftrightarrow> True"
| "hpath c (InL x r # fs) k \<longleftrightarrow> invh c r \<and> bh c r = k \<and> hpath c fs (k + (if c x = RB_BLACK then 1 else 0))"
| "hpath c (InR l x # fs) k \<longleftrightarrow> invh c l \<and> bh c l = k \<and> hpath c fs (k + (if c x = RB_BLACK then 1 else 0))"

fun cpath :: "('a \<Rightarrow> rb_color) \<Rightarrow> 'a frame list \<Rightarrow> bool \<Rightarrow> bool" where
  "cpath c [] rd \<longleftrightarrow> True"
| "cpath c (InL x r # fs) rd \<longleftrightarrow> invc c r \<and> (c x = RB_RED \<longrightarrow> \<not> rd \<and> \<not> red c r) \<and> cpath c fs (c x = RB_RED)"
| "cpath c (InR l x # fs) rd \<longleftrightarrow> invc c l \<and> (c x = RB_RED \<longrightarrow> \<not> rd \<and> \<not> red c l) \<and> cpath c fs (c x = RB_RED)"

fun at_top :: "'a frame list \<Rightarrow> 'a \<Rightarrow> 'a" where
  "at_top [] x = x"
| "at_top (InL y r # fs) x = at_top fs y"
| "at_top (InR l y # fs) x = at_top fs y"

lemma color_cases: "c = RB_RED \<or> c = RB_BLACK" by (cases c) simp_all

lemma not_red [simp]: "c \<noteq> RB_RED \<longleftrightarrow> c = RB_BLACK" "c \<noteq> RB_BLACK \<longleftrightarrow> c = RB_RED"
  by (cases c; simp)+

lemma invh_plug: "invh c (plug fs T) \<longleftrightarrow> invh c T \<and> hpath c fs (bh c T)"
  by (induction fs T rule: plug.induct) auto

lemma invc_plug: "invc c (plug fs T) \<longleftrightarrow> invc c T \<and> cpath c fs (red c T)"
  by (induction fs T rule: plug.induct) auto

lemma red_plug: "red c (plug fs (Br l x r)) \<longleftrightarrow> c (at_top fs x) = RB_RED"
proof (induction fs "Br l x r" arbitrary: l x r rule: plug.induct)
qed auto

lemma color_upd [simp]:
  assumes "y \<notin> set (nodes T)"
  shows "red (c(y := v)) T = red c T" and "bh (c(y := v)) T = bh c T" and "invh (c(y := v)) T = invh c T" and "invc (c(y := v)) T = invc c T"
proof -
  have "red (c(y := v)) T = red c T \<and> bh (c(y := v)) T = bh c T \<and> invh (c(y := v)) T = invh c T \<and> invc (c(y := v)) T = invc c T"
    using assms by (induction T) auto
  then show "red (c(y := v)) T = red c T" "bh (c(y := v)) T = bh c T" "invh (c(y := v)) T = invh c T" "invc (c(y := v)) T = invc c T" by simp_all
qed

lemma path_upd [simp]:
  assumes "y \<notin> set (before fs)" and "y \<notin> set (after fs)"
  shows "hpath (c(y := v)) fs k = hpath c fs k" and "cpath (c(y := v)) fs rd = cpath c fs rd"
  using assms by (induction fs arbitrary: k rd rule: before.induct) auto

lemma rpath_top: "rpath t fs h \<Longrightarrow> rb_root t = at_top fs h"
  by (induction t fs h rule: rpath.induct) auto

lemma at_top_path: "fs \<noteq> [] \<Longrightarrow> at_top fs x = at_top fs y"
  by (cases "(x, fs)" rule: above.cases) auto

section \<open>Positions\<close>

definition pos :: "'a rb_tree \<Rightarrow> 'a frame list \<Rightarrow> 'a \<Rightarrow> 'a btree \<Rightarrow> bool" where
  "pos t fs h T \<longleftrightarrow> rpath t fs h \<and> repr t (above (rb_nil t) fs) h T \<and> distinct (before fs @ nodes T @ after fs)"

lemma rtree_pos: "rtree t (plug fs T) \<longleftrightarrow> (\<exists>h. pos t fs h T)"
  by (auto simp: pos_def rtree_plug)

lemma pos_InL: "pos t (InL x r # fs) h T \<longleftrightarrow> pos t fs x (Br T x r) \<and> h = rb_left t x"
  by (auto simp: pos_def)

lemma pos_InR: "pos t (InR l x # fs) h T \<longleftrightarrow> pos t fs x (Br l x T) \<and> h = rb_right t x"
  by (auto simp: pos_def)

lemma pos_color [simp]: "pos (set_color n c t) fs h T = pos t fs h T"
proof -
  have "repr (set_color n c t) p m S = repr t p m S" for p m S by (induction S arbitrary: p m) (auto simp: set_color_def)
  moreover from this have "rpath (set_color n c t) gs m = rpath t gs m" for gs m
    by (induction t gs m rule: rpath.induct) (auto simp: set_color_def)
  ultimately show ?thesis by (simp add: pos_def set_color_def)
qed

lemma set_color_simps [simp]:
  "rb_nil (set_color n c t) = rb_nil t" "rb_col (set_color n c t) = (rb_col t)(n := c)" "rb_parent (set_color n c t) = rb_parent t"
  "rb_left (set_color n c t) = rb_left t" "rb_right (set_color n c t) = rb_right t" "rb_root (set_color n c t) = rb_root t"
  by (simp_all add: set_color_def)

lemma pos_left_rotate:
  "pos t fs x (Br a x (Br b y c)) \<Longrightarrow> pos (rb_left_rotate x t) fs y (Br (Br a x b) y c) \<and>
     rb_nil (rb_left_rotate x t) = rb_nil t \<and> rb_col (rb_left_rotate x t) = rb_col t"
  unfolding pos_def using left_rotate_ok [of t fs x a b y c] by auto

lemma pos_right_rotate:
  "pos t fs y (Br (Br a x b) y c) \<Longrightarrow> pos (rb_right_rotate y t) fs x (Br a x (Br b y c)) \<and>
     rb_nil (rb_right_rotate y t) = rb_nil t \<and> rb_col (rb_right_rotate y t) = rb_col t"
  unfolding pos_def using right_rotate_ok [of t fs y a x b c] by auto

lemma pos_fields:
  assumes "pos t fs h (Br l x r)"
  shows "h = x" and "x \<noteq> rb_nil t" and "rb_parent t x = above (rb_nil t) fs" and "l = Tip \<Longrightarrow> rb_left t x = rb_nil t" and "r = Tip \<Longrightarrow> rb_right t x = rb_nil t"
    and "l = Br l1 y l2 \<Longrightarrow> rb_left t x = y \<and> rb_parent t y = x" and "r = Br r1 y r2 \<Longrightarrow> rb_right t x = y \<and> rb_parent t y = x"
  using assms by (auto simp: pos_def)

section \<open>The fix-up loop\<close>

definition balanced :: "'a rb_tree \<Rightarrow> 'a btree \<Rightarrow> bool" where
  "balanced t T \<longleftrightarrow> rtree t T \<and> invc (rb_col t) T \<and> invh (rb_col t) T \<and> \<not> red (rb_col t) T \<and> rb_col t (rb_nil t) = RB_BLACK"

text \<open>The state of the loop: the red node \<open>z\<close> with the subtrees \<open>a\<close> and \<open>b\<close> is fine, and so is everything
  above it, but \<open>z\<close> may hang below a red node.\<close>

definition fixing :: "'a rb_tree \<Rightarrow> 'a \<Rightarrow> 'a frame list \<Rightarrow> 'a btree \<Rightarrow> 'a btree \<Rightarrow> bool" where
  "fixing t z fs a b \<longleftrightarrow> pos t fs z (Br a z b) \<and> rb_col t z = RB_RED \<and> \<not> red (rb_col t) a \<and> \<not> red (rb_col t) b \<and>
     invc (rb_col t) a \<and> invc (rb_col t) b \<and> invh (rb_col t) (Br a z b) \<and> hpath (rb_col t) fs (bh (rb_col t) a) \<and> cpath (rb_col t) fs False \<and>
     rb_col t (rb_nil t) = RB_BLACK \<and> (fs \<noteq> [] \<longrightarrow> rb_col t (rb_root t) = RB_BLACK)"

lemma cpath_black: "cpath c fs False \<Longrightarrow> fs = [] \<or> c (above nl fs) = RB_BLACK \<Longrightarrow> cpath c fs rd"
  by (cases "(nl, fs)" rule: above.cases) auto

lemma balanced_plug:
  assumes "pos t fs h (Br l x r)" and "invc (rb_col t) (Br l x r)" and "invh (rb_col t) (Br l x r)" and "hpath (rb_col t) fs (bh (rb_col t) (Br l x r))"
    and "cpath (rb_col t) fs (rb_col t x = RB_RED)" and "rb_col t (rb_nil t) = RB_BLACK" and "rb_col t (rb_root t) = RB_BLACK"
  shows "balanced t (plug fs (Br l x r))"
proof -
  have "rb_root t = at_top fs x" using assms(1) rpath_top by (fastforce simp: pos_def)
  then have "\<not> red (rb_col t) (plug fs (Br l x r))" using assms(7) by (simp add: red_plug)
  moreover have "rtree t (plug fs (Br l x r))" using assms(1) rtree_pos by blast
  ultimately show ?thesis using assms by (simp add: balanced_def invc_plug invh_plug)
qed

lemma fixup_stop:
  assumes "fixing t z fs a b" and "rb_col t (rb_parent t z) = RB_BLACK"
  shows "balanced (set_color (rb_root t) RB_BLACK t) (plug fs (Br a z b))"
proof (cases "fs = []")
  case True
  have p: "pos t [] z (Br a z b)" "rb_root t = z" "z \<notin> set (nodes a)" "z \<notin> set (nodes b)"
    using assms(1) True by (auto simp: fixing_def pos_def)
  show ?thesis unfolding True p(2)
    using assms(1) p by (intro balanced_plug) (auto simp: fixing_def)
next
  case False
  have f: "pos t fs z (Br a z b)" "rb_col t (rb_root t) = RB_BLACK" using assms(1) False by (simp_all add: fixing_def)
  have "above (rb_nil t) fs = rb_parent t z" using f(1) by (simp add: pos_def)
  then have "cpath (rb_col t) fs True" using cpath_black [of "rb_col t" fs "rb_nil t" True] assms by (simp add: fixing_def)
  moreover have "set_color (rb_root t) RB_BLACK t = t" using f(2) by (simp add: set_color_def fun_upd_idem)
  ultimately show ?thesis using assms(1) f by (auto intro!: balanced_plug simp: fixing_def)
qed

text \<open>The loop ends behind a rotation, because the node above \<open>z\<close> is black then.\<close>

lemma fixup_done:
  assumes p: "pos t gs h (Br l x r)" and c: "rb_col t x = RB_BLACK" and inv: "invc (rb_col t) (Br l x r)" "invh (rb_col t) (Br l x r)"
    and path: "hpath (rb_col t) gs (bh (rb_col t) (Br l x r))" "cpath (rb_col t) gs False" and nl: "rb_col t (rb_nil t) = RB_BLACK"
    and root: "gs \<noteq> [] \<longrightarrow> rb_col t (rb_root t) = RB_BLACK" and z: "rb_parent t z = x"
  shows "\<exists>t'. rb_insert_fixup z t = Some t' \<and> balanced t' (plug gs (Br l x r)) \<and> rb_nil t' = rb_nil t"
proof -
  have "rb_root t = at_top gs x" using p rpath_top by (fastforce simp: pos_def)
  then have rb: "rb_col t (rb_root t) = RB_BLACK" using root c by (cases "gs = []") auto
  then have "set_color (rb_root t) RB_BLACK t = t" by (simp add: set_color_def fun_upd_idem)
  moreover have "balanced t (plug gs (Br l x r))" using assms rb by (intro balanced_plug) auto
  ultimately show ?thesis using z c by (subst rb_insert_fixup.simps) simp
qed

lemma fixing_root_red:
  assumes "fixing t z [f] a b"
  shows "rb_col t (rb_parent t z) = RB_BLACK"
  using assms by (cases f) (auto simp: fixing_def pos_def)

lemma pos_distinct: "pos t fs h T \<Longrightarrow> distinct (before fs @ nodes T @ after fs)"
  by (simp add: pos_def)

lemma at_top_in: "fs \<noteq> [] \<Longrightarrow> at_top fs x \<in> set (before fs) \<union> set (after fs)"
  by (induction fs x rule: at_top.induct) (fastforce+)

lemma root_kept:
  assumes "pos t fs h T" and "pos t' fs h' T'" and "fs \<noteq> []"
  shows "rb_root t' = rb_root t" and "rb_root t \<in> set (before fs) \<union> set (after fs)"
  using rpath_top [of t fs h] rpath_top [of t' fs h'] at_top_path [OF assms(3), of h h'] at_top_in [OF assms(3), of h] assms(1,2)
  by (simp_all add: pos_def)

lemma pos_nil: "pos t fs h T \<Longrightarrow> rb_nil t \<notin> set (nodes T) \<union> set (before fs) \<union> set (after fs)"
  using rpath_nil [of t fs h] repr_nil [of t _ h T] by (auto simp: pos_def)

fun top_node :: "'a \<Rightarrow> 'a btree \<Rightarrow> 'a" where
  "top_node nl Tip = nl"
| "top_node nl (Br l x r) = x"

lemma repr_top: "repr t p n T \<Longrightarrow> n = top_node (rb_nil t) T"
  by (cases T) simp_all

lemma pos_links:
  assumes "pos t fs h (Br l x r)"
  shows "h = x" and "rb_left t x = top_node (rb_nil t) l" and "rb_right t x = top_node (rb_nil t) r" and "rb_parent t x = above (rb_nil t) fs"
    and "l = Br l1 y l2 \<Longrightarrow> rb_parent t y = x \<and> rb_left t y = top_node (rb_nil t) l1 \<and> rb_right t y = top_node (rb_nil t) l2"
    and "r = Br r1 y r2 \<Longrightarrow> rb_parent t y = x \<and> rb_left t y = top_node (rb_nil t) r1 \<and> rb_right t y = top_node (rb_nil t) r2"
proof -
  have r: "repr t (above (rb_nil t) fs) h (Br l x r)" using assms by (simp add: pos_def)
  then show "h = x" "rb_parent t x = above (rb_nil t) fs" by simp_all
  show "rb_left t x = top_node (rb_nil t) l" "rb_right t x = top_node (rb_nil t) r" using r repr_top [of t x] by simp_all
  show "l = Br l1 y l2 \<Longrightarrow> rb_parent t y = x \<and> rb_left t y = top_node (rb_nil t) l1 \<and> rb_right t y = top_node (rb_nil t) l2"
    "r = Br r1 y r2 \<Longrightarrow> rb_parent t y = x \<and> rb_left t y = top_node (rb_nil t) r1 \<and> rb_right t y = top_node (rb_nil t) r2"
    using r repr_top [of t y] by auto
qed

lemma top_ne: "x \<notin> set (nodes T) \<Longrightarrow> x \<noteq> nl \<Longrightarrow> x \<noteq> top_node nl T"
  by (cases T) auto

lemma pos_sides:
  assumes "pos t fs h (Br l x r)"
  shows "y \<in> set (nodes l) \<Longrightarrow> y \<noteq> rb_right t x" and "y \<in> set (nodes r) \<Longrightarrow> y \<noteq> rb_left t x"
proof -
  have n: "rb_nil t \<notin> set (nodes (Br l x r))" and d: "set (nodes l) \<inter> set (nodes r) = {}"
    using pos_distinct [OF assms] pos_nil [OF assms] by auto
  show "y \<noteq> rb_right t x" if "y \<in> set (nodes l)"
    unfolding pos_links(3) [OF assms] by (rule top_ne) (use n d that in auto)
  show "y \<noteq> rb_left t x" if "y \<in> set (nodes r)"
    unfolding pos_links(2) [OF assms] by (rule top_ne) (use n d that in auto)
qed

text \<open>Pushing the black of a node down to its two red children.\<close>

lemma recolour:
  assumes ps: "pos t gs G (Br (Br l q r) G (Br u y v))"
    and c: "rb_col t q = RB_RED" "rb_col t y = RB_RED" "rb_col t G = RB_BLACK" "rb_col t (rb_nil t) = RB_BLACK" "gs \<noteq> [] \<longrightarrow> rb_col t (rb_root t) = RB_BLACK"
    and ic: "invc (rb_col t) l" "invc (rb_col t) r" "invc (rb_col t) u" "invc (rb_col t) v"
    and ih: "invh (rb_col t) (Br (Br l q r) G (Br u y v))"
    and path: "hpath (rb_col t) gs (Suc (bh (rb_col t) l))" "cpath (rb_col t) gs False"
  shows "fixing (set_color G RB_RED (set_color y RB_BLACK (set_color q RB_BLACK t))) G gs (Br l q r) (Br u y v)"
proof -
  let ?S = "set (nodes l) \<union> set (nodes r) \<union> set (nodes u) \<union> set (nodes v) \<union> set (before gs) \<union> set (after gs)"
  have n: "q \<notin> ?S" "y \<notin> ?S" "G \<notin> ?S" "q \<noteq> y" "q \<noteq> G" "y \<noteq> G" using pos_distinct [OF ps] by auto
  have nl: "rb_nil t \<noteq> q" "rb_nil t \<noteq> y" "rb_nil t \<noteq> G" using pos_nil [OF ps] by auto
  have rt: "gs \<noteq> [] \<Longrightarrow> rb_root t \<noteq> q \<and> rb_root t \<noteq> y \<and> rb_root t \<noteq> G" using root_kept(2) [OF ps ps] n(1-3) by blast
  show ?thesis using ps n nl rt c ic ih path by (simp add: fixing_def)
qed

text \<open>Left side: the parent of \<open>z\<close> is the left child of \<open>G\<close>.\<close>

lemma step_uncle_L:
  assumes f: "fixing t z (f # InL G u # gs) a b" and p: "rb_col t (rb_parent t z) = RB_RED" and u: "red (rb_col t) u"
  shows "\<exists>P t'. insert_fixup_step z t = (G, t') \<and> fixing t' G gs P u \<and> rb_nil t' = rb_nil t \<and>
    nodes (plug (f # InL G u # gs) (Br a z b)) = nodes (plug gs (Br P G u))"
proof -
  obtain u1 y u2 where u': "u = Br u1 y u2" using u by (cases u) auto
  show ?thesis
  proof (cases f)
    case (InL q r)
    have ps: "pos t gs G (Br (Br (Br a z b) q r) G u)" using f unfolding fixing_def InL pos_InL pos_InR by blast
    have l: "rb_parent t z = q" "rb_parent t q = G" "rb_left t G = q" "rb_right t G = y" using ps u' by (auto simp: pos_def)
    have s: "insert_fixup_step z t = (G, set_color G RB_RED (set_color y RB_BLACK (set_color q RB_BLACK t)))"
      using l u u' by (simp add: insert_fixup_step_def Let_def)
    have "fixing (set_color G RB_RED (set_color y RB_BLACK (set_color q RB_BLACK t))) G gs (Br (Br a z b) q r) u"
      unfolding u' by (rule recolour [OF ps [unfolded u']]) (use f p u l(1) in \<open>auto simp: fixing_def InL u'\<close>)
    then show ?thesis using s by (auto simp: InL nodes_plug)
  next
    case (InR r q)
    have ps: "pos t gs G (Br (Br r q (Br a z b)) G u)" using f unfolding fixing_def InR pos_InL pos_InR by blast
    have l: "rb_parent t z = q" "rb_parent t q = G" "rb_left t G = q" "rb_right t G = y" using ps u' by (auto simp: pos_def)
    have s: "insert_fixup_step z t = (G, set_color G RB_RED (set_color y RB_BLACK (set_color q RB_BLACK t)))"
      using l u u' by (simp add: insert_fixup_step_def Let_def)
    have "fixing (set_color G RB_RED (set_color y RB_BLACK (set_color q RB_BLACK t))) G gs (Br r q (Br a z b)) u"
      unfolding u' by (rule recolour [OF ps [unfolded u']]) (use f p u l(1) in \<open>auto simp: fixing_def InR u'\<close>)
    then show ?thesis using s by (auto simp: InR nodes_plug)
  qed
qed

lemma uncle_black:
  assumes "pos t gs G (Br P G u)" and "\<not> red (rb_col t) u" and "rb_col t (rb_nil t) = RB_BLACK"
  shows "rb_col t (rb_right t G) = RB_BLACK"
  using assms by (cases u) (auto simp: pos_def)

text \<open>The final rotation: \<open>m\<close> takes the place and the colour of \<open>G\<close>.\<close>

lemma settle_L:
  assumes ps: "pos t gs G (Br (Br (Br x1 z x2) m r) G u)"
    and c: "rb_col t G = RB_BLACK" "rb_col t m = RB_RED" "rb_col t (rb_nil t) = RB_BLACK" "gs \<noteq> [] \<longrightarrow> rb_col t (rb_root t) = RB_BLACK"
    and ic: "invc (rb_col t) (Br x1 z x2)" "invc (rb_col t) r" "invc (rb_col t) u" "\<not> red (rb_col t) r" "\<not> red (rb_col t) u"
    and ih: "invh (rb_col t) (Br (Br (Br x1 z x2) m r) G u)"
    and path: "hpath (rb_col t) gs (Suc (bh (rb_col t) u))" "cpath (rb_col t) gs False"
  defines "t' \<equiv> rb_right_rotate G (set_color G RB_RED (set_color m RB_BLACK t))"
  shows "\<exists>t2. rb_insert_fixup z t' = Some t2 \<and> balanced t2 (plug gs (Br (Br x1 z x2) m (Br r G u))) \<and> rb_nil t2 = rb_nil t"
proof -
  have r4: "pos t' gs m (Br (Br x1 z x2) m (Br r G u))" "rb_nil t' = rb_nil t" "rb_col t' = (rb_col t)(m := RB_BLACK, G := RB_RED)"
    unfolding t'_def using pos_right_rotate [of "set_color G RB_RED (set_color m RB_BLACK t)" gs G "Br x1 z x2" m r u] ps by simp_all
  let ?S = "set (nodes (Br x1 z x2)) \<union> set (nodes r) \<union> set (nodes u) \<union> set (before gs) \<union> set (after gs)"
  have n: "m \<notin> ?S" "G \<notin> ?S" "m \<noteq> G" using pos_distinct [OF ps] by auto
  have nl: "rb_nil t \<noteq> m" "rb_nil t \<noteq> G" using pos_nil [OF ps] by auto
  have root: "gs \<noteq> [] \<longrightarrow> rb_col t' (rb_root t') = RB_BLACK"
    using root_kept [OF ps r4(1)] c(4) n(1,2) unfolding r4(3) by auto
  have z: "rb_parent t' z = m" using r4(1) by (auto simp: pos_def)
  have "\<exists>t2. rb_insert_fixup z t' = Some t2 \<and> balanced t2 (plug gs (Br (Br x1 z x2) m (Br r G u))) \<and> rb_nil t2 = rb_nil t'"
    by (rule fixup_done [OF r4(1) _ _ _ _ _ _ root z]; unfold r4(2,3); use n nl c ic ih path in \<open>auto simp del: not_red\<close>)
  then show ?thesis using r4(2) by simp
qed

lemma step_rotate_L:
  assumes f: "fixing t z (f # InL G u # gs) a b" and p: "rb_col t (rb_parent t z) = RB_RED" and u: "\<not> red (rb_col t) u"
  shows "\<exists>T t2. rb_insert_fixup (fst (insert_fixup_step z t)) (snd (insert_fixup_step z t)) = Some t2 \<and> balanced t2 T \<and> rb_nil t2 = rb_nil t \<and>
    nodes T = nodes (plug (f # InL G u # gs) (Br a z b))"
proof (cases f)
  case (InL q r)
  have p1: "pos t (InL G u # gs) q (Br (Br a z b) q r)" using f unfolding fixing_def InL pos_InL by blast
  then have ps: "pos t gs G (Br (Br (Br a z b) q r) G u)" unfolding pos_InL by blast
  have l: "rb_parent t z = q" "rb_parent t q = G" "rb_left t G = q" "z \<noteq> rb_right t q"
    using pos_links [OF p1] pos_links [OF ps] pos_sides(1) [OF p1, of z] by simp_all
  have s: "insert_fixup_step z t = (z, rb_right_rotate G (set_color G RB_RED (set_color q RB_BLACK t)))"
    using l uncle_black [OF ps u] f by (simp add: insert_fixup_step_def Let_def fixing_def)
  have "\<exists>t2. rb_insert_fixup z (rb_right_rotate G (set_color G RB_RED (set_color q RB_BLACK t))) = Some t2 \<and>
      balanced t2 (plug gs (Br (Br a z b) q (Br r G u))) \<and> rb_nil t2 = rb_nil t"
    by (rule settle_L [OF ps]) (use f p l(1) u in \<open>auto simp: fixing_def InL\<close>)
  then show ?thesis using s by (auto simp: InL nodes_plug intro!: exI [of _ "plug gs (Br (Br a z b) q (Br r G u))"])
next
  case (InR r q)
  have p1: "pos t (InL G u # gs) q (Br r q (Br a z b))" using f unfolding fixing_def InR pos_InL pos_InR by blast
  then have ps: "pos t gs G (Br (Br r q (Br a z b)) G u)" unfolding pos_InL by blast
  have l: "rb_parent t z = q" "rb_parent t q = G" "rb_left t G = q" "z = rb_right t q" using pos_links [OF p1] pos_links [OF ps] by simp_all
  let ?t1 = "rb_left_rotate q t"
  note r1 = pos_left_rotate [OF p1]
  then have ps1: "pos ?t1 gs G (Br (Br (Br r q a) z b) G u)" unfolding pos_InL by blast
  have l1: "rb_parent ?t1 q = z" "rb_parent ?t1 z = G" using ps1 by (auto simp: pos_def)
  have s: "insert_fixup_step z t = (q, rb_right_rotate G (set_color G RB_RED (set_color z RB_BLACK ?t1)))"
    using l l1 uncle_black [OF ps u] f by (simp add: insert_fixup_step_def Let_def fixing_def)
  have rt: "gs \<noteq> [] \<longrightarrow> rb_col t (rb_root ?t1) = RB_BLACK" using root_kept(1) [OF ps ps1] f by (auto simp: fixing_def)
  have "\<exists>t2. rb_insert_fixup q (rb_right_rotate G (set_color G RB_RED (set_color z RB_BLACK ?t1))) = Some t2 \<and>
      balanced t2 (plug gs (Br (Br r q a) z (Br b G u))) \<and> rb_nil t2 = rb_nil ?t1"
    by (rule settle_L [OF ps1]) (use f p l(1) u r1 rt in \<open>auto simp: fixing_def InR\<close>)
  then show ?thesis using s r1 by (auto simp: InR nodes_plug intro!: exI [of _ "plug gs (Br (Br r q a) z (Br b G u))"])
qed

text \<open>Right side, the mirror image.\<close>

lemma uncle_black_R:
  assumes "pos t gs G (Br u G P)" and "\<not> red (rb_col t) u" and "rb_col t (rb_nil t) = RB_BLACK"
  shows "rb_col t (rb_left t G) = RB_BLACK"
  using assms by (cases u) (auto simp: pos_def)

lemma set_color_twist: "x \<noteq> y \<Longrightarrow> set_color x c (set_color y d t) = set_color y d (set_color x c t)"
  by (simp add: set_color_def fun_upd_twist)

lemma step_uncle_R:
  assumes f: "fixing t z (f # InR u G # gs) a b" and p: "rb_col t (rb_parent t z) = RB_RED" and u: "red (rb_col t) u"
  shows "\<exists>P t'. insert_fixup_step z t = (G, t') \<and> fixing t' G gs u P \<and> rb_nil t' = rb_nil t \<and>
    nodes (plug (f # InR u G # gs) (Br a z b)) = nodes (plug gs (Br u G P))"
proof -
  obtain u1 y u2 where u': "u = Br u1 y u2" using u by (cases u) auto
  show ?thesis
  proof (cases f)
    case (InL q r)
    have ps: "pos t gs G (Br u G (Br (Br a z b) q r))" using f unfolding fixing_def InL pos_InL pos_InR by blast
    have l: "rb_parent t z = q" "rb_parent t q = G" "rb_right t G = q" "rb_left t G = y" "q \<noteq> y" using ps u' by (auto simp: pos_def)
    have s: "insert_fixup_step z t = (G, set_color G RB_RED (set_color q RB_BLACK (set_color y RB_BLACK t)))"
      using l u u' by (simp add: insert_fixup_step_def Let_def set_color_twist)
    have "fixing (set_color G RB_RED (set_color q RB_BLACK (set_color y RB_BLACK t))) G gs u (Br (Br a z b) q r)"
      unfolding u' by (rule recolour [OF ps [unfolded u']]) (use f p u l(1) in \<open>auto simp: fixing_def InL u'\<close>)
    then show ?thesis using s by (auto simp: InL nodes_plug)
  next
    case (InR r q)
    have ps: "pos t gs G (Br u G (Br r q (Br a z b)))" using f unfolding fixing_def InR pos_InL pos_InR by blast
    have l: "rb_parent t z = q" "rb_parent t q = G" "rb_right t G = q" "rb_left t G = y" "q \<noteq> y" using ps u' by (auto simp: pos_def)
    have s: "insert_fixup_step z t = (G, set_color G RB_RED (set_color q RB_BLACK (set_color y RB_BLACK t)))"
      using l u u' by (simp add: insert_fixup_step_def Let_def set_color_twist)
    have "fixing (set_color G RB_RED (set_color q RB_BLACK (set_color y RB_BLACK t))) G gs u (Br r q (Br a z b))"
      unfolding u' by (rule recolour [OF ps [unfolded u']]) (use f p u l(1) in \<open>auto simp: fixing_def InR u'\<close>)
    then show ?thesis using s by (auto simp: InR nodes_plug)
  qed
qed

lemma settle_R:
  assumes ps: "pos t gs G (Br u G (Br r m (Br x1 z x2)))"
    and c: "rb_col t G = RB_BLACK" "rb_col t m = RB_RED" "rb_col t (rb_nil t) = RB_BLACK" "gs \<noteq> [] \<longrightarrow> rb_col t (rb_root t) = RB_BLACK"
    and ic: "invc (rb_col t) (Br x1 z x2)" "invc (rb_col t) r" "invc (rb_col t) u" "\<not> red (rb_col t) r" "\<not> red (rb_col t) u"
    and ih: "invh (rb_col t) (Br u G (Br r m (Br x1 z x2)))"
    and path: "hpath (rb_col t) gs (Suc (bh (rb_col t) u))" "cpath (rb_col t) gs False"
  defines "t' \<equiv> rb_left_rotate G (set_color G RB_RED (set_color m RB_BLACK t))"
  shows "\<exists>t2. rb_insert_fixup z t' = Some t2 \<and> balanced t2 (plug gs (Br (Br u G r) m (Br x1 z x2))) \<and> rb_nil t2 = rb_nil t"
proof -
  have r4: "pos t' gs m (Br (Br u G r) m (Br x1 z x2))" "rb_nil t' = rb_nil t" "rb_col t' = (rb_col t)(m := RB_BLACK, G := RB_RED)"
    unfolding t'_def using pos_left_rotate [of "set_color G RB_RED (set_color m RB_BLACK t)" gs G u r m "Br x1 z x2"] ps by simp_all
  let ?S = "set (nodes (Br x1 z x2)) \<union> set (nodes r) \<union> set (nodes u) \<union> set (before gs) \<union> set (after gs)"
  have n: "m \<notin> ?S" "G \<notin> ?S" "m \<noteq> G" using pos_distinct [OF ps] by auto
  have nl: "rb_nil t \<noteq> m" "rb_nil t \<noteq> G" using pos_nil [OF ps] by auto
  have root: "gs \<noteq> [] \<longrightarrow> rb_col t' (rb_root t') = RB_BLACK"
    using root_kept [OF ps r4(1)] c(4) n(1,2) unfolding r4(3) by auto
  have z: "rb_parent t' z = m" using r4(1) by (auto simp: pos_def)
  have "\<exists>t2. rb_insert_fixup z t' = Some t2 \<and> balanced t2 (plug gs (Br (Br u G r) m (Br x1 z x2))) \<and> rb_nil t2 = rb_nil t'"
    by (rule fixup_done [OF r4(1) _ _ _ _ _ _ root z]; unfold r4(2,3); use n nl c ic ih path in \<open>auto simp del: not_red\<close>)
  then show ?thesis using r4(2) by simp
qed

lemma step_rotate_R:
  assumes f: "fixing t z (f # InR u G # gs) a b" and p: "rb_col t (rb_parent t z) = RB_RED" and u: "\<not> red (rb_col t) u"
  shows "\<exists>T t2. rb_insert_fixup (fst (insert_fixup_step z t)) (snd (insert_fixup_step z t)) = Some t2 \<and> balanced t2 T \<and> rb_nil t2 = rb_nil t \<and>
    nodes T = nodes (plug (f # InR u G # gs) (Br a z b))"
proof (cases f)
  case (InR r q)
  have p1: "pos t (InR u G # gs) q (Br r q (Br a z b))" using f unfolding fixing_def InR pos_InR by blast
  then have ps: "pos t gs G (Br u G (Br r q (Br a z b)))" unfolding pos_InR by blast
  have l: "rb_parent t z = q" "rb_parent t q = G" "rb_right t G = q" "z \<noteq> rb_left t q" "q \<noteq> rb_left t G"
    using pos_links [OF p1] pos_links [OF ps] pos_sides(2) [OF p1, of z] pos_sides(2) [OF ps, of q] by simp_all
  have s: "insert_fixup_step z t = (z, rb_left_rotate G (set_color G RB_RED (set_color q RB_BLACK t)))"
    using l uncle_black_R [OF ps u] f by (simp add: insert_fixup_step_def Let_def fixing_def)
  have "\<exists>t2. rb_insert_fixup z (rb_left_rotate G (set_color G RB_RED (set_color q RB_BLACK t))) = Some t2 \<and>
      balanced t2 (plug gs (Br (Br u G r) q (Br a z b))) \<and> rb_nil t2 = rb_nil t"
    by (rule settle_R [OF ps]) (use f p l(1) u in \<open>auto simp: fixing_def InR\<close>)
  then show ?thesis using s by (auto simp: InR nodes_plug intro!: exI [of _ "plug gs (Br (Br u G r) q (Br a z b))"])
next
  case (InL q r)
  have p1: "pos t (InR u G # gs) q (Br (Br a z b) q r)" using f unfolding fixing_def InL pos_InL pos_InR by blast
  then have ps: "pos t gs G (Br u G (Br (Br a z b) q r))" unfolding pos_InR by blast
  have l: "rb_parent t z = q" "rb_parent t q = G" "rb_right t G = q" "z = rb_left t q" "q \<noteq> rb_left t G"
    using pos_links [OF p1] pos_links [OF ps] pos_sides(2) [OF ps, of q] by simp_all
  let ?t1 = "rb_right_rotate q t"
  note r1 = pos_right_rotate [OF p1]
  then have ps1: "pos ?t1 gs G (Br u G (Br a z (Br b q r)))" unfolding pos_InR by blast
  have l1: "rb_parent ?t1 q = z" "rb_parent ?t1 z = G" using ps1 by (auto simp: pos_def)
  have s: "insert_fixup_step z t = (q, rb_left_rotate G (set_color G RB_RED (set_color z RB_BLACK ?t1)))"
    using l l1 uncle_black_R [OF ps u] f by (simp add: insert_fixup_step_def Let_def fixing_def)
  have rt: "gs \<noteq> [] \<longrightarrow> rb_col t (rb_root ?t1) = RB_BLACK" using root_kept(1) [OF ps ps1] f by (auto simp: fixing_def)
  have "\<exists>t2. rb_insert_fixup q (rb_left_rotate G (set_color G RB_RED (set_color z RB_BLACK ?t1))) = Some t2 \<and>
      balanced t2 (plug gs (Br (Br u G a) z (Br b q r))) \<and> rb_nil t2 = rb_nil ?t1"
    by (rule settle_R [OF ps1]) (use f p l(1) u r1 rt in \<open>auto simp: fixing_def InL\<close>)
  then show ?thesis using s r1 by (auto simp: InL nodes_plug intro!: exI [of _ "plug gs (Br (Br u G a) z (Br b q r))"])
qed

text \<open>The loop ends with a balanced tree of the same nodes.\<close>

lemma insert_fixup_ok:
  "fixing t z fs a b \<Longrightarrow> \<exists>t' T. rb_insert_fixup z t = Some t' \<and> balanced t' T \<and> rb_nil t' = rb_nil t \<and> nodes T = nodes (plug fs (Br a z b))"
proof (induction "length fs" arbitrary: t z fs a b rule: less_induct)
  case less
  show ?case
  proof (cases "rb_col t (rb_parent t z) = RB_RED")
    case False
    then have b: "rb_col t (rb_parent t z) = RB_BLACK" by simp
    have "rb_insert_fixup z t = Some (set_color (rb_root t) RB_BLACK t)" using b by (subst rb_insert_fixup.simps) simp
    then show ?thesis using fixup_stop [OF less.prems b] by auto
  next
    case True
    have "fs \<noteq> []"
    proof
      assume "fs = []"
      then have "rb_parent t z = rb_nil t" "rb_col t (rb_nil t) = RB_BLACK" using less.prems by (auto simp: fixing_def pos_def)
      then show False using True by simp
    qed
    then obtain f fs' where f: "fs = f # fs'" by (cases fs) auto
    have "fs' \<noteq> []"
    proof
      assume "fs' = []"
      then show False using fixing_root_red [of t z f a b] less.prems True f by simp
    qed
    then obtain g gs where g: "fs = f # g # gs" using f by (cases fs') auto
    have step: "rb_insert_fixup z t = rb_insert_fixup (fst (insert_fixup_step z t)) (snd (insert_fixup_step z t))"
      using True by (subst rb_insert_fixup.simps) simp
    have up: "\<exists>t' T. rb_insert_fixup z t = Some t' \<and> balanced t' T \<and> rb_nil t' = rb_nil t \<and> nodes T = nodes (plug fs (Br a z b))"
      if "insert_fixup_step z t = (G, t1)" "fixing t1 G gs l r" "rb_nil t1 = rb_nil t" "nodes (plug fs (Br a z b)) = nodes (plug gs (Br l G r))" for G t1 l r
      using less.hyps [OF _ that(2)] that step by (simp add: g)
    show ?thesis
    proof (cases g)
      case (InL G u)
      show ?thesis
      proof (cases "red (rb_col t) u")
        case True
        then show ?thesis using step_uncle_L [OF less.prems [unfolded g InL] \<open>rb_col t (rb_parent t z) = RB_RED\<close>] up
          unfolding g InL by blast
      next
        case False
        show ?thesis using step_rotate_L [OF less.prems [unfolded g InL] \<open>rb_col t (rb_parent t z) = RB_RED\<close> False] step
          unfolding g InL by auto
      qed
    next
      case (InR u G)
      show ?thesis
      proof (cases "red (rb_col t) u")
        case True
        then show ?thesis using step_uncle_R [OF less.prems [unfolded g InR] \<open>rb_col t (rb_parent t z) = RB_RED\<close>] up
          unfolding g InR by blast
      next
        case False
        show ?thesis using step_rotate_R [OF less.prems [unfolded g InR] \<open>rb_col t (rb_parent t z) = RB_RED\<close> False] step
          unfolding g InR by auto
      qed
    qed
  qed
qed

end
