(* ===== verification/RBtree_Properties.thy ===== *)
theory RBtree_Properties
  imports RBtree_Insert
begin

text \<open>
  What the red-black tree promises its users: insertion puts the node in its place and keeps the
  tree balanced, search finds a node with the key whenever there is one, and no path is longer than
  twice the logarithm of the size.
\<close>

section \<open>Finding the place\<close>

lemma descend_ok:
  fixes key :: "'a \<Rightarrow> 'k :: linorder"
  assumes "repr t (above (rb_nil t) fs) x S" and "sorted (map key (nodes S))"
    and "\<And>w. w \<in> set (nodes S) \<Longrightarrow> compare z w < 0 \<longleftrightarrow> key z < key w"
    and "\<forall>w \<in> set (before fs). key w \<le> key z" and "\<forall>w \<in> set (after fs). key z < key w"
  shows "\<exists>fs'. insert_descend compare z t (above (rb_nil t) fs) x = Some (above (rb_nil t) fs') \<and> plug fs' Tip = plug fs S \<and>
    (\<forall>w \<in> set (before fs'). key w \<le> key z) \<and> (\<forall>w \<in> set (after fs'). key z < key w)"
  using assms
proof (induction S arbitrary: fs x)
  case Tip
  then show ?case by (subst insert_descend.simps) auto
next
  case (Br l y r)
  have y: "x = y" "y \<noteq> rb_nil t" using Br.prems(1) by auto
  have st: "sorted (map key (nodes l))" "sorted (map key (nodes r))" "\<forall>w \<in> set (nodes l). key w \<le> key y" "\<forall>w \<in> set (nodes r). key y \<le> key w"
    using Br.prems(2) by (auto simp: sorted_append)
  show ?case
  proof (cases "compare z y < 0")
    case True
    then have lt: "key z < key y" using Br.prems(3) [of y] by simp
    have "\<forall>w \<in> set (after (InL y r # fs)). key z < key w" using lt st(4) Br.prems(5) by fastforce
    then have "\<exists>fs'. insert_descend compare z t (above (rb_nil t) (InL y r # fs)) (rb_left t y) = Some (above (rb_nil t) fs') \<and>
        plug fs' Tip = plug (InL y r # fs) l \<and> (\<forall>w \<in> set (before fs'). key w \<le> key z) \<and> (\<forall>w \<in> set (after fs'). key z < key w)"
      using Br.prems(1,3,4) st(1) by (intro Br.IH(1)) auto
    then show ?thesis using True y by (subst insert_descend.simps) simp
  next
    case False
    then have le: "key y \<le> key z" using Br.prems(3) [of y] by simp
    have "\<forall>w \<in> set (before (InR l y # fs)). key w \<le> key z" using le st(3) Br.prems(4) by fastforce
    then have "\<exists>fs'. insert_descend compare z t (above (rb_nil t) (InR l y # fs)) (rb_right t y) = Some (above (rb_nil t) fs') \<and>
        plug fs' Tip = plug (InR l y # fs) r \<and> (\<forall>w \<in> set (before fs'). key w \<le> key z) \<and> (\<forall>w \<in> set (after fs'). key z < key w)"
      using Br.prems(1,3,5) st(2) by (intro Br.IH(2)) auto
    then show ?thesis using False y by (subst insert_descend.simps) simp
  qed
qed

section \<open>Linking the new node\<close>

fun on_side :: "('a \<Rightarrow> 'a \<Rightarrow> int) \<Rightarrow> 'a \<Rightarrow> 'a frame list \<Rightarrow> bool" where
  "on_side compare z [] \<longleftrightarrow> True"
| "on_side compare z (InL y r # fs) \<longleftrightarrow> compare z y < 0"
| "on_side compare z (InR l y # fs) \<longleftrightarrow> \<not> compare z y < 0"

lemma insert_leaf_ok:
  assumes p: "pos t fs h Tip" and z: "z \<noteq> rb_nil t" "z \<notin> set (before fs) \<union> set (after fs)"
    and side: "on_side compare z fs"
  defines "t' \<equiv> insert_leaf compare z (above (rb_nil t) fs) t"
  shows "pos t' fs z (Br Tip z Tip)" and "rb_nil t' = rb_nil t" and "rb_col t' = (rb_col t)(z := RB_RED)"
proof -
  let ?nl = "rb_nil t" let ?p = "above ?nl fs"
  have "(if ?p = ?nl then set_root z (set_parent z ?p t) else if compare z ?p < 0 then set_left ?p z (set_parent z ?p t) else set_right ?p z (set_parent z ?p t)) =
      set_child ?nl fs z (set_parent z ?p t)"
  proof (cases "(t, fs, h)" rule: rpath.cases)
    case (2 t0 y r gs h0)
    then show ?thesis using side pos_nil [OF p] by (auto simp: set_child_def)
  next
    case (3 t0 l y gs h0)
    then show ?thesis using side pos_nil [OF p] by (auto simp: set_child_def)
  qed (simp add: set_child_def)
  then have form: "t' = set_color z RB_RED (set_right z ?nl (set_left z ?nl (set_child ?nl fs z (set_parent z ?p t))))"
    unfolding t'_def insert_leaf_def Let_def by (simp add: set_parent_def)
  show nl: "rb_nil t' = ?nl" and "rb_col t' = (rb_col t)(z := RB_RED)" unfolding form by (simp_all add: set_defs)
  have "rpath t' fs z"
  proof (rule rpath_child)
    show "rpath t fs h" "distinct (before fs @ after fs)" using p by (auto simp: pos_def)
    show "rb_nil t' = ?nl" by (rule nl)
    show "rb_root t' = rb_root (set_child ?nl fs z t)"
      unfolding form by (simp add: set_child_root set_color_def set_right_def set_left_def set_parent_def)
    show "same_at (set_child ?nl fs z t) t' x" if "x \<in> set (before fs) \<union> set (after fs)" for x
    proof -
      have "x \<noteq> z" using that z(2) by blast
      then show ?thesis unfolding form same_at_def by (auto simp: set_child_def set_defs split: list.split frame.split)
    qed
  qed
  moreover have "rb_left t' z = ?nl" "rb_right t' z = ?nl" "rb_parent t' z = ?p"
    unfolding form using set_child_other [OF z(2)] by (simp_all add: set_color_def set_right_def set_left_def set_parent_def)
  moreover have "distinct (before fs @ after fs)" using p by (simp add: pos_def)
  ultimately show "pos t' fs z (Br Tip z Tip)" using z nl by (auto simp: pos_def)
qed

lemma red_top: "repr t p n T \<Longrightarrow> red c T \<longleftrightarrow> T \<noteq> Tip \<and> c n = RB_RED"
  by (cases T) auto

lemma leaf_fixing:
  assumes b: "balanced t (plug fs Tip)" and p: "pos t fs h Tip" and z: "z \<noteq> rb_nil t" "z \<notin> set (before fs) \<union> set (after fs)"
    and side: "on_side compare z fs"
  shows "fixing (insert_leaf compare z (above (rb_nil t) fs) t) z fs Tip Tip"
proof -
  note l = insert_leaf_ok [OF p z side]
  have c: "hpath (rb_col t) fs 0" "cpath (rb_col t) fs False" "rb_col t (rb_nil t) = RB_BLACK"
    using b by (simp_all add: balanced_def invh_plug invc_plug)
  have "rb_col t (rb_root t) = RB_BLACK \<and> rb_root t \<noteq> z" if "fs \<noteq> []"
  proof -
    have "plug fs Tip \<noteq> Tip" using that nodes_plug [of fs Tip] above_in [OF that, of z] by auto
    moreover have "repr t (rb_nil t) (rb_root t) (plug fs Tip)" using b by (simp add: balanced_def rtree_def)
    ultimately show ?thesis using b red_top [of t "rb_nil t" "rb_root t" "plug fs Tip" "rb_col t"] root_kept(2) [OF p p that] z(2) by (auto simp: balanced_def)
  qed
  then show ?thesis using l c z root_kept(1) [OF p l(1)] by (auto simp: fixing_def)
qed

section \<open>Insertion\<close>

lemma take_drop_split:
  assumes "\<forall>w \<in> set xs. P w" and "\<forall>w \<in> set ys. \<not> P w"
  shows "takeWhile P (xs @ ys) = xs" and "dropWhile P (xs @ ys) = ys"
  using assms by (induction xs) (cases ys; auto)+

lemma rb_tree_insert_ok:
  fixes key :: "'a \<Rightarrow> 'k :: linorder"
  assumes "balanced t T" and "sorted (map key (nodes T))" and "z \<noteq> rb_nil t" and "z \<notin> set (nodes T)"
    and "\<And>w. w \<in> set (nodes T) \<Longrightarrow> compare z w < 0 \<longleftrightarrow> key z < key w"
  shows "\<exists>t' T'. rb_tree_insert compare z t = Some t' \<and> balanced t' T' \<and> rb_nil t' = rb_nil t \<and>
    nodes T' = takeWhile (\<lambda>w. key w \<le> key z) (nodes T) @ z # dropWhile (\<lambda>w. key w \<le> key z) (nodes T)"
proof -
  have r: "repr t (above (rb_nil t) []) (rb_root t) T" using assms(1) by (simp add: balanced_def rtree_def)
  have "\<exists>fs. insert_descend compare z t (above (rb_nil t) []) (rb_root t) = Some (above (rb_nil t) fs) \<and> plug fs Tip = plug [] T \<and>
      (\<forall>w \<in> set (before fs). key w \<le> key z) \<and> (\<forall>w \<in> set (after fs). key z < key w)"
    by (rule descend_ok [OF r assms(2)]) (use assms(5) in auto)
  then obtain fs where d: "insert_descend compare z t (rb_nil t) (rb_root t) = Some (above (rb_nil t) fs)" and T: "plug fs Tip = T"
    and bf: "\<forall>w \<in> set (before fs). key w \<le> key z" and af: "\<forall>w \<in> set (after fs). key z < key w" by auto
  have n: "nodes T = before fs @ after fs" using nodes_plug [of fs Tip] T by simp
  have os: "on_side compare z fs" using assms(5) af bf n by (cases "(compare, z, fs)" rule: on_side.cases) fastforce+
  obtain h where p: "pos t fs h Tip" using assms(1) T rtree_pos [of t fs Tip] by (auto simp: balanced_def)
  have b: "balanced t (plug fs Tip)" and zn: "z \<notin> set (before fs) \<union> set (after fs)" using assms(1,4) T n by auto
  obtain t' T' where t': "rb_insert_fixup z (insert_leaf compare z (above (rb_nil t) fs) t) = Some t'" "balanced t' T'" "rb_nil t' = rb_nil t"
    "nodes T' = nodes (plug fs (Br Tip z Tip))"
    using insert_fixup_ok [OF leaf_fixing [OF b p assms(3) zn os]] insert_leaf_ok(2) [OF p assms(3) zn os] by auto
  have "\<forall>w \<in> set (after fs). \<not> key w \<le> key z" using af by auto
  note td = take_drop_split [OF bf this]
  show ?thesis using d t' by (auto simp: rb_tree_insert_def nodes_plug n td)
qed

section \<open>Search\<close>

lemma rb_tree_search_ok:
  fixes key :: "'a \<Rightarrow> 'k :: linorder"
  assumes "balanced t T" and "sorted (map key (nodes T))"
    and "\<And>w. w \<in> set (nodes T) \<Longrightarrow> (compare k w < 0 \<longleftrightarrow> key k < key w) \<and> (compare k w = 0 \<longleftrightarrow> key k = key w)"
  shows "\<exists>res. rb_tree_search compare k t = Some res \<and>
    (case res of None \<Rightarrow> \<forall>w \<in> set (nodes T). key w \<noteq> key k | Some w \<Rightarrow> w \<in> set (nodes T) \<and> key w = key k)"
proof -
  have "repr t p x S \<Longrightarrow> set (nodes S) \<subseteq> set (nodes T) \<Longrightarrow> sorted (map key (nodes S)) \<Longrightarrow> \<exists>res. search_from compare k t x = Some res \<and>
    (case res of None \<Rightarrow> \<forall>w \<in> set (nodes S). key w \<noteq> key k | Some w \<Rightarrow> w \<in> set (nodes S) \<and> key w = key k)" for p x S
  proof (induction S arbitrary: p x)
    case Tip
    then show ?case by (subst search_from.simps) simp
  next
    case (Br l y r)
    have y: "x = y" "y \<noteq> rb_nil t" "repr t y (rb_left t y) l" "repr t y (rb_right t y) r" using Br.prems(1) by auto
    have c: "compare k y < 0 \<longleftrightarrow> key k < key y" "compare k y = 0 \<longleftrightarrow> key k = key y" using assms(3) [of y] Br.prems(2) by auto
    have st: "sorted (map key (nodes l))" "sorted (map key (nodes r))" "\<forall>w \<in> set (nodes l). key w \<le> key y" "\<forall>w \<in> set (nodes r). key y \<le> key w"
      using Br.prems(3) by (auto simp: sorted_append)
    consider "key k = key y" | "key k < key y" | "key y < key k" by fastforce
    then show ?case
    proof cases
      case 1
      then show ?thesis using y c by (subst search_from.simps) simp
    next
      case 2
      then have "search_from compare k t x = search_from compare k t (rb_left t y)" using y c by (subst search_from.simps) simp
      then show ?thesis using Br.IH(1) [OF y(3)] Br.prems(2) st 2 by (fastforce split: option.splits)
    next
      case 3
      then have "search_from compare k t x = search_from compare k t (rb_right t y)" using y c by (subst search_from.simps) auto
      then show ?thesis using Br.IH(2) [OF y(4)] Br.prems(2) st 3 by (fastforce split: option.splits)
    qed
  qed
  from this [of "rb_nil t" "rb_root t" T] show ?thesis using assms(1,2) by (simp add: rb_tree_search_def balanced_def rtree_def)
qed

text \<open>A tree of one node, by insertion into the empty tree.\<close>

definition demo_rb :: "nat rb_tree" where
  "demo_rb = rb_tree_init 0 \<lparr>rb_parent = id, rb_left = id, rb_right = id, rb_col = (\<lambda>_. RB_RED), rb_root = 9, rb_nil = 9\<rparr>"

definition demo_compare :: "nat \<Rightarrow> nat \<Rightarrow> int" where
  "demo_compare a b = int a - int b"

lemma rb_tree_init_balanced: "balanced (rb_tree_init nil t) Tip"
  by (simp add: balanced_def rtree_def rb_tree_init_def Let_def set_defs)

lemma demo_rb_nil: "rb_nil demo_rb = 0"
  by (simp add: demo_rb_def rb_tree_init_def Let_def set_defs)

lemma demo_rb_balanced: "balanced demo_rb Tip"
  unfolding demo_rb_def by (rule rb_tree_init_balanced)

lemma demo_rb_one: "\<exists>t T. rb_tree_insert demo_compare 5 demo_rb = Some t \<and> balanced t T \<and> nodes T = [5] \<and> rb_nil t = 0"
  using rb_tree_insert_ok [OF demo_rb_balanced, of id 5 demo_compare] by (auto simp: demo_rb_nil)

section \<open>Properties\<close>

text \<open>C32: Insertion into a red-black tree that is ordered by the comparison returns: the result is again a
  red-black tree, with consistent links and parent pointers, no red node below a red node and the
  same number of black nodes on every path, and its nodes in order are the old ones with the new
  one behind those whose key is not larger.\<close>

theorem rb_tree_insert_correct:
  fixes key :: "'a \<Rightarrow> 'k :: linorder"
  assumes "balanced t T" and "sorted (map key (nodes T))" and "z \<noteq> rb_nil t" and "z \<notin> set (nodes T)"
    and "\<And>w. w \<in> set (nodes T) \<Longrightarrow> compare z w < 0 \<longleftrightarrow> key z < key w"
  shows "\<exists>t' T'. rb_tree_insert compare z t = Some t' \<and> balanced t' T' \<and> rb_nil t' = rb_nil t \<and>
    nodes T' = takeWhile (\<lambda>w. key w \<le> key z) (nodes T) @ z # dropWhile (\<lambda>w. key w \<le> key z) (nodes T)"
  using assms by (rule rb_tree_insert_ok)

theorem rb_tree_insert_correct_witness: "\<exists>t u T. rb_tree_insert demo_compare 5 demo_rb = Some t \<and> rb_tree_insert demo_compare 3 t = Some u \<and> balanced u T \<and> nodes T = [3, 5]"
proof -
  obtain t T where t: "rb_tree_insert demo_compare 5 demo_rb = Some t" "balanced t T" "nodes T = [5]" "rb_nil t = 0" using demo_rb_one by blast
  then show ?thesis using rb_tree_insert_correct [OF t(2), of id 3 demo_compare] by (auto simp: demo_compare_def)
qed

text \<open>Searching a tree that is ordered by the comparison returns: the result is a node with the key when
  the tree has one, and NULL otherwise.\<close>

theorem rb_tree_search_correct:
  fixes key :: "'a \<Rightarrow> 'k :: linorder"
  assumes "balanced t T" and "sorted (map key (nodes T))"
    and "\<And>w. w \<in> set (nodes T) \<Longrightarrow> (compare k w < 0 \<longleftrightarrow> key k < key w) \<and> (compare k w = 0 \<longleftrightarrow> key k = key w)"
  shows "\<exists>res. rb_tree_search compare k t = Some res \<and>
    (case res of None \<Rightarrow> \<forall>w \<in> set (nodes T). key w \<noteq> key k | Some w \<Rightarrow> w \<in> set (nodes T) \<and> key w = key k)"
  using assms by (rule rb_tree_search_ok)

theorem rb_tree_search_correct_witness: "\<exists>t. rb_tree_insert demo_compare 5 demo_rb = Some t \<and> rb_tree_search demo_compare 5 t = Some (Some 5)"
proof -
  obtain t T where t: "rb_tree_insert demo_compare 5 demo_rb = Some t" "balanced t T" "nodes T = [5]" using demo_rb_one by blast
  then show ?thesis using rb_tree_search_correct [OF t(2), of id demo_compare 5] by (auto simp: demo_compare_def split: option.splits)
qed

fun depth :: "'a btree \<Rightarrow> nat" where
  "depth Tip = 0"
| "depth (Br l x r) = Suc (max (depth l) (depth r))"

lemma depth_bh: "invc c T \<Longrightarrow> invh c T \<Longrightarrow> depth T \<le> 2 * bh c T + (if red c T then 1 else 0)"
  by (induction T) (auto split: if_splits)

lemma size_bh: "invh c T \<Longrightarrow> 2 ^ bh c T \<le> length (nodes T) + 1"
  by (induction T) auto

text \<open>No path of a red-black tree is longer than twice the logarithm of its size: a search visits at most
  that many nodes.\<close>

theorem rb_tree_depth:
  assumes "balanced t T"
  shows "depth T \<le> 2 * bh (rb_col t) T \<and> 2 ^ bh (rb_col t) T \<le> length (nodes T) + 1"
  using depth_bh [of "rb_col t" T] size_bh [of "rb_col t" T] assms by (simp add: balanced_def)

theorem rb_tree_depth_witness: "\<exists>t T. rb_tree_insert demo_compare 5 demo_rb = Some t \<and> balanced t T \<and> nodes T = [5] \<and> depth T \<le> 2"
proof -
  obtain t T where t: "rb_tree_insert demo_compare 5 demo_rb = Some t" "balanced t T" "nodes T = [5]" using demo_rb_one by blast
  have "bh (rb_col t) T \<le> 1"
  proof (rule ccontr)
    assume "\<not> bh (rb_col t) T \<le> 1"
    then have "(2 :: nat) ^ 2 \<le> 2 ^ bh (rb_col t) T" by (intro power_increasing) auto
    then show False using rb_tree_depth [OF t(2)] t(3) by simp
  qed
  then show ?thesis using rb_tree_depth [OF t(2)] t by (intro exI [of _ t] exI [of _ T]) auto
qed

end
