(* ===== verification/RBtree_Delete.thy ===== *)
theory RBtree_Delete
  imports RBtree_Properties
begin

text \<open>
  Deletion from the red-black tree of \<^verbatim>\<open>rbtree.c\<close>: the fix-up loop ends, gives back the black node that
  is missing below the position, and keeps the nodes in their order; unlinking a node leaves all the
  others in their order.
\<close>

section \<open>The state of the fix-up loop\<close>

text \<open>Below the position one black node is missing; its top may be red below a red node.\<close>

fun below_ok :: "('a \<Rightarrow> rb_color) \<Rightarrow> 'a btree \<Rightarrow> bool" where
  "below_ok c Tip \<longleftrightarrow> True"
| "below_ok c (Br l x r) \<longleftrightarrow> invc c l \<and> invc c r"

definition dfix :: "'a rb_tree \<Rightarrow> 'a \<Rightarrow> 'a frame list \<Rightarrow> 'a btree \<Rightarrow> bool" where
  "dfix t x fs T \<longleftrightarrow> pos t fs x T \<and> rb_parent t x = above (rb_nil t) fs \<and> below_ok (rb_col t) T \<and> invh (rb_col t) T \<and>
     hpath (rb_col t) fs (Suc (bh (rb_col t) T)) \<and> cpath (rb_col t) fs False \<and> rb_col t (rb_nil t) = RB_BLACK \<and>
     (fs \<noteq> [] \<longrightarrow> rb_col t (rb_root t) = RB_BLACK)"

lemma below_invc: "below_ok c T \<Longrightarrow> \<not> red c T \<Longrightarrow> invc c T"
  by (cases T) auto

lemma invc_below: "invc c T \<Longrightarrow> below_ok c T"
  by (cases T) auto

lemma below_upd [simp]: "y \<notin> set (nodes T) \<Longrightarrow> below_ok (c(y := v)) T = below_ok c T"
  by (cases T) auto

lemma cpath_False: "cpath c fs rd \<Longrightarrow> cpath c fs False"
  by (cases "(c, fs, rd)" rule: cpath.cases) auto

lemma pos_head: "pos t fs h T \<Longrightarrow> h = top_node (rb_nil t) T"
  by (auto simp: pos_def dest: repr_top)

lemma red_col: "pos t fs h T \<Longrightarrow> rb_col t (rb_nil t) = RB_BLACK \<Longrightarrow> red (rb_col t) T \<longleftrightarrow> rb_col t h = RB_RED"
  by (cases T) (auto simp: pos_def)

text \<open>The loop stops at a red node and at the root.\<close>

lemma dfix_stop:
  assumes d: "dfix t x fs T" and s: "red (rb_col t) T \<or> fs = []"
  shows "rb_delete_fixup x t = Some (set_color x RB_BLACK t)" and "balanced (set_color x RB_BLACK t) (plug fs T)"
proof -
  have p: "pos t fs x T" and nl: "rb_col t (rb_nil t) = RB_BLACK" using d by (simp_all add: dfix_def)
  have "x = rb_root t \<or> rb_col t x = RB_RED" using s p red_col [OF p nl] by (auto simp: pos_def)
  then show "rb_delete_fixup x t = Some (set_color x RB_BLACK t)" by (subst rb_delete_fixup.simps) auto
  show "balanced (set_color x RB_BLACK t) (plug fs T)"
  proof (cases T)
    case Tip
    then have "fs = []" "x = rb_nil t" "rb_root t = rb_nil t" using s p by (auto simp: pos_def)
    then show ?thesis using Tip by (simp add: balanced_def rtree_def)
  next
    case (Br l y r)
    have y: "x = y" "y \<notin> set (nodes l)" "y \<notin> set (nodes r)" "y \<notin> set (before fs)" "y \<notin> set (after fs)" "y \<noteq> rb_nil t"
      using p pos_nil [OF p] unfolding Br by (auto simp: pos_def)
    have rt: "rb_root t = y" if "fs = []" using p that y(1) by (simp add: pos_def)
    have h: "hpath (rb_col t) fs (Suc (bh (rb_col t) l))" using d s unfolding Br dfix_def by auto
    show ?thesis unfolding Br y(1)
      by (rule balanced_plug [of _ _ x]) (use d y rt h in \<open>auto simp: dfix_def Br\<close>)
  qed
qed

section \<open>The sibling is black\<close>

text \<open>The part of an iteration behind the case of a red sibling.\<close>

definition left_rest :: "'a \<Rightarrow> 'a \<Rightarrow> 'a rb_tree \<Rightarrow> 'a \<times> 'a rb_tree" where
  "left_rest x w t =
     (if rb_col t (rb_left t w) = RB_BLACK \<and> rb_col t (rb_right t w) = RB_BLACK then (rb_parent t x, set_color w RB_RED t)
      else
        (let (w, t) = (if rb_col t (rb_right t w) = RB_BLACK then
               (let t1 = rb_right_rotate w (set_color w RB_RED (set_color (rb_left t w) RB_BLACK t))
                in (rb_right t1 (rb_parent t1 x), t1)) else (w, t));
             t4 = rb_left_rotate (rb_parent t x) (set_color (rb_right t w) RB_BLACK (set_color (rb_parent t x) RB_BLACK
               (set_color w (rb_col t (rb_parent t x)) t)))
         in (rb_root t4, t4)))"

lemma delete_fixup_left_eq:
  "delete_fixup_left x t =
     (let w = rb_right t (rb_parent t x);
          t1 = rb_left_rotate (rb_parent t x) (set_color (rb_parent t x) RB_RED (set_color w RB_BLACK t))
      in if rb_col t w = RB_RED then left_rest x (rb_right t1 (rb_parent t1 x)) t1 else left_rest x w t)"
  by (simp add: delete_fixup_left_def left_rest_def Let_def split: prod.split)

text \<open>What an iteration achieves: the missing node moves up, or the tree is balanced.\<close>

definition settled :: "'a \<Rightarrow> 'a list \<Rightarrow> 'a \<times> 'a rb_tree \<Rightarrow> bool" where
  "settled nl N xt \<longleftrightarrow> (\<exists>S. balanced (snd xt) S \<and> nodes S = N \<and> S \<noteq> Tip) \<and> fst xt = rb_root (snd xt) \<and> rb_nil (snd xt) = nl"

definition ends :: "'a \<Rightarrow> 'a list \<Rightarrow> 'a \<times> 'a rb_tree \<Rightarrow> bool" where
  "ends nl N xt \<longleftrightarrow> (\<exists>t' S. rb_delete_fixup (fst xt) (snd xt) = Some t' \<and> balanced t' S \<and> rb_nil t' = nl \<and> nodes S = N)"

lemma settled_ends:
  assumes "settled nl N xt"
  shows "ends nl N xt"
proof -
  obtain S where S: "balanced (snd xt) S" "nodes S = N" "S \<noteq> Tip" "fst xt = rb_root (snd xt)" "rb_nil (snd xt) = nl"
    using assms by (auto simp: settled_def)
  have "rb_col (snd xt) (rb_root (snd xt)) = RB_BLACK" using S(1,3) by (cases S) (auto simp: balanced_def rtree_def)
  then have "set_color (rb_root (snd xt)) RB_BLACK (snd xt) = snd xt" by (simp add: set_color_def fun_upd_idem)
  then show ?thesis unfolding ends_def using S by (subst rb_delete_fixup.simps) auto
qed

lemma plug_Br: "plug fs (Br l x r) \<noteq> Tip"
  by (metis append_is_Nil_conv list.discI nodes.simps nodes_plug)

text \<open>Both children of the sibling are black.\<close>

lemma push_up:
  assumes d: "dfix t x fs T" and nr: "\<not> red (rb_col t) T" and ps: "pos t gs p (Br A p B)"
    and sides: "fs = InL p (Br wl w wr) # gs \<and> A = T \<and> B = Br wl w wr \<or> fs = InR (Br wl w wr) p # gs \<and> A = Br wl w wr \<and> B = T"
    and c: "rb_col t w = RB_BLACK" "\<not> red (rb_col t) wl" "\<not> red (rb_col t) wr"
  shows "dfix (set_color w RB_RED t) p gs (Br A p B)"
proof -
  let ?S = "set (nodes T) \<union> set (nodes wl) \<union> set (nodes wr) \<union> set (before gs) \<union> set (after gs) \<union> {p, rb_nil t}"
  have n: "w \<notin> ?S" using pos_distinct [OF ps] pos_nil [OF ps] sides by auto
  have rt: "gs \<noteq> [] \<Longrightarrow> rb_root t \<noteq> w" using root_kept(2) [OF ps ps] n by blast
  have pp: "rb_parent t p = above (rb_nil t) gs" using pos_links(4) [OF ps] .
  have b: "invc (rb_col t) T" using d nr below_invc by (auto simp: dfix_def)
  show ?thesis
    using sides d n ps pp c rt b cpath_False [of "rb_col t" gs "rb_col t p = RB_RED"]
    by (elim disjE) (auto simp: dfix_def)
qed

text \<open>The far child of the sibling is red: one rotation ends the loop.\<close>

lemma settle_del_L:
  assumes ps: "pos t gs p (Br T p (Br wl w (Br a v b)))"
    and c: "rb_col t w = RB_BLACK" "rb_col t v = RB_RED" "rb_col t (rb_nil t) = RB_BLACK" "rb_col t (rb_root t) = RB_BLACK"
    and ic: "invc (rb_col t) T" "invc (rb_col t) wl" "invc (rb_col t) a" "invc (rb_col t) b"
    and ih: "invh (rb_col t) T" "invh (rb_col t) wl" "invh (rb_col t) a" "invh (rb_col t) b"
      "bh (rb_col t) wl = bh (rb_col t) T" "bh (rb_col t) a = bh (rb_col t) T" "bh (rb_col t) b = bh (rb_col t) T"
    and path: "hpath (rb_col t) gs (Suc (bh (rb_col t) T) + (if rb_col t p = RB_BLACK then 1 else 0))" "cpath (rb_col t) gs (rb_col t p = RB_RED)"
  defines "t' \<equiv> rb_left_rotate p (set_color v RB_BLACK (set_color p RB_BLACK (set_color w (rb_col t p) t)))"
  shows "settled (rb_nil t) (nodes (plug gs (Br T p (Br wl w (Br a v b))))) (rb_root t', t')"
proof -
  have r: "pos t' gs w (Br (Br T p wl) w (Br a v b))" "rb_nil t' = rb_nil t" "rb_col t' = (rb_col t)(w := rb_col t p, p := RB_BLACK, v := RB_BLACK)"
    unfolding t'_def using pos_left_rotate [of "set_color v RB_BLACK (set_color p RB_BLACK (set_color w (rb_col t p) t))" gs p T wl w "Br a v b"] ps by simp_all
  let ?S = "set (nodes T) \<union> set (nodes wl) \<union> set (nodes a) \<union> set (nodes b) \<union> set (before gs) \<union> set (after gs) \<union> {rb_nil t}"
  have n: "w \<notin> ?S" "p \<notin> ?S" "v \<notin> ?S" "w \<noteq> p" "w \<noteq> v" "p \<noteq> v" using pos_distinct [OF ps] pos_nil [OF ps] by auto
  have "rb_col t' (rb_root t') = RB_BLACK"
  proof (cases "gs = []")
    case True
    then have "rb_root t' = w" "rb_root t = p" using r(1) ps by (auto simp: pos_def)
    then show ?thesis using c(4) n unfolding r(3) by simp
  next
    case False
    then show ?thesis using root_kept [OF ps r(1) False] c(4) n unfolding r(3) by auto
  qed
  then have "balanced t' (plug gs (Br (Br T p wl) w (Br a v b)))"
    by (intro balanced_plug [OF r(1)]; unfold r(2,3); use n c ic ih path in \<open>auto simp del: not_red\<close>)
  then show ?thesis using r(2) plug_Br [of gs "Br T p wl" w "Br a v b"]
    by (auto simp: settled_def nodes_plug intro!: exI [of _ "plug gs (Br (Br T p wl) w (Br a v b))"])
qed

lemma rb_parent_sets:
  "rb_parent (set_left n v t) = rb_parent t" "rb_parent (set_right n v t) = rb_parent t" "rb_parent (set_root v t) = rb_parent t"
  "rb_parent (set_parent n v t) = (rb_parent t)(n := v)" "rb_nil (set_left n v t) = rb_nil t" "rb_nil (set_right n v t) = rb_nil t"
  "rb_nil (set_root v t) = rb_nil t" "rb_nil (set_parent n v t) = rb_nil t" "rb_right (set_left n v t) = rb_right t" "rb_left (set_right n v t) = rb_left t"
  by (simp_all add: set_defs)

lemma nil_parent_raw:
  "x \<noteq> rb_nil t \<Longrightarrow> rb_right t x \<noteq> rb_nil t \<Longrightarrow> rb_parent (rb_left_rotate x t) (rb_nil t) = rb_parent t (rb_nil t)"
  "x \<noteq> rb_nil t \<Longrightarrow> rb_left t x \<noteq> rb_nil t \<Longrightarrow> rb_parent (rb_right_rotate x t) (rb_nil t) = rb_parent t (rb_nil t)"
  by (simp_all add: rb_left_rotate_def rb_right_rotate_def Let_def rb_parent_sets if_distrib [where f = rb_parent] cong: if_cong)

lemma nil_parent_rotate:
  "pos t fs x (Br a x (Br b y c)) \<Longrightarrow> rb_parent (rb_left_rotate x t) (rb_nil t) = rb_parent t (rb_nil t)"
  "pos t fs y (Br (Br a x b) y c) \<Longrightarrow> rb_parent (rb_right_rotate y t) (rb_nil t) = rb_parent t (rb_nil t)"
  by (rule nil_parent_raw; auto simp: pos_def)+

lemma dfix_parent:
  assumes "pos t fs x T" and "T = Tip \<Longrightarrow> rb_parent t (rb_nil t) = above (rb_nil t) fs"
  shows "rb_parent t x = above (rb_nil t) fs"
  using assms by (cases T) (auto simp: pos_def)

lemma col_top: "rb_col t (rb_nil t) = RB_BLACK \<Longrightarrow> rb_col t (top_node (rb_nil t) T) = (if red (rb_col t) T then RB_RED else RB_BLACK)"
  by (cases T) auto

lemma left_rest_ok:
  assumes d: "dfix t x (InL p (Br wl w wr) # gs) T" and nr: "\<not> red (rb_col t) T" and w: "rb_col t w = RB_BLACK"
  shows "(\<exists>t'. left_rest x w t = (p, t') \<and> dfix t' p gs (Br T p (Br wl w wr)) \<and> rb_col t' p = rb_col t p \<and> rb_nil t' = rb_nil t) \<or>
    settled (rb_nil t) (nodes (plug gs (Br T p (Br wl w wr)))) (left_rest x w t)"
proof -
  let ?c = "rb_col t"
  have p0: "pos t (InL p (Br wl w wr) # gs) x T" using d by (simp add: dfix_def)
  then have ps: "pos t gs p (Br T p (Br wl w wr))" and x: "x = rb_left t p" unfolding pos_InL by auto
  then have pw: "pos t (InR T p # gs) w (Br wl w wr)" unfolding pos_InR using pos_links(3) [OF ps] by simp
  have f: "rb_parent t x = p" "?c (rb_nil t) = RB_BLACK" "?c (rb_root t) = RB_BLACK" "invc ?c T" "invh ?c T" "invc ?c wl" "invc ?c wr" "invh ?c wl" "invh ?c wr"
    "bh ?c wl = bh ?c T" "bh ?c wr = bh ?c T" "hpath ?c gs (Suc (bh ?c T) + (if ?c p = RB_BLACK then 1 else 0))" "cpath ?c gs (?c p = RB_RED)"
    using d nr w below_invc [of ?c T] by (auto simp: dfix_def)
  have wn: "w \<noteq> p" using pos_distinct [OF ps] by auto
  have l: "rb_left t w = top_node (rb_nil t) wl" "rb_right t w = top_node (rb_nil t) wr" using pos_links(2,3) [OF pw] .
  consider (push) "\<not> red ?c wl" "\<not> red ?c wr" | (far) "red ?c wr" | (near) "red ?c wl" "\<not> red ?c wr" by blast
  then show ?thesis
  proof cases
    case push
    have "left_rest x w t = (p, set_color w RB_RED t)"
      using push f(1) by (simp add: left_rest_def l col_top [OF f(2)])
    then show ?thesis using push_up [OF d nr ps _ w push] wn by auto
  next
    case far
    obtain a v b where wr: "wr = Br a v b" "?c v = RB_RED" using far by (cases wr) auto
    have e: "left_rest x w t = (let t' = rb_left_rotate p (set_color v RB_BLACK (set_color p RB_BLACK (set_color w (?c p) t))) in (rb_root t', t'))"
      using wr f(1) by (simp add: left_rest_def l Let_def)
    show ?thesis unfolding e Let_def wr(1)
      by (rule disjI2, rule settle_del_L [OF ps [unfolded wr(1)] w wr(2) f(2,3,4,6)]) (use f wr in auto)
  next
    case near
    obtain a v b where wl: "wl = Br a v b" "?c v = RB_RED" using near by (cases wl) auto
    let ?t0 = "set_color w RB_RED (set_color v RB_BLACK t)" let ?t1 = "rb_right_rotate w ?t0"
    have r: "pos ?t1 (InR T p # gs) v (Br a v (Br b w wr))" "rb_nil ?t1 = rb_nil t" "rb_col ?t1 = ?c(v := RB_BLACK, w := RB_RED)"
      using pos_right_rotate [of ?t0 "InR T p # gs" w a v b wr] pw wl by simp_all
    then have ps1: "pos ?t1 gs p (Br T p (Br a v (Br b w wr)))" unfolding pos_InR by blast
    let ?S = "set (nodes T) \<union> set (nodes a) \<union> set (nodes b) \<union> set (nodes wr) \<union> set (before gs) \<union> set (after gs) \<union> {rb_nil t, p}"
    have n: "w \<notin> ?S" "v \<notin> ?S" "w \<noteq> v" using pos_distinct [OF ps] pos_nil [OF ps] wl by auto
    have "rb_parent ?t1 x = above (rb_nil ?t1) (InL p (Br a v (Br b w wr)) # gs)"
    proof (rule dfix_parent)
      show "pos ?t1 (InL p (Br a v (Br b w wr)) # gs) x T"
        unfolding pos_InL using ps1 pos_head [OF p0] pos_links(2) [OF ps1] r(2) by simp
      show "rb_parent ?t1 (rb_nil ?t1) = above (rb_nil ?t1) (InL p (Br a v (Br b w wr)) # gs)" if "T = Tip"
        using nil_parent_rotate(2) [of ?t0 "InR T p # gs" w a v b wr] pw wl(1) r(2) f(1) pos_head [OF p0] that by simp
    qed
    then have px: "rb_parent ?t1 x = p" by simp
    have rp: "rb_right ?t1 p = v" using pos_links(3) [OF ps1] by simp
    have rv: "rb_right ?t1 v = w" using pos_links(3) [OF r(1)] by simp
    have e: "left_rest x w t = (let t' = rb_left_rotate p (set_color w RB_BLACK (set_color p RB_BLACK (set_color v (rb_col ?t1 p) ?t1))) in (rb_root t', t'))"
      using near wl f(1,2) px rp rv by (simp add: left_rest_def l Let_def col_top [OF f(2)])
    have rt: "rb_col ?t1 (rb_root ?t1) = RB_BLACK"
    proof (cases "gs = []")
      case True
      then have "rb_root ?t1 = p" "rb_root t = p" using ps1 ps by (auto simp: pos_def)
      then show ?thesis using f(3) n unfolding r(3) by auto
    next
      case False
      then show ?thesis using root_kept [OF ps ps1 False] f(3) n unfolding r(3) by auto
    qed
    have "settled (rb_nil ?t1) (nodes (plug gs (Br T p (Br a v (Br b w wr))))) (left_rest x w t)"
      unfolding e Let_def
      by (rule settle_del_L [OF ps1 _ _ _ rt]; unfold r(2,3); use f n wl near in \<open>auto simp del: not_red\<close>)
    then show ?thesis using r(2) by (auto simp: nodes_plug wl(1))
  qed
qed

section \<open>One iteration\<close>

lemma stop_ends: "dfix t x fs T \<Longrightarrow> red (rb_col t) T \<or> fs = [] \<Longrightarrow> ends (rb_nil t) (nodes (plug fs T)) (x, t)"
  using dfix_stop [of t x fs T] by (auto simp: ends_def)

text \<open>A red sibling is rotated above the parent, which is red then.\<close>

lemma red_sibling_L:
  assumes d: "dfix t x (InL p (Br wl w wr) # gs) T" and w: "rb_col t w = RB_RED"
  defines "t1 \<equiv> rb_left_rotate p (set_color p RB_RED (set_color w RB_BLACK t))"
  shows "dfix t1 x (InL p wl # InL w wr # gs) T" and "rb_nil t1 = rb_nil t" and "rb_col t1 = (rb_col t)(w := RB_BLACK, p := RB_RED)"
    and "rb_right t1 p = top_node (rb_nil t) wl" and "\<not> red (rb_col t1) wl"
proof -
  let ?c = "rb_col t" let ?t0 = "set_color p RB_RED (set_color w RB_BLACK t)"
  have p0: "pos t (InL p (Br wl w wr) # gs) x T" using d by (simp add: dfix_def)
  then have ps: "pos t gs p (Br T p (Br wl w wr))" unfolding pos_InL by auto
  let ?S = "set (nodes T) \<union> set (nodes wl) \<union> set (nodes wr) \<union> set (before gs) \<union> set (after gs) \<union> {rb_nil t}"
  have n: "w \<notin> ?S" "p \<notin> ?S" "w \<noteq> p" using pos_distinct [OF ps] pos_nil [OF ps] by auto
  have r: "pos t1 gs w (Br (Br T p wl) w wr)" and nl: "rb_nil t1 = rb_nil t" and cl: "rb_col t1 = ?c(w := RB_BLACK, p := RB_RED)"
    unfolding t1_def using pos_left_rotate [of ?t0 gs p T wl w wr] ps by simp_all
  then have p2: "pos t1 (InL w wr # gs) p (Br T p wl)" unfolding pos_InL using pos_links(2) [OF r] by simp
  then have p1: "pos t1 (InL p wl # InL w wr # gs) x T" unfolding pos_InL using r pos_links(2) [OF r] pos_head [OF p0] pos_links(2) [OF p2] nl by auto
  show "rb_nil t1 = rb_nil t" "rb_col t1 = ?c(w := RB_BLACK, p := RB_RED)" using nl cl .
  show "rb_right t1 p = top_node (rb_nil t) wl" using pos_links(3) [OF p2] nl by simp
  show nw: "\<not> red (rb_col t1) wl" using d w n by (simp add: dfix_def cl)
  have px: "rb_parent t1 x = above (rb_nil t1) (InL p wl # InL w wr # gs)"
    by (rule dfix_parent [OF p1]) (use nil_parent_rotate(1) [of ?t0 gs p T wl w wr] ps nl d pos_head [OF p0] in \<open>auto simp: t1_def dfix_def\<close>)
  have rt: "rb_col t1 (rb_root t1) = RB_BLACK"
  proof (cases "gs = []")
    case True
    then have "rb_root t1 = w" using r by (auto simp: pos_def)
    then show ?thesis using n by (simp add: cl)
  next
    case False
    then show ?thesis using root_kept [OF ps r False] d n by (auto simp: cl dfix_def)
  qed
  have cp: "?c p = RB_BLACK" using d w by (auto simp: dfix_def)
  show "dfix t1 x (InL p wl # InL w wr # gs) T"
    unfolding dfix_def using p1 px rt d w n nw cp by (auto simp: dfix_def cl nl)
qed

lemma step_L:
  assumes d: "dfix t x (InL p R # gs) T" and nr: "\<not> red (rb_col t) T"
  shows "(\<exists>t'. delete_fixup_step x t = (p, t') \<and> dfix t' p gs (Br T p R) \<and> rb_nil t' = rb_nil t) \<or>
    ends (rb_nil t) (nodes (plug gs (Br T p R))) (delete_fixup_step x t)"
proof -
  obtain wl w wr where R: "R = Br wl w wr" using d by (cases R) (auto simp: dfix_def)
  have p0: "pos t (InL p R # gs) x T" and px: "rb_parent t x = p" using d by (auto simp: dfix_def)
  have ps: "pos t gs p (Br T p R)" and x: "x = rb_left t p" using p0 unfolding pos_InL by auto
  have w: "rb_right t p = w" using pos_links(3) [OF ps] R by simp
  have s: "delete_fixup_step x t = delete_fixup_left x t" using px x by (simp add: delete_fixup_step_def)
  let ?t1 = "rb_left_rotate p (set_color p RB_RED (set_color w RB_BLACK t))"
  show ?thesis
  proof (cases "rb_col t w = RB_RED")
    case False
    then have "delete_fixup_left x t = left_rest x w t" using px w by (simp add: delete_fixup_left_eq)
    then show ?thesis using left_rest_ok [OF d [unfolded R] nr] False s R by (auto dest: settled_ends)
  next
    case True
    note r = red_sibling_L [OF d [unfolded R] True]
    obtain a v b where wl: "wl = Br a v b" using d R True by (cases wl) (auto simp: dfix_def)
    have q: "rb_parent ?t1 x = p" using r(1) by (simp add: dfix_def)
    have n: "w \<notin> set (nodes T)" "p \<notin> set (nodes T)" "w \<noteq> p" using pos_distinct [OF ps] R by auto
    have "delete_fixup_left x t = left_rest x v ?t1" using px w True q r(4) wl by (simp add: delete_fixup_left_eq)
    moreover have "\<not> red (rb_col ?t1) T" "rb_col ?t1 v = RB_BLACK" using nr n r(3,5) wl by auto
    moreover have "ends (rb_nil ?t1) (nodes (plug (InL w wr # gs) (Br T p (Br a v b)))) (p, t')"
      if "dfix t' p (InL w wr # gs) (Br T p (Br a v b))" "rb_col t' p = rb_col ?t1 p" "rb_nil t' = rb_nil ?t1" for t'
      using stop_ends [OF that(1)] that(2,3) r(3) by simp
    ultimately have "ends (rb_nil ?t1) (nodes (plug (InL w wr # gs) (Br T p (Br a v b)))) (delete_fixup_left x t)"
      using left_rest_ok [OF r(1) [unfolded wl]] by (auto dest: settled_ends)
    then show ?thesis using s r(2) R wl by (simp add: nodes_plug)
  qed
qed
section \<open>The right side, the mirror image\<close>

definition right_rest :: "'a \<Rightarrow> 'a \<Rightarrow> 'a rb_tree \<Rightarrow> 'a \<times> 'a rb_tree" where
  "right_rest x w t =
     (if rb_col t (rb_right t w) = RB_BLACK \<and> rb_col t (rb_left t w) = RB_BLACK then (rb_parent t x, set_color w RB_RED t)
      else
        (let (w, t) = (if rb_col t (rb_left t w) = RB_BLACK then
               (let t1 = rb_left_rotate w (set_color w RB_RED (set_color (rb_right t w) RB_BLACK t))
                in (rb_left t1 (rb_parent t1 x), t1)) else (w, t));
             t4 = rb_right_rotate (rb_parent t x) (set_color (rb_left t w) RB_BLACK (set_color (rb_parent t x) RB_BLACK
               (set_color w (rb_col t (rb_parent t x)) t)))
         in (rb_root t4, t4)))"

lemma delete_fixup_right_eq:
  "delete_fixup_right x t =
     (let w = rb_left t (rb_parent t x);
          t1 = rb_right_rotate (rb_parent t x) (set_color (rb_parent t x) RB_RED (set_color w RB_BLACK t))
      in if rb_col t w = RB_RED then right_rest x (rb_left t1 (rb_parent t1 x)) t1 else right_rest x w t)"
  by (simp add: delete_fixup_right_def right_rest_def Let_def split: prod.split)

lemma settle_del_R:
  assumes ps: "pos t gs p (Br (Br (Br b v a) w wl) p T)"
    and c: "rb_col t w = RB_BLACK" "rb_col t v = RB_RED" "rb_col t (rb_nil t) = RB_BLACK" "rb_col t (rb_root t) = RB_BLACK"
    and ic: "invc (rb_col t) T" "invc (rb_col t) wl" "invc (rb_col t) a" "invc (rb_col t) b"
    and ih: "invh (rb_col t) T" "invh (rb_col t) wl" "invh (rb_col t) a" "invh (rb_col t) b"
      "bh (rb_col t) wl = bh (rb_col t) T" "bh (rb_col t) a = bh (rb_col t) T" "bh (rb_col t) b = bh (rb_col t) T"
    and path: "hpath (rb_col t) gs (Suc (bh (rb_col t) T) + (if rb_col t p = RB_BLACK then 1 else 0))" "cpath (rb_col t) gs (rb_col t p = RB_RED)"
  defines "t' \<equiv> rb_right_rotate p (set_color v RB_BLACK (set_color p RB_BLACK (set_color w (rb_col t p) t)))"
  shows "settled (rb_nil t) (nodes (plug gs (Br (Br (Br b v a) w wl) p T))) (rb_root t', t')"
proof -
  have r: "pos t' gs w (Br (Br b v a) w (Br wl p T))" "rb_nil t' = rb_nil t" "rb_col t' = (rb_col t)(w := rb_col t p, p := RB_BLACK, v := RB_BLACK)"
    unfolding t'_def using pos_right_rotate [of "set_color v RB_BLACK (set_color p RB_BLACK (set_color w (rb_col t p) t))" gs p "Br b v a" w wl T] ps by simp_all
  let ?S = "set (nodes T) \<union> set (nodes wl) \<union> set (nodes a) \<union> set (nodes b) \<union> set (before gs) \<union> set (after gs) \<union> {rb_nil t}"
  have n: "w \<notin> ?S" "p \<notin> ?S" "v \<notin> ?S" "w \<noteq> p" "w \<noteq> v" "p \<noteq> v" using pos_distinct [OF ps] pos_nil [OF ps] by auto
  have "rb_col t' (rb_root t') = RB_BLACK"
  proof (cases "gs = []")
    case True
    then have "rb_root t' = w" "rb_root t = p" using r(1) ps by (auto simp: pos_def)
    then show ?thesis using c(4) n unfolding r(3) by simp
  next
    case False
    then show ?thesis using root_kept [OF ps r(1) False] c(4) n unfolding r(3) by auto
  qed
  then have "balanced t' (plug gs (Br (Br b v a) w (Br wl p T)))"
    by (intro balanced_plug [OF r(1)]; unfold r(2,3); use n c ic ih path in \<open>auto simp del: not_red\<close>)
  then show ?thesis using r(2) plug_Br [of gs "Br b v a" w "Br wl p T"]
    by (auto simp: settled_def nodes_plug intro!: exI [of _ "plug gs (Br (Br b v a) w (Br wl p T))"])
qed

lemma right_rest_ok:
  assumes d: "dfix t x (InR (Br wr w wl) p # gs) T" and nr: "\<not> red (rb_col t) T" and w: "rb_col t w = RB_BLACK"
  shows "(\<exists>t'. right_rest x w t = (p, t') \<and> dfix t' p gs (Br (Br wr w wl) p T) \<and> rb_col t' p = rb_col t p \<and> rb_nil t' = rb_nil t) \<or>
    settled (rb_nil t) (nodes (plug gs (Br (Br wr w wl) p T))) (right_rest x w t)"
proof -
  let ?c = "rb_col t"
  have p0: "pos t (InR (Br wr w wl) p # gs) x T" using d by (simp add: dfix_def)
  then have ps: "pos t gs p (Br (Br wr w wl) p T)" and x: "x = rb_right t p" unfolding pos_InR by auto
  then have pw: "pos t (InL p T # gs) w (Br wr w wl)" unfolding pos_InL using pos_links(2) [OF ps] by simp
  have f: "rb_parent t x = p" "?c (rb_nil t) = RB_BLACK" "?c (rb_root t) = RB_BLACK" "invc ?c T" "invh ?c T" "invc ?c wl" "invc ?c wr" "invh ?c wl" "invh ?c wr"
    "bh ?c wl = bh ?c T" "bh ?c wr = bh ?c T" "hpath ?c gs (Suc (bh ?c T) + (if ?c p = RB_BLACK then 1 else 0))" "cpath ?c gs (?c p = RB_RED)"
    using d nr w below_invc [of ?c T] by (auto simp: dfix_def)
  have wn: "w \<noteq> p" using pos_distinct [OF ps] by auto
  have l: "rb_right t w = top_node (rb_nil t) wl" "rb_left t w = top_node (rb_nil t) wr" using pos_links(3,2) [OF pw] .
  consider (push) "\<not> red ?c wl" "\<not> red ?c wr" | (far) "red ?c wr" | (near) "red ?c wl" "\<not> red ?c wr" by blast
  then show ?thesis
  proof cases
    case push
    have "right_rest x w t = (p, set_color w RB_RED t)"
      using push f(1) by (simp add: right_rest_def l col_top [OF f(2)])
    then show ?thesis using push_up [OF d nr ps _ w push(2,1)] wn by auto
  next
    case far
    obtain a v b where wr: "wr = Br b v a" "?c v = RB_RED" using far by (cases wr) auto
    have e: "right_rest x w t = (let t' = rb_right_rotate p (set_color v RB_BLACK (set_color p RB_BLACK (set_color w (?c p) t))) in (rb_root t', t'))"
      using wr f(1) by (simp add: right_rest_def l Let_def)
    show ?thesis unfolding e Let_def wr(1)
      by (rule disjI2, rule settle_del_R [OF ps [unfolded wr(1)] w wr(2) f(2,3,4,6)]) (use f wr in auto)
  next
    case near
    obtain a v b where wl: "wl = Br b v a" "?c v = RB_RED" using near by (cases wl) auto
    let ?t0 = "set_color w RB_RED (set_color v RB_BLACK t)" let ?t1 = "rb_left_rotate w ?t0"
    have r: "pos ?t1 (InL p T # gs) v (Br (Br wr w b) v a)" "rb_nil ?t1 = rb_nil t" "rb_col ?t1 = ?c(v := RB_BLACK, w := RB_RED)"
      using pos_left_rotate [of ?t0 "InL p T # gs" w wr b v a] pw wl by simp_all
    then have ps1: "pos ?t1 gs p (Br (Br (Br wr w b) v a) p T)" unfolding pos_InL by blast
    let ?S = "set (nodes T) \<union> set (nodes a) \<union> set (nodes b) \<union> set (nodes wr) \<union> set (before gs) \<union> set (after gs) \<union> {rb_nil t, p}"
    have n: "w \<notin> ?S" "v \<notin> ?S" "w \<noteq> v" using pos_distinct [OF ps] pos_nil [OF ps] wl by auto
    have "rb_parent ?t1 x = above (rb_nil ?t1) (InR (Br (Br wr w b) v a) p # gs)"
    proof (rule dfix_parent)
      show "pos ?t1 (InR (Br (Br wr w b) v a) p # gs) x T"
        unfolding pos_InR using ps1 pos_head [OF p0] pos_links(3) [OF ps1] r(2) by simp
      show "rb_parent ?t1 (rb_nil ?t1) = above (rb_nil ?t1) (InR (Br (Br wr w b) v a) p # gs)" if "T = Tip"
        using nil_parent_rotate(1) [of ?t0 "InL p T # gs" w wr b v a] pw wl(1) r(2) f(1) pos_head [OF p0] that by simp
    qed
    then have px: "rb_parent ?t1 x = p" by simp
    have rp: "rb_left ?t1 p = v" using pos_links(2) [OF ps1] by simp
    have rv: "rb_left ?t1 v = w" using pos_links(2) [OF r(1)] by simp
    have e: "right_rest x w t = (let t' = rb_right_rotate p (set_color w RB_BLACK (set_color p RB_BLACK (set_color v (rb_col ?t1 p) ?t1))) in (rb_root t', t'))"
      using near wl f(1,2) px rp rv by (simp add: right_rest_def l Let_def col_top [OF f(2)])
    have rt: "rb_col ?t1 (rb_root ?t1) = RB_BLACK"
    proof (cases "gs = []")
      case True
      then have "rb_root ?t1 = p" "rb_root t = p" using ps1 ps by (auto simp: pos_def)
      then show ?thesis using f(3) n unfolding r(3) by auto
    next
      case False
      then show ?thesis using root_kept [OF ps ps1 False] f(3) n unfolding r(3) by auto
    qed
    have "settled (rb_nil ?t1) (nodes (plug gs (Br (Br (Br wr w b) v a) p T))) (right_rest x w t)"
      unfolding e Let_def
      by (rule settle_del_R [OF ps1 _ _ _ rt]; unfold r(2,3); use f n wl near in \<open>auto simp del: not_red\<close>)
    then show ?thesis using r(2) by (auto simp: nodes_plug wl(1))
  qed
qed

lemma red_sibling_R:
  assumes d: "dfix t x (InR (Br wr w wl) p # gs) T" and w: "rb_col t w = RB_RED"
  defines "t1 \<equiv> rb_right_rotate p (set_color p RB_RED (set_color w RB_BLACK t))"
  shows "dfix t1 x (InR wl p # InR wr w # gs) T" and "rb_nil t1 = rb_nil t" and "rb_col t1 = (rb_col t)(w := RB_BLACK, p := RB_RED)"
    and "rb_left t1 p = top_node (rb_nil t) wl" and "\<not> red (rb_col t1) wl"
proof -
  let ?c = "rb_col t" let ?t0 = "set_color p RB_RED (set_color w RB_BLACK t)"
  have p0: "pos t (InR (Br wr w wl) p # gs) x T" using d by (simp add: dfix_def)
  then have ps: "pos t gs p (Br (Br wr w wl) p T)" unfolding pos_InR by auto
  let ?S = "set (nodes T) \<union> set (nodes wl) \<union> set (nodes wr) \<union> set (before gs) \<union> set (after gs) \<union> {rb_nil t}"
  have n: "w \<notin> ?S" "p \<notin> ?S" "w \<noteq> p" using pos_distinct [OF ps] pos_nil [OF ps] by auto
  have r: "pos t1 gs w (Br wr w (Br wl p T))" and nl: "rb_nil t1 = rb_nil t" and cl: "rb_col t1 = ?c(w := RB_BLACK, p := RB_RED)"
    unfolding t1_def using pos_right_rotate [of ?t0 gs p wr w wl T] ps by simp_all
  then have p2: "pos t1 (InR wr w # gs) p (Br wl p T)" unfolding pos_InR using pos_links(3) [OF r] by simp
  then have p1: "pos t1 (InR wl p # InR wr w # gs) x T" unfolding pos_InR using r pos_links(3) [OF r] pos_head [OF p0] pos_links(3) [OF p2] nl by auto
  show "rb_nil t1 = rb_nil t" "rb_col t1 = ?c(w := RB_BLACK, p := RB_RED)" using nl cl .
  show "rb_left t1 p = top_node (rb_nil t) wl" using pos_links(2) [OF p2] nl by simp
  show nw: "\<not> red (rb_col t1) wl" using d w n by (simp add: dfix_def cl)
  have px: "rb_parent t1 x = above (rb_nil t1) (InR wl p # InR wr w # gs)"
    by (rule dfix_parent [OF p1]) (use nil_parent_rotate(2) [of ?t0 gs p wr w wl T] ps nl d pos_head [OF p0] in \<open>auto simp: t1_def dfix_def\<close>)
  have rt: "rb_col t1 (rb_root t1) = RB_BLACK"
  proof (cases "gs = []")
    case True
    then have "rb_root t1 = w" using r by (auto simp: pos_def)
    then show ?thesis using n by (simp add: cl)
  next
    case False
    then show ?thesis using root_kept [OF ps r False] d n by (auto simp: cl dfix_def)
  qed
  have cp: "?c p = RB_BLACK" using d w by (auto simp: dfix_def)
  show "dfix t1 x (InR wl p # InR wr w # gs) T"
    unfolding dfix_def using p1 px rt d w n nw cp by (auto simp: dfix_def cl nl)
qed

lemma step_R:
  assumes d: "dfix t x (InR R p # gs) T" and nr: "\<not> red (rb_col t) T"
  shows "(\<exists>t'. delete_fixup_step x t = (p, t') \<and> dfix t' p gs (Br R p T) \<and> rb_nil t' = rb_nil t) \<or>
    ends (rb_nil t) (nodes (plug gs (Br R p T))) (delete_fixup_step x t)"
proof -
  obtain wl w wr where R: "R = Br wr w wl" using d by (cases R) (auto simp: dfix_def)
  have p0: "pos t (InR R p # gs) x T" and px: "rb_parent t x = p" using d by (auto simp: dfix_def)
  have ps: "pos t gs p (Br R p T)" and x: "x = rb_right t p" using p0 unfolding pos_InR by auto
  have w: "rb_left t p = w" using pos_links(2) [OF ps] R by simp
  have "w \<noteq> x" using pos_head [OF p0] pos_distinct [OF ps] pos_nil [OF ps] R by (cases T) auto
  then have s: "delete_fixup_step x t = delete_fixup_right x t" using px w by (simp add: delete_fixup_step_def)
  let ?t1 = "rb_right_rotate p (set_color p RB_RED (set_color w RB_BLACK t))"
  show ?thesis
  proof (cases "rb_col t w = RB_RED")
    case False
    then have "delete_fixup_right x t = right_rest x w t" using px w by (simp add: delete_fixup_right_eq)
    then show ?thesis using right_rest_ok [OF d [unfolded R] nr] False s R by (auto dest: settled_ends)
  next
    case True
    note r = red_sibling_R [OF d [unfolded R] True]
    obtain a v b where wl: "wl = Br b v a" using d R True by (cases wl) (auto simp: dfix_def)
    have q: "rb_parent ?t1 x = p" using r(1) by (simp add: dfix_def)
    have n: "w \<notin> set (nodes T)" "p \<notin> set (nodes T)" "w \<noteq> p" using pos_distinct [OF ps] R by auto
    have "delete_fixup_right x t = right_rest x v ?t1" using px w True q r(4) wl by (simp add: delete_fixup_right_eq)
    moreover have "\<not> red (rb_col ?t1) T" "rb_col ?t1 v = RB_BLACK" using nr n r(3,5) wl by auto
    moreover have "ends (rb_nil ?t1) (nodes (plug (InR wr w # gs) (Br (Br b v a) p T))) (p, t')"
      if "dfix t' p (InR wr w # gs) (Br (Br b v a) p T)" "rb_col t' p = rb_col ?t1 p" "rb_nil t' = rb_nil ?t1" for t'
      using stop_ends [OF that(1)] that(2,3) r(3) by simp
    ultimately have "ends (rb_nil ?t1) (nodes (plug (InR wr w # gs) (Br (Br b v a) p T))) (delete_fixup_right x t)"
      using right_rest_ok [OF r(1) [unfolded wl]] by (auto dest: settled_ends)
    then show ?thesis using s r(2) R wl by (simp add: nodes_plug)
  qed
qed

section \<open>The loop\<close>

lemma dfix_continue:
  assumes d: "dfix t x fs T" and "\<not> red (rb_col t) T" and ne: "fs \<noteq> []"
  shows "rb_delete_fixup x t = rb_delete_fixup (fst (delete_fixup_step x t)) (snd (delete_fixup_step x t))"
proof -
  have p: "pos t fs x T" and nl: "rb_col t (rb_nil t) = RB_BLACK" using d by (simp_all add: dfix_def)
  have "rb_col t x = RB_BLACK" using red_col [OF p nl] assms(2) by simp
  moreover have "x \<noteq> rb_root t"
    using root_kept(2) [OF p p ne] pos_distinct [OF p] pos_nil [OF p] pos_head [OF p] by (cases T) auto
  ultimately show ?thesis by (subst rb_delete_fixup.simps) simp
qed

lemma delete_fixup_ok: "dfix t x fs T \<Longrightarrow> ends (rb_nil t) (nodes (plug fs T)) (x, t)"
proof (induction "length fs" arbitrary: t x fs T rule: less_induct)
  case less
  show ?case
  proof (cases "red (rb_col t) T \<or> fs = []")
    case True
    then show ?thesis by (rule stop_ends [OF less.prems])
  next
    case False
    then have c: "ends (rb_nil t) N (delete_fixup_step x t) \<Longrightarrow> ends (rb_nil t) N (x, t)" for N
      unfolding ends_def using dfix_continue [OF less.prems] by auto
    have up: "ends (rb_nil t) (nodes (plug fs T)) (delete_fixup_step x t)"
      if "(\<exists>t'. delete_fixup_step x t = (p, t') \<and> dfix t' p gs S \<and> rb_nil t' = rb_nil t) \<or> ends (rb_nil t) (nodes (plug gs S)) (delete_fixup_step x t)"
        and "length gs < length fs" "plug fs T = plug gs S" for p gs S
      using that(1)
    proof
      assume "\<exists>t'. delete_fixup_step x t = (p, t') \<and> dfix t' p gs S \<and> rb_nil t' = rb_nil t"
      then obtain t' where t': "delete_fixup_step x t = (p, t')" "dfix t' p gs S" "rb_nil t' = rb_nil t" by blast
      then show ?thesis using less.hyps [OF that(2) t'(2)] unfolding that(3) by simp
    qed (simp only: that(3))
    show ?thesis
    proof (cases "(rb_nil t, fs)" rule: above.cases)
      case (2 nl p R gs)
      then have "(\<exists>t'. delete_fixup_step x t = (p, t') \<and> dfix t' p gs (Br T p R) \<and> rb_nil t' = rb_nil t) \<or>
        ends (rb_nil t) (nodes (plug gs (Br T p R))) (delete_fixup_step x t)" using step_L [of t x p R gs T] less.prems False by simp
      then show ?thesis using up [of p gs "Br T p R"] 2 by (intro c) simp
    next
      case (3 nl L p gs)
      then have "(\<exists>t'. delete_fixup_step x t = (p, t') \<and> dfix t' p gs (Br L p T) \<and> rb_nil t' = rb_nil t) \<or>
        ends (rb_nil t) (nodes (plug gs (Br L p T))) (delete_fixup_step x t)" using step_R [of t x L p gs T] less.prems False by simp
      then show ?thesis using up [of p gs "Br L p T"] 3 by (intro c) simp
    qed (use False in simp)
  qed
qed

section \<open>Unlinking\<close>

lemma transplant_form:
  assumes "rpath t fs u" and "u \<noteq> rb_nil t" and "u \<notin> set (before fs) \<union> set (after fs)" and "rb_parent t u = above (rb_nil t) fs"
    and "v \<noteq> u"
  shows "rb_transplant u v t = set_parent v (above (rb_nil t) fs) (set_child (rb_nil t) fs v t)"
  unfolding rb_transplant_def Let_def assms(4) child_choice [OF assms(1-3), of v t] by (simp add: assms(4))

text \<open>The tree \<open>V\<close> with the top \<open>v\<close> takes the position of \<open>u\<close>.\<close>

lemma transplant_ok:
  assumes rp: "rpath t fs u" and u: "u \<noteq> rb_nil t" "u \<notin> set (before fs) \<union> set (after fs)" "rb_parent t u = above (rb_nil t) fs"
    and V: "repr t q v V" "distinct (before fs @ nodes V @ after fs)" and vu: "v \<noteq> u"
  defines "t' \<equiv> rb_transplant u v t"
  shows "pos t' fs v V" and "rb_parent t' v = above (rb_nil t) fs" and "rb_nil t' = rb_nil t" and "rb_col t' = rb_col t"
    and "\<And>n. n \<noteq> v \<Longrightarrow> rb_parent t' n = rb_parent t n"
    and "\<And>n. n \<notin> set (before fs) \<union> set (after fs) \<Longrightarrow> rb_left t' n = rb_left t n \<and> rb_right t' n = rb_right t n"
proof -
  let ?P = "set (before fs) \<union> set (after fs)"
  have f: "t' = set_parent v (above (rb_nil t) fs) (set_child (rb_nil t) fs v t)"
    unfolding t'_def by (rule transplant_form [OF rp u vu])
  show pv: "rb_parent t' v = above (rb_nil t) fs" and nl: "rb_nil t' = rb_nil t" and "rb_col t' = rb_col t"
    and pn: "\<And>n. n \<noteq> v \<Longrightarrow> rb_parent t' n = rb_parent t n" unfolding f by (simp_all add: set_parent_def)
  have lr: "rb_left t' = rb_left (set_child (rb_nil t) fs v t)" "rb_right t' = rb_right (set_child (rb_nil t) fs v t)"
    "rb_root t' = rb_root (set_child (rb_nil t) fs v t)" unfolding f by (simp_all add: set_parent_def)
  show off: "\<And>n. n \<notin> ?P \<Longrightarrow> rb_left t' n = rb_left t n \<and> rb_right t' n = rb_right t n" unfolding lr by (rule set_child_other)
  have vP: "v \<notin> ?P" using V(2) repr_top [OF V(1)] rpath_nil [OF rp] by (cases V) auto
  have rp': "rpath t' fs v"
  proof (rule rpath_child [OF rp _ nl _ lr(3)])
    show "distinct (before fs @ after fs)" using V(2) by auto
    show "same_at (set_child (rb_nil t) fs v t) t' n" if "n \<in> ?P" for n
    proof -
      have "n \<noteq> v" using vP that by blast
      then show ?thesis using pn by (simp add: same_at_def lr)
    qed
  qed
  have "n \<notin> ?P" if "n \<in> set (nodes V)" for n using V(2) that by auto
  then have "repr t' (above (rb_nil t) fs) v V"
    by (intro repr_reparent [OF V(1) nl]) (use V(2) off off [OF vP] pv pn in \<open>auto simp: same_at_def\<close>)
  then show "pos t' fs v V" using rp' nl V(2) by (simp add: pos_def)
qed

lemma path_append:
  "before (ms @ fs) = before fs @ before ms" "after (ms @ fs) = after ms @ after fs" "plug (ms @ fs) T = plug fs (plug ms T)"
proof -
  show "before (ms @ fs) = before fs @ before ms" "after (ms @ fs) = after ms @ after fs" by (induction ms rule: before.induct) simp_all
  show "plug (ms @ fs) T = plug fs (plug ms T)" by (induction ms T rule: plug.induct) simp_all
qed

lemma pos_plug: "pos t fs h (plug ms T) \<Longrightarrow> pos t (ms @ fs) (top_node (rb_nil t) T) T"
proof (induction ms T rule: plug.induct)
  case (1 T)
  then show ?case using pos_head by fastforce
next
  case (2 x r ms T)
  then have p: "pos t (ms @ fs) x (Br T x r)" by simp
  then show ?case using pos_links(2) [OF p] by (simp add: pos_InL)
next
  case (3 l x ms T)
  then have p: "pos t (ms @ fs) x (Br l x T)" by simp
  then show ?case using pos_links(3) [OF p] by (simp add: pos_InR)
qed

lemma plug_pos: "pos t (ms @ fs) h T \<Longrightarrow> pos t fs (top_node (rb_nil t) (plug ms T)) (plug ms T)"
proof (induction ms T arbitrary: h rule: plug.induct)
  case (1 T)
  then show ?case using pos_head by fastforce
qed (auto simp: pos_InL pos_InR)

lemma find_pos: "z \<in> set (nodes T) \<Longrightarrow> \<exists>fs l r. T = plug fs (Br l z r)"
proof (induction T)
  case (Br a y b)
  consider "z = y" | fs l r where "a = plug fs (Br l z r)" | fs l r where "b = plug fs (Br l z r)" using Br by auto
  then show ?case
  proof cases
    case 1
    then have "Br a y b = plug [] (Br a z b)" by simp
    then show ?thesis by blast
  next
    case (2 fs l r)
    then have "Br a y b = plug (fs @ [InL y b]) (Br l z r)" by (simp add: path_append)
    then show ?thesis by blast
  next
    case (3 fs l r)
    then have "Br a y b = plug (fs @ [InR a y]) (Br l z r)" by (simp add: path_append)
    then show ?thesis by blast
  qed
qed simp

lemma min_ok: "repr t p n r \<Longrightarrow> r \<noteq> Tip \<Longrightarrow> \<exists>ms y yr. rb_tree_min t n = Some y \<and> r = plug ms (Br Tip y yr) \<and> before ms = []"
proof (induction r arbitrary: p n)
  case (Br l x r)
  show ?case
  proof (cases l)
    case Tip
    then have "rb_tree_min t n = Some x" using Br.prems by (subst rb_tree_min.simps) simp
    moreover have "Br l x r = plug [] (Br Tip x r)" using Tip by simp
    ultimately show ?thesis using before.simps(1) by blast
  next
    case (Br a u b)
    then obtain ms y yr where m: "rb_tree_min t (rb_left t x) = Some y" "l = plug ms (Br Tip y yr)" "before ms = []"
      using Br.IH(1) [of x "rb_left t x"] Br.prems by auto
    have "rb_tree_min t n = Some y" using Br.prems m(1) Br by (subst rb_tree_min.simps) auto
    moreover have "Br l x r = plug (ms @ [InL x r]) (Br Tip y yr)" "before (ms @ [InL x r]) = []" using m by (simp_all add: path_append)
    ultimately show ?thesis by blast
  qed
qed simp

text \<open>A node with the colour \<open>k\<close> was taken out above the position.\<close>

lemma finish:
  assumes p: "pos t fs v V" "rb_parent t v = above (rb_nil t) fs"
    and i: "invc (rb_col t) V" "invh (rb_col t) V" "hpath (rb_col t) fs (bh (rb_col t) V + (if k = RB_BLACK then 1 else 0))"
      "cpath (rb_col t) fs (k = RB_RED)" "k = RB_RED \<Longrightarrow> \<not> red (rb_col t) V" and nl: "rb_col t (rb_nil t) = RB_BLACK"
    and rt: "fs \<noteq> [] \<Longrightarrow> rb_col t (rb_root t) = RB_BLACK"
  shows "\<exists>t' T'. (if k = RB_BLACK then rb_delete_fixup v t else Some t) = Some t' \<and> balanced t' T' \<and> rb_nil t' = rb_nil t \<and> nodes T' = nodes (plug fs V)"
proof (cases "k = RB_BLACK")
  case True
  then have "dfix t v fs V" using assms by (auto simp: dfix_def invc_below intro: cpath_False)
  then show ?thesis using delete_fixup_ok [of t v fs V] True by (simp add: ends_def)
next
  case False
  have r: "rtree t (plug fs V)" using p(1) rtree_pos by blast
  have "\<not> red (rb_col t) (plug fs V)"
  proof (cases "fs = []")
    case True
    then show ?thesis using i(5) False by simp
  next
    case ne: False
    have "repr t (rb_nil t) (rb_root t) (plug fs V)" using r by (simp add: rtree_def)
    then show ?thesis using red_top rt [OF ne] by fastforce
  qed
  then have "balanced t (plug fs V)" using r i nl False cpath_False [of "rb_col t" fs] by (simp add: balanced_def invc_plug invh_plug)
  then show ?thesis using False by auto
qed

lemma balanced_root:
  assumes "balanced t (plug fs (Br l z r))"
  shows "rb_col t (rb_root t) = RB_BLACK"
  using assms plug_Br [of fs l z r] by (cases "plug fs (Br l z r)") (auto simp: balanced_def rtree_def)

text \<open>A node with at most one child.\<close>

lemma delete_one_child:
  assumes b: "balanced t (plug fs Z)" and p: "pos t fs z Z" and Z: "Z = Br Tip z V \<or> Z = Br V z Tip"
  defines "v \<equiv> top_node (rb_nil t) V" and "t1 \<equiv> rb_transplant z (top_node (rb_nil t) V) t"
  shows "\<exists>t' T'. (if rb_col t z = RB_BLACK then rb_delete_fixup v t1 else Some t1) = Some t' \<and> balanced t' T' \<and> rb_nil t' = rb_nil t \<and> nodes T' = nodes (plug fs V)"
proof -
  have d: "distinct (before fs @ nodes V @ after fs)" "z \<notin> set (nodes V)" "z \<notin> set (before fs) \<union> set (after fs)" "z \<noteq> rb_nil t"
    using pos_distinct [OF p] pos_nil [OF p] Z by auto
  have r: "rpath t fs z" "rb_parent t z = above (rb_nil t) fs" "repr t z v V" using p Z repr_top [of t z _ V] by (auto simp: pos_def v_def)
  have vz: "v \<noteq> z" using d repr_top [OF r(3)] by (cases V) auto
  note tr = transplant_ok [OF r(1) d(4,3) r(2,3) d(1) vz, folded t1_def [folded v_def]]
  have rt: "rb_col t (rb_root t) = RB_BLACK" using b Z balanced_root [of t fs Tip z V] balanced_root [of t fs V z Tip] by auto
  have "\<exists>t' T'. (if rb_col t z = RB_BLACK then rb_delete_fixup v t1 else Some t1) = Some t' \<and> balanced t' T' \<and> rb_nil t' = rb_nil t1 \<and> nodes T' = nodes (plug fs V)"
  proof (rule finish [OF tr(1)]; (unfold tr(3,4))?)
    show "rb_col t (rb_root t1) = RB_BLACK" if "fs \<noteq> []" using root_kept(1) [OF p tr(1) that] rt by simp
  qed (use b Z tr(2) in \<open>auto simp: balanced_def invc_plug invh_plug\<close>)
  then show ?thesis using tr(3) by simp
qed

section \<open>A node with two children\<close>

lemma hang_left:
  assumes p: "pos t fs y (Br Tip y r)" and l: "repr t q a l" "l \<noteq> Tip" and d: "distinct (before fs @ nodes l @ y # nodes r @ after fs)"
  defines "t' \<equiv> set_parent a y (set_left y a t)"
  shows "pos t' fs y (Br l y r)" and "rb_nil t' = rb_nil t" and "rb_col t' = rb_col t" and "rb_parent t' (rb_nil t) = rb_parent t (rb_nil t)"
proof -
  have a: "a \<in> set (nodes l)" "a \<noteq> rb_nil t" using repr_top [OF l(1)] repr_nil [OF l(1)] l(2) by (cases l; auto)+
  show nl: "rb_nil t' = rb_nil t" and "rb_col t' = rb_col t" and "rb_parent t' (rb_nil t) = rb_parent t (rb_nil t)"
    using a by (simp_all add: t'_def set_defs)
  have s: "same_at t t' n" if "n \<noteq> a" "n \<noteq> y" for n using that by (simp add: t'_def same_at_def set_defs)
  have ay: "a \<noteq> y" using a d by auto
  have P: "rpath t fs y" "repr t y (rb_right t y) r" "rb_parent t y = above (rb_nil t) fs" "y \<noteq> rb_nil t" using p by (auto simp: pos_def)
  have rt: "rb_root t' = rb_root t" by (simp add: t'_def set_defs)
  have "rpath t' fs y" by (rule rpath_cong [OF nl rt _ P(1)]) (rule s; use d a in auto)
  moreover have "repr t' y (rb_right t y) r" by (rule repr_cong [OF nl _ P(2)]) (rule s; use d a in auto)
  moreover have "repr t' y a l"
    by (rule repr_reparent [OF l(1) nl]) (use d ay s in \<open>auto simp: t'_def set_defs\<close>)
  ultimately show "pos t' fs y (Br l y r)" using nl P ay d by (simp add: pos_def t'_def set_defs)
qed

text \<open>\<open>y\<close>, below which \<open>r\<close> hangs already, takes the place of \<open>z\<close> and its left subtree.\<close>

lemma adopt:
  assumes rp: "rpath t fs z" and z: "z \<noteq> rb_nil t" "z \<notin> set (before fs) \<union> set (after fs)" "rb_parent t z = above (rb_nil t) fs"
    and l: "repr t z (rb_left t z) l" "l \<noteq> Tip" and r: "repr t q y (Br Tip y r)" and d: "distinct (before fs @ nodes l @ y # nodes r @ after fs)" "y \<noteq> z"
  defines "t2 \<equiv> rb_transplant z y t"
  defines "t3 \<equiv> set_left y (rb_left t2 z) t2"
  defines "t4 \<equiv> set_parent (rb_left t3 y) y t3"
  shows "pos t4 fs y (Br l y r)" and "rb_nil t4 = rb_nil t" and "rb_col t4 = rb_col t" and "rb_parent t4 (rb_nil t) = rb_parent t (rb_nil t)"
proof -
  have "distinct (before fs @ nodes (Br Tip y r) @ after fs)" using d by auto
  note tr = transplant_ok [OF rp z r this d(2), folded t2_def]
  have lz: "rb_left t2 z = rb_left t z" using tr(6) z(2) by blast
  have e: "t4 = set_parent (rb_left t z) y (set_left y (rb_left t z) t2)" unfolding t4_def t3_def lz by (simp add: set_left_def)
  have "repr t2 z (rb_left t z) l"
  proof (rule repr_cong [OF tr(3) _ l(1)])
    show "same_at t t2 n" if "n \<in> set (nodes l)" for n
    proof -
      have "n \<noteq> y" "n \<notin> set (before fs) \<union> set (after fs)" using d(1) that by auto
      then show ?thesis using tr(5,6) by (simp add: same_at_def)
    qed
  qed
  note h = hang_left [OF tr(1) this l(2) d(1), folded e]
  show "pos t4 fs y (Br l y r)" "rb_nil t4 = rb_nil t" "rb_col t4 = rb_col t" using h(1-3) tr(3,4) by simp_all
  have "y \<noteq> rb_nil t" using r by simp
  then show "rb_parent t4 (rb_nil t) = rb_parent t (rb_nil t)" using h(4) tr(3,5) by simp
qed

lemma above_append: "ms \<noteq> [] \<Longrightarrow> above nl (ms @ fs) = above nl (ms @ gs)"
  by (cases "(nl, ms)" rule: above.cases) simp_all

lemma plug_not_Tip: "ms \<noteq> [] \<Longrightarrow> plug ms T \<noteq> Tip"
  by (metis plug_Br frame.exhaust neq_Nil_conv plug.simps(2,3))

text \<open>The first half of the splice: \<open>y\<close> leaves its place and takes the right subtree of \<open>z\<close>.\<close>

lemma detach_min:
  assumes p: "pos t fs z (Br l z (plug ms (Br Tip y yr)))" and ms: "ms \<noteq> []"
  defines "t1 \<equiv> rb_transplant y (rb_right t y) t"
  defines "t3 \<equiv> set_parent (rb_right t1 z) y (set_right y (rb_right t1 z) t1)"
  shows "rpath t3 fs z" and "repr t3 z (rb_left t3 z) l" and "repr t3 (rb_parent t3 y) y (Br Tip y (plug ms yr))"
    and "rb_parent t3 z = above (rb_nil t) fs" and "rb_nil t3 = rb_nil t" and "rb_col t3 = rb_col t"
    and "yr = Tip \<Longrightarrow> rb_parent t3 (rb_nil t) = above (rb_nil t) (ms @ InR l z # fs)"
proof -
  let ?fs = "ms @ InR l z # fs"
  have "pos t (InR l z # fs) (rb_right t z) (plug ms (Br Tip y yr))" using p by (simp add: pos_InR)
  then have py: "pos t ?fs y (Br Tip y yr)" using pos_plug by fastforce
  have d: "distinct (before ?fs @ y # nodes yr @ after ?fs)" using pos_distinct [OF py] by simp
  have r: "rpath t ?fs y" "y \<noteq> rb_nil t" "y \<notin> set (before ?fs) \<union> set (after ?fs)" "rb_parent t y = above (rb_nil t) ?fs"
    "repr t y (rb_right t y) yr" "distinct (before ?fs @ nodes yr @ after ?fs)" using py d by (auto simp: pos_def)
  have "rb_right t y \<noteq> y" using d repr_top [OF r(5)] r(2) by (cases yr) auto
  note tr = transplant_ok [OF r this, folded t1_def]
  have "pos t1 (InR l z # fs) (top_node (rb_nil t1) (plug ms yr)) (plug ms yr)" using plug_pos [OF tr(1)] .
  then have pz: "pos t1 fs z (Br l z (plug ms yr))" by (simp add: pos_InR)
  let ?m = "rb_right t1 z"
  have m: "repr t1 z ?m (plug ms yr)" "repr t1 z (rb_left t1 z) l" "rpath t1 fs z" "z \<noteq> rb_nil t" "rb_parent t1 z = above (rb_nil t) fs"
    using pz tr(3) by (auto simp: pos_def)
  have mn: "?m \<in> set (nodes (plug ms yr))" using repr_top [OF m(1)] plug_not_Tip [OF ms, of yr] by (cases "plug ms yr") auto
  have D: "distinct (before fs @ nodes l @ z # nodes (plug ms yr) @ after fs)" using pos_distinct [OF pz] by simp
  have yn: "y \<notin> set (before fs) \<union> set (after fs) \<union> set (nodes l) \<union> set (nodes (plug ms yr))" "y \<noteq> z"
    using d by (auto simp: path_append nodes_plug)
  have mo: "?m \<notin> set (before fs) \<union> set (after fs) \<union> set (nodes l)" "?m \<noteq> z" "?m \<noteq> y" "?m \<noteq> rb_nil t"
    using mn D yn repr_nil [OF m(1)] tr(3) by auto
  have s: "same_at t1 t3 n" if "n \<noteq> ?m" "n \<noteq> y" for n using that by (simp add: t3_def same_at_def set_defs)
  show nl: "rb_nil t3 = rb_nil t" and "rb_col t3 = rb_col t" using tr(3,4) by (simp_all add: t3_def set_defs)
  have nl1: "rb_nil t3 = rb_nil t1" by (simp add: t3_def set_defs)
  have rt: "rb_root t3 = rb_root t1" by (simp add: t3_def set_defs)
  show "rpath t3 fs z" by (rule rpath_cong [OF nl1 rt _ m(3)]) (rule s; use mo yn in auto)
  have lz: "rb_left t3 z = rb_left t1 z" "rb_parent t3 z = rb_parent t1 z" using s [of z] mo yn by (simp_all add: same_at_def)
  show "repr t3 z (rb_left t3 z) l" unfolding lz by (rule repr_cong [OF nl1 _ m(2)]) (rule s; use mo yn in auto)
  show "rb_parent t3 z = above (rb_nil t) fs" using lz m(5) by simp
  have "repr t3 y ?m (plug ms yr)" by (rule repr_reparent [OF m(1) nl1]) (use D s yn mo in \<open>auto simp: t3_def set_defs\<close>)
  moreover have "rb_left t3 y = rb_nil t" using tr(6) [OF r(3)] pos_links(2) [OF py] by (simp add: t3_def set_defs)
  ultimately show "repr t3 (rb_parent t3 y) y (Br Tip y (plug ms yr))" using r(2) nl by (simp add: t3_def set_defs)
  show "rb_parent t3 (rb_nil t) = above (rb_nil t) ?fs" if "yr = Tip"
    using tr(2) that pos_links(3) [OF py] mo by (simp add: t3_def set_defs)
qed

lemma splice_ok:
  assumes p: "pos t fs z (Br l z (plug ms (Br Tip y yr)))" and l: "l \<noteq> Tip"
  defines "t' \<equiv> delete_splice z y t" and "gs \<equiv> ms @ InR l y # fs"
  shows "pos t' gs (rb_right t y) yr" and "rb_parent t' (rb_right t y) = above (rb_nil t) gs" and "rb_nil t' = rb_nil t"
    and "rb_col t' = (rb_col t)(y := rb_col t z)"
proof -
  let ?fs = "ms @ InR l z # fs"
  have "pos t (InR l z # fs) (rb_right t z) (plug ms (Br Tip y yr))" using p by (simp add: pos_InR)
  then have py: "pos t ?fs y (Br Tip y yr)" using pos_plug by fastforce
  have x: "rb_right t y = top_node (rb_nil t) yr" using pos_links(3) [OF py] .
  have d: "distinct (before fs @ nodes l @ y # nodes (plug ms yr) @ after fs)" "y \<noteq> z" "z \<notin> set (before fs) \<union> set (after fs)"
    "z \<notin> set (before ms) \<union> set (after ms)" "z \<noteq> rb_nil t" "y \<noteq> rb_nil t"
    using pos_distinct [OF p] pos_nil [OF p] by (auto simp: nodes_plug)
  define u where "u = (if rb_parent t y = z then set_parent (rb_right t y) y t
      else set_parent (rb_right (rb_transplant y (rb_right t y) t) z) y
        (set_right y (rb_right (rb_transplant y (rb_right t y) t) z) (rb_transplant y (rb_right t y) t)))"
  have e: "t' = (let t2 = rb_transplant z y u; t3 = set_left y (rb_left t2 z) t2; t4 = set_parent (rb_left t3 y) y t3 in set_color y (rb_col t4 z) t4)"
    unfolding t'_def delete_splice_def u_def Let_def by (auto simp: set_right_def)
  have u: "rpath u fs z" "repr u z (rb_left u z) l" "repr u (rb_parent u y) y (Br Tip y (plug ms yr))" "rb_parent u z = above (rb_nil t) fs"
    "rb_nil u = rb_nil t" "rb_col u = rb_col t" "yr = Tip \<Longrightarrow> rb_parent u (rb_nil t) = above (rb_nil t) gs"
  proof -
    have "rpath u fs z \<and> repr u z (rb_left u z) l \<and> repr u (rb_parent u y) y (Br Tip y (plug ms yr)) \<and> rb_parent u z = above (rb_nil t) fs \<and>
      rb_nil u = rb_nil t \<and> rb_col u = rb_col t \<and> (yr = Tip \<longrightarrow> rb_parent u (rb_nil t) = above (rb_nil t) gs)"
    proof (cases "ms = []")
      case True
      have r: "rpath t fs z" "repr t z (rb_left t z) l" "repr t z y (Br Tip y yr)" "rb_parent t z = above (rb_nil t) fs"
        "rb_parent t y = z" using p True by (auto simp: pos_def)
      have ue: "u = set_parent (rb_right t y) y t" using r(5) by (simp add: u_def)
      have s: "same_at t u n" if "n \<noteq> rb_nil t" for n
        using that r(3) x by (cases yr) (auto simp: ue same_at_def set_defs)
      have nl: "rb_nil u = rb_nil t" "rb_root u = rb_root t" "rb_col u = rb_col t" by (simp_all add: ue set_defs)
      have "rpath u fs z" by (rule rpath_cong [OF nl(1,2) _ r(1)]) (rule s; use rpath_nil [OF r(1)] in auto)
      moreover have "repr u z (rb_left t z) l" by (rule repr_cong [OF nl(1) _ r(2)]) (rule s; use repr_nil [OF r(2)] in auto)
      moreover have "repr u z y (Br Tip y yr)" by (rule repr_cong [OF nl(1) _ r(3)]) (rule s; use repr_nil [OF r(3)] in auto)
      moreover have "rb_left u = rb_left t" by (simp add: ue set_defs)
      ultimately show ?thesis using nl s [of z] s [of y] d r(4,5) True x by (auto simp: same_at_def gs_def ue set_parent_def)
    next
      case False
      have "rb_parent t y = above (rb_nil t) (ms @ [])" using pos_links(4) [OF py] above_append [OF False] by metis
      then have "rb_parent t y \<noteq> z" using above_in [OF False, of "rb_nil t"] d(4) by auto
      then have ue: "u = set_parent (rb_right (rb_transplant y (rb_right t y) t) z) y
        (set_right y (rb_right (rb_transplant y (rb_right t y) t) z) (rb_transplant y (rb_right t y) t))" by (simp add: u_def)
      show ?thesis using detach_min [OF p False, folded ue] above_append [OF False, of "rb_nil t"] unfolding gs_def by metis
    qed
    then show "rpath u fs z" "repr u z (rb_left u z) l" "repr u (rb_parent u y) y (Br Tip y (plug ms yr))" "rb_parent u z = above (rb_nil t) fs"
      "rb_nil u = rb_nil t" "rb_col u = rb_col t" "yr = Tip \<Longrightarrow> rb_parent u (rb_nil t) = above (rb_nil t) gs" by blast+
  qed
  note a = adopt [OF u(1) d(5) [folded u(5)] d(3) u(4) [folded u(5)] u(2) l u(3) d(1,2)]
  show nl: "rb_nil t' = rb_nil t" and "rb_col t' = (rb_col t)(y := rb_col t z)" using a(2,3) u(5,6) unfolding e Let_def by simp_all
  have py': "pos t' fs y (Br l y (plug ms yr))" using a(1) unfolding e Let_def by simp
  then have "pos t' (InR l y # fs) (rb_right t' y) (plug ms yr)" by (simp add: pos_InR)
  then show px: "pos t' gs (rb_right t y) yr" unfolding gs_def x using pos_plug nl by fastforce
  show "rb_parent t' (rb_right t y) = above (rb_nil t) gs"
    using dfix_parent [OF px] nl a(4) u(5,7) unfolding e Let_def by simp
qed

lemma path_recolour:
  assumes "y \<notin> set (before ms) \<union> set (after ms) \<union> set (nodes l) \<union> set (before fs) \<union> set (after fs)"
  shows "hpath (c(y := c z)) (ms @ InR l y # fs) k = hpath c (ms @ InR l z # fs) k"
    and "cpath (c(y := c z)) (ms @ InR l y # fs) rd = cpath c (ms @ InR l z # fs) rd"
  using assms by (induction ms arbitrary: k rd rule: before.induct) auto

lemma delete_two_children:
  assumes b: "balanced t (plug fs (Br l z (plug ms (Br Tip y yr))))" and p: "pos t fs z (Br l z (plug ms (Br Tip y yr)))" and l: "l \<noteq> Tip"
  defines "t1 \<equiv> delete_splice z y t"
  shows "\<exists>t' T'. (if rb_col t y = RB_BLACK then rb_delete_fixup (rb_right t y) t1 else Some t1) = Some t' \<and> balanced t' T' \<and> rb_nil t' = rb_nil t \<and>
    nodes T' = nodes (plug (ms @ InR l y # fs) yr)"
proof -
  let ?gs = "ms @ InR l y # fs" and ?fs = "ms @ InR l z # fs" and ?c = "rb_col t"
  note s = splice_ok [OF p l, folded t1_def]
  have n: "y \<notin> set (before ms) \<union> set (after ms) \<union> set (nodes l) \<union> set (before fs) \<union> set (after fs)" "y \<notin> set (nodes yr)" "y \<noteq> rb_nil t" "y \<noteq> z"
    using pos_distinct [OF p] pos_nil [OF p] by (auto simp: nodes_plug)
  have "plug fs (Br l z (plug ms (Br Tip y yr))) = plug ?fs (Br Tip y yr)" by (simp add: path_append)
  then have i: "invc ?c (Br Tip y yr)" "cpath ?c ?fs (?c y = RB_RED)" "invh ?c (Br Tip y yr)" "hpath ?c ?fs (bh ?c (Br Tip y yr))" "?c (rb_nil t) = RB_BLACK"
    using b by (simp_all add: balanced_def invc_plug invh_plug)
  have rt: "?c (rb_root t) = RB_BLACK" by (rule balanced_root [OF b])
  have ps: "pos t1 fs y (Br l y (plug ms yr))" using plug_pos [OF s(1)] by (simp add: pos_InR)
  have "rb_col t1 (rb_root t1) = RB_BLACK"
  proof (cases "fs = []")
    case True
    then have "rb_root t1 = y" "rb_root t = z" using ps p by (auto simp: pos_def)
    then show ?thesis using rt by (simp add: s(4))
  next
    case False
    then show ?thesis using root_kept [OF p ps False] rt n(1) by (auto simp: s(4))
  qed
  then have "\<exists>t' T'. (if rb_col t y = RB_BLACK then rb_delete_fixup (rb_right t y) t1 else Some t1) = Some t' \<and> balanced t' T' \<and> rb_nil t' = rb_nil t1 \<and>
    nodes T' = nodes (plug ?gs yr)"
    by (intro finish [OF s(1)]; (unfold s(3,4) path_recolour [OF n(1)])?) (use i n s(2) in auto)
  then show ?thesis using s(3) by simp
qed

section \<open>Deletion\<close>

lemma rb_tree_delete_ok:
  assumes b: "balanced t T" and z: "z \<in> set (nodes T)"
  shows "\<exists>t' T'. rb_tree_delete z t = Some t' \<and> balanced t' T' \<and> rb_nil t' = rb_nil t \<and> nodes T' = remove1 z (nodes T)"
proof -
  obtain fs l r where T: "T = plug fs (Br l z r)" using find_pos [OF z] by blast
  obtain h where "pos t fs h (Br l z r)" using b T rtree_pos [of t fs "Br l z r"] by (auto simp: balanced_def)
  then have p: "pos t fs z (Br l z r)" using pos_links(1) by metis
  have rm: "remove1 z (nodes T) = before fs @ nodes l @ nodes r @ after fs" using pos_distinct [OF p] by (auto simp: T nodes_plug remove1_append)
  have lr: "rb_left t z = top_node (rb_nil t) l" "rb_right t z = top_node (rb_nil t) r" using pos_links(2,3) [OF p] .
  have nt: "top_node (rb_nil t) S = rb_nil t \<longleftrightarrow> S = Tip" if "S = l \<or> S = r" for S using that pos_nil [OF p] by (cases S) auto
  consider (L) "l = Tip" | (R) "l \<noteq> Tip" "r = Tip" | (two) "l \<noteq> Tip" "r \<noteq> Tip" by blast
  then show ?thesis
  proof cases
    case L
    then show ?thesis using delete_one_child [OF b [unfolded T] p, of r] by (simp add: rb_tree_delete_def Let_def lr rm nodes_plug)
  next
    case R
    then show ?thesis using delete_one_child [OF b [unfolded T] p, of l] nt [of l] by (simp add: rb_tree_delete_def Let_def lr rm nodes_plug)
  next
    case two
    have "repr t z (rb_right t z) r" using p by (simp add: pos_def)
    then obtain ms y yr where m: "rb_tree_min t (rb_right t z) = Some y" "r = plug ms (Br Tip y yr)" "before ms = []" using min_ok [OF _ two(2), of t z "rb_right t z"] by blast
    have "nodes (plug (ms @ InR l y # fs) yr) = before fs @ nodes l @ nodes r @ after fs" by (simp add: m(2,3) nodes_plug path_append)
    then show ?thesis using delete_two_children [OF b [unfolded T m(2)] p [unfolded m(2)] two(1)] nt [of l] nt [of r] two lr m(1)
      by (simp add: rb_tree_delete_def Let_def rm)
  qed
qed

section \<open>Properties\<close>

text \<open>C33: Deletion of a node of a red-black tree returns: the result is again a red-black tree, with consistent
  links, no red node below a red node and the same number of black nodes on every path, and its nodes
  in order are the old ones without the deleted one.\<close>

theorem rb_tree_delete_correct:
  assumes "balanced t T" and "z \<in> set (nodes T)"
  shows "\<exists>t' T'. rb_tree_delete z t = Some t' \<and> balanced t' T' \<and> rb_nil t' = rb_nil t \<and> nodes T' = remove1 z (nodes T)"
  using assms by (rule rb_tree_delete_ok)

theorem rb_tree_delete_correct_witness:
  "\<exists>t u v T. rb_tree_insert demo_compare 5 demo_rb = Some t \<and> rb_tree_insert demo_compare 3 t = Some u \<and> rb_tree_delete 5 u = Some v \<and> balanced v T \<and> nodes T = [3]"
proof -
  obtain t T where t: "rb_tree_insert demo_compare 5 demo_rb = Some t" "balanced t T" "nodes T = [5]" "rb_nil t = 0" using demo_rb_one by blast
  obtain u U where u: "rb_tree_insert demo_compare 3 t = Some u" "balanced u U" "nodes U = [3, 5]"
    using rb_tree_insert_ok [OF t(2), of id 3 demo_compare] t(3,4) by (auto simp: demo_compare_def)
  show ?thesis using rb_tree_delete_correct [OF u(2), of 5] t(1) u by auto
qed

end
