(* ===== verification/Vmap_Correct.thy ===== *)
theory Vmap_Correct
  imports Vmap Slab_Client RBtree_Delete
begin

text \<open>
  Correctness of the kernel virtual address allocator of \<^verbatim>\<open>kernel/vmap.c\<close>, on top of the contracts of
  the list, the red-black tree and the slab allocator. The invariant ties the free list, the free
  tree and the busy list to areas that are live slab blocks and pairwise disjoint intervals of the
  vmalloc region.
\<close>

section \<open>Inserting in front of a list node\<close>

lemma dlist_rotate: "dlist h lh (xs @ y # ys) \<longleftrightarrow> dlist h y (ys @ lh # xs)"
  by (auto simp: dlist_def)

lemma dlist_insert_before:
  assumes "dlist h lh (xs @ ys)" and "n \<notin> set (lh # xs @ ys)"
  shows "dlist (list_add_tail n (hd (ys @ [lh])) h) lh (xs @ n # ys)"
proof (cases ys)
  case Nil
  then show ?thesis using dlist_add_tail [of h lh xs n] assms by simp
next
  case (Cons y zs)
  then have "dlist h y (zs @ lh # xs)" using assms(1) dlist_rotate [of h lh xs y zs] by simp
  then have "dlist (list_add_tail n y h) y ((zs @ lh # xs) @ [n])" by (rule dlist_add_tail) (use assms(2) Cons in auto)
  then have "dlist (list_add_tail n y h) y (zs @ lh # xs @ [n])" by simp
  then have "dlist (list_add_tail n y h) lh ((xs @ [n]) @ y # zs)" unfolding dlist_rotate .
  then show ?thesis using Cons by simp
qed

lemma dlist_insert_before_frame:
  assumes "dlist h lh (xs @ ys)" and "dlist h l zs" and "n \<notin> set (l # zs)" and "set (lh # xs @ ys) \<inter> set (l # zs) = {}"
  shows "dlist (list_add_tail n (hd (ys @ [lh])) h) l zs"
proof (cases ys)
  case Nil
  then show ?thesis using dlist_add_tail_frame [of h lh xs l zs n] assms by simp
next
  case (Cons y us)
  then have "dlist h y (us @ lh # xs)" using assms(1) dlist_rotate [of h lh xs y us] by simp
  then have "dlist (list_add_tail n y h) l zs" by (rule dlist_add_tail_frame) (use assms Cons in auto)
  then show ?thesis using Cons by simp
qed

lemma loop_spec_break: "loop_spec lh (\<lambda>n (_ :: unit). ((), P n)) xs () = (hd (dropWhile (\<lambda>n. \<not> P n) xs @ [lh]), ())"
  by (induction xs) auto

section \<open>The order of the free tree\<close>

definition akey :: "'a kmem_scheme \<Rightarrow> u64 \<Rightarrow> nat" where
  "akey s a = unat (va_size s a) * 2 ^ 64 + unat (va_start s a)"

lemma lex_less: "y < 2 ^ 64 \<Longrightarrow> y' < 2 ^ 64 \<Longrightarrow> (x * 2 ^ 64 + y < x' * 2 ^ 64 + y') \<longleftrightarrow> x < x' \<or> x = x' \<and> y < (y' :: nat)"
  by (cases x x' rule: linorder_cases) auto

lemma compare_bounds_less:
  "compare_bounds (a, b) (c, d) < 0 \<longleftrightarrow> unat (b - a) * 2 ^ 64 + unat a < unat (d - c) * 2 ^ 64 + unat c"
  "compare_bounds (a, b) (c, d) = 0 \<longleftrightarrow> b - a = d - c \<and> a = c"
proof -
  have "unat w < 2 ^ 64" for w :: u64 using unsigned_less [of w] by simp
  then show "compare_bounds (a, b) (c, d) < 0 \<longleftrightarrow> unat (b - a) * 2 ^ 64 + unat a < unat (d - c) * 2 ^ 64 + unat c"
    unfolding lex_less [OF \<open>\<And>w. unat w < 2 ^ 64\<close> \<open>\<And>w. unat w < 2 ^ 64\<close>]
    by (auto simp: compare_bounds_def Let_def word_less_nat_alt)
  show "compare_bounds (a, b) (c, d) = 0 \<longleftrightarrow> b - a = d - c \<and> a = c"
    by (auto simp: compare_bounds_def Let_def)
qed

lemma va_compare_less: "va_compare_size s a b < 0 \<longleftrightarrow> akey s a < akey s b"
  by (simp add: va_compare_size_def compare_bounds_less akey_def va_size_def)

section \<open>The invariant\<close>

definition area_ok :: "'a kslab_scheme \<Rightarrow> u64 \<Rightarrow> bool" where
  "area_ok s a \<longleftrightarrow> is_obj s a \<and> va_start s a < va_end s a \<and> VMALLOC_START \<le> va_start s a \<and> va_end s a \<le> VMALLOC_END \<and>
     4096 dvd unat (va_start s a) \<and> 4096 dvd unat (va_end s a)"

definition apart :: "'a kmem_scheme \<Rightarrow> u64 \<Rightarrow> u64 \<Rightarrow> bool" where
  "apart s a b \<longleftrightarrow> va_end s a \<le> va_start s b \<or> va_end s b \<le> va_start s a"

text \<open>The areas \<open>X\<close> are in neither list: they are on their way from one to the other.\<close>

definition areas_ok :: "'a kslab_scheme \<Rightarrow> u64 \<Rightarrow> u64 list \<Rightarrow> bool" where
  "areas_ok s nl A \<longleftrightarrow> slab_inv s \<and> is_obj s nl \<and> nl \<notin> set A \<and> distinct A \<and> (\<forall>a \<in> set A. area_ok s a) \<and>
     (\<forall>a \<in> set A. \<forall>b \<in> set A. a \<noteq> b \<longrightarrow> apart s a b)"

definition free_ok :: "'a kvmap_scheme \<Rightarrow> u64 list \<Rightarrow> bool" where
  "free_ok s F \<longleftrightarrow> dlist (knodes s) FreeHead (map FreeNode F) \<and> sorted (map (va_start s) F) \<and>
     (\<exists>T. balanced (free_tree s) T \<and> set (nodes T) = set F \<and> sorted (map (akey s) (nodes T)))"

definition va_invx :: "'a kvmap_scheme \<Rightarrow> u64 list \<Rightarrow> u64 list \<Rightarrow> u64 list \<Rightarrow> bool" where
  "va_invx s F B X \<longleftrightarrow> areas_ok s (rb_nil (free_tree s)) (F @ B @ X) \<and> free_ok s F \<and> dlist (knodes s) BusyHead (map BusyNode B)"

definition va_inv :: "'a kvmap_scheme \<Rightarrow> u64 list \<Rightarrow> u64 list \<Rightarrow> bool" where
  "va_inv s F B \<longleftrightarrow> va_invx s F B []"

lemma va_upd [simp]:
  fixes s :: "'a kvmap_scheme"
  shows "va_start (s\<lparr>knodes := k\<rparr>) = va_start s" "va_end (s\<lparr>knodes := k\<rparr>) = va_end s" "va_size (s\<lparr>knodes := k\<rparr>) = va_size s"
    "va_start (s\<lparr>free_tree := f\<rparr>) = va_start s" "va_end (s\<lparr>free_tree := f\<rparr>) = va_end s" "va_size (s\<lparr>free_tree := f\<rparr>) = va_size s"
    "va_start (s\<lparr>nr_busy := b\<rparr>) = va_start s" "va_end (s\<lparr>nr_busy := b\<rparr>) = va_end s" "va_size (s\<lparr>nr_busy := b\<rparr>) = va_size s"
    "va_start (s\<lparr>total_free := b\<rparr>) = va_start s" "va_end (s\<lparr>total_free := b\<rparr>) = va_end s" "va_size (s\<lparr>total_free := b\<rparr>) = va_size s"
  by (simp_all add: fun_eq_iff va_start_def va_end_def va_size_def load64_def)

lemma akey_upd [simp]:
  fixes s :: "'a kvmap_scheme"
  shows "akey (s\<lparr>knodes := k\<rparr>) = akey s" "akey (s\<lparr>free_tree := f\<rparr>) = akey s" "akey (s\<lparr>nr_busy := b\<rparr>) = akey s" "akey (s\<lparr>total_free := b\<rparr>) = akey s"
  by (simp_all add: fun_eq_iff akey_def)

lemma slab_upd [simp]:
  fixes s :: "'a kvmap_scheme"
  shows "slab_inv (s\<lparr>knodes := k\<rparr>) = slab_inv s" "live (s\<lparr>knodes := k\<rparr>) = live s"
    "slab_inv (s\<lparr>free_tree := f\<rparr>) = slab_inv s" "live (s\<lparr>free_tree := f\<rparr>) = live s"
    "slab_inv (s\<lparr>nr_busy := b\<rparr>) = slab_inv s" "live (s\<lparr>nr_busy := b\<rparr>) = live s"
    "slab_inv (s\<lparr>total_free := b\<rparr>) = slab_inv s" "live (s\<lparr>total_free := b\<rparr>) = live s"
  by (rule slab_same; simp)+

lemma areas_upd [simp]:
  fixes s :: "'a kvmap_scheme"
  shows "areas_ok (s\<lparr>knodes := k\<rparr>) nl A = areas_ok s nl A" "areas_ok (s\<lparr>free_tree := f\<rparr>) nl A = areas_ok s nl A"
    "areas_ok (s\<lparr>nr_busy := b\<rparr>) nl A = areas_ok s nl A" "areas_ok (s\<lparr>total_free := b\<rparr>) nl A = areas_ok s nl A"
  by (simp_all add: areas_ok_def area_ok_def is_obj_def apart_def)

lemma areas_perm: "areas_ok s nl A \<Longrightarrow> distinct A' \<Longrightarrow> set A' \<subseteq> set A \<Longrightarrow> areas_ok s nl A'"
  by (auto simp: areas_ok_def)

lemma va_invxD:
  assumes "va_invx s F B X"
  shows "slab_inv s" and "is_obj s (rb_nil (free_tree s))" and "rb_nil (free_tree s) \<notin> set F \<union> set B \<union> set X" and "distinct (F @ B @ X)"
    and "a \<in> set F \<union> set B \<union> set X \<Longrightarrow> area_ok s a"
    and "a \<in> set F \<union> set B \<union> set X \<Longrightarrow> b \<in> set F \<union> set B \<union> set X \<Longrightarrow> a \<noteq> b \<Longrightarrow> apart s a b"
    and "dlist (knodes s) FreeHead (map FreeNode F)" and "dlist (knodes s) BusyHead (map BusyNode B)" and "sorted (map (va_start s) F)"
  using assms by (auto simp: va_invx_def areas_ok_def free_ok_def)

section \<open>Inserting and removing free areas\<close>

lemma sorted_insert:
  fixes f :: "'b \<Rightarrow> 'k :: linorder"
  assumes "sorted (map f xs)"
  shows "sorted (map f (takeWhile (\<lambda>w. f w \<le> f z) xs @ z # dropWhile (\<lambda>w. f w \<le> f z) xs))"
proof -
  have "sorted (map f (takeWhile P xs))" "sorted (map f (dropWhile P xs))" for P
    using assms takeWhile_dropWhile_id [of P xs] sorted_append [of "map f (takeWhile P xs)" "map f (dropWhile P xs)"] by (metis map_append)+
  moreover have "f z \<le> f w" if "w \<in> set (dropWhile (\<lambda>w. f w \<le> f z) xs)" for w
    using that assms by (induction xs) (auto split: if_splits)
  moreover have "f w \<le> f z" if "w \<in> set (takeWhile (\<lambda>w. f w \<le> f z) xs)" for w using set_takeWhileD [OF that] by simp
  ultimately show ?thesis by (fastforce simp: sorted_append)
qed

lemma map_dropWhile_obj: "dropWhile (\<lambda>n. \<not> va_start s va < va_start s (knode_obj n)) (map FreeNode F) = map FreeNode (dropWhile (\<lambda>w. va_start s w \<le> va_start s va) F)"
  by (simp add: dropWhile_map comp_def not_less)

lemma va_insert_free_ok:
  assumes inv: "va_invx s F B (x # X)"
  shows "\<exists>k f F'. va_insert_free x s = Some (s\<lparr>knodes := k, free_tree := f\<rparr>) \<and> va_invx (s\<lparr>knodes := k, free_tree := f\<rparr>) F' B X \<and>
    set F' = insert x (set F)"
proof -
  let ?le = "\<lambda>w. va_start s w \<le> va_start s x"
  let ?xs = "takeWhile ?le F" and ?ys = "dropWhile ?le F" let ?F = "?xs @ x # ?ys"
  let ?p = "hd (map FreeNode ?ys @ [FreeHead])" let ?k = "list_add_tail (FreeNode x) ?p (knodes s)"
  note i = va_invxD [OF inv]
  have d: "x \<notin> set F" "x \<notin> set B" "x \<notin> set X" "distinct (F @ B @ X)" using i(4) by auto
  have F: "F = ?xs @ ?ys" by simp
  have loop: "list_for_each_entry (knodes s) FreeHead (\<lambda>n (_ :: unit). ((), va_start s x < va_start s (knode_obj n))) () = Some (?p, ())"
    by (simp add: list_for_each_entry_dlist [OF i(7)] loop_spec_break map_dropWhile_obj)
  have dl: "dlist (knodes s) FreeHead (map FreeNode ?xs @ map FreeNode ?ys)" using i(7) F by (metis map_append)
  have k1: "dlist ?k FreeHead (map FreeNode ?F)"
    using dlist_insert_before [OF dl, of "FreeNode x"] d(1) by (auto dest: set_takeWhileD set_dropWhileD)
  have k2: "dlist ?k BusyHead (map BusyNode B)" by (rule dlist_insert_before_frame [OF dl i(8)]) auto
  obtain T where T: "balanced (free_tree s) T" "set (nodes T) = set F" "sorted (map (akey s) (nodes T))"
    using inv by (auto simp: va_invx_def free_ok_def)
  have "x \<noteq> rb_nil (free_tree s)" using i(3) by auto
  then obtain f T' where f: "rb_tree_insert (va_compare_size s) x (free_tree s) = Some f" "balanced f T'" "rb_nil f = rb_nil (free_tree s)"
    "nodes T' = takeWhile (\<lambda>w. akey s w \<le> akey s x) (nodes T) @ x # dropWhile (\<lambda>w. akey s w \<le> akey s x) (nodes T)"
    using rb_tree_insert_ok [OF T(1,3), of x "va_compare_size s"] d(1) T(2) by (auto simp: va_compare_less)
  have st: "set (takeWhile P zs) \<union> set (dropWhile P zs) = set zs" for P and zs :: "u64 list" by (metis set_append takeWhile_dropWhile_id)
  have cmp: "va_compare_size (s\<lparr>knodes := ?k\<rparr>) = va_compare_size s" by (simp add: fun_eq_iff va_compare_size_def)
  let ?t = "s\<lparr>knodes := ?k, free_tree := f\<rparr>"
  have r: "va_insert_free x s = Some ?t" using loop f(1) by (simp add: va_insert_free_def cmp)
  have sF: "set ?F = insert x (set F)" using st [of ?le F] by auto
  have "set (nodes T') = set ?F" unfolding sF f(4) using st [of _ "nodes T"] T(2) by auto
  moreover have "sorted (map (akey s) (nodes T'))" unfolding f(4) by (rule sorted_insert [OF T(3)])
  ultimately have "free_ok ?t ?F" using k1 f(2) sorted_insert [OF i(9), of x] by (auto simp: free_ok_def)
  moreover have "areas_ok s (rb_nil (free_tree s)) (?F @ B @ X)"
  proof (rule areas_perm)
    show "areas_ok s (rb_nil (free_tree s)) (F @ B @ x # X)" using inv by (simp add: va_invx_def)
    have "distinct (?xs @ ?ys)" using d(4) F by (metis distinct_append)
    then have "set ?xs \<inter> set ?ys = {}" unfolding distinct_append by blast
    then show "distinct (?F @ B @ X)" using d by (auto dest: set_takeWhileD set_dropWhileD)
  qed (use sF in auto)
  ultimately have "va_invx ?t ?F B X" using k2 f(3) by (simp add: va_invx_def)
  then show ?thesis using r sF by blast
qed

lemma va_remove_free_ok:
  assumes inv: "va_invx s F B X" and x: "x \<in> set F"
  shows "\<exists>k f. va_remove_free x s = Some (s\<lparr>knodes := k, free_tree := f\<rparr>) \<and> va_invx (s\<lparr>knodes := k, free_tree := f\<rparr>) (remove1 x F) B (x # X)"
proof -
  note i = va_invxD [OF inv]
  obtain us vs where F: "F = us @ x # vs" using split_list [OF x] by blast
  have d: "x \<notin> set us" "x \<notin> set vs" "distinct F" using i(4) F by auto
  have rF: "remove1 x F = us @ vs" using d(1) by (simp add: F remove1_append)
  let ?k = "list_del (FreeNode x) (knodes s)"
  obtain T where T: "balanced (free_tree s) T" "set (nodes T) = set F" "sorted (map (akey s) (nodes T))"
    using inv by (auto simp: va_invx_def free_ok_def)
  obtain f T' where f: "rb_tree_delete x (free_tree s) = Some f" "balanced f T'" "rb_nil f = rb_nil (free_tree s)" "nodes T' = remove1 x (nodes T)"
    using rb_tree_delete_ok [OF T(1), of x] x T(2) by auto
  let ?t = "s\<lparr>knodes := ?k, free_tree := f\<rparr>"
  have r: "va_remove_free x s = Some ?t" using f(1) by (simp add: va_remove_free_def)
  have dl: "dlist (knodes s) FreeHead (map FreeNode us @ FreeNode x # map FreeNode vs)" using i(7) F by simp
  have k1: "dlist ?k FreeHead (map FreeNode (us @ vs))" using dlist_del [OF dl] by simp
  have k2: "dlist ?k BusyHead (map BusyNode B)" by (rule dlist_del_frame [OF dl i(8)]) auto
  have "distinct (nodes T)" using T(1) by (simp add: balanced_def rtree_def)
  then have "set (nodes T') = set (us @ vs)" using f(4) T(2) F d by auto
  moreover have "sorted (map (akey s) (nodes T'))" unfolding f(4) by (rule sorted_map_remove1 [OF T(3)])
  moreover have "sorted (map (va_start s) (us @ vs))" using i(9) by (simp add: F sorted_append)
  ultimately have "free_ok ?t (us @ vs)" using k1 f(2) by (auto simp: free_ok_def)
  moreover have "areas_ok s (rb_nil (free_tree s)) ((us @ vs) @ B @ x # X)"
    by (rule areas_perm [of s _ "F @ B @ X"]) (use inv i(4) F in \<open>auto simp: va_invx_def\<close>)
  ultimately have "va_invx ?t (us @ vs) B (x # X)" using k2 f(3) by (simp add: va_invx_def)
  then show ?thesis using r rF by auto
qed

section \<open>Writing the bounds of areas\<close>

lemmas va_field_defs = va_start_def va_end_def va_flags_def set_va_start_def set_va_end_def set_va_flags_def

lemma set_va_fields:
  assumes B: "fields_apart B" "p \<in> B" "q \<in> B"
  shows "va_start (set_va_start p v s) q = (if q = p then v else va_start s q)" "va_end (set_va_start p v s) q = va_end s q"
    "va_start (set_va_end p v s) q = va_start s q" "va_end (set_va_end p v s) q = (if q = p then v else va_end s q)"
    "va_start (set_va_flags p v s) q = va_start s q" "va_end (set_va_flags p v s) q = va_end s q"
  using apartD [OF B, of 0 0] apartD [OF B, of 0 8] apartD [OF B, of 8 0] apartD [OF B, of 8 8] apartD [OF B, of 16 0] apartD [OF B, of 16 8]
  by (auto simp: va_field_defs load64_def store64_def)

lemma set_va_inv:
  fixes s :: "'a kslab_scheme"
  assumes "slab_inv s" and "is_obj s p"
  shows "slab_inv (set_va_start p v s)" "live (set_va_start p v s) = live s" "slab_inv (set_va_end p v s)" "live (set_va_end p v s) = live s"
    "slab_inv (set_va_flags p v s)" "live (set_va_flags p v s) = live s"
proof -
  have f: "\<exists>b \<in> live s. unat (p + k) \<in> brange b" if "unat k < 32" for k using obj_field [OF assms that] by blast
  obtain b0 b1 b2 where b: "b0 \<in> live s" "unat p \<in> brange b0" "b1 \<in> live s" "unat (p + 8) \<in> brange b1" "b2 \<in> live s" "unat (p + 16) \<in> brange b2"
    using f [of 0] f [of 8] f [of 16] by auto
  show "slab_inv (set_va_start p v s)" "live (set_va_start p v s) = live s" "slab_inv (set_va_end p v s)" "live (set_va_end p v s) = live s"
    "slab_inv (set_va_flags p v s)" "live (set_va_flags p v s) = live s"
    using assms(1) b by (simp_all add: va_field_defs store_live)
qed

lemma set_va_other [simp]:
  fixes s :: "'a kvmap_scheme"
  shows "knodes (set_va_start p v s) = knodes s" "free_tree (set_va_start p v s) = free_tree s" "knodes (set_va_end p v s) = knodes s"
    "free_tree (set_va_end p v s) = free_tree s" "knodes (set_va_flags p v s) = knodes s" "free_tree (set_va_flags p v s) = free_tree s"
    "nr_busy (set_va_start p v s) = nr_busy s" "nr_busy (set_va_end p v s) = nr_busy s" "nr_busy (set_va_flags p v s) = nr_busy s"
    "total_free (set_va_start p v s) = total_free s" "total_free (set_va_end p v s) = total_free s" "total_free (set_va_flags p v s) = total_free s"
  by (simp_all add: va_field_defs store64_def)

text \<open>The bounds of an area.\<close>

definition bounds :: "'a kmem_scheme \<Rightarrow> u64 \<Rightarrow> u64 \<times> u64" where
  "bounds s a = (va_start s a, va_end s a)"

lemma bounds_eq: "bounds t a = bounds s a \<longleftrightarrow> va_start t a = va_start s a \<and> va_end t a = va_end s a"
  by (simp add: bounds_def)

lemma va_invx_change:
  assumes inv: "va_invx s F B X" and t: "slab_inv t" "knodes t = knodes s" "free_tree t = free_tree s"
    and obj: "\<And>a. a \<in> set F \<union> set B \<union> {rb_nil (free_tree s)} \<Longrightarrow> is_obj t a" and same: "\<And>a. a \<in> set F \<union> set B \<Longrightarrow> bounds t a = bounds s a"
    and X': "distinct (F @ B @ X')" "rb_nil (free_tree s) \<notin> set X'" "\<And>a. a \<in> set X' \<Longrightarrow> area_ok t a"
      "\<And>a b. a \<in> set X' \<Longrightarrow> b \<in> set F \<union> set B \<union> set X' \<Longrightarrow> a \<noteq> b \<Longrightarrow> apart t a b"
  shows "va_invx t F B X'"
proof -
  note i = va_invxD [OF inv]
  have st: "va_start t a = va_start s a" "va_end t a = va_end s a" "akey t a = akey s a" if "a \<in> set F \<union> set B" for a
    using same [OF that] by (simp_all add: bounds_eq akey_def va_size_def)
  have ao: "area_ok t a" if "a \<in> set F \<union> set B" for a
    using i(5) [of a] that obj [of a] st [OF that] by (auto simp: area_ok_def)
  have ap: "apart t a b" if "a \<in> set F \<union> set B" "b \<in> set F \<union> set B" "a \<noteq> b" for a b
    using i(6) [of a b] that st [OF that(1)] st [OF that(2)] by (auto simp: apart_def)
  have "apart t a b" if "a \<in> set (F @ B @ X')" "b \<in> set (F @ B @ X')" "a \<noteq> b" for a b
    using that ap [of a b] X'(4) [of a b] X'(4) [of b a] by (auto simp: apart_def)
  then have "areas_ok t (rb_nil (free_tree t)) (F @ B @ X')"
    unfolding areas_ok_def using t X' ao obj i(3) by auto
  moreover have "free_ok t F"
  proof -
    obtain T where T: "balanced (free_tree s) T" "set (nodes T) = set F" "sorted (map (akey s) (nodes T))"
      using inv by (auto simp: va_invx_def free_ok_def)
    have e: "map (akey t) (nodes T) = map (akey s) (nodes T)" "map (va_start t) F = map (va_start s) F" using T(2) st by (auto intro!: map_cong)
    have "sorted (map (akey t) (nodes T))" "sorted (map (va_start t) F)" unfolding e by (fact T(3), fact i(9))
    then show ?thesis using T(1,2) i(7) t by (auto simp: free_ok_def)
  qed
  ultimately show ?thesis using i(8) t(2) by (simp add: va_invx_def)
qed

lemma apart_sub:
  assumes "apart s a b" and "va_start s a \<le> l" and "h \<le> va_end s a"
  shows "h \<le> va_start s b \<or> va_end s b \<le> l"
  using assms by (auto simp: apart_def)

lemma objs_field_apart:
  assumes "va_invx s F B X" and "\<And>a. a \<in> Y \<Longrightarrow> is_obj s a"
  shows "fields_apart (set F \<union> set B \<union> set X \<union> Y)"
  by (rule live_objs_apart [OF va_invxD(1) [OF assms(1)]]) (use va_invxD(5) [OF assms(1)] assms(2) in \<open>auto simp: area_ok_def\<close>)

section \<open>Fresh areas\<close>

lemma more_vmap:
  fixes s t :: "'a kvmap_scheme"
  shows "kslab.more t = kslab.more s \<Longrightarrow> knodes t = knodes s \<and> free_tree t = free_tree s \<and> nr_busy t = nr_busy s \<and> total_free t = total_free s"
  by (cases s, cases t) simp

lemma kept_bounds:
  assumes inv: "slab_inv s" and k: "kept L s t" and p: "(p, n) \<in> live s" "32 \<le> n" "(p, n) \<in> L"
  shows "bounds t p = bounds s p"
proof -
  have "mem64 t (p + k) = mem64 s (p + k)" if "unat k < 32" for k
    using assms(2,5) field_address(2) [OF inv p(1), of k] that p(2) by (auto simp: kept_def)
  from this [of 0] this [of 8] show ?thesis by (simp add: bounds_eq va_field_defs load64_def)
qed

definition kept_areas :: "u64 set \<Rightarrow> 'a kvmap_scheme \<Rightarrow> 'a kvmap_scheme \<Rightarrow> bool" where
  "kept_areas A s t \<longleftrightarrow> (\<forall>a \<in> A. bounds t a = bounds s a) \<and> nr_busy t = nr_busy s \<and> total_free t = total_free s"

lemma kept_areas_trans: "kept_areas A s t \<Longrightarrow> kept_areas A t u \<Longrightarrow> kept_areas A s u"
  by (simp add: kept_areas_def)

lemma kmalloc_area:
  assumes inv: "va_invx s F B X"
  shows "\<exists>x t. kmalloc sizeof_vmap_area GFP_KERNEL s = Some (x, t) \<and> va_invx t F B X \<and> kept_areas (set F \<union> set B \<union> set X) s t \<and>
    (x \<noteq> 0 \<longrightarrow> is_obj t x \<and> x \<notin> set F \<union> set B \<union> set X \<and> x \<noteq> rb_nil (free_tree t))"
proof -
  note i = va_invxD [OF inv]
  obtain x t where k: "kmalloc sizeof_vmap_area GFP_KERNEL s = Some (x, t)" "handed_out (unat sizeof_vmap_area) x s t"
    using kmalloc_ok [OF i(1)] by blast
  have h: "slab_inv t" "kept (live s) s t" using k(2) by (simp_all add: handed_out_def)
  note m = more_vmap [OF kmalloc_more [OF k(1)]]
  have live: "live s \<subseteq> live t" using k(2) by (auto simp: handed_out_def split: if_splits)
  have ob: "is_obj t a" if "is_obj s a" for a using that live by (auto simp: is_obj_def)
  have bd: "bounds t a = bounds s a" if "is_obj s a" for a using that kept_bounds [OF i(1) h(2)] by (auto simp: is_obj_def)
  have as: "is_obj s a" if "a \<in> set F \<union> set B \<union> set X" for a using i(5) [OF that] by (simp add: area_ok_def)
  have ka: "kept_areas (set F \<union> set B \<union> set X) s t" using bd as m by (simp add: kept_areas_def)
  have se: "va_start t a = va_start s a" "va_end t a = va_end s a" if "a \<in> set F \<union> set B \<union> set X" for a
    using bd [OF as [OF that]] by (simp_all add: bounds_eq)
  have ao: "area_ok t a" if "a \<in> set F \<union> set B \<union> set X" for a using i(5) [OF that] ob se [OF that] by (simp add: area_ok_def)
  have v: "va_invx t F B X"
  proof (rule va_invx_change [OF inv h(1)])
    show "apart t a b" if "a \<in> set X" "b \<in> set F \<union> set B \<union> set X" "a \<noteq> b" for a b
      using i(6) [of a b] that se by (simp add: apart_def)
  qed (use m ob as i ao bd in auto)
  have "is_obj t x \<and> x \<notin> set F \<union> set B \<union> set X \<and> x \<noteq> rb_nil (free_tree t)" if nz: "x \<noteq> 0"
  proof -
    obtain n where n: "104 \<le> n" "(x, n) \<notin> live s" "live t = insert (x, n) (live s)"
      using k(2) nz by (auto simp: handed_out_def sizeof_vmap_area_def)
    have "\<not> is_obj s x" using n same_address [OF h(1), of x n] by (auto simp: is_obj_def)
    then show ?thesis using as i(2) m n by (auto simp: is_obj_def intro!: exI [of _ n])
  qed
  then show ?thesis using k(1) v ka by blast
qed

section \<open>Splitting an area\<close>

definition span :: "'a kmem_scheme \<Rightarrow> u64 \<Rightarrow> nat set" where
  "span s a = {unat (va_start s a)..<unat (va_end s a)}"

definition space :: "'a kmem_scheme \<Rightarrow> u64 list \<Rightarrow> nat set" where
  "space s A = (\<Union>a \<in> set A. span s a)"

lemma span_cong: "bounds t a = bounds s a \<Longrightarrow> span t a = span s a"
  by (simp add: span_def bounds_eq)

text \<open>The block \<open>x\<close> becomes the area \<open>[m, end)\<close> and \<open>va\<close> keeps \<open>[start, m)\<close>.\<close>

definition cut :: "u64 \<Rightarrow> u64 \<Rightarrow> u64 \<Rightarrow> 'a kmem_scheme \<Rightarrow> 'a kmem_scheme" where
  "cut x va sz s1 =
     (let s2 = set_va_start x (va_start s1 va + sz) s1;
          s3 = set_va_end x (va_end s2 va) s2;
          s4 = set_va_flags x 0 s3
      in set_va_end va (va_start s4 va + sz) s4)"

lemma cut_fields:
  assumes B: "fields_apart B" "x \<in> B" "va \<in> B" "x \<noteq> va" and a: "a \<in> B"
  shows "bounds (cut x va sz s) a =
    (if a = x then (va_start s va + sz, va_end s va) else if a = va then (va_start s va, va_start s va + sz) else bounds s a)"
  using B(4) by (simp add: bounds_def cut_def Let_def set_va_fields [OF B(1) B(2) a] set_va_fields [OF B(1) B(2) B(2)] set_va_fields [OF B(1) B(2) B(3)] set_va_fields [OF B(1) B(3) a])

lemma cut_other:
  fixes s :: "'a kvmap_scheme"
  assumes "slab_inv s" and "is_obj s x" and "is_obj s va"
  shows "slab_inv (cut x va sz s)" and "live (cut x va sz s) = live s" and "knodes (cut x va sz s) = knodes s"
    and "free_tree (cut x va sz s) = free_tree s" and "nr_busy (cut x va sz s) = nr_busy s" and "total_free (cut x va sz s) = total_free s"
proof -
  define s2 where "s2 = set_va_start x (va_start s va + sz) s"
  define s3 where "s3 = set_va_end x (va_end s2 va) s2"
  define s4 where "s4 = set_va_flags x 0 s3"
  have 2: "slab_inv s2" "live s2 = live s" unfolding s2_def by (rule set_va_inv [OF assms(1,2)])+
  then have o2: "is_obj s2 x" using assms(2) by (simp add: is_obj_def)
  have 3: "slab_inv s3" "live s3 = live s2" unfolding s3_def by (rule set_va_inv [OF 2(1) o2])+
  then have o3: "is_obj s3 x" using o2 by (simp add: is_obj_def)
  have 4: "slab_inv s4" "live s4 = live s3" unfolding s4_def by (rule set_va_inv [OF 3(1) o3])+
  then have o4: "is_obj s4 va" using assms(3) 2(2) 3(2) by (simp add: is_obj_def)
  have c: "cut x va sz s = set_va_end va (va_start s4 va + sz) s4" by (simp add: cut_def s2_def s3_def s4_def Let_def)
  show "slab_inv (cut x va sz s)" "live (cut x va sz s) = live s" unfolding c using set_va_inv(3,4) [OF 4(1) o4] 2(2) 3(2) 4(2) by simp_all
  show "knodes (cut x va sz s) = knodes s" "free_tree (cut x va sz s) = free_tree s" "nr_busy (cut x va sz s) = nr_busy s" "total_free (cut x va sz s) = total_free s"
    by (simp_all add: cut_def Let_def)
qed

lemma cut_ok:
  assumes inv: "va_invx s F B (va # X)" and x: "is_obj s x" "x \<notin> set F \<union> set B \<union> set (va # X)" "x \<noteq> rb_nil (free_tree s)"
    and m: "va_start s va < va_start s va + sz" "va_start s va + sz < va_end s va" "4096 dvd unat (va_start s va + sz)"
  defines "t \<equiv> cut x va sz s"
  shows "va_invx t F B (x # va # X)" and "kept_areas (set F \<union> set B \<union> set X) s t" and "bounds t va = (va_start s va, va_start s va + sz)"
    and "bounds t x = (va_start s va + sz, va_end s va)"
proof -
  note i = va_invxD [OF inv]
  let ?m = "va_start s va + sz" let ?A = "set F \<union> set B \<union> set (va # X)" let ?B = "?A \<union> {x}"
  have fa: "fields_apart ?B" by (rule objs_field_apart [OF inv]) (use x(1) in simp)
  have vo: "area_ok s va" using i(5) [of va] by simp
  have xv: "x \<noteq> va" "va \<in> ?B" "x \<in> ?B" using x(2) by auto
  have b: "bounds t a = (if a = x then (?m, va_end s va) else if a = va then (va_start s va, ?m) else bounds s a)" if "a \<in> ?B" for a
    unfolding t_def by (rule cut_fields [OF fa xv(3,2,1) that])
  show bv: "bounds t va = (va_start s va, ?m)" and bx: "bounds t x = (?m, va_end s va)" using b [OF xv(2)] b [OF xv(3)] xv(1) by simp_all
  note o = cut_other [OF i(1) x(1), of va sz, folded t_def]
  have ob: "is_obj s va" using vo by (simp add: area_ok_def)
  have un: "bounds t a = bounds s a" if "a \<in> set F \<union> set B \<union> set X" for a
  proof -
    have "a \<noteq> x" "a \<noteq> va" using that x(2) i(4) by auto
    then show ?thesis using b [of a] that by auto
  qed
  show "kept_areas (set F \<union> set B \<union> set X) s t" using un o [OF ob] by (simp add: kept_areas_def)
  have lv: "is_obj t a = is_obj s a" for a using o(2) [OF ob] by (simp add: is_obj_def)
  have sv: "va_start t va = va_start s va" "va_end t va = ?m" "va_start t x = ?m" "va_end t x = va_end s va" using bv bx by (simp_all add: bounds_def)
  have ax: "area_ok t x" "area_ok t va" using vo m x(1) by (auto simp: area_ok_def sv lv)
  have aX: "area_ok t a" if "a \<in> set X" for a using i(5) [of a] un [of a] that by (auto simp: area_ok_def bounds_eq lv)
  have far: "apart t va b" "apart t x b" if "b \<in> set F \<union> set B \<union> set X" for b
  proof -
    have "b \<noteq> va" using that i(4) by auto
    then have "apart s va b" using i(6) [of va b] that by auto
    then show "apart t va b" "apart t x b" using un [OF that] m by (auto simp: apart_def bounds_eq sv)
  qed
  have nr: "apart t va x" by (simp add: apart_def sv)
  have sym: "apart t a c = apart t c a" for a c by (auto simp: apart_def)
  have ap: "apart t a c" if "a \<in> set (x # va # X)" "c \<in> set F \<union> set B \<union> set (x # va # X)" "a \<noteq> c" for a c
  proof (cases "a \<in> {x, va}")
    case True
    then show ?thesis using that far [of c] nr sym by auto
  next
    case False
    then have aX: "a \<in> set X" using that(1) by auto
    show ?thesis
    proof (cases "c \<in> {x, va}")
      case True
      then show ?thesis using far [of a] aX sym by auto
    next
      case cn: False
      then have c: "c \<in> set F \<union> set B \<union> set X" using that(2) by auto
      then have "apart s a c" using i(6) [of a c] aX that(3) by auto
      then show ?thesis using un [of a] un [OF c] aX by (auto simp: apart_def bounds_eq)
    qed
  qed
  show "va_invx t F B (x # va # X)"
    by (rule va_invx_change [OF inv o(1) [OF ob] o(3) [OF ob] o(4) [OF ob] _ _ _ _ _ ap])
      (use lv i x ax aX un in \<open>auto simp: area_ok_def\<close>)
qed

section \<open>The best fit\<close>

lemma loop_spec_fold: "loop_spec lh (\<lambda>n b. (g n b, False)) xs acc = (lh, fold g xs acc)"
  by (induction xs arbitrary: acc) simp_all

definition better :: "'a kmem_scheme \<Rightarrow> u64 \<Rightarrow> u64 \<Rightarrow> u64 option \<Rightarrow> u64 option" where
  "better s sz va best =
     (if sz \<le> va_size s va then (case best of None \<Rightarrow> Some va | Some b \<Rightarrow> if va_size s va < va_size s b then Some va else best) else best)"

definition best_of :: "'a kmem_scheme \<Rightarrow> u64 \<Rightarrow> u64 set \<Rightarrow> u64 option \<Rightarrow> bool" where
  "best_of s sz A r \<longleftrightarrow>
     (case r of None \<Rightarrow> \<forall>a \<in> A. va_size s a < sz
      | Some b \<Rightarrow> b \<in> A \<and> sz \<le> va_size s b \<and> (\<forall>a \<in> A. sz \<le> va_size s a \<longrightarrow> va_size s b \<le> va_size s a))"

lemma better_best: "best_of s sz A r \<Longrightarrow> best_of s sz (insert a A) (better s sz a r)"
  by (auto simp: best_of_def better_def split: option.splits)

lemma fold_best: "best_of s sz A r \<Longrightarrow> best_of s sz (A \<union> set F) (fold (better s sz) F r)"
proof (induction F arbitrary: A r)
  case (Cons a F)
  show ?case using Cons.IH [OF better_best [OF Cons.prems, of a]] by simp
qed simp

lemma va_find_best_fit_ok:
  assumes inv: "va_invx s F B X"
  shows "\<exists>r. va_find_best_fit sz s = Some r \<and> best_of s sz (set F) r"
proof -
  note i = va_invxD [OF inv]
  obtain T where T: "balanced (free_tree s) T" "set (nodes T) = set F" "sorted (map (akey s) (nodes T))"
    using inv by (auto simp: va_invx_def free_ok_def)
  have pos: "0 < va_start s a" "a \<noteq> 0" if "a \<in> set F" for a
  proof -
    have a: "area_ok s a" using i(5) that by blast
    then have "VMALLOC_START \<le> va_start s a" "is_obj s a" by (simp_all add: area_ok_def)
    then show "0 < va_start s a" "a \<noteq> 0" using is_obj_nonzero [OF i(1)] by (auto simp: VMALLOC_START_def word_le_nat_alt word_less_nat_alt)
  qed
  let ?key = "\<lambda>a. if a = 0 then unat sz * 2 ^ 64 else akey s a"
  have e: "map ?key (nodes T) = map (akey s) (nodes T)" using pos(2) T(2) by (auto intro!: map_cong)
  have st: "sorted (map ?key (nodes T))" unfolding e by (rule T(3))
  have cmp: "(compare_bounds (0, sz) (va_start s w, va_end s w) < 0 \<longleftrightarrow> ?key 0 < ?key w) \<and>
      (compare_bounds (0, sz) (va_start s w, va_end s w) = 0 \<longleftrightarrow> ?key 0 = ?key w)" if "w \<in> set (nodes T)" for w
  proof -
    have w: "0 < va_start s w" "w \<noteq> 0" using pos that T(2) by auto
    have "?key 0 \<noteq> ?key w"
    proof
      assume e: "?key 0 = ?key w"
      then have "unat sz * 2 ^ 64 = unat (va_size s w) * 2 ^ 64 + unat (va_start s w)" using w(2) by (simp add: akey_def)
      moreover have "unat (va_start s w) < 2 ^ 64" using unsigned_less [of "va_start s w"] by simp
      ultimately have "unat (va_start s w) = (unat sz * 2 ^ 64) mod 2 ^ 64" by (metis mod_less mod_mult_self3)
      then show False using w(1) by (simp add: word_less_nat_alt)
    qed
    then show ?thesis using w by (auto simp: compare_bounds_less akey_def va_size_def)
  qed
  obtain res where res: "rb_tree_search (\<lambda>_ b. compare_bounds (0, sz) (va_start s b, va_end s b)) 0 (free_tree s) = Some res"
    "case res of None \<Rightarrow> \<forall>w \<in> set (nodes T). ?key w \<noteq> ?key 0 | Some w \<Rightarrow> w \<in> set (nodes T) \<and> ?key w = ?key 0"
    using rb_tree_search_ok [OF T(1) st, of "\<lambda>_ b. compare_bounds (0, sz) (va_start s b, va_end s b)" 0, OF cmp] by blast
  have "res = None"
  proof (cases res)
    case (Some w)
    have "w \<in> set (nodes T) \<and> ?key w = ?key 0" using res(2) unfolding Some option.case .
    then have w: "w \<in> set (nodes T)" "?key 0 = ?key w" by (blast, metis)
    then have "compare_bounds (0, sz) (va_start s w, va_end s w) = 0" using cmp [OF w(1)] by blast
    then show ?thesis using pos(1) [of w] w(1) T(2) by (auto simp: compare_bounds_less)
  qed simp
  moreover have "list_for_each_entry (knodes s) FreeHead
       (\<lambda>n best. let va = knode_obj n in
          (if sz \<le> va_size s va then
             (case best of None \<Rightarrow> Some va | Some b \<Rightarrow> if va_size s va < va_size s b then Some va else best)
           else best, False)) None = Some (FreeHead, fold (better s sz) F None)"
    unfolding Let_def better_def [symmetric]
    by (simp add: list_for_each_entry_dlist [OF i(7)] loop_spec_fold [of _ "\<lambda>n. better s sz (knode_obj n)"] fold_map comp_def)
  moreover have "best_of s sz (set F) (fold (better s sz) F None)" using fold_best [of s sz "{}" None F] by (simp add: best_of_def)
  ultimately show ?thesis using res(1) by (simp add: va_find_best_fit_def)
qed

section \<open>Allocation\<close>

lemma area_arith:
  assumes "area_ok s a"
  shows "unat (va_size s a) = unat (va_end s a) - unat (va_start s a)" and "unat (va_start s a) < unat (va_end s a)"
    and "unat (va_end s a) \<le> 0xffff001000000000" and "0xffff000000000000 \<le> unat (va_start s a)" and "unat (va_size s a) \<le> 0x1000000000"
proof -
  have a: "va_start s a \<le> va_end s a" "unat (va_start s a) < unat (va_end s a)" "unat (va_end s a) \<le> 0xffff001000000000" "0xffff000000000000 \<le> unat (va_start s a)"
    using assms by (auto simp: area_ok_def VMALLOC_START_def VMALLOC_END_def VMALLOC_SIZE_def word_less_nat_alt word_le_nat_alt)
  then show "unat (va_size s a) = unat (va_end s a) - unat (va_start s a)" by (simp add: va_size_def unat_sub)
  then show "unat (va_size s a) \<le> 0x1000000000" using a by simp
  show "unat (va_start s a) < unat (va_end s a)" "unat (va_end s a) \<le> 0xffff001000000000" "0xffff000000000000 \<le> unat (va_start s a)" using a by simp_all
qed

lemma space_insert: "set F' = insert x (set F) \<Longrightarrow> (\<And>a. a \<in> set F \<Longrightarrow> bounds t a = bounds s a) \<Longrightarrow> space t F' = space s F \<union> span t x"
  using span_cong [of t _ s] by (auto simp: space_def)

lemma span_upd [simp]:
  fixes s :: "'a kvmap_scheme"
  shows "span (s\<lparr>knodes := k\<rparr>) = span s" "span (s\<lparr>free_tree := f\<rparr>) = span s" "span (s\<lparr>nr_busy := b\<rparr>) = span s" "span (s\<lparr>total_free := b\<rparr>) = span s"
    "bounds (s\<lparr>knodes := k\<rparr>) = bounds s" "bounds (s\<lparr>free_tree := f\<rparr>) = bounds s" "bounds (s\<lparr>nr_busy := b\<rparr>) = bounds s" "bounds (s\<lparr>total_free := b\<rparr>) = bounds s"
    "space (s\<lparr>knodes := k\<rparr>) = space s" "space (s\<lparr>free_tree := f\<rparr>) = space s" "space (s\<lparr>nr_busy := b\<rparr>) = space s" "space (s\<lparr>total_free := b\<rparr>) = space s"
  by (simp_all add: fun_eq_iff span_def bounds_def space_def)

text \<open>What cutting off the rest of an area achieves: \<open>va\<close> keeps at least the size asked for, and the rest is free.\<close>

definition trimmed :: "u64 \<Rightarrow> u64 \<Rightarrow> 'a kvmap_scheme \<Rightarrow> 'a kvmap_scheme \<Rightarrow> u64 list \<Rightarrow> u64 list \<Rightarrow> bool" where
  "trimmed va sz s t F F' \<longleftrightarrow> va_start t va = va_start s va \<and> sz \<le> va_size t va \<and> va_end t va \<le> va_end s va \<and>
     space t F' = space s F \<union> {unat (va_end t va)..<unat (va_end s va)}"

lemma split_after_ok:
  assumes inv: "va_invx s F B (va # X)" and sz: "sz \<noteq> 0" "4096 dvd unat sz" "sz \<le> va_size s va"
  shows "\<exists>t F'. split_after va sz s = Some t \<and> va_invx t F' B (va # X) \<and> kept_areas (set B \<union> set X) s t \<and> trimmed va sz s t F F'"
proof (cases "sz + VA_ALIGN_DEFAULT < va_size s va")
  case False
  have "trimmed va sz s s F F" using sz(3) by (simp add: trimmed_def)
  then show ?thesis using inv False by (intro exI [of _ s] exI [of _ F]) (simp add: split_after_def kept_areas_def)
next
  case big: True
  note i = va_invxD [OF inv]
  obtain x s1 where k: "kmalloc sizeof_vmap_area GFP_KERNEL s = Some (x, s1)" "va_invx s1 F B (va # X)"
    "kept_areas (set F \<union> set B \<union> set (va # X)) s s1"
    "x \<noteq> 0 \<longrightarrow> is_obj s1 x \<and> x \<notin> set F \<union> set B \<union> set (va # X) \<and> x \<noteq> rb_nil (free_tree s1)"
    using kmalloc_area [OF inv] by blast
  have b1: "bounds s1 va = bounds s va" "\<And>a. a \<in> set F \<Longrightarrow> bounds s1 a = bounds s a" and kb: "kept_areas (set B \<union> set X) s s1"
    using k(3) by (auto simp: kept_areas_def)
  have v1: "va_start s1 va = va_start s va" "va_end s1 va = va_end s va" "va_size s1 va = va_size s va"
    using b1(1) by (simp_all add: bounds_eq va_size_def)
  have sp: "space s1 F = space s F" using b1(2) span_cong [of s1 _ s] by (simp add: space_def)
  show ?thesis
  proof (cases "x = 0")
    case True
    have "trimmed va sz s s1 F F" using sz(3) by (simp add: trimmed_def v1 sp)
    then show ?thesis using k(1,2) kb True big by (intro exI [of _ s1] exI [of _ F]) (simp add: split_after_def)
  next
    case False
    have vo: "area_ok s va" using i(5) by simp
    note ar = area_arith [OF vo]
    have "unat (sz + VA_ALIGN_DEFAULT) = unat sz + 4096"
      using sz(3) ar(5) by (subst unat_add_noov) (simp_all add: VA_ALIGN_DEFAULT_def word_le_nat_alt)
    then have lt: "unat sz + 4096 < unat (va_size s va)" using big by (simp add: word_less_nat_alt)
    have m: "unat (va_start s va + sz) = unat (va_start s va) + unat sz" using lt ar by (intro unat_add_noov) simp
    have nz: "0 < unat sz" using sz(1) by (simp add: unat_gt_0)
    have c: "va_start s1 va < va_start s1 va + sz" "va_start s1 va + sz < va_end s1 va" "4096 dvd unat (va_start s1 va + sz)"
      using m nz lt ar vo sz(2) unfolding v1 by (auto simp: word_less_nat_alt area_ok_def)
    let ?t = "cut x va sz s1"
    note ct = cut_ok [OF k(2) _ _ _ c, of x]
    have x: "is_obj s1 x" "x \<notin> set F \<union> set B \<union> set (va # X)" "x \<noteq> rb_nil (free_tree s1)" using k(4) False by auto
    obtain kn f F' where ins: "va_insert_free x ?t = Some (?t\<lparr>knodes := kn, free_tree := f\<rparr>)"
      "va_invx (?t\<lparr>knodes := kn, free_tree := f\<rparr>) F' B (va # X)" "set F' = insert x (set F)"
      using va_insert_free_ok [OF ct(1) [OF x]] by blast
    let ?u = "?t\<lparr>knodes := kn, free_tree := f\<rparr>"
    have r: "split_after va sz s = Some ?u" using big k(1) False ins(1) by (simp add: split_after_def cut_def Let_def)
    have bt: "bounds ?u va = (va_start s va, va_start s va + sz)" "bounds ?u x = (va_start s va + sz, va_end s va)"
      using ct(3,4) [OF x] v1 by simp_all
    have ka: "kept_areas (set B \<union> set X) s ?u" using ct(2) [OF x] kb by (simp add: kept_areas_def)
    have "space ?u F' = space s1 F \<union> span ?u x"
      by (rule space_insert [OF ins(3)]) (use ct(2) [OF x] in \<open>simp add: kept_areas_def\<close>)
    moreover have "span ?u x = {unat (va_start s va + sz)..<unat (va_end s va)}" using bt(2) by (simp add: span_def bounds_def)
    moreover have "va_end ?u va = va_start s va + sz" "va_start ?u va = va_start s va" using bt(1) by (simp_all add: bounds_def)
    moreover have "va_size ?u va = sz" using calculation(3,4) by (simp add: va_size_def)
    ultimately have "trimmed va sz s ?u F F'" using sp c(2) v1 by (simp add: trimmed_def)
    then show ?thesis using r ins(2) ka by blast
  qed
qed

lemma busy_add:
  assumes inv: "va_invx s F B (va # X)"
  shows "va_invx (s\<lparr>knodes := list_add (BusyNode va) BusyHead (knodes s)\<rparr>) F (va # B) X"
proof -
  note i = va_invxD [OF inv]
  let ?k = "list_add (BusyNode va) BusyHead (knodes s)"
  have "dlist ?k BusyHead (map BusyNode (va # B))" using dlist_add [OF i(8), of "BusyNode va"] i(4) by auto
  moreover have "dlist ?k FreeHead (map FreeNode F)" by (rule dlist_add_frame [OF i(8,7)]) auto
  moreover have "areas_ok s (rb_nil (free_tree s)) (F @ (va # B) @ X)"
    by (rule areas_perm [of s _ "F @ B @ va # X"]) (use inv i(4) in \<open>auto simp: va_invx_def\<close>)
  ultimately show ?thesis using inv by (auto simp: va_invx_def free_ok_def)
qed

lemma set_flags_ok:
  assumes inv: "va_invx s F B X" and va: "va \<in> set F \<union> set B \<union> set X"
  shows "va_invx (set_va_flags va v s) F B X" and "kept_areas (set F \<union> set B \<union> set X) s (set_va_flags va v s)"
proof -
  note i = va_invxD [OF inv]
  have "is_obj s va" using i(5) [OF va] by (simp add: area_ok_def)
  note w = set_va_inv(5,6) [OF i(1) this, of v]
  have fa: "fields_apart (set F \<union> set B \<union> set X)" using objs_field_apart [OF inv, of "{}"] by simp
  have b: "va_start (set_va_flags va v s) a = va_start s a" "va_end (set_va_flags va v s) a = va_end s a" if "a \<in> set F \<union> set B \<union> set X" for a
    by (rule set_va_fields [OF fa va that])+
  show "kept_areas (set F \<union> set B \<union> set X) s (set_va_flags va v s)" using b by (simp add: kept_areas_def bounds_eq)
  have o: "is_obj (set_va_flags va v s) a = is_obj s a" for a using w(2) by (simp add: is_obj_def)
  have ao: "area_ok (set_va_flags va v s) a" if "a \<in> set F \<union> set B \<union> set X" for a
    using i(5) [OF that] b [OF that] by (simp add: area_ok_def o)
  show "va_invx (set_va_flags va v s) F B X"
  proof (rule va_invx_change [OF inv w(1)])
    show "apart (set_va_flags va v s) a c" if "a \<in> set X" "c \<in> set F \<union> set B \<union> set X" "a \<noteq> c" for a c
      using i(6) [of a c] that b by (simp add: apart_def)
    show "is_obj (set_va_flags va v s) a" if "a \<in> set F \<union> set B \<union> {rb_nil (free_tree s)}" for a
      using that i(2) i(5) [of a] by (auto simp: o area_ok_def)
  qed (use i(3,4) ao b in \<open>auto simp: bounds_eq\<close>)
qed

lemma page_round:
  assumes "unat x + 4095 < 2 ^ 64"
  shows "unat ((x + VA_ALIGN_DEFAULT - 1) AND NOT (VA_ALIGN_DEFAULT - 1)) = (unat x + 4095) div 4096 * 4096"
proof -
  have "x + VA_ALIGN_DEFAULT - 1 = x + 4095" by (simp add: VA_ALIGN_DEFAULT_def)
  moreover have "NOT (VA_ALIGN_DEFAULT - 1) = NOT (mask 12 :: u64)" by (simp add: VA_ALIGN_DEFAULT_def mask_eq_decr_exp)
  moreover have "unat (x + 4095) = unat x + 4095" using assms by (subst unat_add_noov) simp_all
  ultimately show ?thesis by (simp only: unat_and_not_mask) (simp add: minus_mod_eq_div_mult)
qed

lemma no_waste:
  assumes "area_ok s va"
  shows "split_before va VA_ALIGN_DEFAULT s = Some s"
proof -
  have d: "4096 dvd unat (va_start s va)" using assms by (simp add: area_ok_def)
  have "unat (va_start s va) + 4095 < 2 ^ 64" using area_arith [OF assms] by simp
  from page_round [OF this] have "unat ((va_start s va + VA_ALIGN_DEFAULT - 1) AND NOT (VA_ALIGN_DEFAULT - 1)) = unat (va_start s va)"
    using d by (auto simp: dvd_def)
  then have "(va_start s va + VA_ALIGN_DEFAULT - 1) AND NOT (VA_ALIGN_DEFAULT - 1) = va_start s va" by (simp add: word_unat_eq_iff)
  then show ?thesis by (simp add: split_before_def Let_def)
qed

lemma space_remove: "a \<in> set F \<Longrightarrow> distinct F \<Longrightarrow> space s F = space s (remove1 a F) \<union> span s a"
  by (auto simp: space_def)

definition round_size :: "u64 \<Rightarrow> u64" where
  "round_size n = (n + VA_ALIGN_DEFAULT - 1) AND NOT (VA_ALIGN_DEFAULT - 1)"

text \<open>The area \<open>a\<close> of the free list \<open>F\<close> becomes the first busy one.\<close>

definition va_taken :: "u64 \<Rightarrow> u64 list \<Rightarrow> u64 list \<Rightarrow> 'a kvmap_scheme \<Rightarrow> u64 \<Rightarrow> 'a kvmap_scheme \<Rightarrow> u64 list \<Rightarrow> bool" where
  "va_taken sz F B s a t F' \<longleftrightarrow> a \<in> set F \<and> va_inv t F' (a # B) \<and> best_of s sz (set F) (Some a) \<and>
     va_start t a = va_start s a \<and> sz \<le> va_size t a \<and> va_end t a \<le> va_end s a \<and> (\<forall>b \<in> set B. bounds t b = bounds s b) \<and>
     space t F' \<union> span t a = space s F \<and> nr_busy t = nr_busy s + 1 \<and> total_free t = total_free s - va_size t a"

lemma va_alloc_ok:
  assumes inv: "va_inv s F B" and sz0: "size0 \<noteq> 0" "unat size0 + 4095 < 2 ^ 64" and al: "align \<le> VA_ALIGN_DEFAULT"
  defines "sz \<equiv> round_size size0"
  shows "va_alloc size0 align fl s = Some (0, s) \<and> (\<forall>a \<in> set F. va_size s a < sz) \<or>
    (\<exists>a t F'. va_alloc size0 align fl s = Some (va_start s a, t) \<and> va_taken sz F B s a t F')"
proof -
  have inv: "va_invx s F B []" using inv by (simp add: va_inv_def)
  note i = va_invxD [OF inv]
  have szv: "unat sz = (unat size0 + 4095) div 4096 * 4096" unfolding sz_def round_size_def by (rule page_round [OF sz0(2)])
  have "0 < unat size0" using sz0(1) by (simp add: unat_gt_0)
  then have sz: "sz \<noteq> 0" "4096 dvd unat sz" using szv by (auto simp: word_unat_eq_iff)
  have ad: "(if align < VA_ALIGN_DEFAULT then VA_ALIGN_DEFAULT else align) = VA_ALIGN_DEFAULT" using al by auto
  obtain r where r: "va_find_best_fit sz s = Some r" "best_of s sz (set F) r" using va_find_best_fit_ok [OF inv] by blast
  show ?thesis
  proof (cases r)
    case None
    then show ?thesis using r sz0(1) ad by (simp add: va_alloc_def Let_def best_of_def flip: round_size_def sz_def)
  next
    case (Some a)
    then have a: "a \<in> set F" "sz \<le> va_size s a" using r(2) by (auto simp: best_of_def)
    obtain k f where rm: "va_remove_free a s = Some (s\<lparr>knodes := k, free_tree := f\<rparr>)" "va_invx (s\<lparr>knodes := k, free_tree := f\<rparr>) (remove1 a F) B [a]"
      using va_remove_free_ok [OF inv a(1)] by blast
    let ?s1 = "s\<lparr>knodes := k, free_tree := f\<rparr>"
    have "area_ok ?s1 a" using va_invxD(5) [OF rm(2), of a] by simp
    note sb = no_waste [OF this]
    obtain s3 F' where sa: "split_after a sz ?s1 = Some s3" "va_invx s3 F' B [a]" "kept_areas (set B \<union> set []) ?s1 s3" "trimmed a sz ?s1 s3 (remove1 a F) F'"
      using split_after_ok [OF rm(2) sz] a(2) by auto
    note sf = set_flags_ok [OF sa(2), of a fl]
    let ?s4 = "set_va_flags a fl s3" let ?s5 = "?s4\<lparr>knodes := list_add (BusyNode a) BusyHead (knodes ?s4)\<rparr>"
    let ?t = "?s5\<lparr>nr_busy := nr_busy ?s5 + 1, total_free := total_free ?s5 - va_size ?s5 a\<rparr>"
    have va4: "va_invx ?s5 F' (a # B) []" using busy_add [OF sf(1)] by simp
    have e: "va_alloc size0 align fl s = Some (va_start ?t a, ?t)"
      using sz0(1) ad r(1) Some rm(1) sb sa(1) by (simp add: va_alloc_def Let_def flip: round_size_def sz_def)
    have b4: "bounds ?s4 c = bounds s3 c" if "c \<in> set F' \<union> set B \<union> {a}" for c using sf(2) that by (auto simp: kept_areas_def)
    have ba: "va_start ?t a = va_start s3 a" "va_end ?t a = va_end s3 a" using b4 [of a] by (simp_all add: bounds_eq)
    have tr: "va_start s3 a = va_start s a" "sz \<le> va_size s3 a" "va_end s3 a \<le> va_end s a"
      "space s3 F' = space s (remove1 a F) \<union> {unat (va_end s3 a)..<unat (va_end s a)}" using sa(4) by (simp_all add: trimmed_def)
    have "space ?t F' = space s3 F'" using b4 span_cong [of ?s4 _ s3] by (simp add: space_def)
    moreover have "span ?t a \<union> {unat (va_end s3 a)..<unat (va_end s a)} = span s a"
      using ba tr(1,3) area_arith(2) [OF va_invxD(5) [OF sa(2), of a]] by (auto simp: span_def word_le_nat_alt)
    moreover have "space s F = space s (remove1 a F) \<union> span s a" by (rule space_remove) (use a(1) i(4) in auto)
    ultimately have sp: "space ?t F' \<union> span ?t a = space s F" using tr(4) by blast
    have "va_size ?t a = va_size s3 a" using ba by (simp add: va_size_def)
    moreover have "nr_busy ?t = nr_busy s + 1" "total_free ?t = total_free s - va_size ?t a" "\<forall>b \<in> set B. bounds ?t b = bounds s b"
      using sf(2) sa(3) by (simp_all add: kept_areas_def)
    moreover have "va_inv ?t F' (a # B)" using va4 by (simp add: va_inv_def va_invx_def free_ok_def)
    ultimately have "va_taken sz F B s a ?t F'" using a r(2) Some ba tr sp by (simp add: va_taken_def)
    then show ?thesis using e ba(1) tr(1) by auto
  qed
qed

section \<open>Release\<close>

lemma loop_spec_find:
  "snd (loop_spec lh (\<lambda>n r. if P n then (Some (g n), True) else (r, False)) xs None) = map_option g (find P xs)"
  by (induction xs) auto

lemma loop_spec_last:
  "snd (loop_spec lh (\<lambda>n r. if P n then (Some (g n), False) else (r, True)) xs acc) =
     (if takeWhile P xs = [] then acc else Some (g (last (takeWhile P xs))))"
  by (induction xs arbitrary: acc) auto

lemma busy_del:
  assumes inv: "va_invx s F B X" and a: "a \<in> set B"
  shows "va_invx (s\<lparr>knodes := list_del (BusyNode a) (knodes s)\<rparr>) F (remove1 a B) (a # X)"
proof -
  note i = va_invxD [OF inv]
  obtain us vs where B: "B = us @ a # vs" using split_list [OF a] by blast
  have d: "a \<notin> set us" "a \<notin> set vs" using i(4) B by auto
  have rB: "remove1 a B = us @ vs" using d(1) by (simp add: B remove1_append)
  let ?k = "list_del (BusyNode a) (knodes s)"
  have dl: "dlist (knodes s) BusyHead (map BusyNode us @ BusyNode a # map BusyNode vs)" using i(8) B by simp
  have "dlist ?k BusyHead (map BusyNode (us @ vs))" using dlist_del [OF dl] by simp
  moreover have "dlist ?k FreeHead (map FreeNode F)" by (rule dlist_del_frame [OF dl i(7)]) auto
  moreover have "areas_ok s (rb_nil (free_tree s)) (F @ (us @ vs) @ a # X)"
    by (rule areas_perm [of s _ "F @ B @ X"]) (use inv i(4) B in \<open>auto simp: va_invx_def\<close>)
  ultimately show ?thesis using inv rB by (auto simp: va_invx_def free_ok_def)
qed

text \<open>Two adjacent loose areas become one; the block of the second goes back to the slab allocator.\<close>

lemma fuse_ok:
  assumes inv: "va_invx s F B [p, a]" and adj: "va_end s p = va_start s a"
  shows "\<exists>t. kfree a (set_va_end p (va_end s a) s) = Some t \<and> va_invx t F B [p] \<and> kept_areas (set F \<union> set B) s t \<and> span t p = span s p \<union> span s a"
proof -
  note i = va_invxD [OF inv]
  let ?u = "set_va_end p (va_end s a) s"
  have po: "area_ok s p" and ao: "area_ok s a" using i(5) by auto
  have ob: "is_obj s p" "is_obj s a" using po ao by (simp_all add: area_ok_def)
  note w = set_va_inv(3,4) [OF i(1) ob(1), of "va_end s a"]
  have fa: "fields_apart (set F \<union> set B \<union> set [p, a])" using objs_field_apart [OF inv, of "{}"] by simp
  have bu: "va_start ?u c = va_start s c" "va_end ?u c = (if c = p then va_end s a else va_end s c)" if "c \<in> set F \<union> set B \<union> set [p, a]" for c
    by (rule set_va_fields(3,4) [OF fa _ that], simp)+
  obtain n where n: "(a, n) \<in> live ?u" "32 \<le> n" using ob(2) w(2) by (auto simp: is_obj_def)
  obtain t where t: "kfree a ?u = Some t" "slab_inv t" "live t = live ?u - {(a, n)}" "kept (live ?u - {(a, n)}) ?u t"
    using kfree_ok [OF w(1) n(1)] by blast
  note m = more_vmap [OF kfree_more [OF t(1)]]
  have st: "is_obj t c \<and> bounds t c = bounds ?u c" if "is_obj s c" "c \<noteq> a" for c
  proof -
    obtain k where k: "(c, k) \<in> live ?u" "32 \<le> k" using \<open>is_obj s c\<close> w(2) by (auto simp: is_obj_def)
    then have "(c, k) \<in> live ?u - {(a, n)}" using that(2) by auto
    then show ?thesis using t(3) k kept_bounds [OF w(1) t(4)] by (auto simp: is_obj_def)
  qed
  have FB: "is_obj s c" "c \<noteq> a" "c \<noteq> p" if "c \<in> set F \<union> set B" for c using that i(5) [of c] i(4) by (auto simp: area_ok_def)
  have pa: "p \<noteq> a" using i(4) by auto
  have same: "bounds t c = bounds s c" if "c \<in> set F \<union> set B" for c
    using st [OF FB(1,2) [OF that]] bu [of c] FB [OF that] that by (auto simp: bounds_eq)
  have pt: "va_start t p = va_start s p" "va_end t p = va_end s a" "is_obj t p" using st [OF ob(1) pa] bu [of p] by (simp_all add: bounds_eq)
  have lt: "va_start s p < va_end s p" "va_start s a < va_end s a" using po ao by (simp_all add: area_ok_def)
  have "va_invx t F B [p]"
  proof (rule va_invx_change [OF inv t(2)])
    show "apart t c b" if "c \<in> set [p]" "b \<in> set F \<union> set B \<union> set [p]" "c \<noteq> b" for c b
    proof -
      have b: "b \<in> set F \<union> set B" "c = p" using that by auto
      have "apart s p b" "apart s a b" using i(6) [of p b] i(6) [of a b] b FB [OF b(1)] by auto
      moreover have "va_start s b < va_end s b" using i(5) [of b] b(1) by (auto simp: area_ok_def)
      ultimately show ?thesis using adj lt same [OF b(1)] pt b(2) by (auto simp: apart_def bounds_eq)
    qed
    show "area_ok t c" if "c \<in> set [p]" for c using that po ao pt adj lt by (auto simp: area_ok_def)
    show "is_obj t c" if "c \<in> set F \<union> set B \<union> {rb_nil (free_tree s)}" for c using that st FB i(2,3) by auto
  qed (use m same i(3,4) in auto)
  moreover have "kept_areas (set F \<union> set B) s t" using same m by (simp add: kept_areas_def)
  moreover have "span t p = span s p \<union> span s a" using pt adj lt by (auto simp: span_def word_less_nat_alt)
  ultimately show ?thesis using t(1) by blast
qed

lemma merge_prev_ok:
  assumes inv: "va_invx s F B [a]"
  shows "\<exists>q t F'. merge_prev a s = Some (q, t) \<and> va_invx t F' B [q] \<and> kept_areas (set B) s t \<and> space t F' \<union> span t q = space s F \<union> span s a"
proof -
  note i = va_invxD [OF inv]
  let ?P = "\<lambda>n. va_end s (knode_obj n) \<le> va_start s a" let ?tw = "takeWhile (\<lambda>w. va_end s w \<le> va_start s a) F"
  have tw: "takeWhile ?P (map FreeNode F) = map FreeNode ?tw" by (simp add: takeWhile_map comp_def)
  have f: "va_find_prev_free (va_start s a) s = Some (if ?tw = [] then None else Some (last ?tw))"
    using loop_spec_last [of FreeHead ?P knode_obj "map FreeNode F" None] unfolding tw
    by (auto simp: va_find_prev_free_def list_for_each_entry_dlist [OF i(7)] last_map split: prod.splits)
  have no: "\<exists>q t F'. merge_prev a s = Some (q, t) \<and> va_invx t F' B [q] \<and> kept_areas (set B) s t \<and> space t F' \<union> span t q = space s F \<union> span s a"
    if "merge_prev a s = Some (a, s)" using that inv by (auto simp: kept_areas_def)
  show ?thesis
  proof (cases "?tw \<noteq> [] \<and> va_end s (last ?tw) = va_start s a")
    case False
    then have "merge_prev a s = Some (a, s)" using f by (auto simp: merge_prev_def)
    then show ?thesis by (rule no)
  next
    case True
    let ?p = "last ?tw"
    have p: "?p \<in> set F" using True last_in_set set_takeWhileD by metis
    obtain k g where rm: "va_remove_free ?p s = Some (s\<lparr>knodes := k, free_tree := g\<rparr>)" "va_invx (s\<lparr>knodes := k, free_tree := g\<rparr>) (remove1 ?p F) B [?p, a]"
      using va_remove_free_ok [OF inv p] by blast
    obtain t where t: "kfree a (set_va_end ?p (va_end s a) (s\<lparr>knodes := k, free_tree := g\<rparr>)) = Some t" "va_invx t (remove1 ?p F) B [?p]"
      "kept_areas (set (remove1 ?p F) \<union> set B) (s\<lparr>knodes := k, free_tree := g\<rparr>) t" "span t ?p = span s ?p \<union> span s a"
      using fuse_ok [OF rm(2)] True by auto
    have "merge_prev a s = Some (?p, t)" using f True rm(1) t(1) by (simp add: merge_prev_def)
    moreover have "space t (remove1 ?p F) = space s (remove1 ?p F)" using t(3) span_cong [of t _ s] by (simp add: kept_areas_def space_def)
    moreover have "space s F = space s (remove1 ?p F) \<union> span s ?p" by (rule space_remove [OF p]) (use i(4) in simp)
    ultimately show ?thesis using t(2,3,4) by (intro exI [of _ ?p] exI [of _ t] exI [of _ "remove1 ?p F"]) (auto simp: kept_areas_def)
  qed
qed

text \<open>The search for the area behind asks for a start strictly above the end, so it is never adjacent.\<close>

lemma merge_next_none:
  assumes "va_invx s F B X"
  shows "merge_next q s = Some s"
proof -
  let ?P = "\<lambda>n. va_end s q < va_start s (knode_obj n)"
  have "va_find_next_free (va_end s q) s = Some (map_option knode_obj (find ?P (map FreeNode F)))"
    using loop_spec_find [of FreeHead ?P knode_obj "map FreeNode F"]
    by (auto simp: va_find_next_free_def list_for_each_entry_dlist [OF va_invxD(7) [OF assms]] split: prod.splits)
  then show ?thesis by (auto simp: merge_next_def find_Some_iff split: option.splits)
qed

text \<open>The busy area \<open>a\<close> becomes free space.\<close>

definition va_released :: "u64 list \<Rightarrow> u64 list \<Rightarrow> 'a kvmap_scheme \<Rightarrow> u64 \<Rightarrow> 'a kvmap_scheme \<Rightarrow> u64 list \<Rightarrow> bool" where
  "va_released F B s a t F' \<longleftrightarrow> va_inv t F' (remove1 a B) \<and> (\<forall>b \<in> set (remove1 a B). bounds t b = bounds s b) \<and>
     space t F' = space s F \<union> span s a \<and> nr_busy t = nr_busy s - 1"

lemma find_by_addr:
  assumes inv: "va_invx s F B X"
  shows "va_find_by_addr r s = Some (find (\<lambda>a. va_start s a = r) B)"
proof -
  let ?P = "\<lambda>n. va_start s (knode_obj n) = r"
  have "find ?P (map BusyNode B) = map_option BusyNode (find (\<lambda>a. va_start s a = r) B)" by (induction B) auto
  then show ?thesis
    using loop_spec_find [of BusyHead ?P knode_obj "map BusyNode B"]
    by (auto simp: va_find_by_addr_def list_for_each_entry_dlist [OF va_invxD(8) [OF inv]] option.map_comp comp_def option.map_ident split: prod.splits)
qed

lemma busy_start:
  assumes inv: "va_invx s F B X" and a: "a \<in> set B"
  shows "find (\<lambda>b. va_start s b = va_start s a) B = Some a" and "va_start s a \<noteq> 0"
proof -
  note i = va_invxD [OF inv]
  have lt: "va_start s b < va_end s b" if "b \<in> set B" for b using i(5) [of b] that by (auto simp: area_ok_def)
  have un: "b = a" if "b \<in> set B" "va_start s b = va_start s a" for b
    using i(6) [of b a] lt [OF that(1)] lt [OF a] that a by (fastforce simp: apart_def)
  obtain c where c: "find (\<lambda>b. va_start s b = va_start s a) B = Some c" using a by (cases "find (\<lambda>b. va_start s b = va_start s a) B") (auto simp: find_None_iff)
  then obtain k where "k < length B" "va_start s (B ! k) = va_start s a" "c = B ! k" unfolding find_Some_iff by blast
  then show "find (\<lambda>b. va_start s b = va_start s a) B = Some a" using c un [of c] by simp
  have "area_ok s a" using i(5) a by blast
  from area_arith(4) [OF this] show "va_start s a \<noteq> 0" by auto
qed

lemma va_free_ok:
  assumes inv: "va_inv s F B" and a: "a \<in> set B"
  shows "\<exists>t F'. va_free (va_start s a) s = Some t \<and> va_released F B s a t F'"
proof -
  have inv: "va_invx s F B []" using inv by (simp add: va_inv_def)
  note f = busy_start [OF inv a]
  let ?s1 = "s\<lparr>knodes := list_del (BusyNode a) (knodes s)\<rparr>" let ?s2 = "?s1\<lparr>nr_busy := nr_busy ?s1 - 1\<rparr>"
  have "va_invx ?s1 F (remove1 a B) [a]" by (rule busy_del [OF inv a])
  then have i2: "va_invx ?s2 F (remove1 a B) [a]" by (simp add: va_invx_def free_ok_def)
  obtain q s3 F3 where m: "merge_prev a ?s2 = Some (q, s3)" "va_invx s3 F3 (remove1 a B) [q]" "kept_areas (set (remove1 a B)) ?s2 s3"
    "space s3 F3 \<union> span s3 q = space s F \<union> span s a" using merge_prev_ok [OF i2] by auto
  let ?s5 = "s3\<lparr>total_free := total_free s3 + va_size s3 a\<rparr>"
  have i5: "va_invx ?s5 F3 (remove1 a B) [q]" using m(2) by (simp add: va_invx_def free_ok_def)
  obtain k g F' where t: "va_insert_free q ?s5 = Some (?s5\<lparr>knodes := k, free_tree := g\<rparr>)" "va_invx (?s5\<lparr>knodes := k, free_tree := g\<rparr>) F' (remove1 a B) []"
    "set F' = insert q (set F3)" using va_insert_free_ok [OF i5] by blast
  let ?t = "?s5\<lparr>knodes := k, free_tree := g\<rparr>"
  have "va_free (va_start s a) s = Some ?t"
    using f(2) find_by_addr [OF inv] f(1) m(1) merge_next_none [OF m(2)] t(1) by (simp add: va_free_def)
  moreover have "space ?t F' = space s F \<union> span s a" using space_insert [OF t(3), of ?t s3] m(4) by simp
  moreover have "nr_busy ?t = nr_busy s - 1" "\<forall>b \<in> set (remove1 a B). bounds ?t b = bounds s b" using m(3) by (simp_all add: kept_areas_def)
  ultimately show ?thesis using t(2) unfolding va_released_def va_inv_def by blast
qed

end
