(* ===== verification/Vmap_Properties.thy ===== *)
theory Vmap_Properties
  imports Vmap_Correct
begin

text \<open>
  What the users of \<^verbatim>\<open>kernel/vmap.c\<close> rely on: after initialisation the whole vmalloc region is free, an
  allocation hands out a range that was free, a release gives exactly that range back, and over any
  sequence of calls no two ranges that are in use overlap.
\<close>

section \<open>Initialisation\<close>

definition va_fill :: "u64 \<Rightarrow> u64 \<Rightarrow> u64 \<Rightarrow> 'a kmem_scheme \<Rightarrow> 'a kmem_scheme" where
  "va_fill x l h s = set_va_flags x 0 (set_va_end x h (set_va_start x l s))"

lemma va_fill_ok:
  fixes s :: "'a kvmap_scheme"
  assumes inv: "va_invx s [] [] []" and x: "is_obj s x" "x \<noteq> rb_nil (free_tree s)"
    and lh: "l < h" "VMALLOC_START \<le> l" "h \<le> VMALLOC_END" "4096 dvd unat l" "4096 dvd unat h"
  shows "va_invx (va_fill x l h s) [] [] [x]" and "bounds (va_fill x l h s) x = (l, h)"
proof -
  note i = va_invxD [OF inv]
  let ?s1 = "set_va_start x l s" let ?s2 = "set_va_end x h ?s1" let ?t = "va_fill x l h s"
  have 1: "slab_inv ?s1" "live ?s1 = live s" by (rule set_va_inv [OF i(1) x(1)])+
  then have o1: "is_obj ?s1 x" using x(1) by (simp add: is_obj_def)
  have 2: "slab_inv ?s2" "live ?s2 = live ?s1" by (rule set_va_inv [OF 1(1) o1])+
  then have o2: "is_obj ?s2 x" using o1 by (simp add: is_obj_def)
  have 3: "slab_inv ?t" "live ?t = live ?s2" unfolding va_fill_def by (rule set_va_inv [OF 2(1) o2])+
  have o: "is_obj ?t a = is_obj s a" for a using 1(2) 2(2) 3(2) by (simp add: is_obj_def)
  have fa: "fields_apart {x}" by (rule live_objs_apart [OF i(1)]) (use x(1) in simp)
  show b: "bounds ?t x = (l, h)" by (simp add: va_fill_def bounds_def set_va_fields [OF fa])
  then have se: "va_start ?t x = l" "va_end ?t x = h" by (simp_all add: bounds_def)
  show "va_invx ?t [] [] [x]"
    by (rule va_invx_change [OF inv 3(1)]) (use x lh o i(2) se in \<open>auto simp: va_fill_def area_ok_def\<close>)
qed

lemma va_init_lists:
  fixes s :: "'a kvmap_scheme"
  assumes inv: "slab_inv s" and nl: "is_obj s nl"
  shows "va_invx (s\<lparr>free_tree := rb_tree_init nl (free_tree s), knodes := INIT_LIST_HEAD BusyHead (INIT_LIST_HEAD FreeHead (knodes s)),
    total_free := n, nr_busy := 0\<rparr>) [] [] []"
proof -
  let ?k = "INIT_LIST_HEAD BusyHead (INIT_LIST_HEAD FreeHead (knodes s))" let ?f = "rb_tree_init nl (free_tree s)"
  have "rb_nil ?f = nl" by (simp add: rb_tree_init_def Let_def set_defs)
  moreover have "dlist ?k BusyHead []" "dlist ?k FreeHead []" using dlist_INIT dlist_INIT_frame [OF dlist_INIT, of BusyHead FreeHead] by simp_all
  moreover have "balanced ?f Tip" by (rule rb_tree_init_balanced)
  ultimately show ?thesis using assms by (auto simp: va_invx_def areas_ok_def is_obj_def free_ok_def intro!: exI [of _ Tip])
qed

lemma va_manager_init_ok:
  fixes s s2 :: "'a kvmap_scheme"
  assumes inv: "slab_inv s" and k: "kmalloc sizeof_rb_node GFP_KERNEL (s\<lparr>va_mgr_start := VMALLOC_START, va_mgr_end := VMALLOC_END\<rparr>) = Some (nl, s2)" "nl \<noteq> 0"
  defines "s5 \<equiv> s2\<lparr>free_tree := rb_tree_init nl (free_tree s2), knodes := INIT_LIST_HEAD BusyHead (INIT_LIST_HEAD FreeHead (knodes s2)),
    total_free := VMALLOC_END - VMALLOC_START, nr_busy := 0\<rparr>"
  shows "\<exists>x s6 t F. kmalloc sizeof_vmap_area GFP_KERNEL s5 = Some (x, s6) \<and> va_manager_init s = Some t \<and> va_inv t F [] \<and>
    (if x = 0 then F = [] else F = [x] \<and> bounds t x = (VMALLOC_START, VMALLOC_END))"
proof -
  let ?s1 = "s\<lparr>va_mgr_start := VMALLOC_START, va_mgr_end := VMALLOC_END\<rparr>"
  have "slab_inv ?s1" using inv slab_same [of ?s1 s] by simp
  then have h: "handed_out (unat sizeof_rb_node) nl ?s1 s2" using kmalloc_ok [of ?s1 sizeof_rb_node GFP_KERNEL] k(1) by simp
  then have i2: "slab_inv s2" by (simp add: handed_out_def)
  obtain n where "32 \<le> n" "live s2 = insert (nl, n) (live ?s1)" using h k(2) by (auto simp: handed_out_def sizeof_rb_node_def)
  then have o2: "is_obj s2 nl" unfolding is_obj_def by (intro exI [of _ n]) simp
  have i5: "va_invx s5 [] [] []" unfolding s5_def by (rule va_init_lists [OF i2 o2])
  obtain x s6 where x: "kmalloc sizeof_vmap_area GFP_KERNEL s5 = Some (x, s6)" "va_invx s6 [] [] []" "x \<noteq> 0 \<longrightarrow> is_obj s6 x \<and> x \<noteq> rb_nil (free_tree s6)"
    using kmalloc_area [OF i5] by auto
  have run: "va_manager_init s = (if x = 0 then Some s6 else va_insert_free x (va_fill x VMALLOC_START VMALLOC_END s6))"
    using k(1) x(1) by (simp add: va_manager_init_def s5_def va_fill_def)
  show ?thesis
  proof (cases "x = 0")
    case True
    then show ?thesis using run x by (intro exI [of _ x] exI [of _ s6] exI [of _ "[]"]) (simp add: va_inv_def)
  next
    case False
    let ?u = "va_fill x VMALLOC_START VMALLOC_END s6"
    have c: "VMALLOC_START < VMALLOC_END" "4096 dvd unat VMALLOC_START" "4096 dvd unat VMALLOC_END"
      by (simp_all add: VMALLOC_START_def VMALLOC_END_def VMALLOC_SIZE_def)
    have u: "va_invx ?u [] [] [x]" "bounds ?u x = (VMALLOC_START, VMALLOC_END)"
      using va_fill_ok [OF x(2), of x VMALLOC_START VMALLOC_END] x(3) False c by simp_all
    obtain k f F where ins: "va_insert_free x ?u = Some (?u\<lparr>knodes := k, free_tree := f\<rparr>)" "va_invx (?u\<lparr>knodes := k, free_tree := f\<rparr>) F [] []" "set F = {x}"
      using va_insert_free_ok [OF u(1)] by auto
    have "length F = 1" using distinct_card [of F] va_invxD(4) [OF ins(2)] ins(3) by simp
    then obtain y where "F = [y]" by (metis One_nat_def length_0_conv length_Suc_conv)
    then have "F = [x]" using ins(3) by simp
    then show ?thesis using run False ins x(1) u(2)
      by (intro exI [of _ x] exI [of _ s6] exI [of _ "?u\<lparr>knodes := k, free_tree := f\<rparr>"] exI [of _ F]) (simp add: va_inv_def)
  qed
qed

section \<open>A manager to work with\<close>

definition demo_kernel :: kvmap where
  "demo_kernel = slab_init \<lparr>km_pmm = demo_pmm, mem64 = (\<lambda>_. 0), slab_linear_map_base = 0xFFFF800000000000, slab_l0_table_pa = 0,
     linear_map_base = 0, l0_table_pa = 0, ttbr0_el1 = 0, ttbr1_el1 = 0, mair_el1 = 0, tcr_el1 = 0, sctlr_el1 = 0, tlb_flushes = 0,
     slab_caches = (\<lambda>_. \<lparr>sc_size = 0, sc_partial = None\<rparr>), slab_pages = (\<lambda>_. zero_slab_page), large_allocs = (\<lambda>_. zero_large_alloc),
     knodes = \<lparr>next_of = id, prev_of = id\<rparr>,
     free_tree = \<lparr>rb_parent = id, rb_left = id, rb_right = id, rb_col = (\<lambda>_. RB_BLACK), rb_root = 0, rb_nil = 0\<rparr>,
     va_mgr_start = 0, va_mgr_end = 0, total_free = 0, nr_busy = 0\<rparr>"

lemma demo_kernel_inv: "slab_inv demo_kernel" "slab_used demo_kernel = {}" "km_pmm demo_kernel = demo_pmm"
  unfolding demo_kernel_def by (rule slab_init_ok; simp add: demo_inv base_ok_def)
    (simp_all add: slab_used_def slab_init_state zero_slab_page_def)

definition demo_va :: kvmap where
  "demo_va = the (va_manager_init demo_kernel)"

lemma demo_room: "room 0 demo_kernel"
  by (rule room_fresh [OF demo_kernel_inv])

lemma demo_sentinel:
  fixes s :: kvmap
  defines "s \<equiv> demo_kernel\<lparr>va_mgr_start := VMALLOC_START, va_mgr_end := VMALLOC_END\<rparr>"
  obtains nl t where "kmalloc sizeof_rb_node GFP_KERNEL s = Some (nl, t)" "nl \<noteq> 0" "room 1 t"
proof -
  have "room 0 s" using demo_room room_cong [of s demo_kernel 0] slab_same [of s demo_kernel] by (simp add: s_def)
  then show thesis using room_kmalloc [of 0 s sizeof_rb_node] that by (auto simp: sizeof_rb_node_def)
qed

lemma demo_va_ok: "\<exists>x. va_inv demo_va [x] [] \<and> bounds demo_va x = (VMALLOC_START, VMALLOC_END) \<and> va_manager_init demo_kernel = Some demo_va"
proof -
  let ?s = "demo_kernel\<lparr>va_mgr_start := VMALLOC_START, va_mgr_end := VMALLOC_END\<rparr>"
  obtain nl s2 where k: "kmalloc sizeof_rb_node GFP_KERNEL ?s = Some (nl, s2)" "nl \<noteq> 0" "room 1 s2" by (rule demo_sentinel)
  let ?s5 = "s2\<lparr>free_tree := rb_tree_init nl (free_tree s2), knodes := INIT_LIST_HEAD BusyHead (INIT_LIST_HEAD FreeHead (knodes s2)),
    total_free := VMALLOC_END - VMALLOC_START, nr_busy := 0\<rparr>"
  obtain x s6 t F where t: "kmalloc sizeof_vmap_area GFP_KERNEL ?s5 = Some (x, s6)" "va_manager_init demo_kernel = Some t" "va_inv t F []"
    "if x = 0 then F = [] else F = [x] \<and> bounds t x = (VMALLOC_START, VMALLOC_END)"
    using va_manager_init_ok [OF demo_kernel_inv(1) k(1,2)] by blast
  have "room 1 ?s5" using k(3) room_cong [of ?s5 s2 1] slab_same [of ?s5 s2] by simp
  then have "x \<noteq> 0" using room_kmalloc [of 1 ?s5 sizeof_vmap_area] t(1) by (auto simp: sizeof_vmap_area_def)
  then show ?thesis using t by (intro exI [of _ x]) (simp add: demo_va_def)
qed

section \<open>The contract of an allocator of ranges\<close>

text \<open>
  A caller sees the ranges that are in use, given by their first address and the address behind the
  last. It may ask for a size and may release any address; \<open>run_calls\<close> collects the requests it holds.
\<close>

datatype va_call = Va_alloc u64 | Va_free u64

fun run_calls :: "(u64 \<Rightarrow> 's \<Rightarrow> (u64 \<times> 's) option) \<Rightarrow> (u64 \<Rightarrow> 's \<Rightarrow> 's option) \<Rightarrow> va_call list \<Rightarrow> 's \<Rightarrow> (u64 \<times> u64) list \<Rightarrow>
    ('s \<times> (u64 \<times> u64) list) option" where
  "run_calls alloc free [] s H = Some (s, H)"
| "run_calls alloc free (Va_alloc n # cs) s H = do { (r, t) \<leftarrow> alloc n s; run_calls alloc free cs t (if r = 0 then H else (r, n) # H) }"
| "run_calls alloc free (Va_free r # cs) s H = do { t \<leftarrow> free r s; run_calls alloc free cs t (filter (\<lambda>h. fst h \<noteq> r) H) }"

definition request_ok :: "u64 \<Rightarrow> bool" where
  "request_ok n \<longleftrightarrow> n \<noteq> 0 \<and> unat n + 4095 < 2 ^ 64"

definition no_overlap :: "(u64 \<times> u64) list \<Rightarrow> bool" where
  "no_overlap H \<longleftrightarrow> distinct (map fst H) \<and>
     (\<forall>(a, n) \<in> set H. \<forall>(b, m) \<in> set H. a \<noteq> b \<longrightarrow> unat a + unat n \<le> unat b \<or> unat b + unat m \<le> unat a)"

locale range_allocator =
  fixes in_use :: "'s \<Rightarrow> (u64 \<times> u64) set \<Rightarrow> bool"
    and alloc :: "u64 \<Rightarrow> 's \<Rightarrow> (u64 \<times> 's) option"
    and free :: "u64 \<Rightarrow> 's \<Rightarrow> 's option"
    and low high :: u64
  assumes ranges: "in_use s R \<Longrightarrow> (a, b) \<in> R \<Longrightarrow> a < b \<and> low \<le> a \<and> b \<le> high"
    and disjoint: "in_use s R \<Longrightarrow> (a, b) \<in> R \<Longrightarrow> (c, d) \<in> R \<Longrightarrow> (a, b) \<noteq> (c, d) \<Longrightarrow> b \<le> c \<or> d \<le> a"
    and alloc: "in_use s R \<Longrightarrow> request_ok n \<Longrightarrow>
      \<exists>r t. alloc n s = Some (r, t) \<and> (r = 0 \<and> in_use t R \<or> r \<noteq> 0 \<and> (\<exists>e. (r, e) \<notin> R \<and> n \<le> e - r \<and> in_use t (insert (r, e) R)))"
    and free: "in_use s R \<Longrightarrow> \<exists>t. free r s = Some t \<and> in_use t {h \<in> R. fst h \<noteq> r}"
begin

definition holds :: "'s \<Rightarrow> (u64 \<times> u64) list \<Rightarrow> bool" where
  "holds s H \<longleftrightarrow> distinct (map fst H) \<and> (\<exists>R. in_use s R \<and> (\<forall>(a, n) \<in> set H. \<exists>e. (a, e) \<in> R \<and> n \<le> e - a))"

lemma same_start: "in_use s R \<Longrightarrow> (a, b) \<in> R \<Longrightarrow> (a, d) \<in> R \<Longrightarrow> b = d"
  using ranges disjoint by (metis leD prod.inject)

lemma alloc_holds:
  assumes "holds s H" "request_ok n"
  shows "\<exists>r t. alloc n s = Some (r, t) \<and> holds t (if r = 0 then H else (r, n) # H)"
proof -
  obtain R where R: "in_use s R" "\<forall>(a, n) \<in> set H. \<exists>e. (a, e) \<in> R \<and> n \<le> e - a" "distinct (map fst H)"
    using assms(1) by (auto simp: holds_def)
  obtain r t where t: "alloc n s = Some (r, t)"
    "r = 0 \<and> in_use t R \<or> r \<noteq> 0 \<and> (\<exists>e. (r, e) \<notin> R \<and> n \<le> e - r \<and> in_use t (insert (r, e) R))"
    using alloc [OF R(1) assms(2)] by blast
  show ?thesis
  proof (cases "r = 0")
    case True
    then show ?thesis using t R by (auto simp: holds_def)
  next
    case False
    then obtain e where e: "(r, e) \<notin> R" "n \<le> e - r" "in_use t (insert (r, e) R)" using t(2) by blast
    have "r \<notin> fst ` set H"
    proof
      assume "r \<in> fst ` set H"
      then obtain d where "(r, d) \<in> R" using R(2) by force
      then show False using same_start [OF e(3), of r d e] e(1) by auto
    qed
    then have "holds t ((r, n) # H)" unfolding holds_def using R e by (auto intro!: exI [of _ "insert (r, e) R"])
    then show ?thesis using t(1) False by simp
  qed
qed

lemma free_holds: "holds s H \<Longrightarrow> \<exists>t. free r s = Some t \<and> holds t (filter (\<lambda>h. fst h \<noteq> r) H)"
proof -
  assume "holds s H"
  then obtain R where R: "in_use s R" "\<forall>(a, n) \<in> set H. \<exists>e. (a, e) \<in> R \<and> n \<le> e - a" "distinct (map fst H)"
    by (auto simp: holds_def)
  then obtain t where t: "free r s = Some t" "in_use t {h \<in> R. fst h \<noteq> r}" using free by blast
  then have "holds t (filter (\<lambda>h. fst h \<noteq> r) H)" unfolding holds_def
    using R by (intro conjI exI [of _ "{h \<in> R. fst h \<noteq> r}"]) (auto simp: distinct_map_filter)
  then show ?thesis using t(1) by blast
qed

lemma run_holds:
  assumes "holds s H" "\<And>n. Va_alloc n \<in> set cs \<Longrightarrow> request_ok n"
  shows "\<exists>t H'. run_calls alloc free cs s H = Some (t, H') \<and> holds t H'"
  using assms
proof (induction cs arbitrary: s H)
  case (Cons c cs)
  show ?case
  proof (cases c)
    case (Va_alloc n)
    then show ?thesis using alloc_holds [OF Cons.prems(1), of n] Cons by fastforce
  next
    case (Va_free r)
    then show ?thesis using free_holds [OF Cons.prems(1), of r] Cons by fastforce
  qed
qed auto

lemma held_inside: "holds s H \<Longrightarrow> (a, n) \<in> set H \<Longrightarrow> low \<le> a \<and> unat a + unat n \<le> unat high"
proof -
  assume "holds s H" "(a, n) \<in> set H"
  then obtain R e where R: "in_use s R" "(a, e) \<in> R" "n \<le> e - a" by (auto simp: holds_def)
  then show ?thesis using ranges [OF R(1,2)] by (auto simp: word_le_nat_alt word_less_nat_alt unat_sub)
qed

lemma held_apart: "holds s H \<Longrightarrow> no_overlap H"
proof -
  assume h: "holds s H"
  then obtain R where R: "in_use s R" "\<forall>(a, n) \<in> set H. \<exists>e. (a, e) \<in> R \<and> n \<le> e - a" by (auto simp: holds_def)
  have "unat a + unat n \<le> unat b \<or> unat b + unat m \<le> unat a" if ab: "(a, n) \<in> set H" "(b, m) \<in> set H" "a \<noteq> b" for a n b m
  proof -
    obtain d e where de: "(a, d) \<in> R" "n \<le> d - a" "(b, e) \<in> R" "m \<le> e - b" using R(2) ab(1,2) by blast
    then show ?thesis using ranges [OF R(1) de(1)] ranges [OF R(1) de(3)] disjoint [OF R(1) de(1,3)] ab(3)
      by (auto simp: word_le_nat_alt word_less_nat_alt unat_sub)
  qed
  then show ?thesis using h by (auto simp: no_overlap_def holds_def)
qed

end

section \<open>The manager keeps the contract\<close>

definition va_in_use :: "'a kvmap_scheme \<Rightarrow> (u64 \<times> u64) set \<Rightarrow> bool" where
  "va_in_use s R \<longleftrightarrow> (\<exists>F B. va_inv s F B \<and> R = bounds s ` set B)"

lemma round_size_ge:
  assumes "request_ok n"
  shows "n \<le> round_size n"
proof -
  have "unat (round_size n) = (unat n + 4095) div 4096 * 4096"
    using page_round [of n] assms by (simp add: request_ok_def round_size_def)
  then show ?thesis by (simp add: word_le_nat_alt)
qed

lemma busy_free_apart:
  assumes inv: "va_invx s F B X" and a: "a \<in> set B"
  shows "space s F \<inter> span s a = {}"
proof -
  have "apart s a f" if "f \<in> set F" for f
    using va_invxD(6) [OF inv, of a f] va_invxD(4) [OF inv] that a by auto
  then show ?thesis by (force simp: space_def span_def apart_def word_le_nat_alt)
qed

lemma va_free_unknown:
  assumes inv: "va_inv s F B" and r: "r \<notin> va_start s ` set B"
  shows "va_free r s = Some s"
proof -
  have "find (\<lambda>a. va_start s a = r) B = None" using r by (auto simp: find_None_iff)
  then show ?thesis using find_by_addr [of s F B "[]"] inv by (simp add: va_free_def va_inv_def)
qed

lemma va_in_use_alloc:
  assumes u: "va_in_use s R" and n: "request_ok n" and al: "align \<le> VA_ALIGN_DEFAULT"
  shows "\<exists>r t. va_alloc n align fl s = Some (r, t) \<and>
    (r = 0 \<and> va_in_use t R \<or> r \<noteq> 0 \<and> (\<exists>e. (r, e) \<notin> R \<and> n \<le> e - r \<and> va_in_use t (insert (r, e) R)))"
proof -
  obtain F B where i: "va_inv s F B" and R: "R = bounds s ` set B" using u by (auto simp: va_in_use_def)
  have n': "n \<noteq> 0" "unat n + 4095 < 2 ^ 64" using n by (simp_all add: request_ok_def)
  from va_alloc_ok [OF i n' al, of fl] show ?thesis
  proof (elim disjE conjE exE)
    assume "va_alloc n align fl s = Some (0, s)"
    then show ?thesis using u by blast
  next
    fix a t F' assume t: "va_alloc n align fl s = Some (va_start s a, t)" "va_taken (round_size n) F B s a t F'"
    have k: "va_invx t F' (a # B) []" "va_start t a = va_start s a" "round_size n \<le> va_size t a" "\<forall>b \<in> set B. bounds t b = bounds s b"
      using t(2) by (simp_all add: va_taken_def va_inv_def)
    have z: "va_start s a \<noteq> 0" using busy_start(2) [OF k(1), of a] k(2) by simp
    have ne: "va_start s a \<noteq> va_start s b" if "b \<in> set B" for b
    proof
      assume "va_start s a = va_start s b"
      then have "va_start t a = va_start t b" using k(2,4) that by (simp add: bounds_def)
      then have "a = b" using busy_start(1) [OF k(1), of a] busy_start(1) [OF k(1), of b] that by simp
      then show False using va_invxD(4) [OF k(1)] that by simp
    qed
    have "(va_start s a, va_end t a) \<notin> R" using ne by (auto simp: R bounds_def)
    moreover have "n \<le> va_end t a - va_start s a" using round_size_ge [OF n] k(2,3) by (simp add: va_size_def)
    moreover have "va_in_use t (insert (va_start s a, va_end t a) R)"
      unfolding va_in_use_def using k by (intro exI [of _ F'] exI [of _ "a # B"]) (auto simp: va_inv_def R bounds_def)
    ultimately show ?thesis using t(1) z by blast
  qed
qed

lemma va_in_use_free:
  assumes u: "va_in_use s R"
  shows "\<exists>t. va_free r s = Some t \<and> va_in_use t {h \<in> R. fst h \<noteq> r}"
proof -
  obtain F B where i: "va_inv s F B" and R: "R = bounds s ` set B" using u by (auto simp: va_in_use_def)
  show ?thesis
  proof (cases "r \<in> va_start s ` set B")
    case False
    then have "{h \<in> R. fst h \<noteq> r} = R" by (auto simp: R bounds_def)
    then show ?thesis using va_free_unknown [OF i False] u by simp
  next
    case True
    then obtain a where a: "a \<in> set B" "r = va_start s a" by blast
    obtain t F' where t: "va_free r s = Some t" "va_released F B s a t F'" using va_free_ok [OF i a(1)] a(2) by blast
    have ix: "va_invx s F B []" using i by (simp add: va_inv_def)
    have un: "b = a" if "b \<in> set B" "va_start s b = r" for b
      using busy_start(1) [OF ix that(1), unfolded that(2)] busy_start(1) [OF ix a(1), folded a(2)] by simp
    have "set (remove1 a B) = set B - {a}" using va_invxD(4) [OF ix] by simp
    moreover have "bounds t ` set (remove1 a B) = bounds s ` set (remove1 a B)" using t(2) by (intro image_cong refl) (simp add: va_released_def)
    moreover have "{h \<in> bounds s ` set B. fst h \<noteq> r} = bounds s ` (set B - {a})" using un a(2) by (auto simp: bounds_def)
    moreover have "va_inv t F' (remove1 a B)" using t(2) by (simp add: va_released_def)
    ultimately have "va_in_use t {h \<in> R. fst h \<noteq> r}" unfolding va_in_use_def R by (intro exI [of _ F'] exI [of _ "remove1 a B"]) simp
    then show ?thesis using t(1) by blast
  qed
qed

interpretation va: range_allocator va_in_use "\<lambda>n. va_alloc n VA_ALIGN_DEFAULT VA_FLAG_VMALLOC" va_free VMALLOC_START VMALLOC_END
proof
  fix s :: "'a kvmap_scheme" and R a b c d
  assume u: "va_in_use s R" and ab: "(a, b) \<in> R"
  obtain F B where i: "va_invx s F B []" and R: "R = bounds s ` set B" using u by (auto simp: va_in_use_def va_inv_def)
  obtain x where x: "x \<in> set B" "a = va_start s x" "b = va_end s x" using ab by (auto simp: R bounds_def)
  have "area_ok s x" using va_invxD(5) [OF i, of x] x(1) by blast
  then show "a < b \<and> VMALLOC_START \<le> a \<and> b \<le> VMALLOC_END" using x by (simp add: area_ok_def)
  assume cd: "(c, d) \<in> R" "(a, b) \<noteq> (c, d)"
  then obtain y where "y \<in> set B" "c = va_start s y" "d = va_end s y" by (auto simp: R bounds_def)
  then show "b \<le> c \<or> d \<le> a" using va_invxD(6) [OF i, of x y] x cd(2) by (auto simp: apart_def)
qed (rule va_in_use_alloc va_in_use_free; simp)+


section \<open>Allocation and release\<close>

text \<open>C35: For a size that can be rounded up to pages and an alignment of at most a page, va_alloc on a consistent manager always
  returns. It returns NULL and changes nothing exactly when no free area is as large as the rounded size;
  otherwise it takes the smallest free area that is, returns its start, and the new busy area covers the request.
  The busy areas of before keep their bounds, the manager stays consistent, and the free space of
  before is the new free space and the new area.\<close>

theorem va_alloc_correct:
  assumes "va_inv s F B" "request_ok n" "align \<le> VA_ALIGN_DEFAULT"
  shows "va_alloc n align fl s = Some (0, s) \<and> (\<forall>a \<in> set F. va_size s a < round_size n) \<or>
    (\<exists>a t F'. va_alloc n align fl s = Some (va_start s a, t) \<and> va_start s a \<noteq> 0 \<and> a \<in> set F \<and>
       round_size n \<le> va_size s a \<and> (\<forall>b \<in> set F. round_size n \<le> va_size s b \<longrightarrow> va_size s a \<le> va_size s b) \<and>
       va_inv t F' (a # B) \<and> va_start t a = va_start s a \<and> n \<le> va_size t a \<and> (\<forall>b \<in> set B. bounds t b = bounds s b) \<and>
       space t F' \<union> span t a = space s F \<and> space t F' \<inter> span t a = {} \<and> nr_busy t = nr_busy s + 1)"
proof -
  have n: "n \<noteq> 0" "unat n + 4095 < 2 ^ 64" using assms(2) by (simp_all add: request_ok_def)
  from va_alloc_ok [OF assms(1) n assms(3), of fl] show ?thesis
  proof (elim disjE exE conjE)
    fix a t F' assume t: "va_alloc n align fl s = Some (va_start s a, t)" "va_taken (round_size n) F B s a t F'"
    then have i: "va_invx t F' (a # B) []" by (simp add: va_taken_def va_inv_def)
    have "n \<le> va_size t a" using round_size_ge [OF assms(2)] t(2) by (auto simp: va_taken_def)
    moreover have "va_start s a \<noteq> 0" using busy_start(2) [OF i, of a] t(2) by (simp add: va_taken_def)
    moreover have "space t F' \<inter> span t a = {}" using busy_free_apart [OF i, of a] by simp
    ultimately show ?thesis using t by (auto simp: va_taken_def best_of_def)
  qed blast
qed

lemma demo_request: "request_ok 5000" "(0 :: u64) \<le> VA_ALIGN_DEFAULT" "round_size 5000 = 8192"
  by (simp_all add: request_ok_def round_size_def VA_ALIGN_DEFAULT_def)

theorem va_alloc_correct_witness:
  "\<exists>x t F. va_inv demo_va [x] [] \<and> va_alloc 5000 0 VA_FLAG_VMALLOC demo_va = Some (VMALLOC_START, t) \<and> va_inv t F [x] \<and> 5000 \<le> va_size t x"
proof -
  obtain x where x: "va_inv demo_va [x] []" "bounds demo_va x = (VMALLOC_START, VMALLOC_END)" using demo_va_ok by blast
  then have "\<not> va_size demo_va x < round_size 5000"
    unfolding demo_request(3) by (simp add: va_size_def bounds_def VMALLOC_END_def VMALLOC_START_def VMALLOC_SIZE_def)
  then show ?thesis using va_alloc_correct [OF x(1) demo_request(1,2), of VA_FLAG_VMALLOC] x by (auto simp: bounds_def)
qed

text \<open>C36: va_free of the start of a busy area always returns. It takes exactly that area from the busy list and
  gives its whole range back to the free space, whether or not it is merged with the free area before it; all other
  busy areas keep their bounds and the manager stays consistent. Any other address, NULL included,
  changes nothing.\<close>

theorem va_free_correct:
  assumes "va_inv s F B"
  shows "(\<forall>a \<in> set B. \<exists>t F'. va_free (va_start s a) s = Some t \<and> va_inv t F' (remove1 a B) \<and>
      (\<forall>b \<in> set (remove1 a B). bounds t b = bounds s b) \<and> space t F' = space s F \<union> span s a \<and> nr_busy t = nr_busy s - 1) \<and>
    (\<forall>r. r \<notin> va_start s ` set B \<longrightarrow> va_free r s = Some s)"
  using va_free_ok [OF assms] va_free_unknown [OF assms] unfolding va_released_def by blast

theorem va_free_correct_witness:
  "\<exists>x t u F. va_alloc 5000 0 VA_FLAG_VMALLOC demo_va = Some (VMALLOC_START, t) \<and> va_free VMALLOC_START t = Some u \<and> va_inv u F [] \<and>
     space u F = space demo_va [x] \<and> va_free 0x1234000 demo_va = Some demo_va"
proof -
  obtain x where x: "va_inv demo_va [x] []" "bounds demo_va x = (VMALLOC_START, VMALLOC_END)" using demo_va_ok by blast
  then have "\<not> va_size demo_va x < round_size 5000"
    unfolding demo_request(3) by (simp add: va_size_def bounds_def VMALLOC_END_def VMALLOC_START_def VMALLOC_SIZE_def)
  then obtain t F where t: "va_alloc 5000 0 VA_FLAG_VMALLOC demo_va = Some (VMALLOC_START, t)" "va_taken (round_size 5000) [x] [] demo_va x t F"
    using va_alloc_ok [OF x(1), of 5000 0 VA_FLAG_VMALLOC] x(2) demo_request(1,2) by (auto simp: request_ok_def bounds_def va_taken_def)
  then have i: "va_inv t F [x]" "va_start t x = VMALLOC_START" "space t F \<union> span t x = space demo_va [x]"
    using x(2) by (simp_all add: va_taken_def bounds_def)
  then show ?thesis using va_free_correct [OF i(1)] va_free_correct [OF x(1)] t(1) by force
qed

section \<open>Every sequence of calls\<close>

text \<open>C34: From a state in which the slab allocator is consistent and has a block for the sentinel of the tree, va_manager_init
  returns, and then any sequence of va_alloc and va_free calls with sizes that can be rounded up to pages returns,
  with any addresses given to va_free. The requests that were granted and not released never overlap and lie inside
  the vmalloc region.\<close>

theorem va_calls_never_overlap:
  assumes "slab_inv s" and "kmalloc sizeof_rb_node GFP_KERNEL (s\<lparr>va_mgr_start := VMALLOC_START, va_mgr_end := VMALLOC_END\<rparr>) = Some (nl, s2)" "nl \<noteq> 0"
    and "\<forall>n. Va_alloc n \<in> set cs \<longrightarrow> request_ok n"
  shows "\<exists>t u H. va_manager_init s = Some t \<and>
    run_calls (\<lambda>n. va_alloc n VA_ALIGN_DEFAULT VA_FLAG_VMALLOC) va_free cs t [] = Some (u, H) \<and>
    no_overlap H \<and> (\<forall>(a, n) \<in> set H. VMALLOC_START \<le> a \<and> unat a + unat n \<le> unat VMALLOC_END)"
proof -
  obtain t F where t: "va_manager_init s = Some t" "va_inv t F []" using va_manager_init_ok [OF assms(1-3)] by blast
  then have "va_in_use t {}" unfolding va_in_use_def by (intro exI [of _ F] exI [of _ "[]"]) simp
  then have h: "va.holds t []" by (auto simp: va.holds_def)
  have r: "\<And>n. Va_alloc n \<in> set cs \<Longrightarrow> request_ok n" using assms(4) by blast
  obtain u H where u: "run_calls (\<lambda>n. va_alloc n VA_ALIGN_DEFAULT VA_FLAG_VMALLOC) va_free cs t [] = Some (u, H)" "va.holds u H"
    using va.run_holds [OF h r] by blast
  have "\<forall>(a, n) \<in> set H. VMALLOC_START \<le> a \<and> unat a + unat n \<le> unat VMALLOC_END" using va.held_inside [OF u(2)] by auto
  then show ?thesis using t(1) u(1) va.held_apart [OF u(2)] by blast
qed

theorem va_calls_never_overlap_witness:
  "\<exists>u H. run_calls (\<lambda>n. va_alloc n VA_ALIGN_DEFAULT VA_FLAG_VMALLOC) va_free [Va_alloc 5000, Va_alloc 1, Va_free 0x1000, Va_alloc 4096] demo_va [] = Some (u, H) \<and> no_overlap H"
proof -
  let ?s = "demo_kernel\<lparr>va_mgr_start := VMALLOC_START, va_mgr_end := VMALLOC_END\<rparr>"
  obtain nl s2 where k: "kmalloc sizeof_rb_node GFP_KERNEL ?s = Some (nl, s2)" "nl \<noteq> 0" by (rule demo_sentinel)
  have "\<forall>n. Va_alloc n \<in> set [Va_alloc 5000, Va_alloc 1, Va_free 0x1000, Va_alloc 4096] \<longrightarrow> request_ok n"
    by (auto simp: request_ok_def)
  from va_calls_never_overlap [OF demo_kernel_inv(1) k this] show ?thesis using demo_va_ok by force
qed

end
