(* ===== verification/Mm_Properties.thy ===== *)
theory Mm_Properties
  imports Uart Slab_Client
begin

text \<open>
  The list of the areas of an address space, \<^verbatim>\<open>kernel/mm.c\<close>. The descriptors are blocks of the slab
  allocator; an address space is represented by the list of its area descriptors, linked from
  \<^verbatim>\<open>mm->mmap\<close> in order of their start. Creating, finding and removing an area refine the
  operations on that list; copying gives a second list with the same areas on fresh blocks; destroying
  gives every block back. Each operation leaves the other address spaces alone.
\<close>

section \<open>An address space\<close>

definition vma_chain :: "'a kproc_scheme \<Rightarrow> u64 \<Rightarrow> u64 list \<Rightarrow> bool" where
  "vma_chain s mm vs \<longleftrightarrow> freechain (\<lambda>v. vm_next (vmas s v)) (mm_mmap (mm_structs s mm)) vs"

definition area :: "'a kproc_scheme \<Rightarrow> u64 \<Rightarrow> u64 \<times> u64 \<times> u64" where
  "area s v = (vm_start (vmas s v), vm_end (vmas s v), vma_flags (vmas s v))"

definition mm_info :: "'a kproc_scheme \<Rightarrow> u64 \<Rightarrow> mm_struct" where
  "mm_info s mm = (mm_structs s mm)\<lparr>mm_mmap := 0\<rparr>"

definition mm_objs :: "'a kproc_scheme \<Rightarrow> u64 \<Rightarrow> u64 list \<Rightarrow> bool" where
  "mm_objs s mm vs \<longleftrightarrow> slab_inv s \<and> distinct (mm # vs) \<and> (\<forall>a \<in> set (mm # vs). is_obj s a) \<and> vma_chain s mm vs"

definition regions_ok :: "(u64 \<times> u64 \<times> u64) list \<Rightarrow> bool" where
  "regions_ok rs \<longleftrightarrow> sorted (map fst rs) \<and> (\<forall>r \<in> set rs. fst r < fst (snd r))"

definition mm_inv :: "'a kproc_scheme \<Rightarrow> u64 \<Rightarrow> u64 list \<Rightarrow> bool" where
  "mm_inv s mm vs \<longleftrightarrow> mm_objs s mm vs \<and> regions_ok (map (area s) vs)"

text \<open>The objects of \<open>s\<close> outside \<open>A\<close> are still there and have the same contents.\<close>

definition same_except :: "u64 set \<Rightarrow> 'a kproc_scheme \<Rightarrow> 'a kproc_scheme \<Rightarrow> bool" where
  "same_except A s t \<longleftrightarrow> (\<forall>a. is_obj s a \<and> a \<notin> A \<longrightarrow> is_obj t a \<and> vmas t a = vmas s a \<and> mm_structs t a = mm_structs s a)"

lemma same_except_mm_objs:
  assumes "mm_objs s m ws" and "same_except A s t" and "slab_inv t" and "set (m # ws) \<inter> A = {}"
  shows "mm_objs t m ws" and "w \<in> set ws \<Longrightarrow> area t w = area s w"
proof -
  have k: "is_obj t a \<and> vmas t a = vmas s a \<and> mm_structs t a = mm_structs s a" if "a \<in> set (m # ws)" for a
    using assms(1,2,4) that unfolding mm_objs_def same_except_def by blast
  have "freechain (\<lambda>v. vm_next (vmas t v)) (mm_mmap (mm_structs t m)) ws = freechain (\<lambda>v. vm_next (vmas s v)) (mm_mmap (mm_structs s m)) ws"
    using k by (subst freechain_cong [of ws _ "\<lambda>v. vm_next (vmas s v)"]) simp_all
  then show "mm_objs t m ws" using assms(1,3) k by (simp add: mm_objs_def vma_chain_def)
  show "w \<in> set ws \<Longrightarrow> area t w = area s w" using k [of w] by (simp add: area_def)
qed

lemma same_except_mm_inv:
  assumes "mm_inv s m ws" and "same_except A s t" and "slab_inv t" and "set (m # ws) \<inter> A = {}"
  shows "mm_inv t m ws"
proof -
  have o: "mm_objs s m ws" using assms(1) by (simp add: mm_inv_def)
  have "map (area t) ws = map (area s) ws" by (rule map_cong [OF refl]) (rule same_except_mm_objs(2) [OF o assms(2-4)])
  then show ?thesis using same_except_mm_objs(1) [OF o assms(2-4)] assms(1) unfolding mm_inv_def by (simp only: simp_thms)
qed

lemma same_except_trans:
  assumes "same_except A s t" "same_except B t u" "\<And>a. is_obj s a \<Longrightarrow> a \<notin> A \<Longrightarrow> a \<notin> B"
  shows "same_except A s u"
  using assms unfolding same_except_def by metis

section \<open>Links\<close>

lemma upd_slab [simp]:
  "slab_inv (upd_vma v f s) = slab_inv s" "live (upd_vma v f s) = live s" "is_obj (upd_vma v f s) = is_obj s"
  "slab_inv (upd_mm m g s) = slab_inv s" "live (upd_mm m g s) = live s" "is_obj (upd_mm m g s) = is_obj s"
  using slab_same [of "upd_vma v f s" s] slab_same [of "upd_mm m g s" s] by (simp_all add: upd_vma_def upd_mm_def is_obj_def fun_eq_iff)

lemma upd_fields [simp]:
  "vmas (upd_vma v f s) = (vmas s)(v := f (vmas s v))" "mm_structs (upd_vma v f s) = mm_structs s"
  "vmas (upd_mm m g s) = vmas s" "mm_structs (upd_mm m g s) = (mm_structs s)(m := g (mm_structs s m))"
  by (simp_all add: upd_vma_def upd_mm_def)

lemma vlink_slab [simp]:
  "slab_inv (vlink_set l x s) = slab_inv s" "live (vlink_set l x s) = live s" "is_obj (vlink_set l x s) = is_obj s"
  by (cases l; simp)+

definition link_at :: "u64 \<Rightarrow> u64 list \<Rightarrow> vma_link" where
  "link_at mm pre = (if pre = [] then MmapOf mm else NextOf (last pre))"

lemma link_at_simps [simp]: "link_at mm [] = MmapOf mm" "link_at mm (pre @ [v]) = NextOf v"
  by (simp_all add: link_at_def)

lemma link_get:
  assumes "vma_chain s mm (pre @ qs)"
  shows "freechain (\<lambda>v. vm_next (vmas s v)) (vlink_get (link_at mm pre) s) qs"
  using assms chain_rest [of "\<lambda>v. vm_next (vmas s v)" "mm_mmap (mm_structs s mm)" pre qs] by (cases "pre = []") (simp_all add: vma_chain_def link_at_def)

lemma link_set:
  assumes ch: "vma_chain s mm (pre @ qs)" and d: "distinct pre" "set rs \<inter> set pre = {}" and x: "freechain (\<lambda>v. vm_next (vmas s v)) x rs"
  shows "vma_chain (vlink_set (link_at mm pre) x s) mm (pre @ rs)" and "area (vlink_set (link_at mm pre) x s) = area s"
    and "a \<noteq> mm \<Longrightarrow> mm_structs (vlink_set (link_at mm pre) x s) a = mm_structs s a"
    and "a \<notin> set pre \<Longrightarrow> vmas (vlink_set (link_at mm pre) x s) a = vmas s a"
    and "mm_structs (vlink_set (link_at mm pre) x s) mm = (mm_structs s mm)\<lparr>mm_mmap := mm_mmap (mm_structs (vlink_set (link_at mm pre) x s) mm)\<rparr>"
proof -
  let ?t = "vlink_set (link_at mm pre) x s"
  have "freechain (\<lambda>v. vm_next (vmas ?t v)) (if pre = [] then x else mm_mmap (mm_structs s mm)) (pre @ rs)"
    by (rule relink [OF ch [unfolded vma_chain_def] d(1) x d(2)]) (simp add: link_at_def)
  moreover have "mm_mmap (mm_structs ?t mm) = (if pre = [] then x else mm_mmap (mm_structs s mm))" by (simp add: link_at_def)
  ultimately show "vma_chain ?t mm (pre @ rs)" by (simp add: vma_chain_def)
  show "area ?t = area s" by (auto simp: fun_eq_iff area_def link_at_def)
  show "a \<noteq> mm \<Longrightarrow> mm_structs ?t a = mm_structs s a" "a \<notin> set pre \<Longrightarrow> vmas ?t a = vmas s a" by (auto simp: link_at_def)
  show "mm_structs ?t mm = (mm_structs s mm)\<lparr>mm_mmap := mm_mmap (mm_structs ?t mm)\<rparr>" by (simp add: link_at_def)
qed

lemma more_proc:
  fixes s t :: "'a kproc_scheme"
  shows "kslab.more t = kslab.more s \<Longrightarrow> vmas t = vmas s \<and> mm_structs t = mm_structs s"
  by (cases s, cases t) simp

lemma kmalloc_node:
  fixes s :: "'a kproc_scheme"
  assumes inv: "slab_inv s" and sz: "32 \<le> unat sz"
  obtains (null) t where "kmalloc sz g s = Some (0, t)" "slab_inv t" "live t = live s" "vmas t = vmas s" "mm_structs t = mm_structs s"
  | (new) x n t where "kmalloc sz g s = Some (x, t)" "x \<noteq> 0" "slab_inv t" "live t = insert (x, n) (live s)" "is_obj t x" "x \<notin> fst ` live s"
      "vmas t = vmas s" "mm_structs t = mm_structs s"
proof -
  obtain x t where k: "kmalloc sz g s = Some (x, t)" "handed_out (unat sz) x s t" using kmalloc_ok [OF inv] by blast
  note m = more_proc [OF kmalloc_more [OF k(1)]]
  show thesis
  proof (cases "x = 0")
    case True
    then show ?thesis using null [of t] k m by (simp add: handed_out_def)
  next
    case False
    then obtain n where n: "unat sz \<le> n" "(x, n) \<notin> live s" "live t = insert (x, n) (live s)" "slab_inv t" using k(2) by (auto simp: handed_out_def)
    have "x \<notin> fst ` live s" using same_address [OF n(4), of x n] n(2,3) by force
    moreover have "is_obj t x" unfolding is_obj_def using n(1,3) sz by (intro exI [of _ n]) simp
    ultimately show ?thesis using new [of x t n] k(1) n False m by simp
  qed
qed

lemma kfree_node:
  fixes s :: "'a kproc_scheme"
  assumes inv: "slab_inv s" and x: "is_obj s x"
  obtains t where "kfree x s = Some t" "slab_inv t" "live t = {b \<in> live s. fst b \<noteq> x}" "vmas t = vmas s" "mm_structs t = mm_structs s"
proof -
  obtain n where n: "(x, n) \<in> live s" using x by (auto simp: is_obj_def)
  obtain t where t: "kfree x s = Some t" "slab_inv t" "live t = live s - {(x, n)}" using kfree_ok [OF inv n] by blast
  have "(y, m) \<in> live s - {(x, n)} \<longleftrightarrow> (y, m) \<in> live s \<and> y \<noteq> x" for y m
    by (cases "y = x \<and> (y, m) \<in> live s") (use same_address [OF inv n, of m] in auto)
  then have "live t = {b \<in> live s. fst b \<noteq> x}" unfolding t(3) by (intro set_eqI) (simp add: split_paired_all)
  then show thesis using that [OF t(1,2)] more_proc [OF kfree_more [OF t(1)]] by blast
qed

lemma is_obj_live: "is_obj s a \<longleftrightarrow> (\<exists>b \<in> live s. fst b = a \<and> 32 \<le> snd b)"
  by (force simp: is_obj_def)

lemma mm_invD:
  assumes "mm_objs s mm vs"
  shows "slab_inv s" "distinct vs" "mm \<notin> set vs" "vma_chain s mm vs" "is_obj s mm" "\<And>v. v \<in> set vs \<Longrightarrow> is_obj s v" "mm \<noteq> 0"
  using assms is_obj_nonzero [of s mm] by (auto simp: mm_objs_def)

section \<open>Finding an area\<close>

definition inside :: "'a kproc_scheme \<Rightarrow> u64 \<Rightarrow> u64 \<Rightarrow> bool" where
  "inside s addr v \<longleftrightarrow> vm_start (vmas s v) \<le> addr \<and> addr < vm_end (vmas s v)"

lemma vma_find_from_chain:
  "freechain (\<lambda>v. vm_next (vmas s v)) c qs \<Longrightarrow> vma_find_from addr c s = Some (case find (inside s addr) qs of None \<Rightarrow> 0 | Some v \<Rightarrow> v)"
proof (induction qs arbitrary: c)
  case Nil
  then show ?case by (simp add: vma_find_from.simps)
next
  case (Cons q qs)
  have "vma_find_from addr c s = (if inside s addr q then Some q else vma_find_from addr (vm_next (vmas s q)) s)"
    using Cons.prems by (subst vma_find_from.simps) (simp add: inside_def)
  then show ?case using Cons by simp
qed

lemma vma_find_ok: "mm_objs s mm vs \<Longrightarrow> vma_find mm addr s = Some (case find (inside s addr) vs of None \<Rightarrow> 0 | Some v \<Rightarrow> v)"
  using vma_find_from_chain [of s "mm_mmap (mm_structs s mm)" vs] mm_invD(4,7) [of s mm vs] by (simp add: vma_find_def vma_chain_def)

section \<open>Creating an area\<close>

lemma vma_slot_walk:
  assumes "vma_chain s mm (pre @ qs)"
  shows "vma_slot start (link_at mm pre) s = Some (link_at mm (pre @ takeWhile (\<lambda>v. vm_start (vmas s v) < start) qs))"
  using assms
proof (induction qs arbitrary: pre)
  case Nil
  then show ?case using link_get [of s mm pre "[]"] by (simp add: vma_slot.simps)
next
  case (Cons q qs)
  have g: "vlink_get (link_at mm pre) s = q" "q \<noteq> 0" using link_get [OF Cons.prems] by simp_all
  show ?case
  proof (cases "vm_start (vmas s q) < start")
    case True
    then have "vma_slot start (link_at mm pre) s = vma_slot start (link_at mm (pre @ [q])) s" using g by (subst vma_slot.simps) simp
    then show ?thesis using Cons.IH [of "pre @ [q]"] Cons.prems True by simp
  next
    case False
    then show ?thesis using g by (subst vma_slot.simps) simp
  qed
qed

text \<open>The new descriptor goes in front of the first area that starts at or behind it.\<close>

lemma regions_insert:
  fixes r :: "u64 \<times> u64 \<times> u64"
  assumes "regions_ok rs" and "fst r < fst (snd r)"
  shows "regions_ok (takeWhile (\<lambda>q. fst q < fst r) rs @ r # dropWhile (\<lambda>q. fst q < fst r) rs)"
proof -
  let ?P = "\<lambda>q :: u64 \<times> u64 \<times> u64. fst q < fst r"
  have s: "sorted (map fst (takeWhile ?P rs @ dropWhile ?P rs))" using assms(1) by (simp add: regions_ok_def)
  have hi: "fst r \<le> fst q" if "q \<in> set (dropWhile ?P rs)" for q
  proof (cases "dropWhile ?P rs")
    case (Cons d ds)
    have "\<not> fst d < fst r" using hd_dropWhile [of ?P rs] Cons by simp
    moreover have "fst d \<le> fst q" using s that Cons by (auto simp: sorted_append)
    ultimately show ?thesis by simp
  qed (use that in \<open>simp only: list.set empty_iff\<close>)
  have lo: "fst q \<le> fst r" if "q \<in> set (takeWhile ?P rs)" for q using set_takeWhileD [OF that] by (simp add: less_imp_le)
  have "fst p \<le> fst q" if "p \<in> set (takeWhile ?P rs)" "q \<in> set (dropWhile ?P rs)" for p q using lo [OF that(1)] hi [OF that(2)] by simp
  then have "sorted (map fst (takeWhile ?P rs @ r # dropWhile ?P rs))"
    using s lo hi unfolding map_append list.map sorted_append by (simp add: image_iff ball_simps)
  moreover have "\<forall>q \<in> set (takeWhile ?P rs @ r # dropWhile ?P rs). fst q < fst (snd q)"
    using assms set_takeWhileD [of _ ?P rs] set_dropWhileD [of _ ?P rs] by (auto simp: regions_ok_def)
  ultimately show ?thesis by (simp add: regions_ok_def)
qed

lemma vma_link_in:
  assumes i: "mm_objs s mm (pre @ post)" and v: "is_obj s v" "v \<notin> set (mm # pre @ post)"
  defines "t \<equiv> vlink_set (link_at mm pre) v (upd_vma v (\<lambda>r. r\<lparr>vm_next := vlink_get (link_at mm pre) s\<rparr>) s)"
  shows "mm_objs t mm (pre @ v # post)" and "area t = area s" and "same_except (set (mm # v # pre)) s t" and "mm_info t mm = mm_info s mm"
proof -
  let ?u = "upd_vma v (\<lambda>r. r\<lparr>vm_next := vlink_get (link_at mm pre) s\<rparr>) s"
  have f: "freechain (\<lambda>w. vm_next (vmas ?u w)) a qs = freechain (\<lambda>w. vm_next (vmas s w)) a qs" if "v \<notin> set qs" for a qs
    using that by (intro freechain_cong) auto
  have c: "vma_chain ?u mm (pre @ post)" using mm_invD(4) [OF i] v(2) f [of "pre @ post"] unfolding vma_chain_def by simp
  have "freechain (\<lambda>w. vm_next (vmas ?u w)) (vlink_get (link_at mm pre) s) post"
    using link_get [OF mm_invD(4) [OF i]] v(2) f [of post] by simp
  then have x: "freechain (\<lambda>w. vm_next (vmas ?u w)) v (v # post)" using is_obj_nonzero [OF mm_invD(1) [OF i] v(1)] by simp
  have d: "distinct pre" "set (v # post) \<inter> set pre = {}" using mm_invD(2) [OF i] v(2) by auto
  note l = link_set [OF c d x]
  show "mm_objs t mm (pre @ v # post)" using i l(1) v by (auto simp: mm_objs_def t_def)
  have "area ?u = area s" by (auto simp: area_def fun_eq_iff)
  then show "area t = area s" using l(2) by (simp add: t_def)
  show "same_except (set (mm # v # pre)) s t" unfolding same_except_def t_def using l(3,4) by auto
  show "mm_info t mm = mm_info s mm" unfolding t_def mm_info_def by (subst l(5)) simp
qed

lemma fresh_same:
  assumes "live t = insert (v, n) (live s)" "v \<notin> fst ` live s"
    and "\<And>a. a \<noteq> v \<Longrightarrow> vmas t a = vmas s a" "\<And>a. a \<noteq> v \<Longrightarrow> mm_structs t a = mm_structs s a"
  shows "same_except {} s t"
proof -
  have "a \<noteq> v" if "is_obj s a" for a using that assms(2) by (force simp: is_obj_live)
  then show ?thesis using assms by (auto simp: same_except_def is_obj_live)
qed

lemma nothing_changed:
  assumes "live t = live s" "vmas t = vmas s" "mm_structs t = mm_structs s"
  shows "same_except {} s t"
  using assms by (simp add: same_except_def is_obj_def)

lemma not_live: "v \<notin> fst ` live s \<Longrightarrow> is_obj s a \<Longrightarrow> a \<noteq> v"
  by (force simp: is_obj_live)

lemma same_except_fresh:
  assumes "same_except {} s u" "same_except A u t" "A \<subseteq> insert v B" "v \<notin> fst ` live s"
  shows "same_except B s t"
  unfolding same_except_def
proof (intro allI impI)
  fix a assume a: "is_obj s a \<and> a \<notin> B"
  have "a \<noteq> v" using not_live [OF assms(4)] a by simp
  then have "a \<notin> A" using assms(3) a by auto
  moreover have "is_obj u a" "vmas u a = vmas s a" "mm_structs u a = mm_structs s a" using assms(1) a by (simp_all add: same_except_def)
  ultimately show "is_obj t a \<and> vmas t a = vmas s a \<and> mm_structs t a = mm_structs s a" using assms(2) by (simp add: same_except_def)
qed

text \<open>What \<open>vma_create\<close> does to the list: the new region goes in front of the first one that starts at or behind it.\<close>

definition vma_added :: "u64 \<Rightarrow> u64 list \<Rightarrow> (u64 \<times> u64 \<times> u64) \<Rightarrow> 'a kproc_scheme \<Rightarrow> 'a kproc_scheme \<Rightarrow> u64 list \<Rightarrow> bool" where
  "vma_added mm vs r s t ws \<longleftrightarrow> mm_inv t mm ws \<and> same_except (set (mm # vs)) s t \<and>
     map (area t) ws = takeWhile (\<lambda>q. fst q < fst r) (map (area s) vs) @ r # dropWhile (\<lambda>q. fst q < fst r) (map (area s) vs) \<and>
     (\<exists>v n. live t = insert (v, n) (live s) \<and> v \<notin> fst ` live s \<and> set ws = insert v (set vs))"

lemma vma_create_ok:
  assumes i: "mm_inv s mm vs" and r: "start < fin"
  shows "(\<exists>t. vma_create mm start fin fl s = Some (-1, t) \<and> mm_inv t mm vs \<and> live t = live s \<and> same_except {} s t) \<or>
    (\<exists>t ws. vma_create mm start fin fl s = Some (0, t) \<and> vma_added mm vs (start, fin, fl) s t ws)"
proof -
  have o: "mm_objs s mm vs" using i by (simp add: mm_inv_def)
  have c: "mm \<noteq> 0" "\<not> fin \<le> start" using mm_invD(7) [OF o] r by simp_all
  have sz: "32 \<le> unat sizeof_vma_area" by (simp add: sizeof_vma_area_def)
  show ?thesis
  proof (rule kmalloc_node [OF mm_invD(1) [OF o] sz, of GFP_KERNEL])
    fix t assume t: "kmalloc sizeof_vma_area GFP_KERNEL s = Some (0, t)" "slab_inv t" "live t = live s" "vmas t = vmas s" "mm_structs t = mm_structs s"
    have e: "same_except {} s t" by (rule nothing_changed [OF t(3-5)])
    then have "mm_inv t mm vs" using same_except_mm_inv [OF i e t(2)] by simp
    then show ?thesis using t c e by (intro disjI1 exI [of _ t]) (simp add: vma_create_def)
  next
    fix v n t1 assume k: "kmalloc sizeof_vma_area GFP_KERNEL s = Some (v, t1)" "v \<noteq> 0" "slab_inv t1" "live t1 = insert (v, n) (live s)" "is_obj t1 v"
      "v \<notin> fst ` live s" "vmas t1 = vmas s" "mm_structs t1 = mm_structs s"
    let ?s2 = "upd_vma v (\<lambda>_. \<lparr>vm_start = start, vm_end = fin, vma_flags = fl, vm_next = 0\<rparr>) t1"
    have e: "same_except {} s ?s2" by (rule fresh_same [of ?s2 v n s]) (use k in simp_all)
    have o2: "mm_objs ?s2 mm vs" using same_except_mm_objs(1) [OF o e] k(3) by simp
    have nv: "v \<notin> set (mm # vs)" using k(6) mm_invD(5,6) [OF o] by (force simp: is_obj_live)
    define pre where "pre = takeWhile (\<lambda>w. vm_start (vmas ?s2 w) < start) vs"
    define post where "post = dropWhile (\<lambda>w. vm_start (vmas ?s2 w) < start) vs"
    have pp: "vs = pre @ post" by (simp add: pre_def post_def)
    let ?t = "vlink_set (link_at mm pre) v (upd_vma v (\<lambda>r. r\<lparr>vm_next := vlink_get (link_at mm pre) ?s2\<rparr>) ?s2)"
    have slot: "vma_slot start (MmapOf mm) ?s2 = Some (link_at mm pre)"
      using vma_slot_walk [of ?s2 mm "[]" vs start] mm_invD(4) [OF o2] by (simp add: pre_def)
    have run: "vma_create mm start fin fl s = Some (0, ?t)" using k(1,2) c slot by (simp add: vma_create_def Let_def)
    note l = vma_link_in [OF o2 [unfolded pp], of v] 
    have l: "mm_objs ?t mm (pre @ v # post)" "area ?t = area ?s2" "same_except (set (mm # v # pre)) ?s2 ?t"
      using l k(5) nv pp by simp_all
    have a2: "area ?s2 w = area s w" if "w \<in> set vs" for w using same_except_mm_objs(2) [OF o e _ _ that] k(3) by simp
    have av: "area ?s2 v = (start, fin, fl)" by (simp add: area_def)
    have tw: "map (area s) pre = takeWhile (\<lambda>q. fst q < start) (map (area s) vs)" "map (area s) post = dropWhile (\<lambda>q. fst q < start) (map (area s) vs)"
    proof -
      have p: "fst (area s w) = vm_start (vmas ?s2 w)" if "w \<in> set vs" for w
        using arg_cong [OF a2 [OF that], of fst] by (simp only: area_def fst_conv)
      have "takeWhile (\<lambda>w. fst (area s w) < start) vs = pre" unfolding pre_def by (rule takeWhile_cong [OF refl]) (simp only: p)
      moreover have "dropWhile (\<lambda>w. fst (area s w) < start) vs = post" unfolding post_def by (rule dropWhile_cong [OF refl]) (simp only: p)
      ultimately show "map (area s) pre = takeWhile (\<lambda>q. fst q < start) (map (area s) vs)" "map (area s) post = dropWhile (\<lambda>q. fst q < start) (map (area s) vs)"
        by (simp_all add: takeWhile_map dropWhile_map comp_def)
    qed
    have same: "map (area ?s2) pre = map (area s) pre" "map (area ?s2) post = map (area s) post"
      by (rule map_cong [OF refl], rule a2, simp add: pp)+
    have m: "map (area ?t) (pre @ v # post) = takeWhile (\<lambda>q. fst q < start) (map (area s) vs) @ (start, fin, fl) # dropWhile (\<lambda>q. fst q < start) (map (area s) vs)"
      unfolding l(2) map_append list.map same av tw ..
    have "mm_inv ?t mm (pre @ v # post)"
      unfolding mm_inv_def m using l(1) regions_insert [of "map (area s) vs" "(start, fin, fl)"] i r by (simp add: mm_inv_def)
    moreover have "same_except (set (mm # vs)) s ?t"
      by (rule same_except_fresh [OF e l(3) _ k(6)]) (auto simp: pp)
    moreover have "live ?t = insert (v, n) (live s)" using k(4) by simp
    ultimately have "vma_added mm vs (start, fin, fl) s ?t (pre @ v # post)" unfolding vma_added_def m using k(6) pp by auto
    then show ?thesis using run by blast
  qed
qed

section \<open>Removing an area\<close>

lemma vma_link_walk:
  assumes "vma_chain s mm (pre @ qs)"
  shows "vma_link_to v (link_at mm pre) s = Some (link_at mm (pre @ takeWhile (\<lambda>w. w \<noteq> v) qs))"
  using assms
proof (induction qs arbitrary: pre)
  case Nil
  then show ?case using link_get [of s mm pre "[]"] by (simp add: vma_link_to.simps)
next
  case (Cons q qs)
  have g: "vlink_get (link_at mm pre) s = q" "q \<noteq> 0" using link_get [OF Cons.prems] by simp_all
  show ?case
  proof (cases "q = v")
    case True
    then show ?thesis using g by (subst vma_link_to.simps) simp
  next
    case False
    then have "vma_link_to v (link_at mm pre) s = vma_link_to v (link_at mm (pre @ [q])) s" using g by (subst vma_link_to.simps) simp
    then show ?thesis using Cons.IH [of "pre @ [q]"] Cons.prems False by simp
  qed
qed

lemma vma_unlink_ok:
  assumes o: "mm_objs s mm vs" and v: "v \<in> set vs"
  obtains t where "vma_unlink mm v s = Some t" "mm_objs t mm (remove1 v vs)" "area t = area s" "same_except (set (mm # vs)) s t" "live t = live s"
    "is_obj t v"
proof -
  obtain pre post where p: "vs = pre @ v # post" "v \<notin> set pre" using split_list_first [OF v] by blast
  let ?l = "link_at mm pre" let ?t = "vlink_set ?l (vm_next (vmas s v)) s"
  have ch: "vma_chain s mm (pre @ v # post)" using mm_invD(4) [OF o] p(1) by simp
  have d: "distinct pre" "set post \<inter> set pre = {}" using mm_invD(2) [OF o] p(1) by auto
  note g = link_get [OF ch]
  have x: "freechain (\<lambda>w. vm_next (vmas s w)) (vm_next (vmas s v)) post" using g by simp
  have "takeWhile (\<lambda>w. w \<noteq> v) (pre @ v # post) = pre" using p(2) by (subst takeWhile_append2) auto
  then have "vma_link_to v (MmapOf mm) s = Some ?l" using vma_link_walk [of s mm "[]" vs v] mm_invD(4) [OF o] p(1) by simp
  then have run: "vma_unlink mm v s = Some ?t" using g by (simp add: vma_unlink_def)
  note l = link_set [OF ch d x]
  have r: "remove1 v vs = pre @ post" using p by (simp add: remove1_append)
  have "mm_objs ?t mm (remove1 v vs)" unfolding r using o l(1) p(1) by (auto simp: mm_objs_def)
  moreover have "same_except (set (mm # vs)) s ?t" unfolding same_except_def using l(3,4) p(1) by auto
  moreover have "is_obj ?t v" using mm_invD(6) [OF o v] by simp
  ultimately show thesis using that [OF run] l(2) by simp
qed

text \<open>The descriptor \<open>v\<close> is no longer in the list and its block is free.\<close>

definition vma_removed :: "u64 \<Rightarrow> u64 list \<Rightarrow> u64 \<Rightarrow> 'a kproc_scheme \<Rightarrow> 'a kproc_scheme \<Rightarrow> bool" where
  "vma_removed mm vs v s t \<longleftrightarrow> mm_inv t mm (remove1 v vs) \<and> (\<forall>w \<in> set vs. area t w = area s w) \<and> same_except (set (mm # vs)) s t \<and>
     live t = {b \<in> live s. fst b \<noteq> v}"

lemma regions_remove: "regions_ok (map f vs) \<Longrightarrow> regions_ok (map f (remove1 v vs))"
  using sorted_map_remove1 [of "fst \<circ> f" vs v] notin_set_remove1 [of _ vs v] by (auto simp: regions_ok_def)

lemma free_same:
  assumes "live t = {b \<in> live s. fst b \<noteq> v}" "vmas t = vmas s" "mm_structs t = mm_structs s"
  shows "same_except {v} s t"
  using assms by (auto simp: same_except_def is_obj_live)

lemma vma_remove_ok:
  assumes i: "mm_inv s mm vs" and v: "v \<in> set vs"
  shows "\<exists>t. vma_remove mm v s = Some t \<and> vma_removed mm vs v s t"
proof -
  have o: "mm_objs s mm vs" using i by (simp add: mm_inv_def)
  obtain u where u: "vma_unlink mm v s = Some u" "mm_objs u mm (remove1 v vs)" "area u = area s" "same_except (set (mm # vs)) s u" "live u = live s" "is_obj u v"
    by (rule vma_unlink_ok [OF o v])
  obtain t where t: "kfree v u = Some t" "slab_inv t" "live t = {b \<in> live u. fst b \<noteq> v}" "vmas t = vmas u" "mm_structs t = mm_structs u"
    by (rule kfree_node [OF mm_invD(1) [OF u(2)] u(6)])
  have e: "same_except {v} u t" by (rule free_same [OF t(3-5)])
  have d: "set (mm # remove1 v vs) \<inter> {v} = {}" using mm_invD(2,3) [OF o] v by auto
  have "mm \<noteq> 0" "v \<noteq> 0" using mm_invD(7) [OF o] is_obj_nonzero [OF mm_invD(1) [OF o] mm_invD(6) [OF o v]] by simp_all
  then have run: "vma_remove mm v s = Some t" using u(1) t(1) by (simp add: vma_remove_def)
  have a: "area t = area s" using t(4) u(3) by (simp add: area_def fun_eq_iff)
  have "mm_inv t mm (remove1 v vs)"
    using same_except_mm_objs(1) [OF u(2) e t(2) d] regions_remove [of "area s" vs v] i by (simp add: mm_inv_def a)
  moreover have "same_except (set (mm # vs)) s t" by (rule same_except_trans [OF u(4) e]) (use v in auto)
  ultimately show ?thesis using run a t(3) u(5) by (simp add: vma_removed_def)
qed

section \<open>Destroying an address space\<close>

lemma destroy_chain:
  assumes "slab_inv s" "freechain (\<lambda>v. vm_next (vmas s v)) c qs" "distinct qs" "\<And>q. q \<in> set qs \<Longrightarrow> is_obj s q"
  shows "\<exists>t. destroy_vmas c s = Some t \<and> slab_inv t \<and> live t = {b \<in> live s. fst b \<notin> set qs} \<and> vmas t = vmas s \<and> mm_structs t = mm_structs s"
  using assms
proof (induction qs arbitrary: c s)
  case Nil
  then show ?case by (simp add: destroy_vmas.simps)
next
  case (Cons q qs)
  have c: "c = q" "c \<noteq> 0" using Cons.prems(2) by simp_all
  obtain t where t: "kfree q s = Some t" "slab_inv t" "live t = {b \<in> live s. fst b \<noteq> q}" "vmas t = vmas s" "mm_structs t = mm_structs s"
    by (rule kfree_node [OF Cons.prems(1), of q]) (use Cons.prems(4) in auto)
  have "is_obj t x" if "x \<in> set qs" for x
  proof -
    have "x \<noteq> q" "is_obj s x" using Cons.prems(3,4) that by auto
    then show ?thesis using t(3) by (auto simp: is_obj_live)
  qed
  then obtain u where u: "destroy_vmas (vm_next (vmas s q)) t = Some u" "slab_inv u" "live u = {b \<in> live t. fst b \<notin> set qs}" "vmas u = vmas t"
    "mm_structs u = mm_structs t" using Cons.IH [OF t(2), of "vm_next (vmas s q)"] Cons.prems(2,3) t(4) by auto
  have "destroy_vmas c s = Some u" using c t(1) u(1) by (subst destroy_vmas.simps) simp
  moreover have "live u = {b \<in> live s. fst b \<notin> set (q # qs)}" unfolding u(3) t(3) by auto
  ultimately show ?case using u t by (intro exI [of _ u]) simp
qed

lemma mm_destroy_ok:
  assumes o: "mm_objs s mm vs"
  shows "\<exists>t. mm_destroy mm s = Some t \<and> slab_inv t \<and> live t = {b \<in> live s. fst b \<notin> set (mm # vs)} \<and> vmas t = vmas s \<and> mm_structs t = mm_structs s"
proof -
  obtain u where u: "destroy_vmas (mm_mmap (mm_structs s mm)) s = Some u" "slab_inv u" "live u = {b \<in> live s. fst b \<notin> set vs}" "vmas u = vmas s" "mm_structs u = mm_structs s"
    using destroy_chain [OF mm_invD(1) [OF o] mm_invD(4) [OF o, unfolded vma_chain_def] mm_invD(2) [OF o]] mm_invD(6) [OF o] by blast
  have "is_obj u mm" using mm_invD(3,5) [OF o] u(3) by (auto simp: is_obj_live)
  then obtain t where t: "kfree mm u = Some t" "slab_inv t" "live t = {b \<in> live u. fst b \<noteq> mm}" "vmas t = vmas u" "mm_structs t = mm_structs u"
    by (rule kfree_node [OF u(2)])
  have "live t = {b \<in> live s. fst b \<notin> set (mm # vs)}" unfolding t(3) u(3) by auto
  then show ?thesis using u t mm_invD(7) [OF o] by (simp add: mm_destroy_def)
qed

section \<open>Copying an address space\<close>

definition copied :: "u64 \<Rightarrow> u64 list \<Rightarrow> u64 list \<Rightarrow> 'a kproc_scheme \<Rightarrow> 'a kproc_scheme \<Rightarrow> u64 list \<Rightarrow> bool" where
  "copied dst ws qs s t us \<longleftrightarrow> mm_objs t dst (ws @ us) \<and> map (area t) us = map (area s) qs \<and> (\<forall>w \<in> set ws. area t w = area s w) \<and>
     mm_info t dst = mm_info s dst \<and> set us \<inter> fst ` live s = {} \<and> {b \<in> live t. fst b \<notin> set us} = live s"

text \<open>One round of the loop: the fresh block \<open>v\<close> becomes the last area of the copy.\<close>

lemma copy_link:
  fixes q :: u64
  assumes o: "mm_objs s dst ws"
    and k: "slab_inv t" "live t = insert (v, n) (live s)" "is_obj t v" "v \<notin> fst ` live s" "vmas t = vmas s" "mm_structs t = mm_structs s"
  defines "u \<equiv> vlink_set (link_at dst ws) v (upd_vma v (\<lambda>_. \<lparr>vm_start = vm_start (vmas t q), vm_end = vm_end (vmas t q),
      vma_flags = vma_flags (vmas t q), vm_next = 0\<rparr>) t)"
  shows "mm_objs u dst (ws @ [v])" and "area u v = area s q" and "same_except (set (dst # ws)) s u" and "mm_info u dst = mm_info s dst"
    and "live u = live t" and "w \<in> set ws \<Longrightarrow> area u w = area s w"
proof -
  let ?s2 = "upd_vma v (\<lambda>_. \<lparr>vm_start = vm_start (vmas t q), vm_end = vm_end (vmas t q), vma_flags = vma_flags (vmas t q), vm_next = 0\<rparr>) t"
  have e: "same_except {} s ?s2" by (rule fresh_same [of ?s2 v n s]) (use k in simp_all)
  have o2: "mm_objs ?s2 dst (ws @ [])" using same_except_mm_objs(1) [OF o e] k(1) by simp
  have nv: "a \<noteq> v" if "is_obj s a" for a by (rule not_live [OF k(4) that])
  have v: "is_obj ?s2 v" "v \<notin> set (dst # ws @ [])" using k(3) nv mm_invD(5,6) [OF o] by auto
  have "vlink_get (link_at dst ws) ?s2 = 0" using link_get [OF mm_invD(4) [OF o2]] by simp
  then have same: "upd_vma v (\<lambda>r. r\<lparr>vm_next := vlink_get (link_at dst ws) ?s2\<rparr>) ?s2 = ?s2" by (simp add: upd_vma_def)
  note l = vma_link_in [OF o2 v, unfolded same, folded u_def]
  show "mm_objs u dst (ws @ [v])" using l(1) by simp
  show "area u v = area s q" unfolding l(2) using k(5) by (simp add: area_def)
  show "same_except (set (dst # ws)) s u" by (rule same_except_fresh [OF e l(3) _ k(4)]) auto
  show "mm_info u dst = mm_info s dst" using l(4) k(6) by (simp add: mm_info_def)
  show "live u = live t" by (simp add: u_def)
  show "area u w = area s w" if "w \<in> set ws" unfolding l(2) by (rule same_except_mm_objs(2) [OF o e _ _ that]) (use k(1) in simp_all)
qed

lemma same_except_chain:
  assumes "same_except A s t" "\<forall>q \<in> set qs. is_obj s q \<and> q \<notin> A"
  shows "freechain (\<lambda>w. vm_next (vmas t w)) c qs = freechain (\<lambda>w. vm_next (vmas s w)) c qs" and "map (area t) qs = map (area s) qs"
    and "q \<in> set qs \<Longrightarrow> is_obj t q"
proof -
  have e: "vmas t q = vmas s q" "is_obj t q" if "q \<in> set qs" for q using assms(1) bspec [OF assms(2) that] by (simp_all add: same_except_def)
  show "freechain (\<lambda>w. vm_next (vmas t w)) c qs = freechain (\<lambda>w. vm_next (vmas s w)) c qs" by (rule freechain_cong) (simp add: e)
  show "map (area t) qs = map (area s) qs" by (simp add: area_def e)
  show "q \<in> set qs \<Longrightarrow> is_obj t q" by (rule e)
qed

lemma copied_Cons:
  assumes c: "copied dst (ws @ [v]) qs u t us" and u: "area u v = area s q" "map (area u) qs = map (area s) qs" "\<And>w. w \<in> set ws \<Longrightarrow> area u w = area s w"
    "mm_info u dst = mm_info s dst" "live u = insert (v, n) (live s)" "v \<notin> fst ` live s"
  shows "copied dst ws (q # qs) s t (v # us)"
proof -
  have "area t v = area u v" "\<forall>w \<in> set ws. area t w = area u w" using c by (simp_all add: copied_def)
  moreover have "map (area t) us = map (area s) qs" using c u(2) unfolding copied_def by metis
  moreover have "{b \<in> live t. fst b \<notin> set (v # us)} = {b \<in> {b \<in> live t. fst b \<notin> set us}. fst b \<noteq> v}" by auto
  moreover have "{b \<in> live t. fst b \<notin> set us} = insert (v, n) (live s)" using c u(5) by (simp add: copied_def)
  moreover have "{b \<in> insert (v, n) (live s). fst b \<noteq> v} = live s" using u(6) by force
  moreover have "set (v # us) \<inter> fst ` live s = {}" using c u(5,6) by (auto simp: copied_def)
  ultimately show ?thesis using c u(1,3,4) unfolding copied_def by simp
qed

lemma copy_chain:
  assumes "mm_objs s dst ws" "freechain (\<lambda>w. vm_next (vmas s w)) c qs" "\<And>q. q \<in> set qs \<Longrightarrow> is_obj s q \<and> q \<notin> set (dst # ws)"
  shows "\<exists>d t. copy_vmas dst (link_at dst ws) c s = Some (d, t) \<and> slab_inv t \<and> same_except (set (dst # ws)) s t \<and>
    (d = 0 \<and> live t = {b \<in> live s. fst b \<notin> set (dst # ws)} \<or> d = dst \<and> (\<exists>us. copied dst ws qs s t us))"
  using assms
proof (induction qs arbitrary: c ws s)
  case Nil
  then have "copied dst ws [] s s []" by (simp add: copied_def)
  then show ?case using Nil mm_invD(1) [OF Nil.prems(1)] by (intro exI [of _ dst] exI [of _ s]) (auto simp: copy_vmas.simps same_except_def)
next
  case (Cons q qs)
  note o = Cons.prems(1)
  have c: "c = q" "q \<noteq> 0" "freechain (\<lambda>w. vm_next (vmas s w)) (vm_next (vmas s q)) qs" using Cons.prems(2) by simp_all
  have sz: "32 \<le> unat sizeof_vma_area" by (simp add: sizeof_vma_area_def)
  show ?case
  proof (rule kmalloc_node [OF mm_invD(1) [OF o] sz, of GFP_KERNEL])
    fix t1 assume t1: "kmalloc sizeof_vma_area GFP_KERNEL s = Some (0, t1)" "slab_inv t1" "live t1 = live s" "vmas t1 = vmas s" "mm_structs t1 = mm_structs s"
    have "mm_objs t1 dst ws" by (rule same_except_mm_objs(1) [OF o nothing_changed [OF t1(3-5)] t1(2)]) simp
    then obtain t where t: "mm_destroy dst t1 = Some t" "slab_inv t" "live t = {b \<in> live t1. fst b \<notin> set (dst # ws)}" "vmas t = vmas t1" "mm_structs t = mm_structs t1"
      using mm_destroy_ok by blast
    have "copy_vmas dst (link_at dst ws) c s = Some (0, t)" using c t1(1) t(1) by (subst copy_vmas.simps) simp
    moreover have "same_except (set (dst # ws)) s t" using t(3-5) t1(3-5) by (auto simp: same_except_def is_obj_live)
    ultimately show ?thesis using t(2,3) t1(3) by (intro exI [of _ 0] exI [of _ t]) simp
  next
    fix v n t1 assume k: "kmalloc sizeof_vma_area GFP_KERNEL s = Some (v, t1)" "v \<noteq> 0" "slab_inv t1" "live t1 = insert (v, n) (live s)" "is_obj t1 v"
      "v \<notin> fst ` live s" "vmas t1 = vmas s" "mm_structs t1 = mm_structs s"
    let ?u = "vlink_set (link_at dst ws) v (upd_vma v (\<lambda>_. \<lparr>vm_start = vm_start (vmas t1 q), vm_end = vm_end (vmas t1 q), vma_flags = vma_flags (vmas t1 q), vm_next = 0\<rparr>) t1)"
    note l = copy_link [where q = q, OF o k(3-8)]
    have l: "mm_objs ?u dst (ws @ [v])" "area ?u v = area s q" "same_except (set (dst # ws)) s ?u" "mm_info ?u dst = mm_info s dst" "live ?u = insert (v, n) (live s)"
      "\<And>w. w \<in> set ws \<Longrightarrow> area ?u w = area s w" using l k(4) by simp_all
    have nq: "vmas ?u q = vmas s q" using l(3) Cons.prems(3) [of q] by (simp add: same_except_def)
    have qs: "\<forall>x \<in> set qs. is_obj s x \<and> x \<notin> set (dst # ws)" using Cons.prems(3) by simp
    note sc = same_except_chain [OF l(3) qs]
    have f: "freechain (\<lambda>w. vm_next (vmas ?u w)) (vm_next (vmas ?u q)) qs" unfolding nq by (rule sc(1) [THEN iffD2, OF c(3)])
    have obj: "is_obj ?u x \<and> x \<notin> set (dst # ws @ [v])" if "x \<in> set qs" for x
      using sc(3) [OF that] bspec [OF qs that] not_live [OF k(6), of x] by auto
    obtain d t where t: "copy_vmas dst (link_at dst (ws @ [v])) (vm_next (vmas ?u q)) ?u = Some (d, t)" "slab_inv t" "same_except (set (dst # ws @ [v])) ?u t"
      "d = 0 \<and> live t = {b \<in> live ?u. fst b \<notin> set (dst # ws @ [v])} \<or> d = dst \<and> (\<exists>us. copied dst (ws @ [v]) qs ?u t us)"
      using Cons.IH [OF l(1) f obj] by blast
    have run: "copy_vmas dst (link_at dst ws) c s = Some (d, t)" using c k(1,2) t(1) by (subst copy_vmas.simps) (simp add: Let_def)
    have e: "same_except (set (dst # ws)) s t" by (rule same_except_trans [OF l(3) t(3)]) (use not_live [OF k(6)] in auto)
    have lv: "{b \<in> live ?u. fst b \<notin> set (dst # ws @ [v])} = {b \<in> live s. fst b \<notin> set (dst # ws)}" unfolding l(5) using k(6) by force
    have cp: "copied dst ws (q # qs) s t (v # us)" if "copied dst (ws @ [v]) qs ?u t us" for us
      by (rule copied_Cons [OF that l(2) sc(2) l(6) l(4,5) k(6)])
    from t(4) have "d = 0 \<and> live t = {b \<in> live s. fst b \<notin> set (dst # ws)} \<or> d = dst \<and> (\<exists>us. copied dst ws (q # qs) s t us)"
    proof (elim disjE conjE exE)
      assume "d = 0" "live t = {b \<in> live ?u. fst b \<notin> set (dst # ws @ [v])}"
      then show ?thesis unfolding lv by blast
    next
      fix us assume "d = dst" "copied dst (ws @ [v]) qs ?u t us"
      then show ?thesis using cp by blast
    qed
    then show ?thesis using run t(2) e by blast
  qed
qed

lemma mm_create_ok:
  fixes s :: "'a kproc_scheme"
  assumes inv: "slab_inv s"
  obtains (null) t where "mm_create s = Some (0, t)" "slab_inv t" "live t = live s" "same_except {} s t"
  | (new) d n t where "mm_create s = Some (d, t)" "d \<noteq> 0" "mm_objs t d []" "live t = insert (d, n) (live s)" "d \<notin> fst ` live s" "same_except {} s t"
      "mm_info t d = \<lparr>mm_mmap = 0, mm_start_brk = 0, mm_brk = 0, mm_start_stack = 0, mm_pgd = 0\<rparr>"
proof -
  have sz: "32 \<le> unat sizeof_mm_struct" by (simp add: sizeof_mm_struct_def)
  show thesis
  proof (rule kmalloc_node [OF inv sz, of GFP_KERNEL])
    fix t assume t: "kmalloc sizeof_mm_struct GFP_KERNEL s = Some (0, t)" "slab_inv t" "live t = live s" "vmas t = vmas s" "mm_structs t = mm_structs s"
    show thesis by (rule null [of t]) (use t nothing_changed [OF t(3-5)] in \<open>simp_all add: mm_create_def\<close>)
  next
    fix d n t1 assume k: "kmalloc sizeof_mm_struct GFP_KERNEL s = Some (d, t1)" "d \<noteq> 0" "slab_inv t1" "live t1 = insert (d, n) (live s)" "is_obj t1 d"
      "d \<notin> fst ` live s" "vmas t1 = vmas s" "mm_structs t1 = mm_structs s"
    let ?t = "upd_mm d (\<lambda>_. \<lparr>mm_mmap = 0, mm_start_brk = 0, mm_brk = 0, mm_start_stack = 0, mm_pgd = 0\<rparr>) t1"
    have "same_except {} s ?t" by (rule fresh_same [of ?t d n s]) (use k in simp_all)
    moreover have "mm_create s = Some (d, ?t)" using k(1,2) by (simp add: mm_create_def)
    moreover have "mm_objs ?t d []" using k(3,5) by (simp add: mm_objs_def vma_chain_def)
    ultimately show thesis using new [of d ?t n] k(2,4,6) by (simp add: mm_info_def)
  qed
qed

lemma mm_copy_ok:
  assumes i: "mm_inv s src vs"
  shows "(\<exists>t. mm_copy src s = Some (0, t) \<and> mm_inv t src vs \<and> live t = live s \<and> same_except {} s t) \<or>
    (\<exists>d t ws. mm_copy src s = Some (d, t) \<and> d \<noteq> 0 \<and> mm_inv t src vs \<and> mm_inv t d ws \<and> map (area t) ws = map (area s) vs \<and> mm_info t d = mm_info s src \<and>
       set (d # ws) \<inter> fst ` live s = {} \<and> {b \<in> live t. fst b \<notin> set (d # ws)} = live s \<and> same_except {} s t)"
proof -
  have o: "mm_objs s src vs" using i by (simp add: mm_inv_def)
  note z = mm_invD(7) [OF o]
  show ?thesis
  proof (rule mm_create_ok [OF mm_invD(1) [OF o]])
    fix t assume t: "mm_create s = Some (0, t)" "slab_inv t" "live t = live s" "same_except {} s t"
    then have "mm_copy src s = Some (0, t)" using z by (simp add: mm_copy_def)
    moreover have "mm_inv t src vs" by (rule same_except_mm_inv [OF i t(4,2)]) simp
    ultimately show ?thesis using t by blast
  next
    fix d n t1 assume k: "mm_create s = Some (d, t1)" "d \<noteq> 0" "mm_objs t1 d []" "live t1 = insert (d, n) (live s)" "d \<notin> fst ` live s" "same_except {} s t1"
      "mm_info t1 d = \<lparr>mm_mmap = 0, mm_start_brk = 0, mm_brk = 0, mm_start_stack = 0, mm_pgd = 0\<rparr>"
    let ?u = "upd_mm d (\<lambda>r. r\<lparr>mm_start_brk := mm_start_brk (mm_structs t1 src), mm_brk := mm_brk (mm_structs t1 src),
      mm_start_stack := mm_start_stack (mm_structs t1 src), mm_pgd := mm_pgd (mm_structs t1 src)\<rparr>) t1"
    have nd: "a \<noteq> d" if "is_obj s a" for a by (rule not_live [OF k(5) that])
    have e: "same_except {} s ?u" using k(6) nd by (auto simp: same_except_def)
    have u: "mm_objs ?u d []" using k(3) by (simp add: mm_objs_def vma_chain_def)
    have lu: "live ?u = insert (d, n) (live s)" using k(4) by simp
    have ms: "mm_structs t1 src = mm_structs s src" "mm_structs ?u src = mm_structs s src"
      using k(6) e mm_invD(5) [OF o] unfolding same_except_def by blast+
    have info: "mm_info ?u d = mm_info s src" using k(7) ms(1) by (cases "mm_structs t1 d") (simp add: mm_info_def)
    have q: "\<forall>v \<in> set vs. is_obj s v \<and> v \<notin> {}" using mm_invD(6) [OF o] by simp
    note f = same_except_chain [OF e q]
    have c: "freechain (\<lambda>w. vm_next (vmas ?u w)) (mm_mmap (mm_structs ?u src)) vs"
      unfolding ms(2) by (rule f(1) [THEN iffD2, OF mm_invD(4) [OF o, unfolded vma_chain_def]])
    have obj: "is_obj ?u v \<and> v \<notin> set (d # [])" if "v \<in> set vs" for v using f(3) [OF that] nd mm_invD(6) [OF o that] by simp
    obtain r t where t: "copy_vmas d (link_at d []) (mm_mmap (mm_structs ?u src)) ?u = Some (r, t)" "slab_inv t" "same_except (set (d # [])) ?u t"
      "r = 0 \<and> live t = {b \<in> live ?u. fst b \<notin> set (d # [])} \<or> r = d \<and> (\<exists>us. copied d [] vs ?u t us)"
      using copy_chain [OF u c obj] by blast
    have run: "mm_copy src s = Some (r, t)" using z k(1,2) t(1) by (simp add: mm_copy_def Let_def)
    have es: "same_except {} s t" by (rule same_except_fresh [OF e t(3) _ k(5)]) simp
    have src: "mm_inv t src vs" by (rule same_except_mm_inv [OF i es t(2)]) simp
    have lv: "{b \<in> live ?u. fst b \<noteq> d} = live s" unfolding lu using k(5) by force
    show ?thesis using t(4)
    proof (elim disjE conjE exE)
      assume r: "r = 0" "live t = {b \<in> live ?u. fst b \<notin> set (d # [])}"
      then have "live t = live s" using lv by simp
      then show ?thesis using run r(1) src es by blast
    next
      fix us assume r: "r = d" "copied d [] vs ?u t us"
      then have a: "map (area t) us = map (area s) vs" using f(2) unfolding copied_def by metis
      have "mm_inv t d us" using r(2) i a by (simp add: mm_inv_def copied_def del: map_eq_conv)
      moreover have l: "{b \<in> live t. fst b \<notin> set us} = live ?u" using r(2) by (simp add: copied_def)
      have "{b \<in> live t. fst b \<notin> set (d # us)} = {b \<in> {b \<in> live t. fst b \<notin> set us}. fst b \<noteq> d}" by auto
      then have "{b \<in> live t. fst b \<notin> set (d # us)} = live s" unfolding l lv .
      moreover have "set (d # us) \<inter> fst ` live s = {}" using r(2) k(5) lu by (auto simp: copied_def)
      moreover have "mm_info t d = mm_info s src" using r(2) info by (simp add: copied_def)
      ultimately show ?thesis using run r(1) k(2) src es a by blast
    qed
  qed
qed

section \<open>An address space to work with\<close>

lemma upd_pages [simp]:
  "slab_pages (upd_mm m f s) = slab_pages s" "km_pmm (upd_mm m f s) = km_pmm s"
  "slab_pages (upd_vma v g s) = slab_pages s" "km_pmm (upd_vma v g s) = km_pmm s"
  by (simp_all add: upd_mm_def upd_vma_def)

lemma room_upd [simp]: "room k (upd_mm m f s) = room k s" "room k (upd_vma v g s) = room k s"
  by (rule room_cong; simp)+

lemma room_vlink [simp]: "room k (vlink_set l x s) = room k s"
  by (cases l) simp_all

definition demo_space :: "u64 \<times> kdev" where
  "demo_space = the (mm_create demo_dev)"

lemma demo_space_ok: "mm_inv (snd demo_space) (fst demo_space) []" "room 1 (snd demo_space)" "mm_create demo_dev = Some demo_space"
proof -
  have "room 0 demo_dev" by (rule room_fresh [OF demo_dev_inv(1)]) (simp_all add: demo_dev_def slab_used_def slab_init_state zero_slab_page_def)
  then obtain x u where k: "kmalloc sizeof_mm_struct GFP_KERNEL demo_dev = Some (x, u)" "x \<noteq> 0" "room 1 u"
    using room_kmalloc [of 0 demo_dev sizeof_mm_struct] by (auto simp: sizeof_mm_struct_def)
  then have c: "mm_create demo_dev = Some (x, upd_mm x (\<lambda>_. \<lparr>mm_mmap = 0, mm_start_brk = 0, mm_brk = 0, mm_start_stack = 0, mm_pgd = 0\<rparr>) u)"
    by (simp add: mm_create_def)
  then show "room 1 (snd demo_space)" "mm_create demo_dev = Some demo_space" using k(3) by (simp_all add: demo_space_def)
  show "mm_inv (snd demo_space) (fst demo_space) []"
    by (rule mm_create_ok [OF demo_dev_inv(1)]) (use c k(2) in \<open>auto simp: demo_space_def mm_inv_def regions_ok_def\<close>)
qed

lemma demo_vma: "\<exists>t. vma_create (fst demo_space) 0x1000 0x3000 3 (snd demo_space) = Some (0, t) \<and> room 2 t"
proof -
  let ?m = "fst demo_space" and ?s = "snd demo_space"
  obtain v t where k: "kmalloc sizeof_vma_area GFP_KERNEL ?s = Some (v, t)" "v \<noteq> 0" "room 2 t"
    using room_kmalloc [OF demo_space_ok(2), of sizeof_vma_area] unfolding Suc_1 by (auto simp: sizeof_vma_area_def)
  have o: "mm_objs ?s ?m []" using demo_space_ok(1) by (simp add: mm_inv_def)
  have e: "mm_structs t ?m = mm_structs ?s ?m" using more_proc [OF kmalloc_more [OF k(1)]] by simp
  have "vma_slot 0x1000 (MmapOf ?m) (upd_vma v f t) = Some (MmapOf ?m)" for f
    using mm_invD(4) [OF o] e by (subst vma_slot.simps) (simp add: vma_chain_def)
  then show ?thesis using k mm_invD(7) [OF o] by (simp add: vma_create_def Let_def)
qed

section \<open>Address spaces\<close>

text \<open>C37: vma_create on a well-formed address space refuses an empty or inverted range and changes nothing. Otherwise it
  always returns: -1 when no memory is left, with no area and no live block changed, or 0 with the region in its place in
  the ordered list. Then exactly one block more is live, every address of the range is found by vma_find, and no
  object outside this address space has changed.\<close>

theorem vma_create_correct:
  assumes "mm_inv s mm vs"
  shows "fin \<le> start \<and> vma_create mm start fin fl s = Some (-1, s) \<or>
    start < fin \<and> (\<exists>t. vma_create mm start fin fl s = Some (-1, t) \<and> mm_inv t mm vs \<and> live t = live s \<and> same_except {} s t) \<or>
    start < fin \<and> (\<exists>t ws. vma_create mm start fin fl s = Some (0, t) \<and> mm_inv t mm ws \<and> same_except (set (mm # vs)) s t \<and>
       map (area t) ws = takeWhile (\<lambda>q. fst q < start) (map (area s) vs) @ (start, fin, fl) # dropWhile (\<lambda>q. fst q < start) (map (area s) vs) \<and>
       (\<exists>v n. live t = insert (v, n) (live s) \<and> v \<notin> fst ` live s) \<and>
       (\<forall>a. start \<le> a \<and> a < fin \<longrightarrow> (\<exists>w \<in> set ws. vma_find mm a t = Some w \<and> inside t a w)))"
proof (cases "start < fin")
  case False
  then show ?thesis by (auto simp: vma_create_def not_less)
next
  case True
  have hit: "\<exists>w \<in> set ws. vma_find mm a t = Some w \<and> inside t a w" if w: "vma_added mm vs (start, fin, fl) s t ws" "start \<le> a" "a < fin" for t ws a
  proof -
    have o: "mm_objs t mm ws" and "(start, fin, fl) \<in> set (map (area t) ws)" using w(1) by (simp_all add: vma_added_def mm_inv_def del: list.set_map)
    then obtain v where v: "v \<in> set ws" "area t v = (start, fin, fl)" by auto
    then have "inside t a v" using w(2,3) by (simp add: inside_def area_def)
    then obtain w where f: "find (inside t a) ws = Some w" using v(1) by (cases "find (inside t a) ws") (auto simp: find_None_iff)
    then have "w \<in> set ws" "inside t a w" by (auto simp: find_Some_iff)
    then show ?thesis using vma_find_ok [OF o, of a] f by simp
  qed
  from vma_create_ok [OF assms True, of fl] show ?thesis
  proof (elim disjE exE conjE)
    fix t ws assume t: "vma_create mm start fin fl s = Some (0, t)" "vma_added mm vs (start, fin, fl) s t ws"
    have "\<forall>a. start \<le> a \<and> a < fin \<longrightarrow> (\<exists>w \<in> set ws. vma_find mm a t = Some w \<and> inside t a w)" using hit [OF t(2)] by blast
    moreover have "mm_inv t mm ws" "same_except (set (mm # vs)) s t" "\<exists>v n. live t = insert (v, n) (live s) \<and> v \<notin> fst ` live s"
      "map (area t) ws = takeWhile (\<lambda>q. fst q < start) (map (area s) vs) @ (start, fin, fl) # dropWhile (\<lambda>q. fst q < start) (map (area s) vs)"
      using t(2) unfolding vma_added_def fst_conv by blast+
    ultimately show ?thesis using True t(1) by blast
  qed (use True in blast)
qed

theorem vma_create_correct_witness:
  "\<exists>t v w. vma_create (fst demo_space) 0x1000 0x3000 3 (snd demo_space) = Some (0, t) \<and> mm_inv t (fst demo_space) [v] \<and> area t v = (0x1000, 0x3000, 3) \<and>
     vma_find (fst demo_space) 0x2345 t = Some w \<and> inside t 0x2345 w"
proof -
  obtain t where t: "vma_create (fst demo_space) 0x1000 0x3000 3 (snd demo_space) = Some (0, t)" using demo_vma by blast
  with vma_create_correct [OF demo_space_ok(1), of "0x3000" "0x1000" 3]
  obtain ws where w: "mm_inv t (fst demo_space) ws" "map (area t) ws = [(0x1000, 0x3000, 3)]"
    "\<forall>a. 0x1000 \<le> a \<and> a < 0x3000 \<longrightarrow> (\<exists>w \<in> set ws. vma_find (fst demo_space) a t = Some w \<and> inside t a w)" by auto
  moreover obtain v where "ws = [v]" "area t v = (0x1000, 0x3000, 3)" using w(2) by auto
  moreover have "(0x1000 :: u64) \<le> 0x2345 \<and> (0x2345 :: u64) < 0x3000" by simp
  ultimately show ?thesis using t by blast
qed

text \<open>C39: vma_remove of an area of a well-formed address space returns. It takes exactly that area from the list and
  frees exactly its block; the remaining areas keep their bounds and flags and their order, and no object outside the
  address space has changed.\<close>

theorem vma_remove_correct:
  assumes "mm_inv s mm vs" and "v \<in> set vs"
  shows "\<exists>t. vma_remove mm v s = Some t \<and> mm_inv t mm (remove1 v vs) \<and> (\<forall>w \<in> set vs. area t w = area s w) \<and>
    same_except (set (mm # vs)) s t \<and> live t = {b \<in> live s. fst b \<noteq> v}"
  using vma_remove_ok [OF assms] by (simp add: vma_removed_def)

lemma demo_one_vma:
  obtains t v where "vma_create (fst demo_space) 0x1000 0x3000 3 (snd demo_space) = Some (0, t)" "mm_inv t (fst demo_space) [v]" "room 2 t"
proof -
  obtain t where t: "vma_create (fst demo_space) 0x1000 0x3000 3 (snd demo_space) = Some (0, t)" "room 2 t" using demo_vma by blast
  have "(0x1000 :: u64) < 0x3000" by simp
  from vma_create_ok [OF demo_space_ok(1) this, of 3] obtain ws where "vma_added (fst demo_space) [] (0x1000, 0x3000, 3) (snd demo_space) t ws"
    using t(1) by auto
  then have w: "mm_inv t (fst demo_space) ws" "map (area t) ws = [(0x1000, 0x3000, 3)]" by (simp_all add: vma_added_def)
  then obtain v where "ws = [v]" by auto
  then show thesis using that t w(1) by blast
qed

theorem vma_remove_correct_witness:
  "\<exists>t u v. vma_create (fst demo_space) 0x1000 0x3000 3 (snd demo_space) = Some (0, t) \<and> vma_remove (fst demo_space) v t = Some u \<and> mm_inv u (fst demo_space) []"
proof -
  obtain t v where t: "vma_create (fst demo_space) 0x1000 0x3000 3 (snd demo_space) = Some (0, t)" "mm_inv t (fst demo_space) [v]" by (rule demo_one_vma)
  then show ?thesis using vma_remove_correct [OF t(2), of v] by auto
qed

text \<open>C38: mm_copy of a well-formed address space returns. When memory runs out at any block, it has given back every block it took
  and the result is NULL. Otherwise the copy is a well-formed address space on fresh blocks with the same areas in the same order
  and the same break, stack and page directory, and destroying it gives back exactly these blocks. The original and every other object
  are unchanged at every point.\<close>

theorem mm_copy_correct:
  assumes "mm_inv s src vs"
  shows "(\<exists>t. mm_copy src s = Some (0, t) \<and> mm_inv t src vs \<and> live t = live s \<and> same_except {} s t) \<or>
    (\<exists>d t ws. mm_copy src s = Some (d, t) \<and> d \<noteq> 0 \<and> mm_inv t src vs \<and> mm_inv t d ws \<and> map (area t) ws = map (area s) vs \<and> mm_info t d = mm_info s src \<and>
       set (d # ws) \<inter> fst ` live s = {} \<and> same_except {} s t \<and>
       (\<exists>u. mm_destroy d t = Some u \<and> live u = live s \<and> mm_inv u src vs \<and> same_except {} s u))"
  using mm_copy_ok [OF assms]
proof (elim disjE exE conjE)
  fix d t ws assume c: "mm_copy src s = Some (d, t)" "d \<noteq> 0" "mm_inv t src vs" "mm_inv t d ws" "map (area t) ws = map (area s) vs" "mm_info t d = mm_info s src"
    "set (d # ws) \<inter> fst ` live s = {}" "{b \<in> live t. fst b \<notin> set (d # ws)} = live s" "same_except {} s t"
  obtain u where u: "mm_destroy d t = Some u" "slab_inv u" "live u = {b \<in> live t. fst b \<notin> set (d # ws)}" "vmas u = vmas t" "mm_structs u = mm_structs t"
    using mm_destroy_ok [of t d ws] c(4) by (auto simp: mm_inv_def)
  have lu: "live u = live s" using u(3) c(8) by simp
  have e: "same_except {} s u" using c(9) u(4,5) lu by (simp add: same_except_def is_obj_def)
  have "mm_inv u src vs" by (rule same_except_mm_inv [OF assms e u(2)]) simp
  then show ?thesis using c u(1) lu e by blast
qed blast

theorem mm_copy_correct_witness:
  "\<exists>t d u. vma_create (fst demo_space) 0x1000 0x3000 3 (snd demo_space) = Some (0, t) \<and> mm_copy (fst demo_space) t = Some (d, u) \<and> same_except {} t u"
proof -
  obtain t v where t: "vma_create (fst demo_space) 0x1000 0x3000 3 (snd demo_space) = Some (0, t)" "mm_inv t (fst demo_space) [v]" by (rule demo_one_vma)
  then show ?thesis using mm_copy_correct [OF t(2)] by blast
qed

end
