(* ===== verification/Irq_Properties.thy ===== *)
theory Irq_Properties
  imports Irq
begin

text \<open>
  Registration and delivery of interrupts: \<^verbatim>\<open>irq_register\<close> and \<^verbatim>\<open>el1_irq_handler\<close> of
  \<^verbatim>\<open>exception/handler.c\<close> on the interrupt controller.
\<close>

lemma uart_puts_append: "uart_puts (xs @ ys) s = do { t \<leftarrow> uart_puts xs s; uart_puts ys t }"
  by (induction xs arbitrary: s) (auto split: Option.bind_splits)

definition register_text :: "u8 list \<Rightarrow> u8 list" where
  "register_text name = asc ''[IRQ] Register: '' @ name @ [0x0A]"

lemma irq_register_run:
  assumes "irq < 1024" "h \<noteq> 0"
  shows "irq_register irq h name s = uart_puts (register_text name) (gic_enable_irq irq (s\<lparr>irq_table := (irq_table s)(unat irq := h)\<rparr>))"
  using assms by (simp add: irq_register_def register_text_def uart_puts_append del: uart_puts.simps)

lemma irq_id_bound: "iar AND 0x3FF < (1024 :: u32)"
proof -
  have "iar AND 0x3FF = take_bit 10 iar" by (simp add: take_bit_eq_mask mask_eq_exp_minus_1)
  then show ?thesis by (simp add: word_less_nat_alt unat_take_bit_mod)
qed

lemma el1_irq_run:
  assumes "io_in s = iar # vs"
  defines "n \<equiv> iar AND 0x3FF" and "s1 \<equiv> s\<lparr>io_in := vs, io_log := io_log s @ [IoRead (GICC_IAR s) iar]\<rparr>"
  shows "el1_irq_handler call s =
    (if irq_table s (unat n) = 0 then Some (io_write32 (GICC_EOIR s) iar s1)
     else do { s2 \<leftarrow> call (irq_table s (unat n)) n s1; Some (io_write32 (GICC_EOIR s2) iar s2) })"
  using assms irq_id_bound [of iar] by (simp add: el1_irq_handler_def io_read32_def GICC_EOIR_def Let_def)

text \<open>C40: Registering a handler for an interrupt number below 1024 returns as soon as the transmitter takes the message. It enters the handler for
  that number only, enables exactly that number at the distributor before anything is printed, and prints the message.
  From then on, while the table stays as it is, an interrupt whose acknowledged identifier has that number calls exactly this handler, once, with the number, after the
  acknowledge and before the identifier that was read is written to the end of interrupt register; the delivery of every
  other number is as before. A number that is out of range or a NULL handler changes nothing.\<close>

theorem irq_register_delivers:
  fixes s :: "'a kdev_scheme"
  assumes "length (crlf (register_text name)) \<le> length (filter tx_ready (io_in s))"
  shows "if irq < 1024 \<and> h \<noteq> 0
    then \<exists>t evs. irq_register irq h name s = Some t \<and>
      io_log t = io_log s @ IoWrite (gicd_base s + 0x100 + ucast (irq div 32 * 4)) (push_bit (unat (irq mod 32)) 1) # evs \<and>
      sent (uart_base s) evs = map ucast (crlf (register_text name)) \<and>
      (\<forall>call (u :: 'a kdev_scheme) iar vs. irq_table u = irq_table t \<and> io_in u = iar # vs \<longrightarrow>
         el1_irq_handler call u =
           (let n = iar AND 0x3FF;
                u1 = u\<lparr>io_in := vs, io_log := io_log u @ [IoRead (gicc_base u + 0xC) iar]\<rparr>;
                f = (if n = irq then h else irq_table s (unat n))
            in if f = 0 then Some (io_write32 (gicc_base u1 + 0x10) iar u1)
               else do { u2 \<leftarrow> call f n u1; Some (io_write32 (gicc_base u2 + 0x10) iar u2) }))
    else irq_register irq h name s = Some s"
proof (cases "irq < 1024 \<and> h \<noteq> 0")
  case False
  then show ?thesis by (auto simp: irq_register_def)
next
  case True
  let ?s1 = "gic_enable_irq irq (s\<lparr>irq_table := (irq_table s)(unat irq := h)\<rparr>)"
  have b: "io_in ?s1 = io_in s" "uart_base ?s1 = uart_base s" "irq_table ?s1 = (irq_table s)(unat irq := h)"
    "io_log ?s1 = io_log s @ [IoWrite (gicd_base s + 0x100 + ucast (irq div 32 * 4)) (push_bit (unat (irq mod 32)) 1)]"
    by (simp_all add: gic_enable_irq_def io_write32_def GICD_ISENABLER_def)
  obtain vs evs where p: "uart_puts (register_text name) ?s1 = Some (?s1\<lparr>io_in := vs, io_log := io_log ?s1 @ evs\<rparr>)"
    "sent (uart_base s) evs = map ucast (crlf (register_text name))"
    using uart_puts_out [of "register_text name" ?s1] assms unfolding b(1,2) chars_out_def by auto
  let ?t = "?s1\<lparr>io_in := vs, io_log := io_log ?s1 @ evs\<rparr>"
  have tab: "irq_table ?t n = (if n = unat irq then h else irq_table s n)" for n using b(3) by simp
  have "el1_irq_handler call u =
      (let n = iar AND 0x3FF;
           u1 = u\<lparr>io_in := vs, io_log := io_log u @ [IoRead (gicc_base u + 0xC) iar]\<rparr>;
           f = (if n = irq then h else irq_table s (unat n))
       in if f = 0 then Some (io_write32 (gicc_base u1 + 0x10) iar u1)
          else do { u2 \<leftarrow> call f n u1; Some (io_write32 (gicc_base u2 + 0x10) iar u2) })"
    if u: "irq_table u = irq_table ?t" "io_in u = iar # vs" for call and u :: "'a kdev_scheme" and iar vs
  proof -
    have "irq_table u (unat n) = (if n = irq then h else irq_table s (unat n))" for n by (simp only: u(1) tab word_unat_eq_iff)
    then show ?thesis unfolding el1_irq_run [OF u(2)] Let_def by (simp add: GICC_IAR_def GICC_EOIR_def)
  qed
  moreover have "irq_register irq h name s = Some ?t" using irq_register_run [of irq h name s] True p(1) by simp
  moreover have "io_log ?t = io_log s @ IoWrite (gicd_base s + 0x100 + ucast (irq div 32 * 4)) (push_bit (unat (irq mod 32)) 1) # evs" using b(4) by simp
  ultimately show ?thesis using True p(2) by (simp only: if_True simp_thms) blast
qed

definition demo_ready :: kdev where
  "demo_ready = demo_dev\<lparr>io_in := replicate 30 0x80\<rparr>"

theorem irq_register_delivers_witness:
  "\<exists>t. irq_register 33 0x5000 (asc ''UART0'') demo_ready = Some t \<and>
     el1_irq_handler (\<lambda>h n u. Some (u\<lparr>system_tick := h + ucast n\<rparr>)) (t\<lparr>io_in := [0x421]\<rparr>) =
       Some (io_write32 (gicc_base t + 0x10) 0x421 (t\<lparr>io_in := [], io_log := io_log t @ [IoRead (gicc_base t + 0xC) 0x421], system_tick := 0x5021\<rparr>))"
proof -
  have l: "length (crlf (register_text (asc ''UART0''))) \<le> length (filter tx_ready (io_in demo_ready))"
    by (simp add: register_text_def asc_def crlf_def of_char_def demo_ready_def tx_ready_def UART_FR_TXFE_def)
  obtain t where t: "irq_register 33 0x5000 (asc ''UART0'') demo_ready = Some t"
    and d: "\<And>call (u :: kdev) iar vs. irq_table u = irq_table t \<Longrightarrow> io_in u = iar # vs \<Longrightarrow> iar AND 0x3FF = 33 \<Longrightarrow>
      el1_irq_handler call u = do { u2 \<leftarrow> call 0x5000 33 (u\<lparr>io_in := vs, io_log := io_log u @ [IoRead (gicc_base u + 0xC) iar]\<rparr>); Some (io_write32 (gicc_base u2 + 0x10) iar u2) }"
    using irq_register_delivers [OF l, of 33 "0x5000"] by (auto simp: Let_def)
  show ?thesis using t d [of "t\<lparr>io_in := [0x421]\<rparr>" "0x421" "[]"] by (auto simp: io_write32_def)
qed

end
