(* ===== verification/Spinlock.thy ===== *)
theory Spinlock
  imports Kernel_Prelude
begin

text \<open>
  The ticket spinlock of \<^verbatim>\<open>arch/arm64/include/asm/spinlock.h\<close> and the interrupt masking of
  \<^verbatim>\<open>irqflags.h\<close>. The inline assembly is modelled instruction by instruction: each CPU has a program
  counter and its registers, the exclusive monitor of \<^verbatim>\<open>ldaxr\<close>/\<^verbatim>\<open>stxr\<close> is one bit per CPU that
  any store to \<^verbatim>\<open>next\<close> clears, \<^verbatim>\<open>stxr\<close> may fail at any time, \<^verbatim>\<open>wfe\<close> only delays. The CPUs
  interleave in a step relation. The abstract contract is a first-in first-out queue of CPUs whose
  head holds the lock, stated as a locale and interpreted on the ticket lock; mutual exclusion and
  the order of service follow from it. The tickets are 32-bit words that wrap around; fewer than
  \<open>2 ^ 32\<close> CPUs make them unambiguous.
\<close>

section \<open>The lock and its instructions\<close>

record arch_spinlock =
  tk_next :: u32
  tk_owner :: u32

datatype lock_pc =
    Outside
  | GotNext u32
  | Spinning u32
  | Critical u32
  | Leaving u32

record lock_state =
  lk :: arch_spinlock
  lpc :: "nat \<Rightarrow> lock_pc"
  excl :: "nat \<Rightarrow> bool"

text \<open>\<^verbatim>\<open>arch_spin_lock\<close>: label 1, then label 2.\<close>

definition ldaxr_next :: "nat \<Rightarrow> lock_state \<Rightarrow> lock_state" where
  "ldaxr_next i s = s\<lparr>lpc := (lpc s)(i := GotNext (tk_next (lk s))), excl := (excl s)(i := True)\<rparr>"

definition stxr_next :: "nat \<Rightarrow> u32 \<Rightarrow> lock_state \<Rightarrow> lock_state" where
  "stxr_next i v s = s\<lparr>lk := (lk s)\<lparr>tk_next := v + 1\<rparr>, lpc := (lpc s)(i := Spinning v), excl := (\<lambda>_. False)\<rparr>"

definition stxr_fail :: "nat \<Rightarrow> lock_state \<Rightarrow> lock_state" where
  "stxr_fail i s = s\<lparr>lpc := (lpc s)(i := Outside), excl := (excl s)(i := False)\<rparr>"

definition ldaxr_owner :: "nat \<Rightarrow> u32 \<Rightarrow> lock_state \<Rightarrow> lock_state" where
  "ldaxr_owner i t s = (if t = tk_owner (lk s) then s\<lparr>lpc := (lpc s)(i := Critical t)\<rparr> else s)"

text \<open>\<^verbatim>\<open>arch_spin_unlock\<close>: the operand \<^verbatim>\<open>lock->owner + 1\<close> is read, then stored.\<close>

definition read_owner :: "nat \<Rightarrow> lock_state \<Rightarrow> lock_state" where
  "read_owner i s = s\<lparr>lpc := (lpc s)(i := Leaving (tk_owner (lk s) + 1))\<rparr>"

definition stlr_owner :: "nat \<Rightarrow> u32 \<Rightarrow> lock_state \<Rightarrow> lock_state" where
  "stlr_owner i v s = s\<lparr>lk := (lk s)\<lparr>tk_owner := v\<rparr>, lpc := (lpc s)(i := Outside)\<rparr>"

definition SPIN_LOCK_UNLOCKED :: arch_spinlock where
  "SPIN_LOCK_UNLOCKED = \<lparr>tk_next = 0, tk_owner = 0\<rparr>"

inductive lock_step :: "nat \<Rightarrow> lock_state \<Rightarrow> lock_state \<Rightarrow> bool" for n where
  load_next: "i < n \<Longrightarrow> lpc s i = Outside \<Longrightarrow> lock_step n s (ldaxr_next i s)"
| take_ticket: "i < n \<Longrightarrow> lpc s i = GotNext v \<Longrightarrow> excl s i \<Longrightarrow> lock_step n s (stxr_next i v s)"
| retry: "i < n \<Longrightarrow> lpc s i = GotNext v \<Longrightarrow> lock_step n s (stxr_fail i s)"
| poll: "i < n \<Longrightarrow> lpc s i = Spinning t \<Longrightarrow> lock_step n s (ldaxr_owner i t s)"
| unlock_read: "i < n \<Longrightarrow> lpc s i = Critical t \<Longrightarrow> lock_step n s (read_owner i s)"
| unlock_store: "i < n \<Longrightarrow> lpc s i = Leaving v \<Longrightarrow> lock_step n s (stlr_owner i v s)"

inductive_cases lock_stepE: "lock_step n s s'"

definition lock_init :: "lock_state \<Rightarrow> bool" where
  "lock_init s \<longleftrightarrow> lk s = SPIN_LOCK_UNLOCKED \<and> (\<forall>i. lpc s i = Outside \<and> \<not> excl s i)"

fun holds_lock :: "lock_pc \<Rightarrow> bool" where
  "holds_lock (Critical _) = True"
| "holds_lock (Leaving _) = True"
| "holds_lock _ = False"

fun ticket_of :: "u32 \<Rightarrow> lock_pc \<Rightarrow> u32 option" where
  "ticket_of ow (Spinning t) = Some t"
| "ticket_of ow (Critical t) = Some t"
| "ticket_of ow (Leaving v) = Some ow"
| "ticket_of ow _ = None"

section \<open>The contract of a fair lock\<close>

text \<open>
  \<open>rep s q\<close>: in state \<open>s\<close> the clients in \<open>q\<close> have asked for the lock, in that order. Every step keeps
  the queue, appends a new client or lets the head leave, and only the head is ever inside.
\<close>

locale fair_lock =
  fixes init :: "'s \<Rightarrow> bool"
    and step :: "'s \<Rightarrow> 's \<Rightarrow> bool"
    and rep :: "'s \<Rightarrow> 'c list \<Rightarrow> bool"
    and inside :: "'s \<Rightarrow> 'c \<Rightarrow> bool"
  assumes init_rep: "init s \<Longrightarrow> rep s []"
    and step_rep: "step s s' \<Longrightarrow> rep s q \<Longrightarrow>
      rep s' q \<or> (\<exists>i. i \<notin> set q \<and> rep s' (q @ [i])) \<or> (q \<noteq> [] \<and> inside s (hd q) \<and> rep s' (tl q))"
    and inside_head: "rep s q \<Longrightarrow> inside s i \<Longrightarrow> q \<noteq> [] \<and> i = hd q"
    and rep_distinct: "rep s q \<Longrightarrow> distinct q"
begin

lemma reachable_rep:
  assumes "step\<^sup>*\<^sup>* s s'" and "rep s q"
  shows "\<exists>q'. rep s' q'"
  using assms by (induction rule: rtranclp_induct) (blast dest: step_rep)+

lemma mutual_exclusion:
  assumes "init s" and "step\<^sup>*\<^sup>* s s'" and "inside s' i" and "inside s' j"
  shows "i = j"
  using reachable_rep [OF assms(2) init_rep [OF assms(1)]] inside_head assms(3,4) by metis

lemma fifo_or_served:
  assumes "step\<^sup>*\<^sup>* s s'" and "rep s (xs @ i # ys @ j # zs)"
  shows "(\<exists>q. rep s' q \<and> (\<exists>us vs ws. q = us @ i # vs @ j # ws)) \<or> (\<exists>t. step\<^sup>*\<^sup>* s t \<and> step\<^sup>*\<^sup>* t s' \<and> inside t i)"
  using assms(1)
proof (induction rule: rtranclp_induct)
  case base
  then show ?case using assms(2) by blast
next
  case (step y z)
  then consider q us vs ws where "rep y q" "q = us @ i # vs @ j # ws" | t where "step\<^sup>*\<^sup>* s t" "step\<^sup>*\<^sup>* t y" "inside t i"
    by blast
  then show ?case
  proof cases
    case (1 q us vs ws)
    from step_rep [OF step.hyps(2) 1(1)]
    consider "rep z q" | k where "rep z (q @ [k])" | "inside y (hd q)" "rep z (tl q)" by blast
    then show ?thesis
    proof cases
      case 1
      then show ?thesis using \<open>q = us @ i # vs @ j # ws\<close> by blast
    next
      case (2 k)
      then have "\<exists>us' vs' ws'. q @ [k] = us' @ i # vs' @ j # ws'" using \<open>q = us @ i # vs @ j # ws\<close> by auto
      then show ?thesis using 2 by blast
    next
      case 3
      show ?thesis
      proof (cases us)
        case Nil
        then have "inside y i" using 3 \<open>q = us @ i # vs @ j # ws\<close> by simp
        then show ?thesis using step.hyps by blast
      next
        case (Cons u us')
        then have "tl q = us' @ i # vs @ j # ws" using \<open>q = us @ i # vs @ j # ws\<close> by simp
        then show ?thesis using 3 by blast
      qed
    qed
  next
    case (2 t)
    then show ?thesis using step.hyps by (meson rtranclp.rtrancl_into_rtrancl)
  qed
qed

lemma fifo:
  assumes "step\<^sup>*\<^sup>* s s'" and "rep s (xs @ i # ys @ j # zs)" and "inside s' j"
  shows "\<exists>t. step\<^sup>*\<^sup>* s t \<and> step\<^sup>*\<^sup>* t s' \<and> inside t i"
  using fifo_or_served [OF assms(1,2)]
proof
  assume "\<exists>q. rep s' q \<and> (\<exists>us vs ws. q = us @ i # vs @ j # ws)"
  then obtain us vs ws where q: "rep s' (us @ i # vs @ j # ws)" by blast
  then have "j = hd (us @ i # vs @ j # ws)" using inside_head assms(3) by blast
  then show ?thesis using rep_distinct [OF q] by (cases us) auto
qed

end

section \<open>The ticket lock meets the contract\<close>

definition lock_rep :: "nat \<Rightarrow> lock_state \<Rightarrow> nat list \<Rightarrow> bool" where
  "lock_rep n s q \<longleftrightarrow>
     distinct q \<and> set q = {i. i < n \<and> ticket_of (tk_owner (lk s)) (lpc s i) \<noteq> None} \<and>
     tk_next (lk s) = tk_owner (lk s) + of_nat (length q) \<and>
     (\<forall>k < length q. ticket_of (tk_owner (lk s)) (lpc s (q ! k)) = Some (tk_owner (lk s) + of_nat k)) \<and>
     (\<forall>i. holds_lock (lpc s i) \<longrightarrow> q \<noteq> [] \<and> i = hd q) \<and>
     (\<forall>i v. lpc s i = Leaving v \<longrightarrow> v = tk_owner (lk s) + 1) \<and>
     (\<forall>i v. excl s i \<longrightarrow> lpc s i = GotNext v \<longrightarrow> v = tk_next (lk s)) \<and>
     (\<forall>i. n \<le> i \<longrightarrow> lpc s i = Outside)"

lemma lock_rep_length: "lock_rep n s q \<Longrightarrow> length q \<le> n"
proof -
  assume "lock_rep n s q"
  then have "distinct q" "set q \<subseteq> {..<n}" by (auto simp: lock_rep_def)
  then show ?thesis using card_mono [of "{..<n}" "set q"] by (simp add: distinct_card)
qed

lemma lock_repD:
  assumes "lock_rep n s q"
  shows "distinct q" and "set q = {i. i < n \<and> ticket_of (tk_owner (lk s)) (lpc s i) \<noteq> None}"
    and "tk_next (lk s) = tk_owner (lk s) + of_nat (length q)"
    and "k < length q \<Longrightarrow> ticket_of (tk_owner (lk s)) (lpc s (q ! k)) = Some (tk_owner (lk s) + of_nat k)"
    and "holds_lock (lpc s i) \<Longrightarrow> q \<noteq> [] \<and> i = hd q"
    and "lpc s i = Leaving v \<Longrightarrow> v = tk_owner (lk s) + 1"
    and "excl s i \<Longrightarrow> lpc s i = GotNext v \<Longrightarrow> v = tk_next (lk s)"
    and "n \<le> i \<Longrightarrow> lpc s i = Outside"
  using assms unfolding lock_rep_def by blast+

text \<open>A step that keeps the ticket of every CPU keeps the queue.\<close>

lemma lock_rep_same:
  assumes "lock_rep n s q" and "lk s' = lk s"
    and "\<And>j. ticket_of (tk_owner (lk s)) (lpc s' j) = ticket_of (tk_owner (lk s)) (lpc s j)"
    and "\<And>j. holds_lock (lpc s' j) \<Longrightarrow> q \<noteq> [] \<and> j = hd q"
    and "\<And>j v. lpc s' j = Leaving v \<Longrightarrow> v = tk_owner (lk s) + 1"
    and "\<And>j v. excl s' j \<Longrightarrow> lpc s' j = GotNext v \<Longrightarrow> v = tk_next (lk s)"
    and "\<And>j. n \<le> j \<Longrightarrow> lpc s' j = Outside"
  shows "lock_rep n s' q"
  using assms lock_repD(1-4) [OF assms(1)] unfolding lock_rep_def by simp

lemma step_load_next:
  assumes "lock_rep n s q" and "i < n" and "lpc s i = Outside"
  shows "lock_rep n (ldaxr_next i s) q"
  using assms(2,3) lock_repD(5-8) [OF assms(1)]
  by (intro lock_rep_same [OF assms(1)]) (auto simp: ldaxr_next_def split: if_splits)

lemma step_retry:
  assumes "lock_rep n s q" and "i < n" and "lpc s i = GotNext v"
  shows "lock_rep n (stxr_fail i s) q"
  using assms(2,3) lock_repD(5-8) [OF assms(1)]
  by (intro lock_rep_same [OF assms(1)]) (auto simp: stxr_fail_def split: if_splits)

lemma step_take_ticket:
  assumes "lock_rep n s q" and "i < n" and "lpc s i = GotNext v" and "excl s i"
  shows "i \<notin> set q \<and> lock_rep n (stxr_next i v s) (q @ [i])"
proof
  note d = lock_repD [OF assms(1)]
  show nin: "i \<notin> set q" using d(2) assms(3) by simp
  have v: "v = tk_owner (lk s) + of_nat (length q)" using d(3,7) assms(3,4) by simp
  have "lpc s (q ! k) \<noteq> GotNext v" if "k < length q" for k using d(2) nth_mem [OF that] by fastforce
  then have ne: "q ! k \<noteq> i" if "k < length q" for k using that assms(3) by metis
  show "lock_rep n (stxr_next i v s) (q @ [i])"
    unfolding lock_rep_def
  proof (intro conjI allI impI)
    show "set (q @ [i]) = {j. j < n \<and> ticket_of (tk_owner (lk (stxr_next i v s))) (lpc (stxr_next i v s) j) \<noteq> None}"
      using d(2) assms(2) by (auto simp: stxr_next_def)
    fix k
    assume "k < length (q @ [i])"
    then consider "k < length q" | "k = length q" by fastforce
    then show "ticket_of (tk_owner (lk (stxr_next i v s))) (lpc (stxr_next i v s) ((q @ [i]) ! k)) =
        Some (tk_owner (lk (stxr_next i v s)) + of_nat k)"
      using d(4) ne v by cases (simp_all add: stxr_next_def nth_append)
  next
    fix j
    assume "holds_lock (lpc (stxr_next i v s) j)"
    then show "q @ [i] \<noteq> []" "j = hd (q @ [i])" using d(5) [of j] by (auto simp: stxr_next_def split: if_splits)
  qed (use d nin v assms(2) in \<open>auto simp: stxr_next_def split: if_splits\<close>)
qed

lemma step_poll:
  assumes "lock_rep n s q" and "i < n" and "lpc s i = Spinning t" and "n < 2 ^ 32"
  shows "lock_rep n (ldaxr_owner i t s) q"
proof (cases "t = tk_owner (lk s)")
  case True
  note d = lock_repD [OF assms(1)]
  have "i \<in> set q" using d(2) assms(2,3) by simp
  then obtain k where k: "k < length q" "q ! k = i" by (metis in_set_conv_nth)
  have "tk_owner (lk s) + of_nat k = tk_owner (lk s)" using d(4) [OF k(1)] k(2) assms(3) True by simp
  then have "(of_nat k :: u32) = 0" by simp
  moreover have "k < 2 ^ 32" using k(1) lock_rep_length [OF assms(1)] assms(4) by simp
  ultimately have "k = 0" using unat_of_nat_noov [of k, where 'a = 32] by simp
  then have hd: "q \<noteq> []" "i = hd q" using k by (auto simp: hd_conv_nth)
  have "lock_rep n (s\<lparr>lpc := (lpc s)(i := Critical t)\<rparr>) q"
    using assms(2,3) d(5-8) hd by (intro lock_rep_same [OF assms(1)]) (auto split: if_splits)
  then show ?thesis using True by (simp add: ldaxr_owner_def)
next
  case False
  then show ?thesis using assms(1) by (simp add: ldaxr_owner_def)
qed

lemma lock_rep_head_ticket:
  assumes "lock_rep n s q" and "holds_lock (lpc s i)"
  shows "ticket_of (tk_owner (lk s)) (lpc s i) = Some (tk_owner (lk s))"
  using lock_repD(5) [OF assms] lock_repD(4) [OF assms(1), of 0] by (simp add: hd_conv_nth)

lemma step_unlock_read:
  assumes "lock_rep n s q" and "i < n" and "lpc s i = Critical t"
  shows "lock_rep n (read_owner i s) q"
  using assms(2,3) lock_repD(5) [OF assms(1), of i] lock_repD(5-8) [OF assms(1)] lock_rep_head_ticket [OF assms(1), of i]
  by (intro lock_rep_same [OF assms(1)]) (auto simp: read_owner_def split: if_splits)

lemma step_unlock_store:
  assumes "lock_rep n s q" and "i < n" and "lpc s i = Leaving v"
  shows "q \<noteq> [] \<and> i = hd q \<and> lock_rep n (stlr_owner i v s) (tl q)"
proof -
  note d = lock_repD [OF assms(1)]
  have "holds_lock (lpc s i)" using assms(3) by simp
  from d(5) [OF this] have q: "q \<noteq> []" "i = hd q" by simp_all
  have q': "q = i # tl q" using q by simp
  define q' where "q' = tl q"
  note q' = q' [folded q'_def]
  have v: "v = tk_owner (lk s) + 1" using d(6) assms(3) by simp
  have other: "\<not> holds_lock (lpc s j)" if "j \<noteq> i" for j using d(5) [of j] q(2) that by blast
  have ow: "ticket_of w (lpc s j) = ticket_of (tk_owner (lk s)) (lpc s j)" if "j \<noteq> i" for j w
    using other [OF that] by (cases "lpc s j") simp_all
  have "lock_rep n (stlr_owner i v s) q'"
    unfolding lock_rep_def
  proof (intro conjI allI impI)
    show "distinct q'" using d(1) by (simp add: q'_def distinct_tl)
    show "set q' = {j. j < n \<and> ticket_of (tk_owner (lk (stlr_owner i v s))) (lpc (stlr_owner i v s) j) \<noteq> None}"
    proof -
      have "set q' = set q - {i}" using d(1) q' by (metis Diff_insert_absorb distinct.simps(2) list.simps(15))
      also have "\<dots> = {j. j < n \<and> j \<noteq> i \<and> ticket_of (tk_owner (lk s)) (lpc s j) \<noteq> None}" unfolding d(2) by blast
      also have "\<dots> = {j. j < n \<and> ticket_of (tk_owner (lk (stlr_owner i v s))) (lpc (stlr_owner i v s) j) \<noteq> None}"
        using ow [of _ v] by (intro Collect_cong) (simp add: stlr_owner_def)
      finally show ?thesis .
    qed
    show "tk_next (lk (stlr_owner i v s)) = tk_owner (lk (stlr_owner i v s)) + of_nat (length q')"
      using d(3) arg_cong [OF q', of length] v by (simp add: stlr_owner_def)
    fix k
    assume k: "k < length q'"
    then have "q' ! k \<noteq> i" using d(1) q' by (metis distinct.simps(2) nth_mem)
    moreover have "q ! Suc k = q' ! k" "Suc k < length q"
      using arg_cong [OF q', of "\<lambda>xs. xs ! Suc k"] arg_cong [OF q', of length] k by simp_all
    ultimately show "ticket_of (tk_owner (lk (stlr_owner i v s))) (lpc (stlr_owner i v s) (q' ! k)) =
        Some (tk_owner (lk (stlr_owner i v s)) + of_nat k)"
      using d(4) [of "Suc k"] v ow [of "q' ! k" v] by (simp add: stlr_owner_def add.assoc)
  next
    fix j
    assume "holds_lock (lpc (stlr_owner i v s) j)"
    then have False using other [of j] by (cases "j = i") (simp_all add: stlr_owner_def)
    then show "q' \<noteq> []" "j = hd q'" by simp_all
  next
    fix j w
    assume "lpc (stlr_owner i v s) j = Leaving w"
    then have False using other [of j] by (cases "j = i") (simp_all add: stlr_owner_def)
    then show "w = tk_owner (lk (stlr_owner i v s)) + 1" ..
  next
    fix j w
    assume "excl (stlr_owner i v s) j" and "lpc (stlr_owner i v s) j = GotNext w"
    then show "w = tk_next (lk (stlr_owner i v s))" using d(7) [of j w] by (cases "j = i") (simp_all add: stlr_owner_def)
  next
    fix j
    assume "n \<le> j"
    then show "lpc (stlr_owner i v s) j = Outside" using d(8) [of j] by (simp add: stlr_owner_def)
  qed
  then show ?thesis using q by (simp add: q'_def)
qed

lemma lock_step_rep:
  assumes "lock_step n s s'" and "lock_rep n s q" and "n < 2 ^ 32"
  shows "lock_rep n s' q \<or> (\<exists>i. i \<notin> set q \<and> lock_rep n s' (q @ [i])) \<or>
    (q \<noteq> [] \<and> holds_lock (lpc s (hd q)) \<and> lock_rep n s' (tl q))"
  using assms(1)
proof cases
  case (load_next i)
  then show ?thesis using step_load_next [OF assms(2)] by simp
next
  case (take_ticket i v)
  then show ?thesis using step_take_ticket [OF assms(2)] by blast
next
  case (retry i v)
  then show ?thesis using step_retry [OF assms(2)] by simp
next
  case (poll i t)
  then show ?thesis using step_poll [OF assms(2)] assms(3) by simp
next
  case (unlock_read i t)
  then show ?thesis using step_unlock_read [OF assms(2)] by simp
next
  case (unlock_store i v)
  then have "holds_lock (lpc s i)" by simp
  then show ?thesis using unlock_store step_unlock_store [OF assms(2)] by blast
qed

interpretation ticket: fair_lock lock_init "\<lambda>s s'. lock_step n s s' \<and> n < 2 ^ 32" "lock_rep n" "\<lambda>s i. holds_lock (lpc s i)" for n
proof
  show "lock_rep n s []" if "lock_init s" for s
    using that by (auto simp: lock_init_def lock_rep_def SPIN_LOCK_UNLOCKED_def)
qed (use lock_step_rep lock_repD(1,5) in blast)+

section \<open>The abstract lock\<close>

text \<open>A lock as its clients see it: the queue of requests and the client that is inside.\<close>

inductive queue_step :: "'c list \<times> 'c option \<Rightarrow> 'c list \<times> 'c option \<Rightarrow> bool" where
  arrive: "i \<notin> set q \<Longrightarrow> queue_step (q, h) (q @ [i], h)"
| enter: "queue_step (i # q, None) (i # q, Some i)"
| leave: "queue_step (i # q, Some i) (q, None)"

definition lock_abs :: "nat \<Rightarrow> lock_state \<Rightarrow> nat list \<times> nat option \<Rightarrow> bool" where
  "lock_abs n s a \<longleftrightarrow> lock_rep n s (fst a) \<and> (\<forall>i. holds_lock (lpc s i) \<longleftrightarrow> snd a = Some i)"

lemma lock_abs_keep:
  assumes "lock_abs n s (q, h)" and "lock_rep n s' q" and "\<And>j. holds_lock (lpc s' j) = holds_lock (lpc s j)"
  shows "lock_abs n s' (q, h)"
  using assms by (simp add: lock_abs_def)

lemma poll_abs:
  assumes a: "lock_abs n s (q, h)" and i: "i < n" "lpc s i = Spinning t" and n: "n < 2 ^ 32"
  shows "lock_abs n (ldaxr_owner i t s) (q, h) \<or>
    (\<exists>a'. lock_abs n (ldaxr_owner i t s) a' \<and> queue_step (q, h) a')"
proof -
  have rep: "lock_rep n s q" using a by (simp add: lock_abs_def)
  have rep': "lock_rep n (ldaxr_owner i t s) q" by (rule step_poll [OF rep i n])
  show ?thesis
  proof (cases "t = tk_owner (lk s)")
    case True
    then have "holds_lock (lpc (ldaxr_owner i t s) i)" by (simp add: ldaxr_owner_def)
    from lock_repD(5) [OF rep' this] have q: "q \<noteq> []" "i = hd q" by simp_all
    have none: "\<not> holds_lock (lpc s j)" for j
    proof
      assume "holds_lock (lpc s j)"
      then have "holds_lock (lpc s i)" using lock_repD(5) [OF rep] q(2) by blast
      then show False using i(2) by simp
    qed
    then have h: "h = None" using a by (cases h) (auto simp: lock_abs_def)
    have "lock_abs n (ldaxr_owner i t s) (q, Some i)"
      using rep' none True by (simp add: lock_abs_def ldaxr_owner_def)
    moreover have "queue_step (q, h) (q, Some i)" using queue_step.enter [of i "tl q"] q h by simp
    ultimately show ?thesis by blast
  next
    case False
    then show ?thesis using a by (simp add: ldaxr_owner_def)
  qed
qed

lemma unlock_abs:
  assumes a: "lock_abs n s (q, h)" and i: "i < n" "lpc s i = Leaving v"
  shows "\<exists>a'. lock_abs n (stlr_owner i v s) a' \<and> queue_step (q, h) a'"
proof -
  have rep: "lock_rep n s q" using a by (simp add: lock_abs_def)
  note st = step_unlock_store [OF rep i]
  have "holds_lock (lpc s i)" using i by simp
  then have h: "h = Some i" using a by (simp add: lock_abs_def)
  have "\<not> holds_lock (lpc (stlr_owner i v s) j)" for j
    using a h by (cases "j = i") (auto simp: stlr_owner_def lock_abs_def)
  then have "lock_abs n (stlr_owner i v s) (tl q, None)"
    using st [THEN conjunct2, THEN conjunct2] by (simp add: lock_abs_def)
  moreover have "queue_step (q, h) (tl q, None)" using queue_step.leave [of i "tl q"] st h by simp
  ultimately show ?thesis by blast
qed

section \<open>Properties\<close>

lemma ticket_steps: "n < 2 ^ 32 \<Longrightarrow> (\<lambda>s s'. lock_step n s s' \<and> n < 2 ^ 32)\<^sup>*\<^sup>* = (lock_step n)\<^sup>*\<^sup>*"
  by simp

definition demo_lock :: lock_state where
  "demo_lock = \<lparr>lk = SPIN_LOCK_UNLOCKED, lpc = (\<lambda>_. Outside), excl = (\<lambda>_. False)\<rparr>"

lemma demo_lock_init: "lock_init demo_lock"
  by (simp add: demo_lock_def lock_init_def)

text \<open>C16: mutual exclusion: however the CPUs interleave, retry and wrap their tickets around, at most one
  of them is between the end of \<^verbatim>\<open>arch_spin_lock\<close> and the store of \<^verbatim>\<open>arch_spin_unlock\<close>.\<close>

theorem ticket_lock_mutual_exclusion:
  assumes "n < 2 ^ 32" and "lock_init s" and "(lock_step n)\<^sup>*\<^sup>* s s'"
    and "holds_lock (lpc s' i)" and "holds_lock (lpc s' j)"
  shows "i = j"
  using ticket.mutual_exclusion [of s n s' i j] assms by simp

theorem ticket_lock_mutual_exclusion_witness:
  "\<exists>s. (lock_step 2)\<^sup>*\<^sup>* demo_lock s \<and> holds_lock (lpc s 0) \<and> \<not> holds_lock (lpc s 1)"
proof -
  let ?s1 = "ldaxr_next 0 demo_lock"
  let ?s2 = "stxr_next 0 0 ?s1"
  let ?s3 = "ldaxr_owner 0 0 ?s2"
  have "lock_step 2 demo_lock ?s1" by (rule load_next) (simp_all add: demo_lock_def)
  moreover have "lock_step 2 ?s1 ?s2"
    by (rule take_ticket) (simp_all add: demo_lock_def ldaxr_next_def SPIN_LOCK_UNLOCKED_def)
  moreover have "lock_step 2 ?s2 ?s3" by (rule poll) (simp_all add: stxr_next_def)
  ultimately have r: "(lock_step 2)\<^sup>*\<^sup>* demo_lock ?s3" by (meson rtranclp.rtrancl_into_rtrancl rtranclp.rtrancl_refl)
  have h: "holds_lock (lpc ?s3 0)"
    by (simp add: ldaxr_owner_def stxr_next_def ldaxr_next_def demo_lock_def SPIN_LOCK_UNLOCKED_def)
  have "holds_lock (lpc ?s3 1) \<Longrightarrow> (0 :: nat) = 1"
    by (rule ticket_lock_mutual_exclusion [OF _ demo_lock_init r h]) simp_all
  then show ?thesis using r h by auto
qed

text \<open>C17: the ticket lock implements the abstract queue lock: every instruction of every CPU either
  changes nothing the clients see or is one step of the abstract lock, in which requests join at
  the tail, only the head of the queue enters, and only when nobody is inside, and the one inside
  leaves.\<close>

theorem ticket_lock_refines_queue:
  assumes "n < 2 ^ 32" and "lock_abs n s (q, h)" and "lock_step n s s'"
  shows "lock_abs n s' (q, h) \<or> (\<exists>a'. lock_abs n s' a' \<and> queue_step (q, h) a')"
  using assms(3)
proof cases
  case (load_next i)
  moreover from assms(2) have "lock_rep n s q" by (simp add: lock_abs_def)
  ultimately show ?thesis
    using lock_abs_keep [OF assms(2) step_load_next] by (simp add: ldaxr_next_def)
next
  case (take_ticket i v)
  moreover from assms(2) have "lock_rep n s q" by (simp add: lock_abs_def)
  ultimately have "i \<notin> set q" and "lock_rep n s' (q @ [i])" using step_take_ticket by blast+
  moreover have "h \<noteq> Some i" using assms(2) take_ticket(3) by (metis holds_lock.simps lock_abs_def snd_conv)
  ultimately have "lock_abs n s' (q @ [i], h)" and "queue_step (q, h) (q @ [i], h)"
    using assms(2) take_ticket by (auto simp: lock_abs_def stxr_next_def intro: queue_step.arrive)
  then show ?thesis by blast
next
  case (retry i v)
  moreover from assms(2) have "lock_rep n s q" by (simp add: lock_abs_def)
  ultimately show ?thesis
    using lock_abs_keep [OF assms(2) step_retry] by (simp add: stxr_fail_def)
next
  case (poll i t)
  then show ?thesis using poll_abs [OF assms(2)] assms(1) by simp
next
  case (unlock_read i t)
  moreover from assms(2) have "lock_rep n s q" by (simp add: lock_abs_def)
  ultimately show ?thesis
    using lock_abs_keep [OF assms(2) step_unlock_read] by (simp add: read_owner_def)
next
  case (unlock_store i v)
  then show ?thesis using unlock_abs [OF assms(2)] by simp
qed

theorem ticket_lock_refines_queue_witness:
  "lock_abs 2 (ldaxr_next 0 demo_lock) ([], None)"
proof -
  have a: "lock_abs 2 demo_lock ([], None)"
    using ticket.init_rep [OF demo_lock_init, of 2] by (simp add: lock_abs_def demo_lock_def)
  have st: "lock_step 2 demo_lock (ldaxr_next 0 demo_lock)" by (rule load_next) (simp_all add: demo_lock_def)
  have "lock_abs 2 (ldaxr_next 0 demo_lock) ([], None) \<or>
      (\<exists>a'. lock_abs 2 (ldaxr_next 0 demo_lock) a' \<and> queue_step ([], None) a')"
    by (rule ticket_lock_refines_queue [OF _ a st]) simp
  moreover have "\<not> lock_abs 2 (ldaxr_next 0 demo_lock) ([i], None)" for i
    by (simp add: lock_abs_def lock_rep_def ldaxr_next_def demo_lock_def SPIN_LOCK_UNLOCKED_def)
  ultimately show ?thesis by (auto elim: queue_step.cases)
qed

text \<open>First come, first served: when CPU \<open>i\<close> took its ticket before CPU \<open>j\<close>, \<open>j\<close> is never inside
  before \<open>i\<close> has been.\<close>

theorem ticket_lock_fifo:
  assumes "n < 2 ^ 32" and "lock_rep n s (xs @ i # ys @ j # zs)" and "(lock_step n)\<^sup>*\<^sup>* s s'" and "holds_lock (lpc s' j)"
  shows "\<exists>t. (lock_step n)\<^sup>*\<^sup>* s t \<and> (lock_step n)\<^sup>*\<^sup>* t s' \<and> holds_lock (lpc t i)"
  using ticket.fifo [of n s s' xs i ys j zs] assms by simp

text \<open>Two CPUs with their tickets.\<close>

definition demo_two :: lock_state where
  "demo_two = \<lparr>lk = \<lparr>tk_next = 2, tk_owner = 0\<rparr>, lpc = (\<lambda>i. if i = 0 then Spinning 0 else if i = 1 then Spinning 1 else Outside),
     excl = (\<lambda>_. False)\<rparr>"

lemma demo_two_rep: "lock_rep 2 demo_two [0, 1]"
  by (auto simp: lock_rep_def demo_two_def less_Suc_eq numeral_2_eq_2 split: if_splits)

lemma demo_two_run:
  obtains s' where "(lock_step 2)\<^sup>*\<^sup>* demo_two s'" and "holds_lock (lpc s' 1)"
proof
  let ?s1 = "ldaxr_owner 0 0 demo_two"
  let ?s2 = "read_owner 0 ?s1"
  let ?s3 = "stlr_owner 0 1 ?s2"
  let ?s4 = "ldaxr_owner 1 1 ?s3"
  note defs = demo_two_def ldaxr_owner_def read_owner_def stlr_owner_def
  have "lock_step 2 demo_two ?s1" by (rule poll) (simp_all add: demo_two_def)
  moreover have "lock_step 2 ?s1 ?s2" by (rule unlock_read) (simp_all add: defs)
  moreover have "lock_step 2 ?s2 ?s3" by (rule unlock_store) (simp_all add: defs)
  moreover have "lock_step 2 ?s3 ?s4" by (rule poll) (simp_all add: defs)
  ultimately show "(lock_step 2)\<^sup>*\<^sup>* demo_two ?s4"
    by (meson rtranclp.rtrancl_into_rtrancl rtranclp.rtrancl_refl)
  show "holds_lock (lpc ?s4 1)" by (simp add: defs)
qed

theorem ticket_lock_fifo_witness:
  "\<exists>s' t. (lock_step 2)\<^sup>*\<^sup>* demo_two t \<and> (lock_step 2)\<^sup>*\<^sup>* t s' \<and> holds_lock (lpc t 0) \<and> holds_lock (lpc s' 1)"
proof -
  obtain s' where s': "(lock_step 2)\<^sup>*\<^sup>* demo_two s'" "holds_lock (lpc s' 1)" by (rule demo_two_run)
  have "lock_rep 2 demo_two ([] @ 0 # [] @ 1 # [])" using demo_two_rep by simp
  from ticket_lock_fifo [OF _ this s'] s' show ?thesis by auto
qed



end
