(* ===== verification/Sync.thy ===== *)
theory Sync
  imports Spinlock
begin

text \<open>
  The synchronisation layer above the ticket lock: interrupt masking, the atomic counter, the
  reader-writer semaphore of \<^verbatim>\<open>kernel/sync/rwsem.c\<close>, the sequence lock of
  \<^verbatim>\<open>include/sync/seqlock.h\<close>, completions, wait queues and RCU. A section of code between
  \<^verbatim>\<open>spin_lock\<close> and \<^verbatim>\<open>spin_unlock\<close> of one lock is one atomic step, which is what mutual exclusion
  of the ticket lock gives; the waiting loops of the semaphore release the lock between two
  attempts, so each attempt is a step of its own. Shown: writers of the semaphore exclude everybody
  else, and the sequence lock accepts a torn read.
\<close>

section \<open>Interrupt masking\<close>

definition DAIF_I :: u64 where "DAIF_I = push_bit 7 1"

definition arch_local_irq_save :: "u64 \<Rightarrow> u64 \<times> u64" where
  "arch_local_irq_save daif = (daif, daif OR DAIF_I)"

definition arch_local_irq_enable :: "u64 \<Rightarrow> u64" where
  "arch_local_irq_enable daif = daif AND NOT DAIF_I"

definition arch_local_irq_disable :: "u64 \<Rightarrow> u64" where
  "arch_local_irq_disable daif = daif OR DAIF_I"

definition arch_local_irq_restore :: "u64 \<Rightarrow> u64 \<Rightarrow> u64" where
  "arch_local_irq_restore flg daif = flg"

section \<open>Atomic counters\<close>

definition atomic_add :: "u32 \<Rightarrow> u32 \<Rightarrow> u32" where
  "atomic_add i v = v + i"

definition atomic_inc :: "u32 \<Rightarrow> u32" where
  "atomic_inc v = atomic_add 1 v"

definition atomic_dec :: "u32 \<Rightarrow> u32" where
  "atomic_dec v = atomic_add (- 1) v"

section \<open>The reader-writer semaphore\<close>

text \<open>
  One pass of a waiting loop: whether it left the loop, and the counter afterwards. The counter is a
  C \<^verbatim>\<open>int\<close>, here its 32-bit representation.
\<close>

definition down_read :: "u32 \<Rightarrow> bool \<times> u32" where
  "down_read count = (if count AND 0xFFFF0000 \<noteq> 0 then (False, count) else (True, count + 1))"

definition up_read :: "u32 \<Rightarrow> u32" where
  "up_read count = count - 1"

definition down_write :: "u32 \<Rightarrow> bool \<times> u32" where
  "down_write count =
     (let new_count = count + 0x10000
      in if new_count \<noteq> 0x10000 then (False, new_count - 0x10000) else (True, new_count))"

definition up_write :: "u32 \<Rightarrow> u32" where
  "up_write count = count - 0x10000"

datatype rw_pc = RwOut | RwReading | RwWriting

record rw_state =
  rw_count :: u32
  rw_pcs :: "nat \<Rightarrow> rw_pc"

inductive rw_step :: "nat \<Rightarrow> rw_state \<Rightarrow> rw_state \<Rightarrow> bool" for n where
  try_read: "i < n \<Longrightarrow> rw_pcs s i = RwOut \<Longrightarrow> down_read (rw_count s) = (ok, c) \<Longrightarrow>
    rw_step n s \<lparr>rw_count = c, rw_pcs = (rw_pcs s)(i := if ok then RwReading else RwOut)\<rparr>"
| done_read: "i < n \<Longrightarrow> rw_pcs s i = RwReading \<Longrightarrow>
    rw_step n s \<lparr>rw_count = up_read (rw_count s), rw_pcs = (rw_pcs s)(i := RwOut)\<rparr>"
| try_write: "i < n \<Longrightarrow> rw_pcs s i = RwOut \<Longrightarrow> down_write (rw_count s) = (ok, c) \<Longrightarrow>
    rw_step n s \<lparr>rw_count = c, rw_pcs = (rw_pcs s)(i := if ok then RwWriting else RwOut)\<rparr>"
| done_write: "i < n \<Longrightarrow> rw_pcs s i = RwWriting \<Longrightarrow>
    rw_step n s \<lparr>rw_count = up_write (rw_count s), rw_pcs = (rw_pcs s)(i := RwOut)\<rparr>"

definition rw_init :: rw_state where
  "rw_init = \<lparr>rw_count = 0, rw_pcs = (\<lambda>_. RwOut)\<rparr>"

definition readers :: "nat \<Rightarrow> rw_state \<Rightarrow> nat set" where
  "readers n s = {i. i < n \<and> rw_pcs s i = RwReading}"

definition writers :: "nat \<Rightarrow> rw_state \<Rightarrow> nat set" where
  "writers n s = {i. i < n \<and> rw_pcs s i = RwWriting}"

definition rw_inv :: "nat \<Rightarrow> rw_state \<Rightarrow> bool" where
  "rw_inv n s \<longleftrightarrow>
     rw_count s = of_nat (card (readers n s)) + 0x10000 * of_nat (card (writers n s)) \<and>
     (writers n s = {} \<or> readers n s = {} \<and> (\<exists>w. writers n s = {w})) \<and>
     (\<forall>i. n \<le> i \<longrightarrow> rw_pcs s i = RwOut)"

lemma finite_rw [simp]: "finite (readers n s)" "finite (writers n s)"
  by (simp_all add: readers_def writers_def)

lemma card_readers_le: "card (readers n s) \<le> n"
  using card_mono [of "{..<n}" "readers n s"] by (auto simp: readers_def)

lemma readers_upd:
  assumes "i < n"
  shows "readers n \<lparr>rw_count = c, rw_pcs = f(i := RwReading)\<rparr> = insert i (readers n \<lparr>rw_count = c, rw_pcs = f\<rparr>)"
    and "x \<noteq> RwReading \<Longrightarrow> readers n \<lparr>rw_count = c, rw_pcs = f(i := x)\<rparr> = readers n \<lparr>rw_count = c, rw_pcs = f\<rparr> - {i}"
    and "writers n \<lparr>rw_count = c, rw_pcs = f(i := RwWriting)\<rparr> = insert i (writers n \<lparr>rw_count = c, rw_pcs = f\<rparr>)"
    and "x \<noteq> RwWriting \<Longrightarrow> writers n \<lparr>rw_count = c, rw_pcs = f(i := x)\<rparr> = writers n \<lparr>rw_count = c, rw_pcs = f\<rparr> - {i}"
  using assms by (auto simp: readers_def writers_def)

lemma rw_sets_count [simp]:
  "readers n \<lparr>rw_count = c, rw_pcs = rw_pcs s\<rparr> = readers n s" "writers n \<lparr>rw_count = c, rw_pcs = rw_pcs s\<rparr> = writers n s"
  by (simp_all add: readers_def writers_def)

lemma small_count:
  assumes "r < 65536"
  shows "unat (of_nat r :: u32) = r" and "of_nat r + 0x10000 = (0x10000 :: u32) \<longleftrightarrow> r = 0"
proof -
  show u: "unat (of_nat r :: u32) = r" using assms by (intro unat_of_nat_noov) simp
  show "of_nat r + 0x10000 = (0x10000 :: u32) \<longleftrightarrow> r = 0"
  proof
    assume "of_nat r + 0x10000 = (0x10000 :: u32)"
    then have "(of_nat r :: u32) = 0" by (simp only: add_cancel_left_left)
    from arg_cong [OF this, of unat] show "r = 0" unfolding u by (simp only: unat_0)
  qed simp
qed

lemma rw_step_inv:
  assumes "rw_step n s s'" and "rw_inv n s" and "n < 65536"
  shows "rw_inv n s'"
  using assms(1)
proof cases
  case (try_read i ok c)
  have i: "i \<notin> readers n s" "i \<notin> writers n s" using try_read by (auto simp: readers_def writers_def)
  show ?thesis
  proof (cases "writers n s = {}")
    case True
    then show ?thesis
      using try_read i assms(2) by (cases ok) (auto simp: rw_inv_def readers_upd down_read_def add.commute split: if_splits)
  next
    case False
    then have c0: "rw_count s = 0x10000" and w: "readers n s = {}" using assms(2) by (auto simp: rw_inv_def)
    then have "ok = False" "c = rw_count s" using try_read(4) by (simp_all add: down_read_def)
    then show ?thesis using try_read i assms(2) by (auto simp: rw_inv_def readers_upd)
  qed
next
  case (done_read i)
  have i: "i \<in> readers n s" "i \<notin> writers n s" using done_read by (auto simp: readers_def writers_def)
  have "card (readers n s) = Suc (card (readers n s - {i}))" using card_Suc_Diff1 [OF finite_rw(1) i(1)] by (rule sym)
  then show ?thesis using done_read i assms(2) by (auto simp: rw_inv_def readers_upd up_read_def)
next
  case (try_write i ok c)
  have i: "i \<notin> readers n s" "i \<notin> writers n s" using try_write by (auto simp: readers_def writers_def)
  have r: "card (readers n s) < 65536" using card_readers_le [of n s] assms(3) by simp
  show ?thesis
  proof (cases "writers n s = {}")
    case True
    then have "rw_count s + 0x10000 = 0x10000 \<longleftrightarrow> readers n s = {}"
      using assms(2) small_count(2) [OF r] by (simp add: rw_inv_def)
    then show ?thesis
      using True try_write i assms(2) by (cases ok) (auto simp: rw_inv_def readers_upd down_write_def Let_def split: if_splits)
  next
    case False
    then have "rw_count s = 0x10000" using assms(2) by (auto simp: rw_inv_def)
    then have "ok = False" "c = rw_count s" using try_write(4) by (simp_all add: down_write_def)
    then show ?thesis using try_write i assms(2) by (auto simp: rw_inv_def readers_upd)
  qed
next
  case (done_write i)
  have i: "i \<in> writers n s" "i \<notin> readers n s" using done_write by (auto simp: readers_def writers_def)
  then have "writers n s = {i}" "readers n s = {}" using assms(2) by (auto simp: rw_inv_def)
  then show ?thesis using done_write assms(2) by (auto simp: rw_inv_def readers_upd up_write_def)
qed

lemma rw_reachable_inv: "(rw_step n)\<^sup>*\<^sup>* rw_init s \<Longrightarrow> n < 65536 \<Longrightarrow> rw_inv n s"
proof (induction rule: rtranclp_induct)
  case base
  then show ?case by (simp add: rw_inv_def rw_init_def readers_def writers_def)
qed (blast intro: rw_step_inv)

section \<open>The sequence lock\<close>

text \<open>
  One writer section at a time (the section holds \<^verbatim>\<open>sl->lock\<close>) stores a new value into two words;
  a reader loads the sequence, the two words and the sequence again.
\<close>

definition write_seqlock :: "u32 \<Rightarrow> u32" where
  "write_seqlock sq = sq + 1"

definition write_sequnlock :: "u32 \<Rightarrow> u32" where
  "write_sequnlock sq = sq + 1"

definition read_seqbegin :: "u32 \<Rightarrow> u32" where
  "read_seqbegin sq = sq"

definition read_seqretry :: "u32 \<Rightarrow> u32 \<Rightarrow> bool" where
  "read_seqretry sq seq \<longleftrightarrow> seq \<noteq> sq"

datatype seq_writer = SwOut | SwFirst u64 | SwSecond u64 | SwLast
datatype seq_reader = SrOut | SrFirst u32 | SrSecond u32 u64 | SrCheck u32 u64 u64 | SrDone u64 u64

record seq_state =
  sl_seq :: u32
  sl_a :: u64
  sl_b :: u64
  sl_writer :: seq_writer
  sl_reader :: seq_reader

inductive seq_step :: "seq_state \<Rightarrow> seq_state \<Rightarrow> bool" where
  w_begin: "sl_writer s = SwOut \<Longrightarrow> seq_step s (s\<lparr>sl_seq := write_seqlock (sl_seq s), sl_writer := SwFirst x\<rparr>)"
| w_first: "sl_writer s = SwFirst x \<Longrightarrow> seq_step s (s\<lparr>sl_a := x, sl_writer := SwSecond x\<rparr>)"
| w_second: "sl_writer s = SwSecond x \<Longrightarrow> seq_step s (s\<lparr>sl_b := x, sl_writer := SwLast\<rparr>)"
| w_end: "sl_writer s = SwLast \<Longrightarrow> seq_step s (s\<lparr>sl_seq := write_sequnlock (sl_seq s), sl_writer := SwOut\<rparr>)"
| r_begin: "sl_reader s = SrOut \<Longrightarrow> seq_step s (s\<lparr>sl_reader := SrFirst (read_seqbegin (sl_seq s))\<rparr>)"
| r_first: "sl_reader s = SrFirst q \<Longrightarrow> seq_step s (s\<lparr>sl_reader := SrSecond q (sl_a s)\<rparr>)"
| r_second: "sl_reader s = SrSecond q a \<Longrightarrow> seq_step s (s\<lparr>sl_reader := SrCheck q a (sl_b s)\<rparr>)"
| r_check: "sl_reader s = SrCheck q a b \<Longrightarrow>
    seq_step s (s\<lparr>sl_reader := if read_seqretry (sl_seq s) q then SrOut else SrDone a b\<rparr>)"

definition SEQLOCK_UNLOCKED :: seq_state where
  "SEQLOCK_UNLOCKED = \<lparr>sl_seq = 0, sl_a = 0, sl_b = 0, sl_writer = SwOut, sl_reader = SrOut\<rparr>"

section \<open>Completions, wait queues and RCU\<close>

record completion =
  done_flag :: u32

text \<open>The body of the \<^verbatim>\<open>if\<close> in \<^verbatim>\<open>wait_for_completion\<close> is a comment; the wait queue calls are empty.\<close>

definition init_completion :: "completion \<Rightarrow> completion" where
  "init_completion c = c\<lparr>done_flag := 0\<rparr>"

definition wake_up :: "completion \<Rightarrow> completion" where
  "wake_up c = c"

definition wait_for_completion :: "completion \<Rightarrow> completion" where
  "wait_for_completion c = c\<lparr>done_flag := 0\<rparr>"

definition complete :: "completion \<Rightarrow> completion" where
  "complete c = wake_up (c\<lparr>done_flag := 1\<rparr>)"

section \<open>Properties\<close>

text \<open>C19: the reader-writer semaphore: with fewer than 65536 threads, however their attempts and releases
  interleave, a writer is inside alone, and the counter is the number of readers in its low half
  and the number of writers in its high half.\<close>

theorem rwsem_exclusion:
  assumes "(rw_step n)\<^sup>*\<^sup>* rw_init s" and "n < 65536"
  shows "(\<forall>i j. rw_pcs s i = RwWriting \<and> rw_pcs s j \<noteq> RwOut \<longrightarrow> i = j) \<and>
    rw_count s = of_nat (card {i. rw_pcs s i = RwReading}) + 0x10000 * of_nat (card {i. rw_pcs s i = RwWriting})"
proof -
  have inv: "rw_inv n s" by (rule rw_reachable_inv [OF assms])
  then have out: "i < n" if "rw_pcs s i \<noteq> RwOut" for i using that by (meson rw_inv_def not_le)
  have sets: "{i. rw_pcs s i = RwReading} = readers n s" "{i. rw_pcs s i = RwWriting} = writers n s"
    using out by (auto simp: readers_def writers_def)
  have "i = j" if "rw_pcs s i = RwWriting" "rw_pcs s j \<noteq> RwOut" for i j
  proof -
    have "i \<in> writers n s" using that out [of i] by (simp add: writers_def)
    then obtain w where w: "writers n s = {w}" "readers n s = {}" using inv by (auto simp: rw_inv_def)
    have "j \<in> writers n s" using that out [of j] w(2) by (cases "rw_pcs s j") (auto simp: writers_def readers_def)
    then show ?thesis using \<open>i \<in> writers n s\<close> w(1) by simp
  qed
  then show ?thesis using inv unfolding sets by (auto simp: rw_inv_def)
qed

theorem rwsem_exclusion_witness:
  "\<exists>s. (rw_step 2)\<^sup>*\<^sup>* rw_init s \<and> rw_pcs s 0 = RwWriting \<and> rw_pcs s 1 = RwOut"
proof -
  let ?s = "\<lparr>rw_count = 0x10000, rw_pcs = (rw_pcs rw_init)(0 := if True then RwWriting else RwOut)\<rparr>"
  have "rw_step 2 rw_init ?s" by (rule try_write) (simp_all add: rw_init_def down_write_def)
  then have r: "(rw_step 2)\<^sup>*\<^sup>* rw_init ?s" by blast
  have "rw_pcs ?s 0 = RwWriting" by simp
  moreover have "rw_pcs ?s 1 = RwOut" using rwsem_exclusion [OF r] by (simp add: rw_init_def)
  ultimately show ?thesis using r by blast
qed

text \<open>The sequence lock lets a torn read through: a reader that starts and finishes inside one write
  section sees the same odd sequence twice, and \<^verbatim>\<open>read_seqretry\<close>, which does not test for an odd
  sequence, accepts one new word together with one old word.\<close>

theorem seqlock_torn_read:
  "\<exists>s. seq_step\<^sup>*\<^sup>* SEQLOCK_UNLOCKED s \<and> sl_reader s = SrDone 7 0"
proof -
  define s0 where "s0 = SEQLOCK_UNLOCKED"
  define s1 where "s1 = s0\<lparr>sl_seq := write_seqlock (sl_seq s0), sl_writer := SwFirst 7\<rparr>"
  define s2 where "s2 = s1\<lparr>sl_a := 7, sl_writer := SwSecond 7\<rparr>"
  define s3 where "s3 = s2\<lparr>sl_reader := SrFirst (read_seqbegin (sl_seq s2))\<rparr>"
  define s4 where "s4 = s3\<lparr>sl_reader := SrSecond 1 (sl_a s3)\<rparr>"
  define s5 where "s5 = s4\<lparr>sl_reader := SrCheck 1 7 (sl_b s4)\<rparr>"
  define s6 where "s6 = s5\<lparr>sl_reader := if read_seqretry (sl_seq s5) 1 then SrOut else SrDone 7 0\<rparr>"
  note defs = s0_def s1_def s2_def s3_def s4_def s5_def s6_def SEQLOCK_UNLOCKED_def write_seqlock_def read_seqbegin_def
    read_seqretry_def
  have "seq_step s0 s1" unfolding s1_def by (rule w_begin) (simp add: defs)
  moreover have "seq_step s1 s2" unfolding s2_def by (rule w_first) (simp add: defs)
  moreover have "seq_step s2 s3" unfolding s3_def by (rule r_begin) (simp add: defs)
  moreover have "seq_step s3 s4" unfolding s4_def by (rule r_first) (simp add: defs)
  moreover have "seq_step s4 s5" unfolding s5_def by (rule r_second) (simp add: defs)
  moreover have "seq_step s5 s6" unfolding s6_def by (rule r_check) (simp add: defs)
  ultimately have "seq_step\<^sup>*\<^sup>* s0 s6" by (meson rtranclp.rtrancl_into_rtrancl rtranclp.rtrancl_refl)
  moreover have "sl_reader s6 = SrDone 7 0" by (simp add: defs)
  ultimately show ?thesis unfolding s0_def by blast
qed

end
