(* ===== verification/Boot.thy ===== *)
theory Boot
  imports Page_Table_Correct
begin

text \<open>
  The boot code of \<^verbatim>\<open>arch/arm64/boot/bootc.c\<close>: the page tables the kernel starts with, the
  translation registers, and the set-up of the interrupt controller at EL3. The page table arrays
  are the statically allocated C arrays; their addresses are given by the linker and are a
  parameter. The MMU's walk reads the table a physical address belongs to. Shown: the tables map
  the 256 MiB of RAM linearly, at the kernel base through TTBR1 and identically through TTBR0, and
  nothing else.
\<close>

section \<open>Constants of bootc.h\<close>

definition TOTAL_MEM_SIZE :: nat where "TOTAL_MEM_SIZE = 256 * 1024 * 1024"
definition PHYS_BASE :: u64 where "PHYS_BASE = 0x40000000"
definition KERNEL_VIRT_BASE :: u64 where "KERNEL_VIRT_BASE = 0xFFFF800000000000"
definition TABLE_SIZE :: nat where "TABLE_SIZE = 512"
definition L3_TABLE_MAP_SIZE :: nat where "L3_TABLE_MAP_SIZE = TABLE_SIZE * 4096"

definition DIV_ROUND_UP :: "nat \<Rightarrow> nat \<Rightarrow> nat" where
  "DIV_ROUND_UP n d = (n + d - 1) div d"

definition L0_INDEX_BASE :: nat where "L0_INDEX_BASE = unat (drop_bit 39 (KERNEL_VIRT_BASE + PHYS_BASE) AND 0x1FF)"
definition L1_INDEX_BASE :: nat where "L1_INDEX_BASE = unat (drop_bit 30 (KERNEL_VIRT_BASE + PHYS_BASE) AND 0x1FF)"
definition L2_INDEX_BASE :: nat where "L2_INDEX_BASE = unat (drop_bit 21 (KERNEL_VIRT_BASE + PHYS_BASE) AND 0x1FF)"
definition L3_INDEX_BASE :: nat where "L3_INDEX_BASE = unat (drop_bit 12 (KERNEL_VIRT_BASE + PHYS_BASE) AND 0x1FF)"
definition UART_PAGE_NEEDED :: nat where "UART_PAGE_NEEDED = 1"

definition L3_TABLES_NEEDED :: nat where
  "L3_TABLES_NEEDED = DIV_ROUND_UP (TOTAL_MEM_SIZE + L3_INDEX_BASE * 4096 + UART_PAGE_NEEDED * 4096) L3_TABLE_MAP_SIZE"
definition L2_TABLES_NEEDED :: nat where
  "L2_TABLES_NEEDED = DIV_ROUND_UP (L3_TABLES_NEEDED + L2_INDEX_BASE) TABLE_SIZE"
definition L1_TABLES_NEEDED :: nat where
  "L1_TABLES_NEEDED = DIV_ROUND_UP (L2_TABLES_NEEDED + L1_INDEX_BASE) TABLE_SIZE"
definition L0_TABLES_NEEDED :: nat where "L0_TABLES_NEEDED = 1"

lemma boot_vals:
  "TOTAL_MEM_SIZE = 268435456" "TABLE_SIZE = 512" "L0_INDEX_BASE = 256" "L1_INDEX_BASE = 1" "L2_INDEX_BASE = 0"
  "L3_TABLES_NEEDED = 129" "L2_TABLES_NEEDED = 1" "L1_TABLES_NEEDED = 1"
  by (simp_all add: TOTAL_MEM_SIZE_def TABLE_SIZE_def L0_INDEX_BASE_def L1_INDEX_BASE_def L2_INDEX_BASE_def
      L3_TABLES_NEEDED_def L2_TABLES_NEEDED_def L1_TABLES_NEEDED_def DIV_ROUND_UP_def L3_TABLE_MAP_SIZE_def
      L3_INDEX_BASE_def UART_PAGE_NEEDED_def KERNEL_VIRT_BASE_def PHYS_BASE_def)

section \<open>The boot page tables\<close>

type_synonym table_array = "nat \<Rightarrow> nat \<Rightarrow> u64"

record boot_tables =
  ttbr0_l0 :: table_array
  ttbr1_l0 :: table_array
  l1_table :: table_array
  l2_table :: table_array
  l3_tables :: table_array

text \<open>The addresses of the arrays: table \<open>i\<close> of an array lies \<open>4096 * i\<close> bytes after its start.\<close>

record boot_layout =
  ttbr0_l0_at :: u64
  ttbr1_l0_at :: u64
  l1_table_at :: u64
  l2_table_at :: u64
  l3_tables_at :: u64

definition sub_table :: "u64 \<Rightarrow> nat \<Rightarrow> u64" where
  "sub_table base i = base + 4096 * of_nat i"

definition set_entry :: "nat \<Rightarrow> nat \<Rightarrow> u64 \<Rightarrow> table_array \<Rightarrow> table_array" where
  "set_entry i j v a = a(i := (a i)(j := v))"

definition clear_rows :: "nat \<Rightarrow> table_array \<Rightarrow> table_array" where
  "clear_rows n a = fold (\<lambda>i. fold (\<lambda>j. set_entry i j 0) [0..<TABLE_SIZE]) [0..<n] a"

definition clear_page_tables :: "boot_tables \<Rightarrow> boot_tables" where
  "clear_page_tables t = t\<lparr>ttbr0_l0 := clear_rows L0_TABLES_NEEDED (ttbr0_l0 t),
     ttbr1_l0 := clear_rows L0_TABLES_NEEDED (ttbr1_l0 t), l1_table := clear_rows L1_TABLES_NEEDED (l1_table t),
     l2_table := clear_rows L2_TABLES_NEEDED (l2_table t), l3_tables := clear_rows L3_TABLES_NEEDED (l3_tables t)\<rparr>"

text \<open>The descriptor of a table: valid, table, and the address without its low bits.\<close>

definition table_desc :: "u64 \<Rightarrow> u64" where
  "table_desc addr = push_bit 0 1 OR push_bit 1 1 OR (addr AND NOT 0xFFF)"

definition init_l0_tables :: "boot_layout \<Rightarrow> boot_tables \<Rightarrow> boot_tables" where
  "init_l0_tables lay t =
     (let t1 = t\<lparr>ttbr1_l0 := fold (\<lambda>i. set_entry (i div TABLE_SIZE) ((L0_INDEX_BASE + i) mod TABLE_SIZE)
                  (table_desc (sub_table (l1_table_at lay) i))) [0..<L1_TABLES_NEEDED] (ttbr1_l0 t)\<rparr>
      in t1\<lparr>ttbr0_l0 := set_entry 0 0 (table_desc (l1_table_at lay)) (ttbr0_l0 t1)\<rparr>)"

definition init_l1_table :: "boot_layout \<Rightarrow> boot_tables \<Rightarrow> boot_tables" where
  "init_l1_table lay t =
     t\<lparr>l1_table := fold (\<lambda>i. set_entry (i div TABLE_SIZE) ((L1_INDEX_BASE + i) mod TABLE_SIZE)
        (table_desc (sub_table (l2_table_at lay) i))) [0..<L2_TABLES_NEEDED] (l1_table t)\<rparr>"

definition init_l2_table :: "boot_layout \<Rightarrow> boot_tables \<Rightarrow> boot_tables" where
  "init_l2_table lay t =
     t\<lparr>l2_table := fold (\<lambda>i. set_entry (i div TABLE_SIZE) ((L2_INDEX_BASE + i) mod TABLE_SIZE)
        (table_desc (sub_table (l3_tables_at lay) i))) [0..<L3_TABLES_NEEDED] (l2_table t)\<rparr>"

definition mem_attr :: u64 where
  "mem_attr = push_bit 0 1 OR push_bit 1 1 OR push_bit 11 1 OR push_bit 10 1 OR push_bit 8 2 OR
     push_bit 6 0 OR push_bit 5 0 OR push_bit 2 0"

definition init_l3_entry :: "nat \<Rightarrow> nat \<Rightarrow> table_array \<times> u64 \<Rightarrow> table_array \<times> u64" where
  "init_l3_entry table_idx page_idx = (\<lambda>(a, mapped_bytes).
     if mapped_bytes < of_nat TOTAL_MEM_SIZE
     then (set_entry table_idx page_idx (mem_attr OR ((PHYS_BASE + mapped_bytes) AND NOT 0xFFF)) a, mapped_bytes + 4096)
     else (a, mapped_bytes))"

definition init_l3_table :: "boot_tables \<Rightarrow> boot_tables" where
  "init_l3_table t =
     t\<lparr>l3_tables := fst (fold (\<lambda>ti. fold (init_l3_entry ti) [0..<TABLE_SIZE]) [0..<L3_TABLES_NEEDED] (l3_tables t, 0))\<rparr>"

definition init_page_tables :: "boot_layout \<Rightarrow> boot_tables \<Rightarrow> boot_tables" where
  "init_page_tables lay t =
     init_l3_table (init_l2_table lay (init_l1_table lay (init_l0_tables lay (clear_page_tables t))))"

section \<open>Registers and the interrupt controller at EL3\<close>

definition get_ttbr0_el1 :: "boot_layout \<Rightarrow> u64" where
  "get_ttbr0_el1 lay = ttbr0_l0_at lay"

definition get_ttbr1_el1 :: "boot_layout \<Rightarrow> u64" where
  "get_ttbr1_el1 lay = ttbr1_l0_at lay"

definition get_tcr_el1 :: u64 where
  "get_tcr_el1 = fold (OR) [push_bit 0 16, push_bit 14 0, push_bit 12 2, push_bit 10 1, push_bit 8 1,
     push_bit 16 16, push_bit 30 2, push_bit 28 2, push_bit 26 1, push_bit 24 1, push_bit 32 2] 0"

definition get_mair_el1 :: u64 where
  "get_mair_el1 = fold (OR) [push_bit 0 0xFF, push_bit 8 0x44, push_bit 16 0, push_bit 24 0, push_bit 32 0,
     push_bit 40 0, push_bit 48 0, push_bit 56 0] 0"

definition get_sctlr_el1 :: u64 where
  "get_sctlr_el1 = fold (\<lambda>(v, n) r. r OR push_bit n v)
     [(1, 0), (1, 1), (1, 2), (1, 3), (1, 4), (0, 5), (0, 6), (1, 7), (1, 8), (0, 9), (0, 10), (1, 11), (1, 12), (0, 13), (0, 14),
      (0, 15), (0, 16), (0, 17), (0, 18), (1, 19), (0, 20), (1, 21), (1, 22), (1, 23), (0, 24), (0, 25), (0, 26), (0, 27), (0, 28),
      (1, 29), (0, 30), (0, 31), (0, 32)] 0"

text \<open>The registers of the distributor and the CPU interface, by word index.\<close>

record gic_regs =
  gicd_reg :: "nat \<Rightarrow> u32"
  gicc_reg :: "nat \<Rightarrow> u32"

definition gic_el3_init :: "gic_regs \<Rightarrow> gic_regs" where
  "gic_el3_init g =
     (let d1 = fold (\<lambda>i d. d((0x80 + i div 32 * 4) div 4 := d ((0x80 + i div 32 * 4) div 4) OR push_bit (i mod 32) 1))
                 [0..<1024] (gicd_reg g);
          d2 = fold (\<lambda>i d. d((0x180 + i * 4) div 4 := 0xFFFFFFFF)) [0..<32] d1;
          d3 = d2(0 := 3)
      in g\<lparr>gicd_reg := d3, gicc_reg := (gicc_reg g)(1 := 0xFF)\<rparr>)"

section \<open>The contents of the tables\<close>

lemma set_entry_simps: "set_entry i j v a i' j' = (if i' = i \<and> j' = j then v else a i' j')"
  by (simp add: set_entry_def)

lemma fold_set_row: "fold (\<lambda>j. set_entry i j v) js a i' j' = (if i' = i \<and> j' \<in> set js then v else a i' j')"
  by (induction js arbitrary: a) (auto simp: set_entry_simps)

lemma clear_rows: "j < 512 \<Longrightarrow> i < n \<Longrightarrow> clear_rows n a i j = 0"
proof -
  have "fold (\<lambda>i. fold (\<lambda>j. set_entry i j 0) [0..<TABLE_SIZE]) is a i j =
      (if i \<in> set is \<and> j < 512 then 0 else a i j)" for "is" a i j
    by (induction "is" arbitrary: a) (simp_all add: fold_set_row boot_vals(2))
  then show "j < 512 \<Longrightarrow> i < n \<Longrightarrow> clear_rows n a i j = 0" by (simp add: clear_rows_def)
qed

lemma fold_l2_row:
  "fold (\<lambda>i. set_entry (i div 512) (i mod 512) (g i)) [0..<n] a 0 j =
    (if j < n \<and> j < 512 then g j else a 0 j)"
proof (induction n)
  case (Suc n)
  have "0 = n div 512 \<and> j = n mod 512 \<longleftrightarrow> n < 512 \<and> j = n" by auto
  then show ?case using Suc by (auto simp: set_entry_simps less_Suc_eq)
qed simp

definition l3_desc :: "nat \<Rightarrow> u64" where
  "l3_desc k = mem_attr OR ((PHYS_BASE + 4096 * of_nat k) AND NOT 0xFFF)"

definition l3_state :: "table_array \<Rightarrow> nat \<Rightarrow> table_array \<times> u64 \<Rightarrow> bool" where
  "l3_state z k st \<longleftrightarrow> snd st = 4096 * of_nat (min k 65536) \<and>
     (\<forall>i j. j < 512 \<longrightarrow> fst st i j = (if i * 512 + j < min k 65536 then l3_desc (i * 512 + j) else z i j))"

lemma l3_state_step:
  assumes "l3_state z (i * 512 + j) st" and "j < 512"
  shows "l3_state z (Suc (i * 512 + j)) (init_l3_entry i j st)"
proof -
  let ?k = "i * 512 + j"
  obtain a b where st: "st = (a, b)" by (cases st)
  have b: "b = 4096 * of_nat (min ?k 65536)" using assms(1) st by (simp add: l3_state_def)
  have u: "unat b = 4096 * min ?k 65536"
  proof -
    have "4096 * min ?k 65536 < 2 ^ 64" by (simp add: min_def)
    then have "unat (of_nat (4096 * min ?k 65536) :: u64) = 4096 * min ?k 65536" by (intro unat_of_nat_noov) simp
    then show ?thesis unfolding b by (simp only: of_nat_mult of_nat_numeral)
  qed
  have "unat (of_nat TOTAL_MEM_SIZE :: u64) = 268435456" by (simp add: boot_vals)
  then have lt: "b < of_nat TOTAL_MEM_SIZE \<longleftrightarrow> ?k < 65536" unfolding word_less_nat_alt u by (simp add: min_def)
  have inj: "i' * 512 + j' = ?k \<longleftrightarrow> i' = i \<and> j' = j" if "j' < 512" for i' j'
  proof
    assume e: "i' * 512 + j' = ?k"
    from arg_cong [OF e, of "\<lambda>x. x div 512"] arg_cong [OF e, of "\<lambda>x. x mod 512"] show "i' = i \<and> j' = j"
      using that assms(2) by simp
  qed simp
  show ?thesis
  proof (cases "?k < 65536")
    case True
    then have b': "b = 4096 * of_nat ?k" and m: "min ?k 65536 = ?k" "min (Suc ?k) 65536 = Suc ?k" using b by simp_all
    have e: "init_l3_entry i j st = (set_entry i j (l3_desc ?k) a, b + 4096)"
      using lt True by (simp only: st init_l3_entry_def case_prod_conv if_True l3_desc_def b')
    have "b + 4096 = 4096 * of_nat (Suc ?k)" by (simp only: b' of_nat_Suc distrib_left mult_1_right add.commute)
    moreover have "set_entry i j (l3_desc ?k) a i' j' =
        (if i' * 512 + j' < Suc ?k then l3_desc (i' * 512 + j') else z i' j')" if "j' < 512" for i' j'
    proof (cases "i' = i \<and> j' = j")
      case False
      then have "i' * 512 + j' \<noteq> ?k" using inj [OF that] by simp
      then have "i' * 512 + j' < Suc ?k \<longleftrightarrow> i' * 512 + j' < ?k" by linarith
      then show ?thesis using assms(1) that False m(1) by (auto simp: st l3_state_def set_entry_simps simp del: of_nat_add)
    qed (simp add: set_entry_simps)
    ultimately show ?thesis unfolding e l3_state_def m(2) by simp
  next
    case False
    then show ?thesis using assms(1) lt by (simp add: st l3_state_def init_l3_entry_def min_def)
  qed
qed

lemma l3_state_row:
  assumes "l3_state z (i * 512) st" and "n \<le> 512"
  shows "l3_state z (i * 512 + n) (fold (init_l3_entry i) [0..<n] st)"
  using assms(2)
proof (induction n)
  case (Suc n)
  then show ?case using l3_state_step [of z i n] by simp
qed (simp add: assms(1))

lemma l3_state_rows: "l3_state z (n * 512) (fold (\<lambda>i. fold (init_l3_entry i) [0..<512]) [0..<n] (z, 0))"
proof (induction n)
  case 0
  then show ?case by (simp add: l3_state_def)
next
  case (Suc n)
  then show ?case using l3_state_row [OF Suc, of 512] by (simp add: algebra_simps)
qed

lemma boot_contents:
  assumes "j < 512"
  shows "ttbr0_l0 (init_page_tables lay t) 0 j = (if j = 0 then table_desc (l1_table_at lay) else 0)"
    and "ttbr1_l0 (init_page_tables lay t) 0 j = (if j = 256 then table_desc (l1_table_at lay) else 0)"
    and "l1_table (init_page_tables lay t) 0 j = (if j = 1 then table_desc (l2_table_at lay) else 0)"
    and "l2_table (init_page_tables lay t) 0 j = (if j < 129 then table_desc (sub_table (l3_tables_at lay) j) else 0)"
    and "i < 129 \<Longrightarrow> l3_tables (init_page_tables lay t) i j = (if i < 128 then l3_desc (i * 512 + j) else 0)"
proof -
  note defs = init_page_tables_def init_l3_table_def init_l2_table_def init_l1_table_def init_l0_tables_def
    clear_page_tables_def Let_def boot_vals L0_TABLES_NEEDED_def
  note c = clear_rows [OF assms]
  show "ttbr0_l0 (init_page_tables lay t) 0 j = (if j = 0 then table_desc (l1_table_at lay) else 0)"
    using c [of 0 1] by (simp add: defs set_entry_simps)
  show "ttbr1_l0 (init_page_tables lay t) 0 j = (if j = 256 then table_desc (l1_table_at lay) else 0)"
    using c [of 0 1] by (simp add: defs set_entry_simps sub_table_def)
  show "l1_table (init_page_tables lay t) 0 j = (if j = 1 then table_desc (l2_table_at lay) else 0)"
    using c [of 0 1] by (simp add: defs set_entry_simps sub_table_def)
  show "l2_table (init_page_tables lay t) 0 j = (if j < 129 then table_desc (sub_table (l3_tables_at lay) j) else 0)"
    using c [of 0 1] assms fold_l2_row [of _ 129 _ j] by (simp add: defs)
  assume i: "i < 129"
  have "l3_state (clear_rows 129 (l3_tables t)) (129 * 512)
      (fold (\<lambda>i. fold (init_l3_entry i) [0..<512]) [0..<129] (clear_rows 129 (l3_tables t), 0))"
    by (rule l3_state_rows)
  then have "l3_tables (init_page_tables lay t) i j =
      (if i * 512 + j < 65536 then l3_desc (i * 512 + j) else clear_rows 129 (l3_tables t) i j)"
    using assms by (simp add: l3_state_def defs del: upt_Suc)
  moreover have "i * 512 + j < 65536 \<longleftrightarrow> i < 128" using assms by linarith
  ultimately show "l3_tables (init_page_tables lay t) i j = (if i < 128 then l3_desc (i * 512 + j) else 0)"
    using c [OF i, of "l3_tables t"] by simp
qed

section \<open>The walk of the MMU\<close>

definition boot_addrs :: "boot_layout \<Rightarrow> u64 list" where
  "boot_addrs lay = [ttbr0_l0_at lay, ttbr1_l0_at lay] @ map (sub_table (l1_table_at lay)) [0..<L1_TABLES_NEEDED] @
     map (sub_table (l2_table_at lay)) [0..<L2_TABLES_NEEDED] @ map (sub_table (l3_tables_at lay)) [0..<L3_TABLES_NEEDED]"

definition boot_rows :: "boot_tables \<Rightarrow> (nat \<Rightarrow> u64) list" where
  "boot_rows t = [ttbr0_l0 t 0, ttbr1_l0 t 0] @ map (l1_table t) [0..<L1_TABLES_NEEDED] @
     map (l2_table t) [0..<L2_TABLES_NEEDED] @ map (l3_tables t) [0..<L3_TABLES_NEEDED]"

text \<open>The arrays do not overlap, are page aligned and lie below 2 to the 48.\<close>

definition layout_ok :: "boot_layout \<Rightarrow> bool" where
  "layout_ok lay \<longleftrightarrow> distinct (boot_addrs lay) \<and> (\<forall>a \<in> set (boot_addrs lay). a AND ARM64_PTE_ADDR_MASK = a)"

definition mmu_entry :: "boot_layout \<Rightarrow> boot_tables \<Rightarrow> u64 \<Rightarrow> u64 \<Rightarrow> u64 option" where
  "mmu_entry lay t pa i =
     (case map_of (zip (boot_addrs lay) (boot_rows t)) pa of
        None \<Rightarrow> None
      | Some row \<Rightarrow> if pte_present (row (unat i)) then Some (pte_to_phys (row (unat i))) else None)"

definition boot_translate :: "boot_layout \<Rightarrow> boot_tables \<Rightarrow> u64 \<Rightarrow> u64 \<Rightarrow> u64 option" where
  "boot_translate lay t root va =
     Option.bind (mmu_entry lay t root (L0_INDEX va)) (\<lambda>l1.
       Option.bind (mmu_entry lay t l1 (L1_INDEX va)) (\<lambda>l2.
         Option.bind (mmu_entry lay t l2 (L2_INDEX va)) (\<lambda>l3.
           map_option (\<lambda>page. page + (va AND 0xFFF)) (mmu_entry lay t l3 (L3_INDEX va)))))"

lemma length_boot: "length (boot_addrs lay) = 133" "length (boot_rows t) = 133"
  by (simp_all add: boot_addrs_def boot_rows_def boot_vals)

lemma boot_nth:
  "boot_addrs lay ! 0 = ttbr0_l0_at lay" "boot_rows t ! 0 = ttbr0_l0 t 0"
  "boot_addrs lay ! 1 = ttbr1_l0_at lay" "boot_rows t ! 1 = ttbr1_l0 t 0"
  "boot_addrs lay ! 2 = l1_table_at lay" "boot_rows t ! 2 = l1_table t 0"
  "boot_addrs lay ! 3 = l2_table_at lay" "boot_rows t ! 3 = l2_table t 0"
  "i < 129 \<Longrightarrow> boot_addrs lay ! (4 + i) = sub_table (l3_tables_at lay) i" "i < 129 \<Longrightarrow> boot_rows t ! (4 + i) = l3_tables t i"
  by (simp_all add: boot_addrs_def boot_rows_def boot_vals sub_table_def nth_append nth_Cons numeral_2_eq_2 numeral_3_eq_3
      del: upt_Suc split: nat.splits)

lemma mmu_entry_nth:
  assumes "layout_ok lay" and "k < 133"
  shows "mmu_entry lay t (boot_addrs lay ! k) i =
    (if pte_present ((boot_rows t ! k) (unat i)) then Some (pte_to_phys ((boot_rows t ! k) (unat i))) else None)"
proof -
  have "map_of (zip (boot_addrs lay) (boot_rows t)) (boot_addrs lay ! k) = Some (boot_rows t ! k)"
    using assms by (intro map_of_zip_nth) (simp_all add: layout_ok_def length_boot)
  then show ?thesis by (simp add: mmu_entry_def)
qed

lemma layout_nth:
  assumes "layout_ok lay" and "k < 133"
  shows "(boot_addrs lay ! k) AND ARM64_PTE_ADDR_MASK = boot_addrs lay ! k"
  using assms length_boot(1) [of lay] by (auto simp: layout_ok_def)

lemma table_desc_decode:
  assumes "a AND ARM64_PTE_ADDR_MASK = a"
  shows "pte_present (table_desc a)" and "pte_to_phys (table_desc a) = a"
proof -
  have "bit (table_desc a) 0" by (simp add: table_desc_def bit_simps)
  then show "pte_present (table_desc a)"
    by (auto simp: pte_present_def ARM64_PTE_VALID_def bit_eq_iff bit_simps intro!: exI [of _ 0])
  have "table_desc a AND ARM64_PTE_ADDR_MASK = (a AND ARM64_PTE_ADDR_MASK) AND (NOT 0xFFF)"
  proof (rule bit_word_eqI)
    fix n
    assume "n < LENGTH(64)"
    show "bit (table_desc a AND ARM64_PTE_ADDR_MASK) n = bit ((a AND ARM64_PTE_ADDR_MASK) AND (NOT 0xFFF)) n"
    proof (cases "n < 2")
      case True
      then have "n = 0 \<or> n = 1" by linarith
      then show ?thesis by (auto simp: table_desc_def ARM64_PTE_ADDR_MASK_def bit_simps)
    next
      case False
      then show ?thesis by (auto simp: table_desc_def bit_simps)
    qed
  qed
  also have "\<dots> = a AND (ARM64_PTE_ADDR_MASK AND NOT 0xFFF)" by (simp only: and.assoc)
  also have "\<dots> = a" using assms by (simp add: ARM64_PTE_ADDR_MASK_def)
  finally show "pte_to_phys (table_desc a) = a" by (simp add: pte_to_phys_def)
qed

lemma l3_desc_decode:
  assumes "k < 65536"
  shows "pte_present (l3_desc k)" and "pte_to_phys (l3_desc k) = PHYS_BASE + 4096 * of_nat k"
proof -
  let ?a = "PHYS_BASE + 4096 * of_nat k"
  have "unat (of_nat (0x40000000 + 4096 * k) :: u64) = 0x40000000 + 4096 * k" using assms by (intro unat_of_nat_noov) simp
  then have u: "unat ?a = 0x40000000 + 4096 * k" by (simp add: PHYS_BASE_def)
  have m: "NOT (0xFFF :: u64) = NOT (mask 12)" by (simp add: mask_eq_decr_exp)
  have a: "?a AND NOT 0xFFF = ?a"
  proof (rule word_unat_eq_iff [THEN iffD2])
    show "unat (?a AND NOT 0xFFF) = unat ?a" unfolding m unat_and_not_mask u by simp
  qed
  have a48: "?a AND mask 48 = ?a"
  proof -
    have "unat (take_bit 48 ?a) = unat ?a" using u assms by (simp add: unat_take_bit_mod)
    then show ?thesis by (metis take_bit_eq_mask word_unat_eq_iff and.commute)
  qed
  have "ARM64_PTE_ADDR_MASK = mask 48 AND NOT 0xFFF" by (simp add: ARM64_PTE_ADDR_MASK_def mask_eq_decr_exp)
  then have "?a AND ARM64_PTE_ADDR_MASK = (?a AND mask 48) AND NOT 0xFFF" by (simp add: and.assoc)
  then have am: "?a AND ARM64_PTE_ADDR_MASK = ?a" unfolding a48 a .
  have "l3_desc k = mem_attr OR ?a" using a by (simp add: l3_desc_def)
  moreover have "mem_attr AND ARM64_PTE_ADDR_MASK = 0" by (simp add: mem_attr_def ARM64_PTE_ADDR_MASK_def)
  ultimately show "pte_to_phys (l3_desc k) = ?a" using am by (simp add: pte_to_phys_def bit.conj_disj_distrib2)
  have "bit (l3_desc k) 0" by (simp add: l3_desc_def mem_attr_def bit_simps)
  then show "pte_present (l3_desc k)"
    by (auto simp: pte_present_def ARM64_PTE_VALID_def bit_eq_iff bit_simps intro!: exI [of _ 0])
qed

lemma not_present_0 [simp]: "\<not> pte_present 0"
  by (simp add: pte_present_def)

text \<open>The walk from either root, by table indices.\<close>

lemma boot_walk:
  assumes "layout_ok lay" and t': "t' = init_page_tables lay t"
    and root: "root = ttbr0_l0_at lay \<and> i0 = 0 \<or> root = ttbr1_l0_at lay \<and> i0 = 256"
  shows "boot_translate lay t' root va =
    (if L0_INDEX va = of_nat i0 \<and> L1_INDEX va = 1 \<and> L2_INDEX va < 128
     then Some (PHYS_BASE + 4096 * of_nat (unat (L2_INDEX va) * 512 + unat (L3_INDEX va)) + (va AND 0xFFF)) else None)"
proof -
  have lt: "unat (L0_INDEX va) < 512" "unat (L1_INDEX va) < 512" "unat (L2_INDEX va) < 512" "unat (L3_INDEX va) < 512"
    using L_INDEX_lt [of va] by (simp_all add: word_less_nat_alt)
  note c = boot_contents [where lay = lay and t = t, folded t']
  note e = mmu_entry_nth [OF assms(1), where t = t'] and n = layout_nth [OF assms(1)]
  have l1: "l1_table_at lay AND ARM64_PTE_ADDR_MASK = l1_table_at lay" using n [of 2] by (simp add: boot_nth)
  have l2: "l2_table_at lay AND ARM64_PTE_ADDR_MASK = l2_table_at lay" using n [of 3] by (simp add: boot_nth)
  have l3: "sub_table (l3_tables_at lay) j AND ARM64_PTE_ADDR_MASK = sub_table (l3_tables_at lay) j" if "j < 129" for j
    using n [of "4 + j"] that by (simp add: boot_nth)
  have s0: "mmu_entry lay t' root (L0_INDEX va) = (if unat (L0_INDEX va) = i0 then Some (l1_table_at lay) else None)"
    using root e [of 0 "L0_INDEX va"] e [of 1 "L0_INDEX va"] c(1,2) [OF lt(1)] table_desc_decode [OF l1]
    by (auto simp: boot_nth simp del: One_nat_def)
  have s1: "mmu_entry lay t' (l1_table_at lay) (L1_INDEX va) = (if unat (L1_INDEX va) = 1 then Some (l2_table_at lay) else None)"
    using e [of 2 "L1_INDEX va"] c(3) [OF lt(2)] table_desc_decode [OF l2]
    by (cases "unat (L1_INDEX va) = 1") (simp_all add: boot_nth)
  have s2: "mmu_entry lay t' (l2_table_at lay) (L2_INDEX va) =
      (if unat (L2_INDEX va) < 129 then Some (sub_table (l3_tables_at lay) (unat (L2_INDEX va))) else None)"
    using e [of 3 "L2_INDEX va"] c(4) [OF lt(3)] table_desc_decode [OF l3] by (simp add: boot_nth)
  have s3: "mmu_entry lay t' (sub_table (l3_tables_at lay) i) (L3_INDEX va) =
      (if i < 128 then Some (PHYS_BASE + 4096 * of_nat (i * 512 + unat (L3_INDEX va))) else None)" if "i < 129" for i
  proof -
    have "i * 512 + unat (L3_INDEX va) < 65536" if "i < 128" using that lt(4) by linarith
    then show ?thesis
      using e [of "4 + i" "L3_INDEX va"] c(5) [OF lt(4) that] l3_desc_decode [of "i * 512 + unat (L3_INDEX va)"] that
      by (simp add: boot_nth del: of_nat_add of_nat_mult)
  qed
  have ix: "L0_INDEX va = of_nat i0 \<longleftrightarrow> unat (L0_INDEX va) = i0" "L1_INDEX va = 1 \<longleftrightarrow> unat (L1_INDEX va) = 1"
    "L2_INDEX va < 128 \<longleftrightarrow> unat (L2_INDEX va) < 128"
    using root by (auto simp: word_less_nat_alt word_unat_eq_iff)
  show ?thesis
    unfolding boot_translate_def ix s0
    by (simp add: s1 s2 s3 del: of_nat_add of_nat_mult)
qed

section \<open>Properties\<close>

lemma index_nat:
  "unat (L0_INDEX va) = unat va div 2 ^ 39 mod 512" "unat (L1_INDEX va) = unat va div 2 ^ 30 mod 512"
  "unat (L2_INDEX va) = unat va div 2 ^ 21 mod 512" "unat (L3_INDEX va) = unat va div 2 ^ 12 mod 512"
proof -
  have m: "x AND (0x1FF :: u64) = take_bit 9 x" for x by (simp add: take_bit_eq_mask mask_eq_decr_exp)
  show "unat (L0_INDEX va) = unat va div 2 ^ 39 mod 512" "unat (L1_INDEX va) = unat va div 2 ^ 30 mod 512"
    "unat (L2_INDEX va) = unat va div 2 ^ 21 mod 512" "unat (L3_INDEX va) = unat va div 2 ^ 12 mod 512"
    by (simp_all only: L0_INDEX_def L1_INDEX_def L2_INDEX_def L3_INDEX_def m unat_take_bit_mod unat_drop_bit_div) simp_all
qed

lemma mult_four_split: "(a :: nat) * 4 = a div 512 * 2048 + a mod 512 * 4"
proof -
  obtain q r where qr: "q = a div 512" "r = a mod 512" by simp
  then have "a = q * 512 + r" by simp
  then have "a * 4 = q * 2048 + r * 4" by simp
  then show ?thesis using qr by simp
qed

lemma digits_split:
  assumes "b < 512" and "d < 4"
  shows "(a :: nat) * 2048 + b * 4 + d = i * 2048 + 4 \<longleftrightarrow> a = i \<and> b = 1 \<and> d = 0"
proof
  assume e: "a * 2048 + b * 4 + d = i * 2048 + 4"
  have "(d + (a * 512 + b) * 4) div 4 = a * 512 + b" "(0 + (i * 512 + 1) * 4) div 4 = i * 512 + 1"
    using assms(2) by (subst div_mult_self1; simp)+
  moreover have "d + (a * 512 + b) * 4 = 0 + (i * 512 + 1) * 4" using e by simp
  ultimately have ab: "b + a * 512 = 1 + i * 512" by simp
  have "(b + a * 512) div 512 = a" "(1 + i * 512) div 512 = i" using assms(1) by (subst div_mult_self1; simp)+
  then show "a = i \<and> b = 1 \<and> d = 0" using ab e by simp
qed simp

lemma split_28:
  fixes M :: nat
  shows "M div 2 ^ 28 = (M div 2 ^ 39) * 2048 + (M div 2 ^ 30 mod 512) * 4 + (M div 2 ^ 21 mod 512) div 128"
    and "M mod 2 ^ 28 = (M div 2 ^ 21 mod 512 mod 128) * 2 ^ 21 + (M div 2 ^ 12 mod 512) * 2 ^ 12 + M mod 2 ^ 12"
proof -
  let ?q = "M div 2 ^ 21"
  have "?q div 128 = (512 * (?q div 512) + ?q mod 512) div 128" by simp
  also have "\<dots> = (?q div 512) * 4 + (?q mod 512) div 128" by (simp only: div_mult_self4 flip: mult.assoc)
  also have "(?q div 512) * 4 = (?q div 512 div 512) * 2048 + (?q div 512 mod 512) * 4"
    by (rule mult_four_split)
  finally have "?q div 128 = (?q div 512 div 512) * 2048 + (?q div 512 mod 512) * 4 + (?q mod 512) div 128" .
  moreover have "M div 2 ^ 28 = ?q div 128" "M div 2 ^ 30 = ?q div 512" "M div 2 ^ 39 = ?q div 512 div 512"
    by (simp_all add: div_mult2_eq [symmetric])
  ultimately show "M div 2 ^ 28 = (M div 2 ^ 39) * 2048 + (M div 2 ^ 30 mod 512) * 4 + (?q mod 512) div 128" by (simp only:)
  have "M mod 2 ^ 28 = (?q mod 128) * 2 ^ 21 + M mod 2 ^ 21" using mod_mult2_eq [of M "2 ^ 21" 128] by simp
  moreover have "M mod 2 ^ 21 = (M div 2 ^ 12 mod 512) * 2 ^ 12 + M mod 2 ^ 12" using mod_mult2_eq [of M "2 ^ 12" 512] by simp
  moreover have "?q mod 512 mod 128 = ?q mod 128" by (simp add: mod_mod_cancel)
  ultimately show "M mod 2 ^ 28 = (?q mod 512 mod 128) * 2 ^ 21 + (M div 2 ^ 12 mod 512) * 2 ^ 12 + M mod 2 ^ 12" by simp
qed

text \<open>The addresses whose indices select the RAM, given the bits above the indices.\<close>

lemma ram_indices:
  assumes "unat va = h * 2 ^ 48 + M" and "M < 2 ^ 48" and "i0 < 512"
  shows "(unat (L0_INDEX va) = i0 \<and> unat (L1_INDEX va) = 1 \<and> unat (L2_INDEX va) < 128) \<longleftrightarrow>
      M div 2 ^ 28 = i0 * 2048 + 4"
    and "unat (L2_INDEX va) < 128 \<Longrightarrow>
      4096 * (unat (L2_INDEX va) * 512 + unat (L3_INDEX va)) + M mod 2 ^ 12 = M mod 2 ^ 28"
proof -
  have shift: "(h * 2 ^ 48 + M) div 2 ^ k mod 512 = M div 2 ^ k mod 512" if "k \<le> 39" for k
  proof -
    have "(2 :: nat) ^ k * 2 ^ (39 - k) = 2 ^ 39" using that by (simp only: flip: power_add) simp
    then have "(2 :: nat) ^ 48 = 2 ^ k * (512 * 2 ^ (39 - k))" by (simp only: mult.left_commute [of _ 512]) simp
    then have e: "h * 2 ^ 48 + M = M + 2 ^ k * (h * 2 ^ (39 - k) * 512)"
      by (simp only: mult.assoc mult.left_commute mult.commute add.commute)
    have "(M + 2 ^ k * (h * 2 ^ (39 - k) * 512)) div 2 ^ k = h * 2 ^ (39 - k) * 512 + M div 2 ^ k"
      by (rule div_mult_self2) simp
    then show ?thesis unfolding e by simp
  qed
  have l0: "M div 2 ^ 39 < 512" by (rule less_mult_imp_div_less) (use assms(2) in simp)
  have "unat (L0_INDEX va) = M div 2 ^ 39 mod 512"
    unfolding index_nat assms(1) by (rule shift) simp
  then have i0: "unat (L0_INDEX va) = M div 2 ^ 39" by (simp only: mod_less [OF l0])
  have i1: "unat (L1_INDEX va) = M div 2 ^ 30 mod 512" unfolding index_nat assms(1) by (rule shift) simp
  have i2: "unat (L2_INDEX va) = M div 2 ^ 21 mod 512" unfolding index_nat assms(1) by (rule shift) simp
  have i3: "unat (L3_INDEX va) = M div 2 ^ 12 mod 512" unfolding index_nat assms(1) by (rule shift) simp
  show "(unat (L0_INDEX va) = i0 \<and> unat (L1_INDEX va) = 1 \<and> unat (L2_INDEX va) < 128) \<longleftrightarrow>
      M div 2 ^ 28 = i0 * 2048 + 4"
  proof -
    have c: "c < 128 \<longleftrightarrow> c div 128 = 0" for c :: nat by (simp add: div_eq_0_iff)
    have "M div 2 ^ 30 mod 512 < 512" by simp
    moreover have "M div 2 ^ 21 mod 512 div 128 < 4" by (rule less_mult_imp_div_less) simp
    ultimately show ?thesis unfolding i0 i1 i2 split_28(1) c by (rule digits_split [symmetric])
  qed
  assume "unat (L2_INDEX va) < 128"
  then have "M div 2 ^ 21 mod 512 mod 128 = M div 2 ^ 21 mod 512" unfolding i2 by (rule mod_less)
  then show "4096 * (unat (L2_INDEX va) * 512 + unat (L3_INDEX va)) + M mod 2 ^ 12 = M mod 2 ^ 28"
    unfolding i2 i3 split_28(2) by (simp only: distrib_left) simp
qed

text \<open>A linear window: the address \<open>base + off\<close> with the RAM at the offsets below 256 MiB.\<close>

lemma boot_window:
  assumes "layout_ok lay" and root: "root = ttbr0_l0_at lay \<and> i0 = 0 \<or> root = ttbr1_l0_at lay \<and> i0 = 256"
    and va: "unat va = h * 2 ^ 48 + M" "M < 2 ^ 48"
  shows "boot_translate lay (init_page_tables lay t) root va =
    (if M div 2 ^ 28 = i0 * 2048 + 4 then Some (PHYS_BASE + of_nat (M mod 2 ^ 28)) else None)"
proof -
  have i0: "i0 < 512" using root by auto
  have m: "0xFFF = (mask 12 :: u64)" by (simp add: mask_eq_decr_exp)
  have "unat (va AND 0xFFF) = M mod 2 ^ 12"
    unfolding m take_bit_eq_mask [symmetric] unat_take_bit_mod va(1)
    using mod_mult_self3 [of "h * 2 ^ 36" "2 ^ 12" M] by (simp add: mult.assoc)
  then have o: "va AND 0xFFF = of_nat (M mod 2 ^ 12)" by (metis of_nat_unat ucast_id)
  have ix: "L0_INDEX va = of_nat i0 \<longleftrightarrow> unat (L0_INDEX va) = i0" "L1_INDEX va = 1 \<longleftrightarrow> unat (L1_INDEX va) = 1"
    "L2_INDEX va < 128 \<longleftrightarrow> unat (L2_INDEX va) < 128"
    using root by (auto simp: word_less_nat_alt word_unat_eq_iff)
  note r = ram_indices [OF va i0]
  have "PHYS_BASE + 4096 * of_nat (unat (L2_INDEX va) * 512 + unat (L3_INDEX va)) + of_nat (M mod 2 ^ 12) =
      PHYS_BASE + of_nat (M mod 2 ^ 28)" if "unat (L2_INDEX va) < 128"
    using arg_cong [OF r(2) [OF that], of "of_nat :: nat \<Rightarrow> u64"] by (simp only: of_nat_add of_nat_mult of_nat_numeral add.assoc)
  then show ?thesis unfolding boot_walk [OF assms(1) refl root] o ix using r(1) by auto
qed

definition demo_layout :: boot_layout where
  "demo_layout = \<lparr>ttbr0_l0_at = 0x40100000, ttbr1_l0_at = 0x40101000, l1_table_at = 0x40102000,
     l2_table_at = 0x40103000, l3_tables_at = 0x40104000\<rparr>"

lemma demo_layout_nth:
  assumes "k < 133"
  shows "boot_addrs demo_layout ! k = pfn_to_pa (256 + k)"
proof -
  have pa: "pfn_to_pa (256 + k) = 0x40100000 + 4096 * of_nat k"
    by (simp add: pfn_to_pa_def layout_simps push_bit_eq_mult algebra_simps)
  consider "k = 0" | "k = 1" | "k = 2" | "k = 3" | i where "k = 4 + i" "i < 129"
  proof (cases "k < 4")
    case True
    then have "k = 0 \<or> k = 1 \<or> k = 2 \<or> k = 3" by linarith
    then show ?thesis using that by blast
  next
    case False
    then show ?thesis using that(5) [of "k - 4"] assms by simp
  qed
  then show ?thesis
    unfolding pa by cases (simp_all only: boot_nth, simp_all add: demo_layout_def sub_table_def distrib_left)
qed

lemma demo_layout_ok: "layout_ok demo_layout"
  unfolding layout_ok_def
proof
  show "distinct (boot_addrs demo_layout)"
    unfolding distinct_conv_nth length_boot
  proof (intro allI impI)
    fix i j :: nat
    assume ij: "i < 133" "j < 133" "i \<noteq> j"
    have "256 + i < TOTAL_PAGES" "256 + j < TOTAL_PAGES" using ij by (simp_all add: layout_simps)
    then have "pfn_to_pa (256 + i) = pfn_to_pa (256 + j) \<Longrightarrow> i = j" using pfn_pa_roundtrip by (metis add_left_cancel)
    then show "boot_addrs demo_layout ! i \<noteq> boot_addrs demo_layout ! j" using ij demo_layout_nth by auto
  qed
  show "\<forall>a \<in> set (boot_addrs demo_layout). a AND ARM64_PTE_ADDR_MASK = a"
  proof
    fix a
    assume "a \<in> set (boot_addrs demo_layout)"
    then obtain k where k: "k < 133" "a = boot_addrs demo_layout ! k" unfolding in_set_conv_nth length_boot by blast
    have "256 + k < TOTAL_PAGES" using k by (simp add: layout_simps)
    then show "a AND ARM64_PTE_ADDR_MASK = a" unfolding k(2) demo_layout_nth [OF k(1)] by (rule pfn_to_pa_masked)
  qed
qed

lemma div_window: "0 < c \<Longrightarrow> (M :: nat) div c = k \<longleftrightarrow> k * c \<le> M \<and> M < k * c + c"
proof
  assume c: "0 < c" and k: "M div c = k"
  show "k * c \<le> M \<and> M < k * c + c" using c div_mult_mod_eq [of M c] mod_less_divisor [OF c, of M] unfolding k by linarith
next
  assume "0 < c" and "k * c \<le> M \<and> M < k * c + c"
  then show "M div c = k" by (intro div_nat_eqI) (simp_all add: mult.commute)
qed

text \<open>The window of an address space half, in terms of the offset from its start.\<close>

lemma boot_window_offset:
  assumes "layout_ok lay" and root: "root = ttbr0_l0_at lay \<and> i0 = 0 \<or> root = ttbr1_l0_at lay \<and> i0 = 256"
    and va: "unat va = h * 2 ^ 48 + M" "M < 2 ^ 48" and base: "unat base = h * 2 ^ 48 + (i0 * 2048 + 4) * 2 ^ 28"
  shows "boot_translate lay (init_page_tables lay t) root va =
    (if va - base < of_nat TOTAL_MEM_SIZE then Some (PHYS_BASE + (va - base)) else None)"
proof -
  let ?k = "i0 * 2048 + 4"
  have "h * 2 ^ 48 < 2 ^ 64" using unsigned_less [of va, where ?'a = nat] va(1) by simp
  then have h: "h < 2 ^ 16" by (simp flip: power_add)
  have room: "unat base + 2 ^ 28 \<le> 2 ^ 64" using root h unfolding base by auto
  have size: "of_nat TOTAL_MEM_SIZE = (2 ^ 28 :: u64)" by (simp add: boot_vals)
  have "va - base < of_nat TOTAL_MEM_SIZE \<longleftrightarrow> unat (va - base) < 2 ^ 28" unfolding size by (simp add: word_less_nat_alt)
  also have "\<dots> \<longleftrightarrow> ?k * 2 ^ 28 \<le> M \<and> M < ?k * 2 ^ 28 + 2 ^ 28"
    unfolding unat_offset [OF room] unfolding base va(1) by linarith
  also have "\<dots> \<longleftrightarrow> M div 2 ^ 28 = ?k" using div_window [of "2 ^ 28" M ?k] by simp
  finally have w: "va - base < of_nat TOTAL_MEM_SIZE \<longleftrightarrow> M div 2 ^ 28 = ?k" .
  have "va - base = of_nat (M mod 2 ^ 28)" if k: "M div 2 ^ 28 = ?k"
  proof -
    have M: "M = ?k * 2 ^ 28 + M mod 2 ^ 28" using div_mult_mod_eq [of M "2 ^ 28"] unfolding k by (rule sym)
    then have "unat va = unat base + M mod 2 ^ 28" unfolding va(1) base by linarith
    then have "va = base + of_nat (M mod 2 ^ 28)" by (metis of_nat_add of_nat_unat ucast_id)
    then show ?thesis by simp
  qed
  then show ?thesis unfolding w boot_window [OF assms(1) root va] by auto
qed

text \<open>C20: after \<^verbatim>\<open>init_page_tables\<close> the MMU translates a kernel address through TTBR1 exactly when it is
  one of the 256 MiB above the kernel's image of the start of RAM, and then to the physical address
  at the same offset.\<close>

theorem boot_kernel_map:
  assumes "layout_ok lay" and "0xFFFF000000000000 \<le> va"
  shows "boot_translate lay (init_page_tables lay t) (get_ttbr1_el1 lay) va =
    (if va - (KERNEL_VIRT_BASE + PHYS_BASE) < of_nat TOTAL_MEM_SIZE
     then Some (PHYS_BASE + (va - (KERNEL_VIRT_BASE + PHYS_BASE))) else None)"
proof (rule boot_window_offset [OF assms(1)])
  have "0xFFFF000000000000 \<le> unat va" using assms(2) by (simp add: word_le_nat_alt)
  then show "unat va = 0xFFFF * 2 ^ 48 + (unat va - 0xFFFF000000000000)" by simp
  show "unat va - 0xFFFF000000000000 < 2 ^ 48" using unsigned_less [of va, where ?'a = nat] by simp
  show "get_ttbr1_el1 lay = ttbr0_l0_at lay \<and> 256 = 0 \<or> get_ttbr1_el1 lay = ttbr1_l0_at lay \<and> (256 :: nat) = 256"
    by (simp add: get_ttbr1_el1_def)
  show "unat (KERNEL_VIRT_BASE + PHYS_BASE) = 0xFFFF * 2 ^ 48 + (256 * 2048 + 4) * 2 ^ 28"
    by (simp add: KERNEL_VIRT_BASE_def PHYS_BASE_def)
qed

definition demo_tables :: boot_tables where
  "demo_tables = \<lparr>ttbr0_l0 = (\<lambda>_ _. 0), ttbr1_l0 = (\<lambda>_ _. 0), l1_table = (\<lambda>_ _. 0), l2_table = (\<lambda>_ _. 0), l3_tables = (\<lambda>_ _. 0)\<rparr>"

theorem boot_kernel_map_witness:
  "boot_translate demo_layout (init_page_tables demo_layout demo_tables) (get_ttbr1_el1 demo_layout) 0xFFFF800045678123 = Some 0x45678123"
  using boot_kernel_map [OF demo_layout_ok, of "0xFFFF800045678123" demo_tables]
  by (simp add: KERNEL_VIRT_BASE_def PHYS_BASE_def boot_vals)

text \<open>Through TTBR0 the boot tables translate an address below 2 to the 48 exactly when it lies in
  RAM, and then to itself: the code that turns the MMU on keeps running.\<close>

theorem boot_identity_map:
  assumes "layout_ok lay" and "va < 0x1000000000000"
  shows "boot_translate lay (init_page_tables lay t) (get_ttbr0_el1 lay) va =
    (if va - PHYS_BASE < of_nat TOTAL_MEM_SIZE then Some va else None)"
proof -
  have "boot_translate lay (init_page_tables lay t) (get_ttbr0_el1 lay) va =
      (if va - PHYS_BASE < of_nat TOTAL_MEM_SIZE then Some (PHYS_BASE + (va - PHYS_BASE)) else None)"
  proof (rule boot_window_offset [OF assms(1)])
    show "unat va = 0 * 2 ^ 48 + unat va" by simp
    show "unat va < 2 ^ 48" using assms(2) by (simp add: word_less_nat_alt)
    show "get_ttbr0_el1 lay = ttbr0_l0_at lay \<and> 0 = (0 :: nat) \<or> get_ttbr0_el1 lay = ttbr1_l0_at lay \<and> 0 = (256 :: nat)"
      by (simp add: get_ttbr0_el1_def)
    show "unat PHYS_BASE = 0 * 2 ^ 48 + (0 * 2048 + 4) * 2 ^ 28" by (simp add: PHYS_BASE_def)
  qed
  then show ?thesis by simp
qed

theorem boot_identity_map_witness:
  "boot_translate demo_layout (init_page_tables demo_layout demo_tables) (get_ttbr0_el1 demo_layout) 0x40080000 = Some 0x40080000"
  using boot_identity_map [OF demo_layout_ok, of "0x40080000" demo_tables] by (simp add: PHYS_BASE_def boot_vals)

text \<open>The registers the boot code programs before the MMU is on are those the kernel writes again
  later: the same memory attributes, translation control and system control.\<close>

theorem boot_registers_agree:
  "get_tcr_el1 = tcr_el1 (set_tcr_el1 s) \<and> get_mair_el1 = mair_el1 (set_mair_el1 s) \<and>
   get_sctlr_el1 = sctlr_el1 (set_sctlr_el1 s)"
  by (simp add: get_tcr_el1_def tcr_value get_mair_el1_def set_mair_el1_def get_sctlr_el1_def sctlr_value)

end
