(* ===== verification/Spec2Isabelle.thy ===== *)
theory Spec2Isabelle
  imports Fault_Properties Timer_Properties Vmap_Properties Mm_Properties Irq_Properties Libc Printk Sync Boot
begin

text \<open>
  Verification of the C part of the myos-arm64 kernel.

  \<^bold>\<open>The program.\<close> A kernel for one ARMv8 machine (QEMU virt). The boot code builds static page tables
  and turns the MMU on (\<^verbatim>\<open>arch/arm64/boot/bootc.c\<close>). \<^verbatim>\<open>kernel/main.c\<close> then starts the managers of
  memory from the bottom up: the buddy allocator of physical pages, the slab allocator behind
  \<^verbatim>\<open>kmalloc\<close>, the allocator of kernel virtual addresses with \<^verbatim>\<open>vmalloc\<close>, \<^verbatim>\<open>ioremap\<close> and coherent DMA on
  top of it, and after that the UART, the interrupt controller and the timer. Process address spaces,
  page faults and system calls on memory are C; the scheduler, the file system and the system call
  table are Rust and call the C functions.

  \<^bold>\<open>State.\<close> One record grows along this order. \<^verbatim>\<open>pmm\<close> (Buddy) holds \<^verbatim>\<open>mem_map\<close>, the heap of list nodes
  and the globals of \<^verbatim>\<open>pmm.c\<close>; \<^verbatim>\<open>kmem\<close> (Machine) adds the memory as 64-bit words at aligned addresses,
  the translation registers and the globals of \<^verbatim>\<open>mmu.c\<close>; \<^verbatim>\<open>kslab\<close> (Slab) the caches and pools of
  \<^verbatim>\<open>slab.c\<close>; the records of Vmap, Vmalloc, Mm and Uart add theirs, with \<^verbatim>\<open>kdev\<close> the largest.
  Operations are polymorphic in what lies above them, so each is proved once and used at every
  level. A C pointer is a \<^verbatim>\<open>64 word\<close>; unsigned arithmetic is word arithmetic and wraps; a struct in
  allocated memory is either a record at its address or, where the code depends on the memory
  being shared (free lists in slab objects, timers, areas read after \<^verbatim>\<open>kfree\<close>), the words there.

  \<^bold>\<open>Theories.\<close>
  \<^item> Kernel_Prelude: integer types, bit and alignment lemmas, the loops that compute an order.
  \<^item> Linked_List: \<^verbatim>\<open>include/ds/list.h\<close> on a heap of next and prev pointers. The locale
    \<open>intrusive_list\<close> is the contract, with the frame of every operation; its interpretation on the
    list operations serves the free lists of the buddy allocator.
  \<^item> Buddy, Buddy_Invariant, Buddy_Correct, Buddy_Canonical, Buddy_Init, Buddy_Properties:
    \<^verbatim>\<open>kernel/pmm.c\<close>. Free and allocated blocks are read off the page flags; the invariant says that
    the free lists hold the free blocks, that blocks tile the managed region and that no two free
    buddies remain. Allocation, release, reference counts and counters are characterised on every
    branch, and the free lists are shown to depend on the allocated blocks alone.
  \<^item> Machine, Page_Table, Page_Table_Correct, Page_Table_Properties, Data_Pages: \<^verbatim>\<open>kernel/mmu.c\<close>,
    \<^verbatim>\<open>kernel/pgtbl.c\<close>. \<open>walk\<close> follows a path of entries; well-formedness says that table pages are
    allocated and that no table is reached by two paths. Mapping and unmapping change one
    translation and nothing else; data pages keep their contents.
  \<^item> Slab, Slab_Invariant, Slab_Correct, Slab_Properties, Slab_Client: \<^verbatim>\<open>kernel/slab.c\<close>. The locale
    \<open>page_provider\<close> is what the slab allocator needs of the page allocator, interpreted on
    \<^verbatim>\<open>alloc_phys_pages\<close> and \<^verbatim>\<open>free_phys_pages\<close>. Live blocks are disjoint, free lists stay inside their
    pages, and clients write to their blocks without breaking the allocator.
  \<^item> RBtree, RBtree_Correct, RBtree_Insert, RBtree_Properties, RBtree_Delete: \<^verbatim>\<open>kernel/ds/rbtree.c\<close>. A heap
    represents a binary tree; a position is a tree and the frames above it. Insertion refines
    insertion into a sorted list, deletion takes one node out, and both keep colours and black heights.
  \<^item> Vmap, Vmap_Correct, Vmap_Properties: \<^verbatim>\<open>kernel/vmap.c\<close> on top of the slab allocator, the lists and
    the tree. Free and busy areas are disjoint pieces of the region, the free ones in both the list in
    order of address and the tree in order of size. Best fit, split, merge and release are proved on
    every branch for alignments up to a page. The locale \<open>range_allocator\<close> is what callers rely
    on, interpreted on \<^verbatim>\<open>va_alloc\<close> and \<^verbatim>\<open>va_free\<close>: over any sequence of calls the ranges held never overlap.
  \<^item> Vmalloc: \<^verbatim>\<open>kernel/vmalloc.c\<close>.
  \<^item> Mm, Fault_Properties: \<^verbatim>\<open>kernel/mm.c\<close>, \<^verbatim>\<open>brk.c\<close>, \<^verbatim>\<open>sys_mm.c\<close>, \<^verbatim>\<open>page_fault.c\<close>; a page fault gives the
    process a cleared page or a private copy, or sends a signal and changes no table. Mm_Properties:
    an address space is the ordered list of its areas on blocks of the slab allocator; creating, finding
    and removing an area, copying and destroying refine the operations on that list and touch no other
    address space.
  \<^item> Libc, Printk: \<^verbatim>\<open>kernel/libc.c\<close> and \<^verbatim>\<open>kernel/printk.c\<close> on a byte memory.
  \<^item> Spinlock, Sync: the ticket lock, instruction by instruction, and \<^verbatim>\<open>kernel/sync\<close>, as step
    relations; the locale \<open>fair_lock\<close> gives exclusion and order from a queue of owners and is
    interpreted on the lock.
  \<^item> Boot: \<^verbatim>\<open>bootc.c\<close>. Uart: \<^verbatim>\<open>driver/uart.c\<close>. Irq, Irq_Properties: \<^verbatim>\<open>driver/gic.c\<close>, \<^verbatim>\<open>exception/handler.c\<close>;
    a registered handler gets exactly its interrupts. Timer,
    Timer_Properties: \<^verbatim>\<open>driver/timer.c\<close> and the tick handler of \<^verbatim>\<open>main.c\<close>; the timer list is the list of
    pending timers in order of expiry.

  \<^bold>\<open>Loops.\<close> A loop over an index range is a fold or a structural recursion. A loop over pointers, a
  device register or a string is a partial function with values in \<open>option\<close>: \<open>None\<close> means that the
  loop does not end, and every theorem on such an operation states that it returns \<open>Some\<close>. The
  list of the pages of a slab cache is walked with fuel \<open>MAX_SLAB_PAGES + 1\<close>; the pages are taken
  from a pool of \<open>MAX_SLAB_PAGES\<close> descriptors and occur once, so the fuel is never used up.

  \<^bold>\<open>Parameters.\<close> The functions of the Rust kernel and of libfdt that the C code calls, callbacks given
  as function pointers, the values devices return, the addresses the linker chooses (the end of the
  kernel, the boot tables, string literals) are arguments of the definitions that use them.

  \<^bold>\<open>Not modelled.\<close> The Rust kernel (\<^verbatim>\<open>rust/\<close>) and assembly (\<^verbatim>\<open>boot.S\<close>, the exception vectors), which are
  other languages, except the inline assembly of the spinlock, the atomics and the register accesses;
  the CMSIS headers, templates and tests under \<^verbatim>\<open>arch/arm64/Core\<close> and \<^verbatim>\<open>arch/arm64/device\<close> and libfdt
  (\<^verbatim>\<open>driver/fdt\<close>), which are vendored; the self-tests of \<^verbatim>\<open>main.c\<close>, which only call modelled operations
  and print; \<^verbatim>\<open>tlb.c\<close> and \<^verbatim>\<open>rcupdate.c\<close>, which are barrier and TLB instructions without an effect on the
  modelled state. Concurrency is modelled in Spinlock and Sync; elsewhere the operations are atomic,
  as the locks they take make them.
\<close>

end
